(* ===== verification/Prelude.thy ===== *)
theory Prelude
  imports Main "HOL-Library.Word" "HOL-Library.Monad_Syntax"
begin

text \<open>
  Shared vocabulary of the development: the C++ integer types as words, spans and vectors
  as lists with checked access, and the generic facts on options, words and cyclic index
  arithmetic that every component uses.

  Reads the C++ program would have to get right by itself are modelled as partial: an index
  past the end of a span or a vector is undefined behaviour there, and is \<^const>\<open>None\<close> here.
  A definition of type \<open>'a option\<close> thus returns \<^const>\<open>None\<close> exactly when the code would leave
  the buffer (or, where the text says so, would not return), and a theorem that it returns
  \<^const>\<open>Some\<close> is a theorem that the code stays inside its buffers.
\<close>

unbundle bit_operations_syntax

type_synonym u8 = "8 word"
type_synonym u16 = "16 word"
type_synonym u32 = "32 word"
type_synonym u64 = "64 word"

type_synonym bytes = "u8 list"

named_theorems span_simps \<open>rewrites of checked accesses whose bounds are known\<close>
named_theorems word_reads \<open>natural-number readings of assembled and masked words\<close>

subsection \<open>Checked access to spans and vectors\<close>

definition at_index :: "'a list \<Rightarrow> nat \<Rightarrow> 'a option" where
  "at_index xs i = (if i < length xs then Some (xs ! i) else None)"

definition subspan :: "'a list \<Rightarrow> nat \<Rightarrow> nat \<Rightarrow> 'a list option" where
  "subspan xs off n = (if off + n \<le> length xs then Some (take n (drop off xs)) else None)"

definition subspan_from :: "'a list \<Rightarrow> nat \<Rightarrow> 'a list option" where
  "subspan_from xs off = (if off \<le> length xs then Some (drop off xs) else None)"

definition store_at :: "'a list \<Rightarrow> nat \<Rightarrow> 'a \<Rightarrow> 'a list option" where
  "store_at xs i v = (if i < length xs then Some (xs[i := v]) else None)"

lemma at_index_in [span_simps]: "i < length xs \<Longrightarrow> at_index xs i = Some (xs ! i)"
  by (simp add: at_index_def)

lemma at_index_eq_Some_conv: "at_index xs i = Some v \<longleftrightarrow> i < length xs \<and> xs ! i = v"
  by (auto simp: at_index_def)

lemma subspan_in [span_simps]: "off + n \<le> length xs \<Longrightarrow> subspan xs off n = Some (take n (drop off xs))"
  by (simp add: subspan_def)

lemma subspan_eq_Some_conv:
  "subspan xs off n = Some ys \<longleftrightarrow> off + n \<le> length xs \<and> ys = take n (drop off xs)"
  by (auto simp: subspan_def)

lemma subspan_from_in [span_simps]: "off \<le> length xs \<Longrightarrow> subspan_from xs off = Some (drop off xs)"
  by (simp add: subspan_from_def)

lemma subspan_from_eq_Some_conv:
  "subspan_from xs off = Some ys \<longleftrightarrow> off \<le> length xs \<and> ys = drop off xs"
  by (auto simp: subspan_from_def)

lemma store_at_in [span_simps]: "i < length xs \<Longrightarrow> store_at xs i v = Some (xs[i := v])"
  by (simp add: store_at_def)

lemma store_at_eq_Some_conv:
  "store_at xs i v = Some ys \<longleftrightarrow> i < length xs \<and> ys = xs[i := v]"
  by (auto simp: store_at_def)

lemmas span_convs =
  at_index_eq_Some_conv subspan_eq_Some_conv subspan_from_eq_Some_conv store_at_eq_Some_conv

text \<open>A view of a view is a view of the whole, at the sum of the offsets.\<close>

lemma take_drop_compose:
  "n \<le> m - off \<Longrightarrow> take n (drop off (take m (drop k xs))) = take n (drop (k + off) xs)"
  by (simp add: drop_take min_def add.commute)

subsection \<open>Words assembled from bytes\<close>

lemma nat_or_disjoint:
  fixes x y :: nat
  assumes "y < 2 ^ n"
  shows "x * 2 ^ n OR y = x * 2 ^ n + y"
proof -
  have "\<not> bit y m" if "n \<le> m" for m
    using assms that
    by (metis bit_take_bit_iff linorder_not_less take_bit_nat_eq_self_iff)
  then have "push_bit n x OR y = push_bit n x + y"
    by (intro disjunctive_add [symmetric]) (auto simp: bit_push_bit_iff not_le)
  then show ?thesis by (simp add: push_bit_nat_def)
qed

lemma unat_push_or:
  fixes x y :: "'a::len word"
  assumes "unat y < 2 ^ n" and "unat x * 2 ^ n < 2 ^ LENGTH('a)"
  shows "unat (push_bit n x OR y) = unat x * 2 ^ n + unat y"
proof -
  have "unat (push_bit n x) = unat x * 2 ^ n"
    using assms(2) by (simp add: unsigned_push_bit_eq push_bit_nat_def take_bit_nat_eq_self)
  then show ?thesis
    by (simp add: unsigned_or_eq nat_or_disjoint assms(1))
qed

subsection \<open>Word arithmetic that does not wrap\<close>

lemma unat_of_nat_less: "n < 2 ^ LENGTH('a) \<Longrightarrow> unat (of_nat n :: 'a::len word) = n"
  by (simp add: unat_of_nat)

lemma unat_add_less: "unat x + unat y < 2 ^ LENGTH('a) \<Longrightarrow> unat (x + y) = unat x + unat (y :: 'a::len word)"
  by (simp add: unat_word_ariths)

lemma unat_add_one: "Suc (unat x) < 2 ^ LENGTH('a) \<Longrightarrow> unat (x + 1) = Suc (unat (x :: 'a::len word))"
  by (simp add: unat_word_ariths)

lemma unat_ucast_up:
  "LENGTH('a) \<le> LENGTH('b) \<Longrightarrow> unat (ucast (x :: 'a::len word) :: 'b::len word) = unat x"
  by (simp add: unsigned_ucast_eq take_bit_nat_eq_self_iff)
     (meson order_less_le_trans one_le_numeral power_increasing unsigned_less)

lemma ucast_ucast_up:
  "LENGTH('a) \<le> LENGTH('b) \<Longrightarrow> ucast (ucast (x :: 'a::len word) :: 'b::len word) = x"
  by (rule bit_word_eqI) (simp add: bit_unsigned_iff bit_imp_le_length)

lemma of_nat_diff_word:
  assumes "b \<le> a" "a - b < 2 ^ LENGTH('a)"
  shows "unat (of_nat a - of_nat b :: 'a::len word) = a - b"
  using assms by (simp add: of_nat_diff [symmetric] unat_of_nat_less del: of_nat_diff)

subsection \<open>Powers of two\<close>

text \<open>\<^verbatim>\<open>std::has_single_bit\<close> and \<^verbatim>\<open>std::bit_ceil\<close> of the standard library.\<close>

fun popcount :: "nat \<Rightarrow> nat" where
  "popcount n = (if n = 0 then 0 else n mod 2 + popcount (n div 2))"

fun bit_width :: "nat \<Rightarrow> nat" where
  "bit_width n = (if n = 0 then 0 else Suc (bit_width (n div 2)))"

declare popcount.simps [simp del] bit_width.simps [simp del]

definition has_single_bit :: "nat \<Rightarrow> bool" where
  "has_single_bit n \<longleftrightarrow> popcount n = 1"

definition bit_ceil :: "nat \<Rightarrow> nat" where
  "bit_ceil n = (if n \<le> 1 then 1 else 2 ^ bit_width (n - 1))"

lemma popcount_0_iff: "popcount n = 0 \<longleftrightarrow> n = 0"
proof (induction n rule: popcount.induct)
  case (1 n)
  then show ?case by (cases "n = 0") (auto simp: popcount.simps [of n] popcount.simps [of 0])
qed

lemma has_single_bit_power: "has_single_bit n \<Longrightarrow> \<exists>k. n = 2 ^ k"
  unfolding has_single_bit_def
proof (induction n rule: popcount.induct)
  case (1 n)
  then have n: "n \<noteq> 0" "n mod 2 + popcount (n div 2) = 1" by (auto simp: popcount.simps [of n] split: if_splits)
  show ?case
  proof (cases "n mod 2 = 0")
    case True
    then obtain k where "n div 2 = 2 ^ k" using 1 n by auto
    then have "n = 2 ^ Suc k" using True by auto
    then show ?thesis by blast
  next
    case False
    then have "n div 2 = 0" using n popcount_0_iff [of "n div 2"] by simp
    then have "n = 2 ^ 0" using n by simp
    then show ?thesis by blast
  qed
qed

lemma bit_width_bounds: "n < 2 ^ bit_width n \<and> (n \<noteq> 0 \<longrightarrow> 2 ^ bit_width n \<le> 2 * n)"
proof (induction n rule: bit_width.induct)
  case (1 n)
  show ?case
  proof (cases "n = 0")
    case False
    then have "n div 2 < 2 ^ bit_width (n div 2)" "n div 2 \<noteq> 0 \<Longrightarrow> 2 ^ bit_width (n div 2) \<le> 2 * (n div 2)"
      using 1 by auto
    then show ?thesis using False by (cases "n div 2 = 0") (auto simp: bit_width.simps [of n] bit_width.simps [of 0])
  qed (simp add: bit_width.simps)
qed

text \<open>Rounding up gives the power of two in \<open>[v, 2 v)\<close>.\<close>

lemma bit_ceil_bounds: "1 \<le> v \<Longrightarrow> v \<le> bit_ceil v \<and> bit_ceil v < 2 * v"
  using bit_width_bounds [of "v - 1"] by (auto simp: bit_ceil_def)

lemma bit_ceil_power: "\<exists>k. bit_ceil v = 2 ^ k"
  by (metis bit_ceil_def power_0)

text \<open>Masking a free-running counter of a word by a power of two minus one.\<close>

lemma unat_and_mask:
  assumes "m < LENGTH('a)"
  shows "unat (x AND (2 ^ m - 1) :: 'a::len word) = unat x mod 2 ^ m"
proof -
  have "x AND (2 ^ m - 1) = take_bit m x" by (simp add: take_bit_eq_mask mask_eq_exp_minus_1)
  moreover have "unat (take_bit m x) = unat x mod 2 ^ m"
    by (simp only: unsigned_take_bit_eq take_bit_eq_mod [of m "unat x"])
  ultimately show ?thesis by simp
qed

lemma unat_of_nat_and_mask:
  assumes "m < LENGTH('a)"
  shows "unat (of_nat k AND (2 ^ m - 1) :: 'a::len word) = k mod 2 ^ m"
proof -
  have "(2 :: nat) ^ m dvd 2 ^ LENGTH('a)" using assms by (simp add: le_imp_power_dvd)
  then show ?thesis using assms by (simp add: unat_and_mask unat_of_nat mod_mod_cancel)
qed

text \<open>Two counters less than \<open>n\<close> apart index the same slot only if they are equal.\<close>

lemma mod_inj_window: "a mod n = b mod n \<Longrightarrow> a \<le> b \<Longrightarrow> b < a + n \<Longrightarrow> a = (b :: nat)"
  by (metis add.commute le_add_diff_inverse less_diff_conv2 mod_eq_dvd_iff_nat nat_dvd_not_less
      neq0_conv add_0 )

subsection \<open>Cyclic positions\<close>

definition cdist :: "nat \<Rightarrow> nat \<Rightarrow> nat \<Rightarrow> nat" where
  "cdist n a b = (if a \<le> b then b - a else b + n - a)"

definition cnext :: "nat \<Rightarrow> nat \<Rightarrow> nat" where
  "cnext n p = (if p + 1 = n then 0 else p + 1)"

lemma cdist_less: "a < n \<Longrightarrow> b < n \<Longrightarrow> cdist n a b < n"
  by (auto simp: cdist_def)

lemma cnext_less: "p < n \<Longrightarrow> cnext n p < n"
  by (auto simp: cnext_def)

lemma cdist_cnext: "a < n \<Longrightarrow> p < n \<Longrightarrow> Suc (cdist n a p) < n \<Longrightarrow> cdist n a (cnext n p) = Suc (cdist n a p)"
  by (auto simp: cdist_def cnext_def split: if_splits)

lemma cdist_inj: "a < n \<Longrightarrow> p < n \<Longrightarrow> q < n \<Longrightarrow> cdist n a p = cdist n a q \<Longrightarrow> p = q"
  by (auto simp: cdist_def split: if_splits)

lemma cdist_eq_0: "a < n \<Longrightarrow> p < n \<Longrightarrow> cdist n a p = 0 \<longleftrightarrow> p = a"
  by (auto simp: cdist_def)

lemma power_dvd_word_size: "k \<le> 63 \<Longrightarrow> (2 :: nat) ^ k dvd 2 ^ 64"
  by (rule le_imp_power_dvd) simp

lemma word_cnext:
  fixes idx :: u64
  assumes "unat idx < 2 ^ k" "k \<le> 63"
  shows "unat ((idx + 1) AND (2 ^ k - 1)) = cnext (2 ^ k) (unat idx)"
proof -
  have "(2 :: nat) ^ k \<le> 2 ^ 63" using assms(2) by (rule power_increasing) simp
  then have "unat (idx + 1) = unat idx + 1" using assms(1) by (subst unat_add_one) auto
  moreover have "unat ((idx + 1) AND (2 ^ k - 1)) = unat (idx + 1) mod 2 ^ k"
    using assms(2) by (intro unat_and_mask) simp
  ultimately show ?thesis using assms(1) by (auto simp: cnext_def mod_less)
qed

lemma word_cdist:
  fixes a b :: u64
  assumes "unat a < 2 ^ k" "unat b < 2 ^ k" "k \<le> 63"
  shows "unat ((b - a) AND (2 ^ k - 1)) = cdist (2 ^ k) (unat a) (unat b)"
proof -
  obtain q where q: "(2 :: nat) ^ 64 = 2 ^ k * q" using power_dvd_word_size [OF assms(3)] by (auto simp: dvd_def)
  have m: "unat ((b - a) AND (2 ^ k - 1)) = unat (b - a) mod 2 ^ k"
    using assms(3) by (intro unat_and_mask) simp
  show ?thesis
  proof (cases "unat a \<le> unat b")
    case True
    then have "unat (b - a) = unat b - unat a" by (intro unat_sub) (simp add: word_le_nat_alt)
    then show ?thesis using True assms(2) m by (simp add: cdist_def)
  next
    case False
    have "unat (b - a) = (unat b + 2 ^ 64 - unat a) mod 2 ^ 64"
      using unat_sub_if_size [of b a] False unsigned_less [of a] by (simp add: word_size)
    then have "unat (b - a) mod 2 ^ k = (unat b + 2 ^ 64 - unat a) mod 2 ^ k"
      using power_dvd_word_size [OF assms(3)] by (simp add: mod_mod_cancel)
    moreover have "q \<noteq> 0" using q by (cases q) auto
    then have "unat b + 2 ^ 64 - unat a = (unat b + 2 ^ k - unat a) + 2 ^ k * (q - 1)"
      using q assms(1) by (cases q) auto
    then have "(unat b + 2 ^ 64 - unat a) mod 2 ^ k = (unat b + 2 ^ k - unat a) mod 2 ^ k"
      by (metis mod_mult_self2)
    ultimately show ?thesis using False m assms(1,2) by (simp add: cdist_def)
  qed
qed

end
