(* ===== verification/Byte_Order.thy ===== *)
theory Byte_Order
  imports Prelude
begin

text \<open>
  \<^verbatim>\<open>include/gtpm/byte_order.hpp\<close>: endian-safe scalar loads and stores.

  A pointer into a buffer is a buffer and an offset, so a load is checked against the end of
  the buffer. The C++ loads copy the bytes into an integer of the host and swap them when
  \<^verbatim>\<open>std::endian::native\<close> asks for it; the model keeps the host's byte order as an explicit
  argument (\<open>load_be16_on\<close> and its kin), and the lemmas show that the loaded value does not
  depend on it. The parsers use the loads of a little-endian host, the one the program is
  built for.
\<close>

subsection \<open>The host's representation of integers\<close>

datatype endian = Little_Endian | Big_Endian

text \<open>The value of a byte sequence, most and least significant byte first.\<close>

definition be_val :: "bytes \<Rightarrow> 'a::len word" where
  "be_val bs = foldl (\<lambda>v b. push_bit 8 v OR ucast b) 0 bs"

definition le_val :: "bytes \<Rightarrow> 'a::len word" where
  "le_val bs = foldr (\<lambda>b v. push_bit 8 v OR ucast b) bs 0"

text \<open>\<^verbatim>\<open>std::memcpy\<close> of the bytes at a pointer into an integer of the host.\<close>

definition memcpy_word :: "endian \<Rightarrow> bytes \<Rightarrow> 'a::len word" where
  "memcpy_word e bs = (case e of Little_Endian \<Rightarrow> le_val bs | Big_Endian \<Rightarrow> be_val bs)"

text \<open>The \<open>n\<close> bytes of an integer, least significant first, and \<^verbatim>\<open>__builtin_bswap\<close>.\<close>

definition word_bytes :: "nat \<Rightarrow> 'a::len word \<Rightarrow> bytes" where
  "word_bytes n v = map (\<lambda>i. ucast (drop_bit (8 * i) v)) [0..<n]"

definition bswap :: "nat \<Rightarrow> 'a::len word \<Rightarrow> 'a word" where
  "bswap n v = be_val (word_bytes n v)"

subsection \<open>Loads\<close>

definition native_endian :: endian where
  "native_endian = Little_Endian"

definition load_u8 :: "bytes \<Rightarrow> nat \<Rightarrow> u8 option" where
  "load_u8 p i = at_index p i"

definition load_be16_on :: "endian \<Rightarrow> bytes \<Rightarrow> nat \<Rightarrow> u16 option" where
  "load_be16_on e p i = do {
     raw \<leftarrow> subspan p i 2;
     let v = (memcpy_word e raw :: u16);
     Some (if e = Little_Endian then drop_bit 8 v OR push_bit 8 v else v) }"

definition load_be24 :: "bytes \<Rightarrow> nat \<Rightarrow> u32 option" where
  "load_be24 p i = do {
     b0 \<leftarrow> at_index p i; b1 \<leftarrow> at_index p (i + 1); b2 \<leftarrow> at_index p (i + 2);
     Some (push_bit 16 (ucast b0) OR push_bit 8 (ucast b1) OR ucast b2) }"

definition load_be32_on :: "endian \<Rightarrow> bytes \<Rightarrow> nat \<Rightarrow> u32 option" where
  "load_be32_on e p i = do {
     raw \<leftarrow> subspan p i 4;
     let v = (memcpy_word e raw :: u32);
     Some (if e = Little_Endian then bswap 4 v else v) }"

definition load_be64_on :: "endian \<Rightarrow> bytes \<Rightarrow> nat \<Rightarrow> u64 option" where
  "load_be64_on e p i = do {
     raw \<leftarrow> subspan p i 8;
     let v = (memcpy_word e raw :: u64);
     Some (if e = Little_Endian then bswap 8 v else v) }"

definition load_le16_on :: "endian \<Rightarrow> bytes \<Rightarrow> nat \<Rightarrow> u16 option" where
  "load_le16_on e p i = do {
     raw \<leftarrow> subspan p i 2;
     let v = (memcpy_word e raw :: u16);
     Some (if e = Big_Endian then drop_bit 8 v OR push_bit 8 v else v) }"

definition load_le32_on :: "endian \<Rightarrow> bytes \<Rightarrow> nat \<Rightarrow> u32 option" where
  "load_le32_on e p i = do {
     raw \<leftarrow> subspan p i 4;
     let v = (memcpy_word e raw :: u32);
     Some (if e = Big_Endian then bswap 4 v else v) }"

abbreviation load_be16 :: "bytes \<Rightarrow> nat \<Rightarrow> u16 option" where
  "load_be16 \<equiv> load_be16_on native_endian"

abbreviation load_be32 :: "bytes \<Rightarrow> nat \<Rightarrow> u32 option" where
  "load_be32 \<equiv> load_be32_on native_endian"

abbreviation load_be64 :: "bytes \<Rightarrow> nat \<Rightarrow> u64 option" where
  "load_be64 \<equiv> load_be64_on native_endian"

abbreviation load_le16 :: "bytes \<Rightarrow> nat \<Rightarrow> u16 option" where
  "load_le16 \<equiv> load_le16_on native_endian"

abbreviation load_le32 :: "bytes \<Rightarrow> nat \<Rightarrow> u32 option" where
  "load_le32 \<equiv> load_le32_on native_endian"

subsection \<open>Stores\<close>

definition store_be16 :: "bytes \<Rightarrow> nat \<Rightarrow> u16 \<Rightarrow> bytes option" where
  "store_be16 p i v = do {
     p \<leftarrow> store_at p i (ucast (drop_bit 8 v));
     store_at p (i + 1) (ucast v) }"

definition store_be24 :: "bytes \<Rightarrow> nat \<Rightarrow> u32 \<Rightarrow> bytes option" where
  "store_be24 p i v = do {
     p \<leftarrow> store_at p i (ucast (drop_bit 16 v));
     p \<leftarrow> store_at p (i + 1) (ucast (drop_bit 8 v));
     store_at p (i + 2) (ucast v) }"

definition store_be32 :: "bytes \<Rightarrow> nat \<Rightarrow> u32 \<Rightarrow> bytes option" where
  "store_be32 p i v = do {
     p \<leftarrow> store_at p i (ucast (drop_bit 24 v));
     p \<leftarrow> store_at p (i + 1) (ucast (drop_bit 16 v));
     p \<leftarrow> store_at p (i + 2) (ucast (drop_bit 8 v));
     store_at p (i + 3) (ucast v) }"

definition store_le16 :: "bytes \<Rightarrow> nat \<Rightarrow> u16 \<Rightarrow> bytes option" where
  "store_le16 p i v = do {
     p \<leftarrow> store_at p i (ucast v);
     store_at p (i + 1) (ucast (drop_bit 8 v)) }"

definition store_le32 :: "bytes \<Rightarrow> nat \<Rightarrow> u32 \<Rightarrow> bytes option" where
  "store_le32 p i v = do {
     p \<leftarrow> store_at p i (ucast v);
     p \<leftarrow> store_at p (i + 1) (ucast (drop_bit 8 v));
     p \<leftarrow> store_at p (i + 2) (ucast (drop_bit 16 v));
     store_at p (i + 3) (ucast (drop_bit 24 v)) }"

subsection \<open>Values of byte sequences\<close>

lemma be_val_Nil [simp]: "be_val [] = 0"
  by (simp add: be_val_def)

lemma be_val_snoc: "be_val (bs @ [b]) = push_bit 8 (be_val bs) OR ucast b"
  by (simp add: be_val_def)

lemma le_val_Nil [simp]: "le_val [] = 0"
  by (simp add: le_val_def)

lemma le_val_Cons: "le_val (b # bs) = push_bit 8 (le_val bs) OR ucast b"
  by (simp add: le_val_def)

lemma le_val_rev: "le_val bs = be_val (rev bs)"
  by (induction bs) (simp_all add: le_val_Cons be_val_snoc)

lemma unat_u8_less: "unat (b::u8) < 256"
  using unsigned_less [of b] by simp

lemma unat_ucast_u8:
  assumes "8 \<le> LENGTH('a)"
  shows "unat (ucast (b::u8) :: 'a::len word) = unat b"
proof -
  have "(2::nat) ^ 8 \<le> 2 ^ LENGTH('a)" using assms by (intro power_increasing) simp_all
  then have "unat b < 2 ^ LENGTH('a)" using unat_u8_less [of b] by simp
  then show ?thesis by (simp add: unsigned_ucast_eq take_bit_nat_eq_self_iff)
qed

text \<open>The natural number a big-endian byte sequence denotes.\<close>

fun be_nat :: "bytes \<Rightarrow> nat \<Rightarrow> nat" where
  "be_nat [] acc = acc"
| "be_nat (b # bs) acc = be_nat bs (acc * 256 + unat b)"

lemma be_nat_snoc: "be_nat (bs @ [b]) acc = be_nat bs acc * 256 + unat b"
  by (induction bs arbitrary: acc) simp_all

lemma be_nat_bound: "be_nat bs 0 < 256 ^ length bs"
proof (induction bs rule: rev_induct)
  case Nil
  then show ?case by simp
next
  case (snoc b bs)
  have "unat b < 256" by (rule unat_u8_less)
  moreover have "Suc (be_nat bs 0) * 256 \<le> 256 ^ length bs * 256"
    using snoc by (intro mult_le_mono1) simp
  ultimately show ?case by (simp add: be_nat_snoc mult.commute)
qed

lemma unat_be_val:
  assumes "8 * length bs \<le> LENGTH('a)"
  shows "unat (be_val bs :: 'a::len word) = be_nat bs 0"
  using assms
proof (induction bs rule: rev_induct)
  case Nil
  then show ?case by simp
next
  case (snoc b bs)
  then have ih: "unat (be_val bs :: 'a word) = be_nat bs 0" by simp
  have b: "unat b < 256" by (rule unat_u8_less)
  have "(256::nat) ^ Suc (length bs) = 2 ^ (8 * Suc (length bs))"
    by (subst power_mult) simp
  also have "\<dots> \<le> 2 ^ LENGTH('a)"
    using snoc.prems by (intro power_increasing) simp_all
  finally have le: "(256::nat) ^ Suc (length bs) \<le> 2 ^ LENGTH('a)" .
  have "be_nat bs 0 * 256 < 256 ^ Suc (length bs)"
    using be_nat_bound [of bs] by simp
  with le have x: "unat (be_val bs :: 'a word) * 2 ^ 8 < 2 ^ LENGTH('a)"
    by (simp add: ih)
  have "unat (ucast b :: 'a word) = unat b"
    using snoc.prems by (intro unat_ucast_u8) simp
  with b have "unat (ucast b :: 'a word) < 2 ^ 8" by simp
  from unat_push_or [OF this x] show ?case
    using \<open>unat (ucast b :: 'a word) = unat b\<close> by (simp add: be_val_snoc ih be_nat_snoc)
qed

lemma unat_le_val_Cons:
  assumes "8 * Suc (length bs) \<le> LENGTH('a)"
  shows "unat (le_val (b # bs) :: 'a::len word) = unat (le_val bs :: 'a word) * 256 + unat b"
  using assms by (simp add: le_val_rev unat_be_val be_nat_snoc)

lemma word_bytes_Suc:
  "word_bytes (Suc n) v = ucast v # word_bytes n (drop_bit 8 v)"
  by (simp add: word_bytes_def upt_conv_Cons map_Suc_upt [symmetric] del: upt_Suc)
     (simp add: o_def drop_bit_drop_bit add.commute)

lemma word_bytes_le_val:
  assumes "8 * length bs \<le> LENGTH('a)"
  shows "word_bytes (length bs) (le_val bs :: 'a::len word) = bs"
  using assms
proof (induction bs)
  case Nil
  then show ?case by (simp add: word_bytes_def)
next
  case (Cons b bs)
  let ?v = "le_val (b # bs) :: 'a word"
  have v: "unat ?v = unat (le_val bs :: 'a word) * 256 + unat b"
    using Cons.prems by (intro unat_le_val_Cons) simp
  have "drop_bit 8 ?v = le_val bs"
    by (rule word_unat_eq_iff [THEN iffD2])
       (simp add: v unat_drop_bit_eq drop_bit_nat_def unat_u8_less)
  moreover have "(ucast ?v :: u8) = b"
    by (rule word_unat_eq_iff [THEN iffD2])
       (simp add: v unsigned_ucast_eq take_bit_nat_def unat_u8_less)
  ultimately show ?case
    using Cons by (simp add: word_bytes_Suc)
qed

lemma bswap_le_val:
  "length bs = n \<Longrightarrow> 8 * n \<le> LENGTH('a) \<Longrightarrow> bswap n (le_val bs :: 'a::len word) = be_val bs"
  using word_bytes_le_val [of bs, where 'a = 'a] by (simp add: bswap_def)

text \<open>The bytes of a word spell it: the inverse of the assembly.\<close>

lemma le_val_word_bytes: "le_val (word_bytes n v) = take_bit (8 * n) (v :: 'a::len word)"
proof (induction n arbitrary: v)
  case 0
  then show ?case by (simp add: word_bytes_def)
next
  case (Suc n)
  show ?case
    unfolding word_bytes_Suc le_val_Cons Suc.IH
    by (rule bit_word_eqI) (auto simp: bit_simps not_less dest: bit_imp_le_length)
qed

subsection \<open>What the loads and stores compute\<close>

lemma subspan_2: "i + 2 \<le> length p \<Longrightarrow> subspan p i 2 = Some [p ! i, p ! (i + 1)]"
  by (simp add: subspan_def numeral_2_eq_2 take_Suc_conv_app_nth)

lemma subspan_4:
  "i + 4 \<le> length p \<Longrightarrow> subspan p i 4 = Some [p ! i, p ! (i + 1), p ! (i + 2), p ! (i + 3)]"
  by (simp add: subspan_def eval_nat_numeral take_Suc_conv_app_nth)

lemma subspan_8:
  "i + 8 \<le> length p \<Longrightarrow> subspan p i 8 =
     Some [p ! i, p ! (i + 1), p ! (i + 2), p ! (i + 3), p ! (i + 4), p ! (i + 5), p ! (i + 6), p ! (i + 7)]"
  by (simp add: subspan_def eval_nat_numeral take_Suc_conv_app_nth)

lemma swap16: "drop_bit 8 v OR push_bit 8 v = bswap 2 (v :: u16)"
proof -
  have "word_bytes 2 v = [ucast v, ucast (drop_bit 8 v)]"
    by (simp add: word_bytes_def numeral_2_eq_2)
  then show ?thesis
    by (intro bit_word_eqI) (auto simp: bswap_def be_val_def bit_simps dest: bit_imp_le_length)
qed

lemma load_be16_on_eq: "load_be16_on e p i = map_option be_val (subspan p i 2)"
  by (cases e) (auto simp: bswap_le_val load_be16_on_def memcpy_word_def swap16 subspan_def)

lemma load_be32_on_eq: "load_be32_on e p i = map_option be_val (subspan p i 4)"
  by (cases e) (auto simp: bswap_le_val load_be32_on_def memcpy_word_def subspan_def)

lemma load_be64_on_eq: "load_be64_on e p i = map_option be_val (subspan p i 8)"
  by (cases e) (auto simp: bswap_le_val load_be64_on_def memcpy_word_def subspan_def)

lemma bswap_be_val:
  "length bs = n \<Longrightarrow> 8 * n \<le> LENGTH('a) \<Longrightarrow> bswap n (be_val bs :: 'a::len word) = le_val bs"
  using bswap_le_val [of "rev bs", where 'a = 'a] by (simp add: le_val_rev)

lemma load_le16_on_eq: "load_le16_on e p i = map_option le_val (subspan p i 2)"
  by (cases e) (auto simp: bswap_be_val load_le16_on_def memcpy_word_def swap16 subspan_def)

lemma load_le32_on_eq: "load_le32_on e p i = map_option le_val (subspan p i 4)"
  by (cases e) (auto simp: bswap_be_val load_le32_on_def memcpy_word_def subspan_def)

lemma load_be24_eq: "load_be24 p i = map_option be_val (subspan p i 3)"
proof (cases "i + 3 \<le> length p")
  case True
  have "subspan p i 3 = Some [p ! i, p ! (i + 1), p ! (i + 2)]"
    using True by (simp add: subspan_def eval_nat_numeral take_Suc_conv_app_nth)
  moreover have "push_bit 16 (ucast a) OR push_bit 8 (ucast b) OR ucast c = (be_val [a, b, c] :: u32)"
    for a b c :: u8
    by (intro bit_word_eqI) (auto simp: be_val_def bit_simps dest: bit_imp_le_length)
  ultimately show ?thesis
    using True by (simp add: load_be24_def span_simps)
next
  case False
  then show ?thesis
    by (auto simp: load_be24_def at_index_def subspan_def)
qed

lemma load_in [span_simps]:
  "i + 2 \<le> length p \<Longrightarrow> load_be16_on e p i = Some (be_val (take 2 (drop i p)))"
  "i + 3 \<le> length p \<Longrightarrow> load_be24 p i = Some (be_val (take 3 (drop i p)))"
  "i + 4 \<le> length p \<Longrightarrow> load_be32_on e p i = Some (be_val (take 4 (drop i p)))"
  "i + 8 \<le> length p \<Longrightarrow> load_be64_on e p i = Some (be_val (take 8 (drop i p)))"
  "i + 2 \<le> length p \<Longrightarrow> load_le16_on e p i = Some (le_val (take 2 (drop i p)))"
  "i + 4 \<le> length p \<Longrightarrow> load_le32_on e p i = Some (le_val (take 4 (drop i p)))"
  by (simp_all add: load_be16_on_eq load_be24_eq load_be32_on_eq load_be64_on_eq
      load_le16_on_eq load_le32_on_eq subspan_in)

text \<open>Storing writes exactly the bytes of the value, in the byte order of its name.\<close>

lemma word_bytes_nth: "i < n \<Longrightarrow> word_bytes n v ! i = ucast (drop_bit (8 * i) v)"
  by (simp add: word_bytes_def)

lemma length_word_bytes [simp]: "length (word_bytes n v) = n"
  by (simp add: word_bytes_def)

lemma be_val_rev_word_bytes: "be_val (rev (word_bytes n v)) = take_bit (8 * n) v"
  using le_val_word_bytes [of n v] by (simp add: le_val_rev)

definition put_run :: "'a list \<Rightarrow> nat \<Rightarrow> 'a list \<Rightarrow> 'a list" where
  "put_run p i ys = take i p @ ys @ drop (i + length ys) p"

lemma put_run_Cons:
  "i + Suc (length ys) \<le> length p \<Longrightarrow> put_run p i (y # ys) = put_run (p[i := y]) (Suc i) ys"
  by (simp add: put_run_def take_Suc_conv_app_nth)

lemma put_run_Nil [simp]: "put_run p i [] = p"
  by (simp add: put_run_def)

lemma take_drop_put_run [simp]:
  "i + length ys \<le> length p \<Longrightarrow> take (length ys) (drop i (put_run p i ys)) = ys"
  by (simp add: put_run_def)

lemma length_put_run [simp]: "i + length ys \<le> length p \<Longrightarrow> length (put_run p i ys) = length p"
  by (simp add: put_run_def)

lemma put_run_frame:
  "i + length ys \<le> length p \<Longrightarrow> j < i \<or> i + length ys \<le> j \<Longrightarrow> put_run p i ys ! j = p ! j"
  by (auto simp: put_run_def nth_append)

text \<open>The buffers agree outside the \<open>n\<close> bytes at offset \<open>i\<close>.\<close>

definition same_outside :: "'a list \<Rightarrow> 'a list \<Rightarrow> nat \<Rightarrow> nat \<Rightarrow> bool" where
  "same_outside p q i n \<longleftrightarrow> length q = length p \<and> (\<forall>j. j < i \<or> i + n \<le> j \<longrightarrow> q ! j = p ! j)"

lemma put_run_same_outside:
  "length ys = n \<Longrightarrow> i + n \<le> length p \<Longrightarrow> same_outside p (put_run p i ys) i n"
  using put_run_frame [of i ys p] by (auto simp: same_outside_def)

lemma take_drop_put_run_eq:
  "length ys = n \<Longrightarrow> i + n \<le> length p \<Longrightarrow> take n (drop i (put_run p i ys)) = ys"
  using take_drop_put_run [of i ys p] by simp

lemma word_bytes_small:
  "word_bytes 2 v = [ucast v, ucast (drop_bit 8 v)]"
  "word_bytes 3 v = [ucast v, ucast (drop_bit 8 v), ucast (drop_bit 16 v)]"
  "word_bytes 4 v = [ucast v, ucast (drop_bit 8 v), ucast (drop_bit 16 v), ucast (drop_bit 24 v)]"
  by (simp_all add: word_bytes_def upt_rec)

lemma store_be16_eq:
  "store_be16 p i v = (if i + 2 \<le> length p then Some (put_run p i (rev (word_bytes 2 v))) else None)"
  by (auto simp: store_be16_def store_at_def word_bytes_small put_run_Cons)

lemma store_be24_eq:
  "store_be24 p i v = (if i + 3 \<le> length p then Some (put_run p i (rev (word_bytes 3 v))) else None)"
  by (auto simp: store_be24_def store_at_def word_bytes_small put_run_Cons)

lemma store_be32_eq:
  "store_be32 p i v = (if i + 4 \<le> length p then Some (put_run p i (rev (word_bytes 4 v))) else None)"
  by (auto simp: store_be32_def store_at_def word_bytes_small put_run_Cons numeral_3_eq_3)

lemma store_le16_eq:
  "store_le16 p i v = (if i + 2 \<le> length p then Some (put_run p i (word_bytes 2 v)) else None)"
  by (auto simp: store_le16_def store_at_def word_bytes_small put_run_Cons)

lemma store_le32_eq:
  "store_le32 p i v = (if i + 4 \<le> length p then Some (put_run p i (word_bytes 4 v)) else None)"
  by (auto simp: store_le32_def store_at_def word_bytes_small put_run_Cons numeral_3_eq_3)

subsection \<open>Properties\<close>

text \<open>
  A load returns the value of the bytes at the pointer in the byte order its name says, on a
  little-endian and on a big-endian host alike, and goes out of bounds exactly when the bytes are
  not there.
\<close>

theorem loads_host_independent:
  "load_be16_on e p i = map_option be_val (subspan p i 2) \<and>
   load_be24 p i = map_option be_val (subspan p i 3) \<and>
   load_be32_on e p i = map_option be_val (subspan p i 4) \<and>
   load_be64_on e p i = map_option be_val (subspan p i 8) \<and>
   load_le16_on e p i = map_option le_val (subspan p i 2) \<and>
   load_le32_on e p i = map_option le_val (subspan p i 4)"
  by (simp add: load_be16_on_eq load_be24_eq load_be32_on_eq load_be64_on_eq
      load_le16_on_eq load_le32_on_eq)

text \<open>
  Every store that fits is read back by the matching load on any host (the 24-bit store keeps
  the low 24 bits), and leaves every other byte of the buffer alone.
\<close>

theorem store_load_roundtrip:
  assumes "i + 4 \<le> length p"
  shows "(\<exists>q. store_be16 p i v16 = Some q \<and> load_be16_on e q i = Some v16 \<and> same_outside p q i 2) \<and>
    (\<exists>q. store_be24 p i v32 = Some q \<and> load_be24 q i = Some (take_bit 24 v32) \<and> same_outside p q i 3) \<and>
    (\<exists>q. store_be32 p i v32 = Some q \<and> load_be32_on e q i = Some v32 \<and> same_outside p q i 4) \<and>
    (\<exists>q. store_le16 p i v16 = Some q \<and> load_le16_on e q i = Some v16 \<and> same_outside p q i 2) \<and>
    (\<exists>q. store_le32 p i v32 = Some q \<and> load_le32_on e q i = Some v32 \<and> same_outside p q i 4)"
  using assms
  by (simp add: store_be16_eq store_be24_eq store_be32_eq store_le16_eq store_le32_eq span_simps
      put_run_same_outside take_drop_put_run_eq be_val_rev_word_bytes le_val_word_bytes
      take_bit_word_eq_self)

theorem store_load_roundtrip_witness:
  "\<exists>q. store_be32 [0, 0, 0, 0, 9] 0 0xA1B2C3D4 = Some q \<and>
       load_be32_on Big_Endian q 0 = Some 0xA1B2C3D4 \<and> same_outside [0, 0, 0, 0, 9] q 0 4"
  using store_load_roundtrip [of 0 "[0, 0, 0, 0, 9]" 0 Big_Endian "0xA1B2C3D4"] by simp

end
