(* ===== verification/Gtpu.thy ===== *)
theory Gtpu
  imports Byte_Order
begin

text \<open>
  \<^verbatim>\<open>include/gtpm/gtpu.hpp\<close>: the GTP-U header (3GPP TS 29.281), its extension-header chain and
  the PDU Session Container (TS 38.415).

  \<open>parse_ext_chain\<close> and \<open>parse_gtpu\<close> follow the C++ functions check by check; the out-parameter
  is returned beside the status, with whatever the code has written to it by the time it
  returns. The lemmas show that neither function ever reads outside the frame, that an
  accepted PDU yields exactly the bytes its Length field delimits, and that the walk of the
  chain is bounded.
\<close>

subsection \<open>Constants and message types\<close>

abbreviation (input) kGtpuPort :: u16 where "kGtpuPort \<equiv> 2152"
abbreviation (input) kGtpuFixedHeaderLen :: nat where "kGtpuFixedHeaderLen \<equiv> 8"
abbreviation (input) kGtpuOptionalFieldsLen :: nat where "kGtpuOptionalFieldsLen \<equiv> 4"
abbreviation (input) kGtpuMaxExtHeaders :: nat where "kGtpuMaxExtHeaders \<equiv> 16"

datatype GtpuMsgType =
    kEchoRequest | kEchoResponse | kErrorIndication | kSupportedExtHeadersNotify
  | kEndMarker | kGpdu

primrec gtpu_msg_code :: "GtpuMsgType \<Rightarrow> u8" where
  "gtpu_msg_code kEchoRequest = 1"
| "gtpu_msg_code kEchoResponse = 2"
| "gtpu_msg_code kErrorIndication = 26"
| "gtpu_msg_code kSupportedExtHeadersNotify = 31"
| "gtpu_msg_code kEndMarker = 254"
| "gtpu_msg_code kGpdu = 255"

datatype GtpuExtType =
    kNone | kLongPdcpPduNumber | kServiceClassIndicator | kUdpPort | kRanContainer
  | kLongPdcpPduNumber2 | kXwRanContainer | kNrRanContainer | kPduSessionContainer
  | kPdcpPduNumber

primrec gtpu_ext_code :: "GtpuExtType \<Rightarrow> u8" where
  "gtpu_ext_code kNone = 0x00"
| "gtpu_ext_code kLongPdcpPduNumber = 0x03"
| "gtpu_ext_code kServiceClassIndicator = 0x20"
| "gtpu_ext_code kUdpPort = 0x40"
| "gtpu_ext_code kRanContainer = 0x81"
| "gtpu_ext_code kLongPdcpPduNumber2 = 0x82"
| "gtpu_ext_code kXwRanContainer = 0x83"
| "gtpu_ext_code kNrRanContainer = 0x84"
| "gtpu_ext_code kPduSessionContainer = 0x85"
| "gtpu_ext_code kPdcpPduNumber = 0xC0"

datatype PduSessionInfoType = PduSessionInfo_kDownlink | PduSessionInfo_kUplink

primrec pdu_session_info_code :: "PduSessionInfoType \<Rightarrow> u8" where
  "pdu_session_info_code PduSessionInfo_kDownlink = 0"
| "pdu_session_info_code PduSessionInfo_kUplink = 1"

datatype GtpuStatus =
    GtpuStatus_kOk | GtpuStatus_kTruncated | GtpuStatus_kBadVersion | GtpuStatus_kNotGtpU
  | GtpuStatus_kBadLength | GtpuStatus_kBadExtHeader | GtpuStatus_kExtChainTooLong

primrec gtpu_status_string :: "GtpuStatus \<Rightarrow> string" where
  "gtpu_status_string GtpuStatus_kOk = ''ok''"
| "gtpu_status_string GtpuStatus_kTruncated = ''truncated''"
| "gtpu_status_string GtpuStatus_kBadVersion = ''bad-version''"
| "gtpu_status_string GtpuStatus_kNotGtpU = ''not-gtpu''"
| "gtpu_status_string GtpuStatus_kBadLength = ''bad-length''"
| "gtpu_status_string GtpuStatus_kBadExtHeader = ''bad-ext-header''"
| "gtpu_status_string GtpuStatus_kExtChainTooLong = ''ext-chain-too-long''"

subsection \<open>The decoded header\<close>

record GtpuHeader =
  gh_payload :: bytes
  gh_teid :: u32
  gh_seq :: u16
  gh_header_len :: u16
  gh_declared_len :: u16
  gh_msg_type :: u8
  gh_npdu :: u8
  gh_qfi :: u8
  gh_pdu_type :: u8
  gh_ext_count :: u8
  gh_has_seq :: bool
  gh_has_npdu :: bool
  gh_has_ext :: bool
  gh_has_qfi :: bool
  gh_rqi :: bool

definition GtpuHeader_init :: GtpuHeader where
  "GtpuHeader_init = \<lparr> gh_payload = [], gh_teid = 0, gh_seq = 0, gh_header_len = 0,
     gh_declared_len = 0, gh_msg_type = 0, gh_npdu = 0, gh_qfi = 0, gh_pdu_type = 0,
     gh_ext_count = 0, gh_has_seq = False, gh_has_npdu = False, gh_has_ext = False,
     gh_has_qfi = False, gh_rqi = False \<rparr>"

definition is_gpdu :: "GtpuHeader \<Rightarrow> bool" where
  "is_gpdu h \<longleftrightarrow> gh_msg_type h = gtpu_msg_code kGpdu"

definition is_end_marker :: "GtpuHeader \<Rightarrow> bool" where
  "is_end_marker h \<longleftrightarrow> gh_msg_type h = gtpu_msg_code kEndMarker"

subsection \<open>The extension-header chain\<close>

text \<open>
  The body of the loop for a PDU Session Container: the code's two content octets are at
  \<open>consumed + 1\<close> and \<open>consumed + 2\<close>.
\<close>

definition read_container :: "bytes \<Rightarrow> nat \<Rightarrow> GtpuHeader \<Rightarrow> GtpuHeader option" where
  "read_container buf content out = do {
     c0 \<leftarrow> at_index buf content;
     c1 \<leftarrow> at_index buf (content + 1);
     let pdu_type = drop_bit 4 c0;
     Some (out\<lparr> gh_pdu_type := pdu_type,
                gh_qfi := c1 AND 0x3F,
                gh_rqi := (pdu_type = pdu_session_info_code PduSessionInfo_kDownlink \<and> c1 AND 0x40 \<noteq> 0),
                gh_has_qfi := True \<rparr>) }"

function ext_loop ::
  "bytes \<Rightarrow> u8 \<Rightarrow> nat \<Rightarrow> GtpuHeader \<Rightarrow> nat \<Rightarrow> (GtpuStatus \<times> GtpuHeader \<times> nat) option" where
  "ext_loop buf next links out consumed =
     (if next = gtpu_ext_code kNone
      then Some (GtpuStatus_kOk, out\<lparr> gh_ext_count := of_nat links \<rparr>, consumed)
      else if links + 1 > kGtpuMaxExtHeaders
      then Some (GtpuStatus_kExtChainTooLong, out, consumed)
      else if consumed \<ge> length buf then Some (GtpuStatus_kTruncated, out, consumed)
      else do {
        units \<leftarrow> at_index buf consumed;
        if units = 0 then Some (GtpuStatus_kBadExtHeader, out, consumed)
        else do {
          let ext_len = unat units * 4;
          if consumed + ext_len > length buf then Some (GtpuStatus_kTruncated, out, consumed)
          else do {
            out \<leftarrow> (if next = gtpu_ext_code kPduSessionContainer \<and> ext_len - 2 \<ge> 2
                    then read_container buf (consumed + 1) out else Some out);
            next \<leftarrow> at_index buf (consumed + ext_len - 1);
            ext_loop buf next (links + 1) out (consumed + ext_len) } } })"
  by pat_completeness auto
termination
  by (relation "measure (\<lambda>(buf, next, links, out, consumed). kGtpuMaxExtHeaders - links)") auto

declare ext_loop.simps [simp del]

definition parse_ext_chain ::
  "bytes \<Rightarrow> u8 \<Rightarrow> GtpuHeader \<Rightarrow> (GtpuStatus \<times> GtpuHeader \<times> nat) option" where
  "parse_ext_chain buf first_type out = ext_loop buf first_type 0 out 0"

subsection \<open>The PDU\<close>

definition finish_gtpu ::
  "bytes \<Rightarrow> GtpuHeader \<Rightarrow> nat \<Rightarrow> nat \<Rightarrow> nat \<Rightarrow> (GtpuStatus \<times> GtpuHeader) option" where
  "finish_gtpu frame out offset declared optional_and_ext =
     (if declared < optional_and_ext then Some (GtpuStatus_kBadLength, out)
      else do {
        payload \<leftarrow> subspan frame offset (declared - optional_and_ext);
        Some (GtpuStatus_kOk, out\<lparr> gh_header_len := of_nat offset, gh_payload := payload \<rparr>) })"

definition parse_gtpu :: "bytes \<Rightarrow> (GtpuStatus \<times> GtpuHeader) option" where
  "parse_gtpu frame = (
     let out = GtpuHeader_init in
     if length frame < kGtpuFixedHeaderLen then Some (GtpuStatus_kTruncated, out)
     else do {
       flags \<leftarrow> at_index frame 0;
       if drop_bit 5 flags \<noteq> 1 then Some (GtpuStatus_kBadVersion, out)
       else if flags AND 0x10 = 0 then Some (GtpuStatus_kNotGtpU, out)
       else do {
         let e_bit = (flags AND 0x04 \<noteq> 0);
         let s_bit = (flags AND 0x02 \<noteq> 0);
         let pn_bit = (flags AND 0x01 \<noteq> 0);
         msg_type \<leftarrow> at_index frame 1;
         declared_len \<leftarrow> load_be16 frame 2;
         teid \<leftarrow> load_be32 frame 4;
         let out = out\<lparr> gh_msg_type := msg_type, gh_declared_len := declared_len, gh_teid := teid \<rparr>;
         let declared = unat declared_len;
         if length frame - kGtpuFixedHeaderLen < declared then Some (GtpuStatus_kTruncated, out)
         else if e_bit \<or> s_bit \<or> pn_bit then
           if declared < kGtpuOptionalFieldsLen then Some (GtpuStatus_kBadLength, out)
           else do {
             seq \<leftarrow> load_be16 frame kGtpuFixedHeaderLen;
             npdu \<leftarrow> at_index frame (kGtpuFixedHeaderLen + 2);
             first_ext \<leftarrow> at_index frame (kGtpuFixedHeaderLen + 3);
             let out = out\<lparr> gh_seq := seq, gh_npdu := npdu, gh_has_seq := s_bit, gh_has_npdu := pn_bit \<rparr>;
             let offset = kGtpuFixedHeaderLen + kGtpuOptionalFieldsLen;
             if e_bit \<and> first_ext \<noteq> gtpu_ext_code kNone then do {
               let out = out\<lparr> gh_has_ext := True \<rparr>;
               ext_area \<leftarrow> subspan frame offset (declared - kGtpuOptionalFieldsLen);
               (st, out, ext_bytes) \<leftarrow> parse_ext_chain ext_area first_ext out;
               if st \<noteq> GtpuStatus_kOk then Some (st, out)
               else finish_gtpu frame out (offset + ext_bytes) declared (kGtpuOptionalFieldsLen + ext_bytes)
             } else finish_gtpu frame out offset declared kGtpuOptionalFieldsLen
           }
         else finish_gtpu frame out kGtpuFixedHeaderLen declared 0 } })"

subsection \<open>The walk of the chain\<close>

text \<open>The header after a PDU Session Container with the given two content octets.\<close>

definition container_upd :: "u8 \<Rightarrow> u8 \<Rightarrow> GtpuHeader \<Rightarrow> GtpuHeader" where
  "container_upd c0 c1 out = out\<lparr> gh_pdu_type := drop_bit 4 c0, gh_qfi := c1 AND 0x3F,
     gh_rqi := (drop_bit 4 c0 = 0 \<and> c1 AND 0x40 \<noteq> 0), gh_has_qfi := True \<rparr>"

text \<open>Every read of an iteration is in bounds, so an iteration is a plain case distinction.\<close>

lemma unat_units: "(units::u8) \<noteq> 0 \<Longrightarrow> 4 \<le> unat units * 4"
  using unat_gt_0 [of units] by linarith

lemma ext_loop_step:
  "ext_loop buf nxt links out consumed =
     (if nxt = 0 then Some (GtpuStatus_kOk, out\<lparr> gh_ext_count := of_nat links \<rparr>, consumed)
      else if 16 \<le> links then Some (GtpuStatus_kExtChainTooLong, out, consumed)
      else if length buf \<le> consumed then Some (GtpuStatus_kTruncated, out, consumed)
      else if buf ! consumed = 0 then Some (GtpuStatus_kBadExtHeader, out, consumed)
      else let n = unat (buf ! consumed) * 4 in
        if length buf < consumed + n then Some (GtpuStatus_kTruncated, out, consumed)
        else ext_loop buf (buf ! (consumed + n - 1)) (Suc links)
               (if nxt = 0x85 then container_upd (buf ! (consumed + 1)) (buf ! (consumed + 2)) out
                else out) (consumed + n))"
  using unat_units [of "buf ! consumed"]
  by (subst ext_loop.simps)
     (auto simp: Let_def span_simps read_container_def container_upd_def)

definition same_mandatory :: "GtpuHeader \<Rightarrow> GtpuHeader \<Rightarrow> bool" where
  "same_mandatory h h' \<longleftrightarrow> gh_payload h' = gh_payload h \<and> gh_teid h' = gh_teid h \<and>
     gh_seq h' = gh_seq h \<and> gh_header_len h' = gh_header_len h \<and>
     gh_declared_len h' = gh_declared_len h \<and> gh_msg_type h' = gh_msg_type h \<and>
     gh_npdu h' = gh_npdu h \<and> gh_has_seq h' = gh_has_seq h \<and>
     gh_has_npdu h' = gh_has_npdu h \<and> gh_has_ext h' = gh_has_ext h"

text \<open>
  The walk returns, having consumed a multiple of four bytes inside its area and at most 1020 per
  link, and touches no field but those of the container and the count of links.
\<close>

lemma ext_loop_spec:
  assumes "links \<le> 16" and "consumed \<le> length buf"
  shows "\<exists>st out' c. ext_loop buf nxt links out consumed = Some (st, out', c) \<and>
           consumed \<le> c \<and> c \<le> length buf \<and> c \<le> consumed + 1020 * (16 - links) \<and>
           4 dvd (c - consumed) \<and> same_mandatory out out' \<and>
           st \<in> {GtpuStatus_kOk, GtpuStatus_kTruncated, GtpuStatus_kBadExtHeader,
                 GtpuStatus_kExtChainTooLong} \<and>
           (st = GtpuStatus_kOk \<longrightarrow> unat (gh_ext_count out') \<le> 16)"
  using assms
proof (induction "16 - links" arbitrary: links nxt out consumed)
  case 0
  then have "unat (of_nat links :: u8) = 16" by simp
  with 0 show ?case
    by (subst ext_loop_step) (auto simp: same_mandatory_def)
next
  case (Suc d)
  let ?n = "unat (buf ! consumed) * 4"
  let ?out = "if nxt = 0x85 then container_upd (buf ! (consumed + 1)) (buf ! (consumed + 2)) out else out"
  have n: "?n \<le> 1020" using unat_u8_less [of "buf ! consumed"] by linarith
  have links: "unat (of_nat links :: u8) \<le> 16" using Suc.prems
    by (simp add: unat_of_nat)
  show ?case
  proof (cases "nxt \<noteq> 0 \<and> consumed < length buf \<and> buf ! consumed \<noteq> 0 \<and> consumed + ?n \<le> length buf")
    case True
    have "d = 16 - Suc links" "Suc links \<le> 16" using Suc by auto
    from Suc.hyps(1) [OF this, of "consumed + ?n" "buf ! (consumed + ?n - 1)" ?out] True
    obtain st out' c where r:
      "ext_loop buf (buf ! (consumed + ?n - 1)) (Suc links) ?out (consumed + ?n) = Some (st, out', c)"
      "consumed + ?n \<le> c" "c \<le> length buf" "c \<le> consumed + ?n + 1020 * (16 - Suc links)"
      "4 dvd (c - (consumed + ?n))" "same_mandatory ?out out'"
      "st \<in> {GtpuStatus_kOk, GtpuStatus_kTruncated, GtpuStatus_kBadExtHeader, GtpuStatus_kExtChainTooLong}"
      "st = GtpuStatus_kOk \<longrightarrow> unat (gh_ext_count out') \<le> 16"
      by auto
    have eq: "ext_loop buf nxt links out consumed = Some (st, out', c)"
      using True \<open>Suc links \<le> 16\<close> r(1) by (subst ext_loop_step) (simp add: Let_def)
    have sm: "same_mandatory out out'"
      using r(6) by (auto simp: same_mandatory_def container_upd_def split: if_splits)
    have "c - consumed = (c - (consumed + ?n)) + ?n" using r(2) by linarith
    then have dv: "4 dvd (c - consumed)" using r(5) by simp
    have "c \<le> consumed + 1020 * (16 - links)" using r(4) n Suc.hyps(2) by linarith
    then show ?thesis using eq sm dv r by auto
  next
    case False
    with Suc.prems links show ?thesis
      by (subst ext_loop_step) (auto simp: Let_def same_mandatory_def)
  qed
qed

subsection \<open>The PDU, with its reads resolved\<close>

definition wire_declared :: "bytes \<Rightarrow> nat" where
  "wire_declared frame = unat (be_val (take 2 (drop 2 frame)) :: u16)"

definition wire_mandatory :: "bytes \<Rightarrow> GtpuHeader" where
  "wire_mandatory frame = GtpuHeader_init\<lparr> gh_msg_type := frame ! 1,
     gh_declared_len := be_val (take 2 (drop 2 frame)), gh_teid := be_val (take 4 (drop 4 frame)) \<rparr>"

definition wire_optional :: "bytes \<Rightarrow> GtpuHeader" where
  "wire_optional frame = (wire_mandatory frame)\<lparr> gh_seq := be_val (take 2 (drop 8 frame)),
     gh_npdu := frame ! 10, gh_has_seq := (frame ! 0 AND 0x02 \<noteq> 0),
     gh_has_npdu := (frame ! 0 AND 0x01 \<noteq> 0) \<rparr>"

definition has_optional :: "bytes \<Rightarrow> bool" where
  "has_optional frame \<longleftrightarrow> frame ! 0 AND 0x04 \<noteq> 0 \<or> frame ! 0 AND 0x02 \<noteq> 0 \<or> frame ! 0 AND 0x01 \<noteq> 0"

definition has_chain :: "bytes \<Rightarrow> bool" where
  "has_chain frame \<longleftrightarrow> frame ! 0 AND 0x04 \<noteq> 0 \<and> frame ! 11 \<noteq> 0"

definition accept :: "bytes \<Rightarrow> GtpuHeader \<Rightarrow> nat \<Rightarrow> nat \<Rightarrow> GtpuHeader" where
  "accept frame out offset n =
     out\<lparr> gh_header_len := of_nat offset, gh_payload := take n (drop offset frame) \<rparr>"

text \<open>
  The parser as a cascade of checks on the bytes of the frame. That this equation holds without a
  side condition is the proof that no check of the code reads a byte it has not established.
\<close>

lemma parse_gtpu_cascade:
  "parse_gtpu frame =
     (if length frame < 8 then Some (GtpuStatus_kTruncated, GtpuHeader_init)
      else if drop_bit 5 (frame ! 0) \<noteq> 1 then Some (GtpuStatus_kBadVersion, GtpuHeader_init)
      else if frame ! 0 AND 0x10 = 0 then Some (GtpuStatus_kNotGtpU, GtpuHeader_init)
      else if length frame < 8 + wire_declared frame
        then Some (GtpuStatus_kTruncated, wire_mandatory frame)
      else if \<not> has_optional frame
        then Some (GtpuStatus_kOk, accept frame (wire_mandatory frame) 8 (wire_declared frame))
      else if wire_declared frame < 4 then Some (GtpuStatus_kBadLength, wire_mandatory frame)
      else if \<not> has_chain frame
        then Some (GtpuStatus_kOk, accept frame (wire_optional frame) 12 (wire_declared frame - 4))
      else (case ext_loop (take (wire_declared frame - 4) (drop 12 frame)) (frame ! 11) 0
                   ((wire_optional frame)\<lparr> gh_has_ext := True \<rparr>) 0 of
              None \<Rightarrow> None
            | Some (st, out, c) \<Rightarrow> Some (st, if st \<noteq> GtpuStatus_kOk then out
                else accept frame out (12 + c) (wire_declared frame - 4 - c))))"
proof (cases "8 \<le> length frame")
  case False
  then show ?thesis by (simp add: parse_gtpu_def)
next
  case True
  note len = True
  define D where "D = wire_declared frame"
  have rd: "at_index frame 0 = Some (frame ! 0)" "at_index frame 1 = Some (frame ! 1)"
    "load_be16 frame 2 = Some (be_val (take 2 (drop 2 frame)))"
    "load_be32 frame 4 = Some (be_val (take 4 (drop 4 frame)))"
    "unat (be_val (take 2 (drop 2 frame)) :: u16) = D"
    using True by (auto simp: at_index_def load_in D_def wire_declared_def)
  have head: "parse_gtpu frame =
     (if drop_bit 5 (frame ! 0) \<noteq> 1 then Some (GtpuStatus_kBadVersion, GtpuHeader_init)
      else if frame ! 0 AND 0x10 = 0 then Some (GtpuStatus_kNotGtpU, GtpuHeader_init)
      else if length frame < 8 + D then Some (GtpuStatus_kTruncated, wire_mandatory frame)
      else if \<not> has_optional frame then finish_gtpu frame (wire_mandatory frame) 8 D 0
      else if D < 4 then Some (GtpuStatus_kBadLength, wire_mandatory frame)
      else do {
        seq \<leftarrow> load_be16 frame 8;
        npdu \<leftarrow> at_index frame 10;
        first_ext \<leftarrow> at_index frame 11;
        let out = (wire_mandatory frame)\<lparr> gh_seq := seq, gh_npdu := npdu,
          gh_has_seq := (frame ! 0 AND 0x02 \<noteq> 0), gh_has_npdu := (frame ! 0 AND 0x01 \<noteq> 0) \<rparr>;
        if frame ! 0 AND 0x04 \<noteq> 0 \<and> first_ext \<noteq> 0 then do {
          ext_area \<leftarrow> subspan frame (8 + 4) (D - 4);
          (st, out, c) \<leftarrow> parse_ext_chain ext_area first_ext (out\<lparr> gh_has_ext := True \<rparr>);
          if st \<noteq> GtpuStatus_kOk then Some (st, out)
          else finish_gtpu frame out (8 + 4 + c) D (4 + c)
        } else finish_gtpu frame out (8 + 4) D 4 })"
  proof -
    have cond: "(length frame - 8 < D) = (length frame < 8 + D)" using True by linarith
    show ?thesis
      unfolding parse_gtpu_def Let_def has_optional_def wire_mandatory_def
      using True
      by (simp only: rd bind.simps cond gtpu_ext_code.simps not_less if_True if_False)
         simp
  qed
  show ?thesis
  proof (cases "length frame < 8 + D \<or> \<not> has_optional frame \<or> D < 4")
    case True
    then show ?thesis
      using len unfolding head D_def [symmetric]
      by (elim disjE) (simp_all add: finish_gtpu_def accept_def span_simps)
  next
    case False
    then have rd2: "load_be16 frame 8 = Some (be_val (take 2 (drop 8 frame)))"
      "at_index frame 10 = Some (frame ! 10)" "at_index frame 11 = Some (frame ! 11)"
      by (simp_all add: span_simps)
    obtain st out c where r: "ext_loop (take (D - 4) (drop 12 frame)) (frame ! 11) 0
        ((wire_optional frame)\<lparr> gh_has_ext := True \<rparr>) 0 = Some (st, out, c)"
      and c: "c \<le> length (take (D - 4) (drop 12 frame))"
      using ext_loop_spec [of 0 0 "take (D - 4) (drop 12 frame)" "frame ! 11"
          "(wire_optional frame)\<lparr> gh_has_ext := True \<rparr>"] by auto
    from c have "c \<le> D - 4" by simp
    with False have c': "c \<le> D - 4" "4 + c \<le> D" by linarith+
    have fin: "finish_gtpu frame out (8 + 4 + c) D (4 + c)
        = Some (GtpuStatus_kOk, accept frame out (12 + c) (D - 4 - c))"
      using c' False by (simp add: finish_gtpu_def accept_def span_simps)
    show ?thesis
      using len False r fin
      unfolding head D_def [symmetric] rd2 bind.simps Let_def
      by (simp add: parse_ext_chain_def has_chain_def wire_optional_def finish_gtpu_def accept_def
          span_simps)
  qed
qed


lemma wire_fields [simp]:
  "unat (gh_declared_len (wire_mandatory frame)) = wire_declared frame"
  "unat (gh_declared_len (wire_optional frame)) = wire_declared frame"
  "gh_ext_count (wire_mandatory frame) = 0" "gh_ext_count (wire_optional frame) = 0"
  "gh_has_qfi (wire_mandatory frame) = False" "gh_has_qfi (wire_optional frame) = False"
  by (simp_all add: wire_mandatory_def wire_optional_def wire_declared_def GtpuHeader_init_def)

lemma accept_fields [simp]:
  "gh_declared_len (accept frame out off n) = gh_declared_len out"
  "gh_header_len (accept frame out off n) = of_nat off"
  "gh_payload (accept frame out off n) = take n (drop off frame)"
  "gh_ext_count (accept frame out off n) = gh_ext_count out"
  "gh_has_qfi (accept frame out off n) = gh_has_qfi out"
  "gh_qfi (accept frame out off n) = gh_qfi out"
  "gh_teid (accept frame out off n) = gh_teid out"
  "gh_msg_type (accept frame out off n) = gh_msg_type out"
  by (simp_all add: accept_def)

lemma gtpu_of_nat_len: "n \<le> 16332 \<Longrightarrow> unat (of_nat n :: u16) = n"
  by (simp add: unat_of_nat)

text \<open>
  What an accepted PDU is: the offset is where the header and chain end, and the payload is
  everything from there to the end the Length field declares.
\<close>

lemma parse_gtpu_accepted:
  assumes "parse_gtpu frame = Some (GtpuStatus_kOk, h)"
  obtains out off where
    "h = accept frame out off (8 + wire_declared frame - off)"
    "8 \<le> off" "off \<le> 8 + wire_declared frame" "off \<le> 12 + 16 * 1020" "4 dvd off"
    "8 + wire_declared frame \<le> length frame"
    "unat (gh_declared_len out) = wire_declared frame" "unat (gh_ext_count out) \<le> 16"
    "gh_teid out = be_val (take 4 (drop 4 frame))" "gh_msg_type out = frame ! 1"
proof -
  let ?D = "wire_declared frame"
  let ?out0 = "(wire_optional frame)\<lparr> gh_has_ext := True \<rparr>"
  have pre: "8 \<le> length frame" "8 + ?D \<le> length frame"
    using assms by (auto simp: parse_gtpu_cascade split: if_splits)
  obtain st out c where r: "ext_loop (take (?D - 4) (drop 12 frame)) (frame ! 11) 0 ?out0 0
        = Some (st, out, c)" and c: "c \<le> 1020 * 16" "4 dvd c" "c \<le> ?D - 4" "same_mandatory ?out0 out"
      "st = GtpuStatus_kOk \<longrightarrow> unat (gh_ext_count out) \<le> 16"
    using ext_loop_spec [of 0 0 "take (?D - 4) (drop 12 frame)" "frame ! 11" ?out0] by auto
  have teid: "gh_teid (wire_mandatory frame) = be_val (take 4 (drop 4 frame))"
    "gh_msg_type (wire_mandatory frame) = frame ! 1"
    "gh_teid (wire_optional frame) = be_val (take 4 (drop 4 frame))"
    "gh_msg_type (wire_optional frame) = frame ! 1"
    by (simp_all add: wire_mandatory_def wire_optional_def)
  consider
      (plain) "h = accept frame (wire_mandatory frame) 8 ?D"
    | (optional) "4 \<le> ?D" "h = accept frame (wire_optional frame) 12 (?D - 4)"
    | (chain) "4 \<le> ?D" "st = GtpuStatus_kOk" "h = accept frame out (12 + c) (?D - 4 - c)"
    using assms r by (auto simp: parse_gtpu_cascade split: if_splits)
  then show ?thesis
  proof cases
    case plain
    then show ?thesis using pre teid by (intro that [of "wire_mandatory frame" 8]) simp_all
  next
    case optional
    then show ?thesis using pre teid by (intro that [of "wire_optional frame" 12]) simp_all
  next
    case chain
    then show ?thesis
      using pre c teid
      by (intro that [of out "12 + c"]) (auto simp: same_mandatory_def dvd_add)
  qed
qed

subsection \<open>Properties\<close>

lemma parse_gtpu_returns: "\<exists>st h. parse_gtpu frame = Some (st, h)"
  using ext_loop_spec [of 0 0 "take (wire_declared frame - 4) (drop 12 frame)" "frame ! 11"
      "(wire_optional frame)\<lparr> gh_has_ext := True \<rparr>"]
  by (auto simp: parse_gtpu_cascade)

text \<open>
  C12: whatever bytes the frame holds, the parser returns a status and reads no byte outside the
  frame.
\<close>

theorem parse_gtpu_memory_safe: "\<exists>st h. parse_gtpu frame = Some (st, h)"
  by (rule parse_gtpu_returns)

text \<open>
  C11: the payload of an accepted PDU is exactly the bytes from the end of the header and the
  extension chain to the end declared by the Length field: header and payload together are the 8
  mandatory bytes plus the declared length, the view lies inside the frame, the 16-bit
  \<^verbatim>\<open>header_len\<close> is the true offset (never truncated), and the chain had at most 16 links.
\<close>

theorem parse_gtpu_payload_exact:
  assumes "parse_gtpu frame = Some (GtpuStatus_kOk, h)"
  shows "gh_payload h = take (length (gh_payload h)) (drop (unat (gh_header_len h)) frame) \<and>
    unat (gh_header_len h) + length (gh_payload h) = 8 + unat (gh_declared_len h) \<and>
    8 + unat (gh_declared_len h) \<le> length frame \<and>
    8 \<le> unat (gh_header_len h) \<and> unat (gh_header_len h) \<le> 16332 \<and> 4 dvd unat (gh_header_len h) \<and>
    unat (gh_ext_count h) \<le> kGtpuMaxExtHeaders"
proof -
  obtain out off where *: "h = accept frame out off (8 + wire_declared frame - off)"
    "8 \<le> off" "off \<le> 8 + wire_declared frame" "off \<le> 12 + 16 * 1020" "4 dvd off"
    "8 + wire_declared frame \<le> length frame"
    "unat (gh_declared_len out) = wire_declared frame" "unat (gh_ext_count out) \<le> 16"
    using assms by (rule parse_gtpu_accepted)
  moreover have "unat (of_nat off :: u16) = off" using *(4) by (intro gtpu_of_nat_len) simp
  ultimately show ?thesis by simp
qed

definition gtpu_sample :: bytes where
  "gtpu_sample = [0x34, 255, 0, 10, 0, 0, 0x10, 0, 0, 7, 0, 0x85, 1, 0x10, 0x05, 0, 0xAA, 0xBB]"

lemma gtpu_sample_parse:
  "parse_gtpu gtpu_sample = Some (GtpuStatus_kOk, \<lparr> gh_payload = [0xAA, 0xBB], gh_teid = 0x1000,
     gh_seq = 7, gh_header_len = 16, gh_declared_len = 10, gh_msg_type = 255, gh_npdu = 0,
     gh_qfi = 5, gh_pdu_type = 1, gh_ext_count = 1, gh_has_seq = False, gh_has_npdu = False,
     gh_has_ext = True, gh_has_qfi = True, gh_rqi = False \<rparr>)"
  by code_simp

theorem parse_gtpu_payload_exact_witness:
  "\<exists>h. parse_gtpu gtpu_sample = Some (GtpuStatus_kOk, h) \<and>
       unat (gh_header_len h) + length (gh_payload h) = 8 + unat (gh_declared_len h) \<and>
       length (gh_payload h) = 2"
  using parse_gtpu_payload_exact [OF gtpu_sample_parse] gtpu_sample_parse
  by (simp add: gtpu_sample_def)

text \<open>Frames that agree up to the declared end of the PDU are parsed alike.\<close>

lemma wire_agree:
  assumes "take n f = take n g" and "n \<le> length f" and "n \<le> length g"
  shows "i < n \<Longrightarrow> f ! i = g ! i"
    and "i + k \<le> n \<Longrightarrow> take k (drop i f) = take k (drop i g)"
proof -
  show "i < n \<Longrightarrow> f ! i = g ! i"
    using assms(1) by (metis nth_take)
  have "take k (drop i xs) = take k (drop i (take n xs))" if "i + k \<le> n" for xs :: "'a list"
    using that by (simp add: drop_take min_def)
  then show "i + k \<le> n \<Longrightarrow> take k (drop i f) = take k (drop i g)"
    using assms(1) by metis
qed

lemma parse_gtpu_agree:
  assumes "take n f = take n g" and "n \<le> length f" and "n \<le> length g"
    and "n = 8 + wire_declared f"
  shows "parse_gtpu f = parse_gtpu g"
proof -
  note ag = wire_agree [OF assms(1-3)]
  have "be_val (take 2 (drop 2 f)) = (be_val (take 2 (drop 2 g)) :: u16)"
    using ag(2) [of 2 2] assms(4) by simp
  then have D: "wire_declared g = wire_declared f" by (simp add: wire_declared_def)
  have b: "f ! 0 = g ! 0" "f ! 1 = g ! 1" using ag(1) assms(4) by simp_all
  have m: "wire_mandatory f = wire_mandatory g"
    using ag(2) [of 2 2] ag(2) [of 4 4] b assms(4) by (simp add: wire_mandatory_def)
  have o: "wire_optional f = wire_optional g" "f ! 11 = g ! 11" if "4 \<le> wire_declared f"
    using ag(1) [of 10] ag(1) [of 11] ag(2) [of 8 2] b m assms(4) that
    by (simp_all add: wire_optional_def)
  have a: "accept f out off (8 + wire_declared f - off) = accept g out off (8 + wire_declared f - off)"
    if "off \<le> 8 + wire_declared f" for out off
    using ag(2) [of off "8 + wire_declared f - off"] assms(4) that by (simp add: accept_def)
  show ?thesis
  proof (cases "4 \<le> wire_declared f")
    case False
    then show ?thesis
      using assms(2-4) D b m a [of 8 "wire_mandatory g"]
      by (simp add: parse_gtpu_cascade has_optional_def)
  next
    case True
    have area: "take (wire_declared f - 4) (drop 12 f) = take (wire_declared f - 4) (drop 12 g)"
      using ag(2) [of 12 "wire_declared f - 4"] True assms(4) by simp
    obtain st out c where r: "ext_loop (take (wire_declared f - 4) (drop 12 g)) (g ! 11) 0
        ((wire_optional g)\<lparr> gh_has_ext := True \<rparr>) 0 = Some (st, out, c)"
      and c: "c \<le> wire_declared f - 4"
      using ext_loop_spec [of 0 0 "take (wire_declared f - 4) (drop 12 g)" "g ! 11"
          "(wire_optional g)\<lparr> gh_has_ext := True \<rparr>"] by auto
    have "accept f out (12 + c) (wire_declared f - 4 - c) = accept g out (12 + c) (wire_declared f - 4 - c)"
      using a [of "12 + c" out] c True by (simp add: diff_diff_add add.commute)
    then show ?thesis
      using True assms(2-4) D b m o r area a [of 8 "wire_mandatory g"] a [of 12 "wire_optional g"]
      by (simp add: parse_gtpu_cascade has_optional_def has_chain_def)
  qed
qed

text \<open>
  C23: a PDU is delimited by its own Length field. Cutting an accepted frame anywhere before the
  declared end is reported as truncation, never parsed as a shorter packet, and bytes after the
  declared end (Ethernet padding, the next PDU) change nothing.
\<close>

theorem parse_gtpu_delimited:
  assumes "parse_gtpu frame = Some (GtpuStatus_kOk, h)"
  shows "(\<forall>n < 8 + unat (gh_declared_len h). \<exists>h'. parse_gtpu (take n frame) = Some (GtpuStatus_kTruncated, h')) \<and>
    (\<forall>pad. parse_gtpu (take (8 + unat (gh_declared_len h)) frame @ pad) = Some (GtpuStatus_kOk, h))"
proof -
  have D: "unat (gh_declared_len h) = wire_declared frame"
    and len: "8 + wire_declared frame \<le> length frame"
    by (rule parse_gtpu_accepted [OF assms]; simp)+
  have flags: "drop_bit 5 (frame ! 0) = 1" "frame ! 0 AND 0x10 \<noteq> 0"
    using assms by (auto simp: parse_gtpu_cascade split: if_splits)
  have "\<exists>h'. parse_gtpu (take n frame) = Some (GtpuStatus_kTruncated, h')"
    if n: "n < 8 + wire_declared frame" for n
  proof (cases "n < 8")
    case True
    then show ?thesis by (simp add: parse_gtpu_cascade)
  next
    case False
    then have "wire_declared (take n frame) = wire_declared frame"
      by (simp add: wire_declared_def drop_take min_def)
    then show ?thesis
      using False n len flags by (simp add: parse_gtpu_cascade)
  qed
  moreover have "parse_gtpu (take (8 + wire_declared frame) frame @ pad) = Some (GtpuStatus_kOk, h)" for pad
    using parse_gtpu_agree [of "8 + wire_declared frame" frame
        "take (8 + wire_declared frame) frame @ pad"] len assms by simp
  ultimately show ?thesis by (simp add: D)
qed

theorem parse_gtpu_delimited_witness:
  "\<exists>h'. parse_gtpu (take 17 gtpu_sample) = Some (GtpuStatus_kTruncated, h')"
  using parse_gtpu_delimited [OF gtpu_sample_parse] by simp

text \<open>
  C28: which input gets which early rejection, and that an extension header that runs past the end
  of the PDU is reported as truncation; only a zero length octet is a bad extension header.
\<close>

theorem parse_gtpu_rejections:
  "(length frame < 8 \<longrightarrow> parse_gtpu frame = Some (GtpuStatus_kTruncated, GtpuHeader_init)) \<and>
   (8 \<le> length frame \<and> drop_bit 5 (frame ! 0) \<noteq> 1 \<longrightarrow>
      parse_gtpu frame = Some (GtpuStatus_kBadVersion, GtpuHeader_init)) \<and>
   (8 \<le> length frame \<and> drop_bit 5 (frame ! 0) = 1 \<and> frame ! 0 AND 0x10 = 0 \<longrightarrow>
      parse_gtpu frame = Some (GtpuStatus_kNotGtpU, GtpuHeader_init)) \<and>
   (8 + wire_declared frame \<le> length frame \<and> drop_bit 5 (frame ! 0) = 1 \<and> frame ! 0 AND 0x10 \<noteq> 0 \<and>
    frame ! 0 AND 0x04 \<noteq> 0 \<and> frame ! 11 \<noteq> 0 \<and> 5 \<le> wire_declared frame \<longrightarrow>
      (frame ! 12 = 0 \<longrightarrow> (\<exists>h. parse_gtpu frame = Some (GtpuStatus_kBadExtHeader, h))) \<and>
      (wire_declared frame < 4 + unat (frame ! 12) * 4 \<and> frame ! 12 \<noteq> 0 \<longrightarrow>
         (\<exists>h. parse_gtpu frame = Some (GtpuStatus_kTruncated, h))))"
proof (intro conjI impI)
  assume a: "8 + wire_declared frame \<le> length frame \<and> drop_bit 5 (frame ! 0) = 1 \<and>
    frame ! 0 AND 0x10 \<noteq> 0 \<and> frame ! 0 AND 0x04 \<noteq> 0 \<and> frame ! 11 \<noteq> 0 \<and> 5 \<le> wire_declared frame"
  let ?area = "take (wire_declared frame - 4) (drop 12 frame)"
  let ?out = "(wire_optional frame)\<lparr> gh_has_ext := True \<rparr>"
  have "wire_declared frame - 4 \<le> length frame - 12" using a by linarith
  then have area: "length ?area = wire_declared frame - 4" "?area ! 0 = frame ! 12" "0 < length ?area"
    using a by (simp_all add: min_absorb2)
  show "\<exists>h. parse_gtpu frame = Some (GtpuStatus_kBadExtHeader, h)" if "frame ! 12 = 0"
  proof -
    have "ext_loop ?area (frame ! 11) 0 ?out 0 = Some (GtpuStatus_kBadExtHeader, ?out, 0)"
      using a area that by (subst ext_loop_step) simp
    with a show ?thesis by (simp add: parse_gtpu_cascade has_optional_def has_chain_def)
  qed
  show "\<exists>h. parse_gtpu frame = Some (GtpuStatus_kTruncated, h)"
    if "wire_declared frame < 4 + unat (frame ! 12) * 4 \<and> frame ! 12 \<noteq> 0"
  proof -
    have "ext_loop ?area (frame ! 11) 0 ?out 0 = Some (GtpuStatus_kTruncated, ?out, 0)"
      using a area that by (subst ext_loop_step) (auto simp: Let_def)
    with a show ?thesis by (simp add: parse_gtpu_cascade has_optional_def has_chain_def)
  qed
qed (simp_all add: parse_gtpu_cascade)

theorem parse_gtpu_rejections_witness:
  "\<exists>h. parse_gtpu [0x34, 255, 0, 8, 0, 0, 0, 1, 0, 0, 0, 0x85, 9, 0, 0, 0] = Some (GtpuStatus_kTruncated, h)"
  using parse_gtpu_rejections [of "[0x34, 255, 0, 8, 0, 0, 0, 1, 0, 0, 0, 0x85, 9, 0, 0, 0]"]
  by (simp add: wire_declared_def be_val_def)

end
