(* ===== verification/Net.thy ===== *)
theory Net
  imports Byte_Order "HOL-Library.Sublist"
begin

text \<open>
  \<^verbatim>\<open>include/gtpm/net.hpp\<close>: Ethernet and VLAN stripping, IPv4 and IPv6 with TCP, UDP and SCTP,
  and the 64-bit flow key. The same decoder runs on the outer headers and on the packet inside
  the tunnel.

  A struct returned with \<^verbatim>\<open>valid == false\<close> keeps the values the code had set so far. The loops over
  VLAN tags and IPv6 extension headers recurse on the iterations left, as the \<^verbatim>\<open>for\<close> loops of the
  code do. The lemmas show that no decoder reads outside the packet, and that every view a decoder
  returns lies inside its input.
\<close>

subsection \<open>Constants\<close>

abbreviation (input) kEthHeaderLen :: nat where "kEthHeaderLen \<equiv> 14"
abbreviation (input) kVlanTagLen :: nat where "kVlanTagLen \<equiv> 4"
abbreviation (input) kEtherTypeIpv4 :: u16 where "kEtherTypeIpv4 \<equiv> 0x0800"
abbreviation (input) kEtherTypeIpv6 :: u16 where "kEtherTypeIpv6 \<equiv> 0x86DD"
abbreviation (input) kEtherTypeVlan :: u16 where "kEtherTypeVlan \<equiv> 0x8100"
abbreviation (input) kEtherTypeQinQ :: u16 where "kEtherTypeQinQ \<equiv> 0x88A8"
abbreviation (input) kMaxVlanTags :: nat where "kMaxVlanTags \<equiv> 2"
abbreviation (input) kMaxIpv6ExtHeaders :: nat where "kMaxIpv6ExtHeaders \<equiv> 8"

datatype IpProto =
    kHopByHop | kIcmp | kTcp | kUdp | kIpv6Route | kIpv6Frag | kEsp | kAh | kIcmpv6
  | kIpv6NoNext | kIpv6Dest | kSctp

primrec ip_proto_code :: "IpProto \<Rightarrow> u8" where
  "ip_proto_code kHopByHop = 0"
| "ip_proto_code kIcmp = 1"
| "ip_proto_code kTcp = 6"
| "ip_proto_code kUdp = 17"
| "ip_proto_code kIpv6Route = 43"
| "ip_proto_code kIpv6Frag = 44"
| "ip_proto_code kEsp = 50"
| "ip_proto_code kAh = 51"
| "ip_proto_code kIcmpv6 = 58"
| "ip_proto_code kIpv6NoNext = 59"
| "ip_proto_code kIpv6Dest = 60"
| "ip_proto_code kSctp = 132"

subsection \<open>Decoded packets\<close>

text \<open>An \<^verbatim>\<open>IpAddr\<close> is 16 bytes; an IPv4 address occupies the first four.\<close>

record FiveTuple =
  ft_src :: bytes
  ft_dst :: bytes
  ft_src_port :: u16
  ft_dst_port :: u16
  ft_proto :: u8
  ft_ip_version :: u8
  ft_fragmented :: bool
  ft_ports_valid :: bool

definition FiveTuple_init :: FiveTuple where
  "FiveTuple_init = \<lparr> ft_src = replicate 16 0, ft_dst = replicate 16 0, ft_src_port = 0,
     ft_dst_port = 0, ft_proto = 0, ft_ip_version = 0, ft_fragmented = False,
     ft_ports_valid = False \<rparr>"

definition five_tuple_eq :: "FiveTuple \<Rightarrow> FiveTuple \<Rightarrow> bool" where
  "five_tuple_eq t u \<longleftrightarrow> ft_src t = ft_src u \<and> ft_dst t = ft_dst u \<and>
     ft_src_port t = ft_src_port u \<and> ft_dst_port t = ft_dst_port u \<and>
     ft_proto t = ft_proto u \<and> ft_ip_version t = ft_ip_version u"

definition src_v4 :: "FiveTuple \<Rightarrow> u32 option" where
  "src_v4 t = load_be32 (ft_src t) 0"

definition dst_v4 :: "FiveTuple \<Rightarrow> u32 option" where
  "dst_v4 t = load_be32 (ft_dst t) 0"

record IpPacket =
  ip_tuple :: FiveTuple
  ip_l4_payload :: bytes
  ip_total_len :: u32
  ip_l3_header_len :: u16
  ip_l4_header_len :: u16
  ip_valid :: bool

definition IpPacket_init :: IpPacket where
  "IpPacket_init = \<lparr> ip_tuple = FiveTuple_init, ip_l4_payload = [], ip_total_len = 0,
     ip_l3_header_len = 0, ip_l4_header_len = 0, ip_valid = False \<rparr>"

record EthFrame =
  eth_payload :: bytes
  eth_ethertype :: u16
  eth_vlan_tags :: u8
  eth_valid :: bool

definition EthFrame_init :: EthFrame where
  "EthFrame_init = \<lparr> eth_payload = [], eth_ethertype = 0, eth_vlan_tags = 0, eth_valid = False \<rparr>"

subsection \<open>Ethernet\<close>

definition finish_ethernet :: "bytes \<Rightarrow> nat \<Rightarrow> u16 \<Rightarrow> EthFrame \<Rightarrow> EthFrame option" where
  "finish_ethernet frame off ethertype out = do {
     payload \<leftarrow> subspan_from frame off;
     Some (out\<lparr> eth_ethertype := ethertype, eth_payload := payload, eth_valid := True \<rparr>) }"

fun vlan_loop :: "nat \<Rightarrow> bytes \<Rightarrow> nat \<Rightarrow> u16 \<Rightarrow> EthFrame \<Rightarrow> EthFrame option" where
  "vlan_loop 0 frame off ethertype out = finish_ethernet frame off ethertype out"
| "vlan_loop (Suc left) frame off ethertype out =
     (if ethertype \<noteq> kEtherTypeVlan \<and> ethertype \<noteq> kEtherTypeQinQ
      then finish_ethernet frame off ethertype out
      else if off + kVlanTagLen > length frame then Some out
      else do {
        ethertype \<leftarrow> load_be16 frame (off + 2);
        vlan_loop left frame (off + kVlanTagLen) ethertype
          (out\<lparr> eth_vlan_tags := eth_vlan_tags out + 1 \<rparr>) })"

definition parse_ethernet :: "bytes \<Rightarrow> EthFrame option" where
  "parse_ethernet frame = (
     if length frame < kEthHeaderLen then Some EthFrame_init
     else do {
       ethertype \<leftarrow> load_be16 frame 12;
       vlan_loop kMaxVlanTags frame (12 + 2) ethertype EthFrame_init })"

subsection \<open>Transport headers\<close>

definition set_ports :: "u16 \<Rightarrow> u16 \<Rightarrow> IpPacket \<Rightarrow> IpPacket" where
  "set_ports sp dp out = out\<lparr> ip_tuple := (ip_tuple out)\<lparr> ft_src_port := sp, ft_dst_port := dp,
     ft_ports_valid := True \<rparr> \<rparr>"

definition parse_l4 :: "bytes \<Rightarrow> IpPacket \<Rightarrow> IpPacket option" where
  "parse_l4 l4 out = (
     let proto = ft_proto (ip_tuple out) in
     if proto = ip_proto_code kUdp then
       if length l4 < 8 then Some out
       else do {
         sp \<leftarrow> load_be16 l4 0; dp \<leftarrow> load_be16 l4 2;
         rest \<leftarrow> subspan_from l4 8;
         Some ((set_ports sp dp out)\<lparr> ip_l4_header_len := 8, ip_l4_payload := rest \<rparr>) }
     else if proto = ip_proto_code kTcp then
       if length l4 < 20 then Some out
       else do {
         sp \<leftarrow> load_be16 l4 0; dp \<leftarrow> load_be16 l4 2;
         let out = set_ports sp dp out;
         b \<leftarrow> at_index l4 12;
         let doff = unat (drop_bit 4 b) * 4;
         if doff < 20 \<or> doff > length l4 then Some out
         else do {
           rest \<leftarrow> subspan_from l4 doff;
           Some (out\<lparr> ip_l4_header_len := of_nat doff, ip_l4_payload := rest \<rparr>) } }
     else if proto = ip_proto_code kSctp then
       if length l4 < 12 then Some out
       else do {
         sp \<leftarrow> load_be16 l4 0; dp \<leftarrow> load_be16 l4 2;
         rest \<leftarrow> subspan_from l4 12;
         Some ((set_ports sp dp out)\<lparr> ip_l4_header_len := 12, ip_l4_payload := rest \<rparr>) }
     else Some out)"

subsection \<open>IPv4\<close>

text \<open>\<^verbatim>\<open>memcpy\<close> of \<open>n\<close> bytes of the packet into the front of a 16-byte address.\<close>

definition copy_addr :: "bytes \<Rightarrow> nat \<Rightarrow> nat \<Rightarrow> bytes option" where
  "copy_addr pkt off n = do {
     a \<leftarrow> subspan pkt off n;
     Some (a @ replicate (16 - n) 0) }"

definition parse_ipv4 :: "bytes \<Rightarrow> IpPacket option" where
  "parse_ipv4 pkt = (
     let out = IpPacket_init in
     if length pkt < 20 then Some out
     else do {
       b0 \<leftarrow> at_index pkt 0;
       if drop_bit 4 b0 \<noteq> 4 then Some out
       else do {
         let ihl = unat (b0 AND 0x0F) * 4;
         if ihl < 20 \<or> ihl > length pkt then Some out
         else do {
           total_len \<leftarrow> load_be16 pkt 2;
           if unat total_len < ihl then Some out
           else do {
             frag \<leftarrow> load_be16 pkt 6;
             let more_frags = (frag AND 0x2000 \<noteq> 0);
             let frag_off = frag AND 0x1FFF;
             proto \<leftarrow> at_index pkt 9;
             src \<leftarrow> copy_addr pkt 12 4;
             dst \<leftarrow> copy_addr pkt 16 4;
             let out = out\<lparr> ip_tuple := (ip_tuple out)\<lparr> ft_ip_version := 4, ft_proto := proto,
                               ft_fragmented := (more_frags \<or> frag_off \<noteq> 0), ft_src := src, ft_dst := dst \<rparr>,
                            ip_l3_header_len := of_nat ihl, ip_total_len := ucast total_len,
                            ip_valid := True \<rparr>;
             let declared_payload = unat total_len - ihl;
             let avail = length pkt - ihl;
             l4 \<leftarrow> subspan pkt ihl (if declared_payload < avail then declared_payload else avail);
             if frag_off = 0 then parse_l4 l4 out else Some out } } } })"

subsection \<open>IPv6\<close>

definition is_ipv6_ext :: "u8 \<Rightarrow> bool" where
  "is_ipv6_ext nxt \<longleftrightarrow> nxt = ip_proto_code kHopByHop \<or> nxt = ip_proto_code kIpv6Route \<or>
     nxt = ip_proto_code kIpv6Dest \<or> nxt = ip_proto_code kAh \<or> nxt = ip_proto_code kIpv6Frag"

definition set_proto :: "u8 \<Rightarrow> IpPacket \<Rightarrow> IpPacket" where
  "set_proto p out = out\<lparr> ip_tuple := (ip_tuple out)\<lparr> ft_proto := p \<rparr> \<rparr>"

definition finish_ipv6 :: "bytes \<Rightarrow> nat \<Rightarrow> u8 \<Rightarrow> nat \<Rightarrow> IpPacket \<Rightarrow> IpPacket option" where
  "finish_ipv6 pkt lim nxt off out = (
     let out = (set_proto nxt out)\<lparr> ip_l3_header_len := of_nat off \<rparr> in
     if off \<le> lim then do { l4 \<leftarrow> subspan pkt off (lim - off); parse_l4 l4 out } else Some out)"

fun ipv6_loop :: "nat \<Rightarrow> bytes \<Rightarrow> nat \<Rightarrow> u8 \<Rightarrow> nat \<Rightarrow> IpPacket \<Rightarrow> IpPacket option" where
  "ipv6_loop 0 pkt lim nxt off out = finish_ipv6 pkt lim nxt off out"
| "ipv6_loop (Suc left) pkt lim nxt off out =
     (if \<not> is_ipv6_ext nxt then finish_ipv6 pkt lim nxt off out
      else if off + 8 > lim then Some (set_proto nxt out)
      else if nxt = ip_proto_code kIpv6Frag then do {
        frag \<leftarrow> load_be16 pkt (off + 2);
        let out = out\<lparr> ip_tuple := (ip_tuple out)\<lparr> ft_fragmented := (frag AND 0xFFF9 \<noteq> 0) \<rparr> \<rparr>;
        let first_frag = (frag AND 0xFFF8 = 0);
        nxt \<leftarrow> at_index pkt off;
        if \<not> first_frag then Some ((set_proto nxt out)\<lparr> ip_l3_header_len := of_nat (off + 8) \<rparr>)
        else ipv6_loop left pkt lim nxt (off + 8) out }
      else do {
        b1 \<leftarrow> at_index pkt (off + 1);
        let ext_len = (if nxt = ip_proto_code kAh then (unat b1 + 2) * 4 else (unat b1 + 1) * 8);
        if off + ext_len > lim then Some (set_proto nxt out)
        else do {
          nxt \<leftarrow> at_index pkt off;
          ipv6_loop left pkt lim nxt (off + ext_len) out } })"

definition parse_ipv6 :: "bytes \<Rightarrow> IpPacket option" where
  "parse_ipv6 pkt = (
     let out = IpPacket_init in
     if length pkt < 40 then Some out
     else do {
       b0 \<leftarrow> at_index pkt 0;
       if drop_bit 4 b0 \<noteq> 6 then Some out
       else do {
         payload_len \<leftarrow> load_be16 pkt 4;
         src \<leftarrow> copy_addr pkt 8 16;
         dst \<leftarrow> copy_addr pkt 24 16;
         let out = out\<lparr> ip_tuple := (ip_tuple out)\<lparr> ft_ip_version := 6, ft_src := src, ft_dst := dst \<rparr>,
                        ip_l3_header_len := 40, ip_total_len := 40 + ucast payload_len, ip_valid := True \<rparr>;
         let declared = 40 + unat payload_len;
         let lim = (if declared < length pkt then declared else length pkt);
         nxt \<leftarrow> at_index pkt 6;
         ipv6_loop kMaxIpv6ExtHeaders pkt lim nxt 40 out } })"

definition parse_ip :: "bytes \<Rightarrow> IpPacket option" where
  "parse_ip pkt = (
     if pkt = [] then Some IpPacket_init
     else do {
       b0 \<leftarrow> at_index pkt 0;
       let version = drop_bit 4 b0;
       if version = 4 then parse_ipv4 pkt
       else if version = 6 then parse_ipv6 pkt
       else Some IpPacket_init })"

subsection \<open>The flow key\<close>

definition fnv_mix :: "u64 \<Rightarrow> u8 \<Rightarrow> u64" where
  "fnv_mix h b = (h XOR ucast b) * 1099511628211"

definition flow_bytes :: "FiveTuple \<Rightarrow> bytes" where
  "flow_bytes t = (let addr_len = (if ft_ip_version t = 6 then 16 else 4) in
     take addr_len (ft_src t) @ take addr_len (ft_dst t) @
     [ucast (drop_bit 8 (ft_src_port t)), ucast (ft_src_port t),
      ucast (drop_bit 8 (ft_dst_port t)), ucast (ft_dst_port t),
      ft_proto t, ft_ip_version t])"

definition flow_key :: "FiveTuple \<Rightarrow> u64" where
  "flow_key t = foldl fnv_mix 1469598103934665603 (flow_bytes t)"

subsection \<open>Ethernet: the payload view\<close>

lemma vlan_loop_spec:
  assumes "off \<le> length frame" "off = 14 + 4 * unat (eth_vlan_tags out)"
    and "unat (eth_vlan_tags out) + left = 2" "\<not> eth_valid out" "eth_payload out = []"
  shows "\<exists>e. vlan_loop left frame off ethertype out = Some e \<and> unat (eth_vlan_tags e) \<le> 2 \<and>
    (eth_valid e \<longrightarrow> 14 + 4 * unat (eth_vlan_tags e) \<le> length frame \<and>
       eth_payload e = drop (14 + 4 * unat (eth_vlan_tags e)) frame) \<and>
    (\<not> eth_valid e \<longrightarrow> eth_payload e = [])"
  using assms
proof (induction left arbitrary: off ethertype out)
  case 0
  then show ?case by (simp add: finish_ethernet_def span_simps)
next
  case (Suc left)
  have tag: "unat (eth_vlan_tags out + 1) = Suc (unat (eth_vlan_tags out))"
    using Suc.prems(3) by (intro unat_add_one) auto
  show ?case
  proof (cases "ethertype \<noteq> kEtherTypeVlan \<and> ethertype \<noteq> kEtherTypeQinQ")
    case True
    then show ?thesis using Suc.prems by (simp add: finish_ethernet_def span_simps)
  next
    case False
    show ?thesis
    proof (cases "off + 4 > length frame")
      case True
      then show ?thesis using False Suc.prems by (intro exI [of _ out]) auto
    next
      case fits: False
      with False have "vlan_loop (Suc left) frame off ethertype out =
        vlan_loop left frame (off + 4) (be_val (take 2 (drop (off + 2) frame)))
          (out\<lparr> eth_vlan_tags := eth_vlan_tags out + 1 \<rparr>)"
        by (auto simp: load_in)
      then show ?thesis using Suc.IH [of "off + 4" "out\<lparr> eth_vlan_tags := eth_vlan_tags out + 1 \<rparr>"]
        Suc.prems fits tag by simp
    qed
  qed
qed

subsection \<open>The transport segment\<close>

text \<open>
  What a segment of a protocol shows on the wire: the protocols with ports have a shortest header, and a
  segment that reaches it has ports; its header is complete when its length field, for TCP, is
  at least that and within the segment.
\<close>

definition l4_min :: "u8 \<Rightarrow> nat option" where
  "l4_min proto = (if proto = ip_proto_code kUdp then Some 8 else if proto = ip_proto_code kTcp then Some 20
     else if proto = ip_proto_code kSctp then Some 12 else None)"

definition l4_ports :: "u8 \<Rightarrow> bytes \<Rightarrow> bool" where
  "l4_ports proto seg \<longleftrightarrow> (case l4_min proto of None \<Rightarrow> False | Some m \<Rightarrow> m \<le> length seg)"

definition l4_header :: "u8 \<Rightarrow> bytes \<Rightarrow> nat option" where
  "l4_header proto seg = (case l4_min proto of None \<Rightarrow> None
   | Some m \<Rightarrow> let n = (if proto = ip_proto_code kTcp then unat (drop_bit 4 (seg ! 12)) * 4 else m) in
       if m \<le> n \<and> n \<le> length seg then Some n else None)"

definition no_ports :: "FiveTuple \<Rightarrow> bool" where
  "no_ports t \<longleftrightarrow> \<not> ft_ports_valid t \<and> ft_src_port t = 0 \<and> ft_dst_port t = 0"

text \<open>A decoded packet shows the segment \<open>seg\<close>, or that it has none.\<close>

definition carries :: "bytes option \<Rightarrow> IpPacket \<Rightarrow> bool" where
  "carries seg p \<longleftrightarrow> (let t = ip_tuple p in case seg of
     None \<Rightarrow> no_ports t \<and> ip_l4_header_len p = 0 \<and> ip_l4_payload p = []
   | Some s \<Rightarrow>
       (if l4_ports (ft_proto t) s
        then ft_ports_valid t \<and> load_be16 s 0 = Some (ft_src_port t) \<and> load_be16 s 2 = Some (ft_dst_port t)
        else no_ports t) \<and>
       (case l4_header (ft_proto t) s of
          None \<Rightarrow> ip_l4_header_len p = 0 \<and> ip_l4_payload p = []
        | Some n \<Rightarrow> unat (ip_l4_header_len p) = n \<and> ip_l4_payload p = drop n s))"

definition same_l3 :: "IpPacket \<Rightarrow> IpPacket \<Rightarrow> bool" where
  "same_l3 p q \<longleftrightarrow> ip_total_len p = ip_total_len q \<and> ip_l3_header_len p = ip_l3_header_len q \<and>
     ip_valid p = ip_valid q \<and> ft_src (ip_tuple p) = ft_src (ip_tuple q) \<and>
     ft_dst (ip_tuple p) = ft_dst (ip_tuple q) \<and> ft_proto (ip_tuple p) = ft_proto (ip_tuple q) \<and>
     ft_ip_version (ip_tuple p) = ft_ip_version (ip_tuple q) \<and>
     ft_fragmented (ip_tuple p) = ft_fragmented (ip_tuple q)"

lemma same_l3_refl [simp]: "same_l3 p p"
  by (simp add: same_l3_def)

lemma l4_other:
  "l4_min proto = None \<Longrightarrow> proto \<noteq> 17 \<and> proto \<noteq> 6 \<and> proto \<noteq> 132"
  by (auto simp: l4_min_def split: if_splits)

lemma carries_unread:
  assumes "carries None out" "\<not> l4_ports (ft_proto (ip_tuple out)) s"
  shows "carries (Some s) out"
  using assms by (auto simp: carries_def l4_ports_def l4_header_def Let_def split: option.splits)

lemma parse_l4_exact:
  assumes "carries None out"
  shows "\<exists>p. parse_l4 s out = Some p \<and> same_l3 p out \<and> carries (Some s) p"
proof (cases "l4_ports (ft_proto (ip_tuple out)) s")
  case False
  then have "parse_l4 s out = Some out"
    by (auto simp: parse_l4_def l4_ports_def l4_min_def Let_def split: if_splits)
  then show ?thesis using carries_unread [OF assms False] by simp
next
  case True
  let ?proto = "ft_proto (ip_tuple out)"
  let ?q = "set_ports (be_val (take 2 s)) (be_val (take 2 (drop 2 s))) out"
  let ?doff = "unat (drop_bit 4 (s ! 12)) * 4"
  have "?doff < 65536" using unat_u8_less [of "drop_bit 4 (s ! 12)"] by linarith
  then have doff: "unat (word_of_nat ?doff :: u16) = ?doff" by (intro unat_of_nat_less) simp
  consider "?proto = 17" "8 \<le> length s" | "?proto = 6" "20 \<le> length s" | "?proto = 132" "12 \<le> length s"
    using True by (auto simp: l4_ports_def l4_min_def split: if_splits)
  then show ?thesis
  proof cases
    case 2
    then have "parse_l4 s out = Some (if ?doff < 20 \<or> ?doff > length s then ?q
        else ?q\<lparr> ip_l4_header_len := of_nat ?doff, ip_l4_payload := drop ?doff s \<rparr>)"
      by (simp add: parse_l4_def Let_def span_simps)
    then show ?thesis using 2 True assms doff
      by (simp add: carries_def l4_header_def l4_min_def set_ports_def same_l3_def load_in Let_def)
  qed (use True assms in \<open>simp_all add: parse_l4_def carries_def l4_header_def l4_min_def set_ports_def same_l3_def span_simps Let_def\<close>)
qed

subsection \<open>IPv4 and IPv6\<close>

lemma at_index_0: "\<not> length xs < n \<Longrightarrow> 0 < n \<Longrightarrow> at_index xs 0 = Some (xs ! 0)"
  by (auto simp: at_index_def)

lemma copy_addr_in [span_simps]:
  "off + n \<le> length pkt \<Longrightarrow> copy_addr pkt off n = Some (take n (drop off pkt) @ replicate (16 - n) 0)"
  by (simp add: copy_addr_def subspan_in)

text \<open>The packets the decoders accept, read off the wire.\<close>

definition ipv4_header_ok :: "bytes \<Rightarrow> bool" where
  "ipv4_header_ok pkt \<longleftrightarrow> (let ihl = unat (pkt ! 0 AND 0x0F) * 4 in
     20 \<le> length pkt \<and> drop_bit 4 (pkt ! 0) = 4 \<and> 20 \<le> ihl \<and> ihl \<le> length pkt \<and>
     ihl \<le> unat (be_val (take 2 (drop 2 pkt)) :: u16))"

definition ipv6_header_ok :: "bytes \<Rightarrow> bool" where
  "ipv6_header_ok pkt \<longleftrightarrow> 40 \<le> length pkt \<and> drop_bit 4 (pkt ! 0) = 6"

text \<open>
  Every field of an accepted IPv4 packet. The segment is what follows the header, cut at the declared length and
  at the capture; only a first fragment has one.
\<close>

definition ipv4_layers :: "bytes \<Rightarrow> IpPacket \<Rightarrow> bool" where
  "ipv4_layers pkt p \<longleftrightarrow> (let t = ip_tuple p; ihl = unat (pkt ! 0 AND 0x0F) * 4;
       total = (be_val (take 2 (drop 2 pkt)) :: u16); frag = (be_val (take 2 (drop 6 pkt)) :: u16) in
     ft_ip_version t = 4 \<and> ft_proto t = pkt ! 9 \<and>
     ft_src t = take 4 (drop 12 pkt) @ replicate 12 0 \<and> ft_dst t = take 4 (drop 16 pkt) @ replicate 12 0 \<and>
     ft_fragmented t = (frag AND 0x2000 \<noteq> 0 \<or> frag AND 0x1FFF \<noteq> 0) \<and>
     unat (ip_l3_header_len p) = ihl \<and> unat (ip_total_len p) = unat total \<and>
     carries (if frag AND 0x1FFF = 0 then Some (drop ihl (take (unat total) pkt)) else None) p)"

lemma parse_ipv4_exact:
  "\<exists>p. parse_ipv4 pkt = Some p \<and> (if ipv4_header_ok pkt then ip_valid p \<and> ipv4_layers pkt p else p = IpPacket_init)"
proof -
  let ?ihl = "unat (pkt ! 0 AND 0x0F) * 4"
  let ?total = "be_val (take 2 (drop 2 pkt)) :: u16"
  let ?frag = "be_val (take 2 (drop 6 pkt)) :: u16"
  let ?out = "\<lparr> ip_tuple = FiveTuple_init\<lparr> ft_ip_version := 4, ft_proto := pkt ! 9,
      ft_fragmented := ?frag AND 0x2000 \<noteq> 0 \<or> ?frag AND 0x1FFF \<noteq> 0,
      ft_src := take 4 (drop 12 pkt) @ replicate 12 0, ft_dst := take 4 (drop 16 pkt) @ replicate 12 0 \<rparr>,
    ip_l4_payload = [], ip_total_len = ucast ?total, ip_l3_header_len = of_nat ?ihl,
    ip_l4_header_len = 0, ip_valid = True \<rparr>"
  show ?thesis
  proof (cases "ipv4_header_ok pkt")
    case False
    then have "parse_ipv4 pkt = Some IpPacket_init"
      by (cases "length pkt < 20") (auto simp: parse_ipv4_def ipv4_header_ok_def Let_def span_simps at_index_0)
    then show ?thesis using False by simp
  next
    case ok: True
    then have True: "20 \<le> length pkt \<and> drop_bit 4 (pkt ! 0) = 4 \<and> 20 \<le> ?ihl \<and> ?ihl \<le> length pkt \<and>
        ?ihl \<le> unat ?total" by (simp add: ipv4_header_ok_def Let_def)
    let ?seg = "drop ?ihl (take (unat ?total) pkt)"
    have small: "?ihl < 65536" using unat_u8_less [of "pkt ! 0 AND 0x0F"] by linarith
    have ihl: "unat (word_of_nat ?ihl :: u16) = ?ihl" by (rule unat_of_nat_less) (use small in simp)
    let ?n = "if unat ?total - ?ihl < length pkt - ?ihl then unat ?total - ?ihl else length pkt - ?ihl"
    have l4: "subspan pkt ?ihl ?n = Some ?seg" using True by (simp add: subspan_in drop_take)
    have b0: "at_index pkt 0 = Some (pkt ! 0)" by (rule at_index_0 [of _ 20]) (use True in simp_all)
    have fresh: "carries None ?out" by (simp add: carries_def no_ports_def FiveTuple_init_def)
    have step: "parse_ipv4 pkt = (if ?frag AND 0x1FFF = 0 then parse_l4 ?seg ?out else Some ?out)"
      using True by (simp add: parse_ipv4_def Let_def span_simps b0 l4 IpPacket_init_def cong: if_cong split del: if_split)
    obtain q where q: "parse_ipv4 pkt = Some q" "same_l3 q ?out" "carries (if ?frag AND 0x1FFF = 0 then Some ?seg else None) q"
      using parse_l4_exact [OF fresh, of ?seg] step fresh by (cases "?frag AND 0x1FFF = 0") auto
    have "ip_valid q" "ipv4_layers pkt q"
      using q(2,3) ihl by (simp_all add: same_l3_def ipv4_layers_def unat_ucast_up Let_def)
    then show ?thesis using q(1) ok by simp
  qed
qed

text \<open>
  The extension headers of an IPv6 packet, from the header \<open>nxt\<close> at \<open>off\<close> on, when at most \<open>left\<close> of them are
  followed: the walk ends at the upper-layer protocol, in a later fragment, or at a header that does not fit
  before \<open>lim\<close>. The flag says whether the packet is a fragment.
\<close>

datatype ext_end = Upper u8 nat bool | Later u8 nat bool | Cut u8 bool

definition ext_size :: "bytes \<Rightarrow> u8 \<Rightarrow> nat \<Rightarrow> nat" where
  "ext_size pkt nxt off = (if nxt = ip_proto_code kIpv6Frag then 8
     else if nxt = ip_proto_code kAh then (unat (pkt ! (off + 1)) + 2) * 4 else (unat (pkt ! (off + 1)) + 1) * 8)"

abbreviation (input) frag_word :: "bytes \<Rightarrow> nat \<Rightarrow> u16" where
  "frag_word pkt off \<equiv> be_val (take 2 (drop (off + 2) pkt))"

inductive ext_walk :: "bytes \<Rightarrow> nat \<Rightarrow> nat \<Rightarrow> u8 \<Rightarrow> nat \<Rightarrow> bool \<Rightarrow> ext_end \<Rightarrow> bool" for pkt lim where
  walk_upper: "left = 0 \<or> \<not> is_ipv6_ext nxt \<Longrightarrow> ext_walk pkt lim left nxt off fr (Upper nxt off fr)"
| walk_cut: "is_ipv6_ext nxt \<Longrightarrow> lim < off + 8 \<or> lim < off + ext_size pkt nxt off \<Longrightarrow>
    ext_walk pkt lim (Suc left) nxt off fr (Cut nxt fr)"
| walk_next: "is_ipv6_ext nxt \<Longrightarrow> nxt \<noteq> ip_proto_code kIpv6Frag \<Longrightarrow> off + 8 \<le> lim \<Longrightarrow> off + ext_size pkt nxt off \<le> lim \<Longrightarrow>
    ext_walk pkt lim left (pkt ! off) (off + ext_size pkt nxt off) fr w \<Longrightarrow> ext_walk pkt lim (Suc left) nxt off fr w"
| walk_first: "nxt = ip_proto_code kIpv6Frag \<Longrightarrow> off + 8 \<le> lim \<Longrightarrow> frag_word pkt off AND 0xFFF8 = 0 \<Longrightarrow>
    ext_walk pkt lim left (pkt ! off) (off + 8) (frag_word pkt off AND 0xFFF9 \<noteq> 0) w \<Longrightarrow> ext_walk pkt lim (Suc left) nxt off fr w"
| walk_later: "nxt = ip_proto_code kIpv6Frag \<Longrightarrow> off + 8 \<le> lim \<Longrightarrow> frag_word pkt off AND 0xFFF8 \<noteq> 0 \<Longrightarrow>
    ext_walk pkt lim (Suc left) nxt off fr (Later (pkt ! off) (off + 8) (frag_word pkt off AND 0xFFF9 \<noteq> 0))"

inductive_cases ext_walk_0: "ext_walk pkt lim 0 nxt off fr w"
inductive_cases ext_walk_Suc: "ext_walk pkt lim (Suc left) nxt off fr w"

lemma frag_header [simp]: "is_ipv6_ext 44" "ext_size pkt 44 off = 8"
  by (simp_all add: is_ipv6_ext_def ext_size_def)

lemma ext_walk_unique: "ext_walk pkt lim left nxt off fr w \<Longrightarrow> ext_walk pkt lim left nxt off fr w' \<Longrightarrow> w' = w"
proof (induction arbitrary: w' rule: ext_walk.induct)
  case (walk_upper left nxt off fr)
  from walk_upper.prems walk_upper.hyps show ?case
    by (cases left; hypsubst; elim ext_walk_0 ext_walk_Suc; simp)
next
  case (walk_cut nxt off left fr)
  from walk_cut.prems walk_cut.hyps show ?case by (elim ext_walk_Suc; simp; linarith)
next
  case (walk_next nxt off left fr w)
  from walk_next.prems walk_next.hyps(1-4) have "ext_walk pkt lim left (pkt ! off) (off + ext_size pkt nxt off) fr w'"
    by (elim ext_walk_Suc; simp)
  then show ?case by (rule walk_next.IH)
next
  case (walk_first nxt off left w fr)
  from walk_first.prems walk_first.hyps(1-3)
  have "ext_walk pkt lim left (pkt ! off) (off + 8) (frag_word pkt off AND 0xFFF9 \<noteq> 0) w'" by (elim ext_walk_Suc; simp)
  then show ?case by (rule walk_first.IH)
next
  case (walk_later nxt off left fr)
  from walk_later.prems walk_later.hyps show ?case by (elim ext_walk_Suc; simp)
qed

text \<open>How the end of the walk shows in the decoded packet, when the declared region is \<open>r\<close>.\<close>

definition shows_end :: "bytes \<Rightarrow> ext_end \<Rightarrow> IpPacket \<Rightarrow> bool" where
  "shows_end r w p \<longleftrightarrow> (case w of
     Upper proto off fr \<Rightarrow> ft_proto (ip_tuple p) = proto \<and> ft_fragmented (ip_tuple p) = fr \<and> unat (ip_l3_header_len p) = off \<and>
       carries (Some (drop off r)) p
   | Later proto off fr \<Rightarrow> ft_proto (ip_tuple p) = proto \<and> ft_fragmented (ip_tuple p) = fr \<and> unat (ip_l3_header_len p) = off \<and> carries None p
   | Cut proto fr \<Rightarrow> ft_proto (ip_tuple p) = proto \<and> ft_fragmented (ip_tuple p) = fr \<and> unat (ip_l3_header_len p) = 40 \<and> carries None p)"

definition same_addr :: "IpPacket \<Rightarrow> IpPacket \<Rightarrow> bool" where
  "same_addr p q \<longleftrightarrow> ip_valid p = ip_valid q \<and> ip_total_len p = ip_total_len q \<and> ft_src (ip_tuple p) = ft_src (ip_tuple q) \<and>
     ft_dst (ip_tuple p) = ft_dst (ip_tuple q) \<and> ft_ip_version (ip_tuple p) = ft_ip_version (ip_tuple q)"

lemma same_addr_trans: "same_addr p q \<Longrightarrow> same_addr q r \<Longrightarrow> same_addr p r"
  by (simp add: same_addr_def)

lemma finish_ipv6_exact:
  assumes "carries None out" "off \<le> lim" "lim \<le> length pkt" "off < 65536"
  shows "\<exists>p. finish_ipv6 pkt lim nxt off out = Some p \<and> same_addr p out \<and>
    shows_end (take lim pkt) (Upper nxt off (ft_fragmented (ip_tuple out))) p"
proof -
  let ?out = "(set_proto nxt out)\<lparr> ip_l3_header_len := of_nat off \<rparr>"
  have off: "unat (word_of_nat off :: u16) = off" by (rule unat_of_nat_less) (use assms(4) in simp)
  have fresh: "carries None ?out" using assms(1) by (simp add: carries_def no_ports_def set_proto_def Let_def)
  have l4: "subspan pkt off (lim - off) = Some (drop off (take lim pkt))"
    using assms(2,3) by (simp add: subspan_in drop_take)
  obtain p where p: "parse_l4 (drop off (take lim pkt)) ?out = Some p" "same_l3 p ?out" "carries (Some (drop off (take lim pkt))) p"
    using parse_l4_exact [OF fresh] by blast
  have "finish_ipv6 pkt lim nxt off out = Some p" using p(1) l4 assms(2) by (simp add: finish_ipv6_def Let_def)
  then show ?thesis using p(2,3) off by (simp add: same_l3_def same_addr_def shows_end_def set_proto_def)
qed

text \<open>Eight headers of at most 2048 bytes keep the offset below \<open>40 + 8 * 2048\<close>, so the 16-bit header length is exact.\<close>

lemma ext_size_le: "ext_size pkt nxt off \<le> 2048"
  using unat_u8_less [of "pkt ! (off + 1)"] by (auto simp: ext_size_def)

definition loop_exact :: "bytes \<Rightarrow> nat \<Rightarrow> nat \<Rightarrow> u8 \<Rightarrow> nat \<Rightarrow> IpPacket \<Rightarrow> bool" where
  "loop_exact pkt lim left nxt off out \<longleftrightarrow> (\<exists>p w. ipv6_loop left pkt lim nxt off out = Some p \<and> same_addr p out \<and>
     ext_walk pkt lim left nxt off (ft_fragmented (ip_tuple out)) w \<and> shows_end (take lim pkt) w p)"

definition loop_ready :: "nat \<Rightarrow> nat \<Rightarrow> nat \<Rightarrow> IpPacket \<Rightarrow> bool" where
  "loop_ready lim left off out \<longleftrightarrow> carries None out \<and> off \<le> lim \<and> off + left * 2048 < 65536 \<and> unat (ip_l3_header_len out) = 40"

lemma loop_exact_upper:
  assumes "loop_ready lim left off out" "lim \<le> length pkt" "left = 0 \<or> \<not> is_ipv6_ext nxt"
  shows "loop_exact pkt lim left nxt off out"
proof -
  have "ipv6_loop left pkt lim nxt off out = finish_ipv6 pkt lim nxt off out" using assms(3) by (cases left) auto
  then show ?thesis using finish_ipv6_exact [of out off lim pkt nxt] walk_upper [OF assms(3)] assms(1,2)
    unfolding loop_exact_def loop_ready_def by fastforce
qed

lemma loop_exact_cut:
  assumes "loop_ready lim (Suc left) off out" "is_ipv6_ext nxt" "lim < off + 8 \<or> lim < off + ext_size pkt nxt off"
    and "ipv6_loop (Suc left) pkt lim nxt off out = Some (set_proto nxt out)"
  shows "loop_exact pkt lim (Suc left) nxt off out"
proof -
  let ?w = "Cut nxt (ft_fragmented (ip_tuple out))"
  have "same_addr (set_proto nxt out) out" "shows_end (take lim pkt) ?w (set_proto nxt out)"
    using assms(1) by (simp_all add: loop_ready_def same_addr_def shows_end_def set_proto_def carries_def no_ports_def Let_def)
  moreover have "ext_walk pkt lim (Suc left) nxt off (ft_fragmented (ip_tuple out)) ?w" using assms(2,3) by (rule walk_cut)
  ultimately show ?thesis unfolding loop_exact_def using assms(4) by blast
qed

lemma loop_exact_frag:
  assumes ready: "loop_ready lim (Suc left) off out" and lim: "lim \<le> length pkt" "off + 8 \<le> lim" and nxt: "nxt = 44"
    and IH: "\<And>nxt off out. loop_ready lim left off out \<Longrightarrow> loop_exact pkt lim left nxt off out"
  shows "loop_exact pkt lim (Suc left) nxt off out"
proof -
  let ?frag = "frag_word pkt off"
  let ?fout = "out\<lparr> ip_tuple := (ip_tuple out)\<lparr> ft_fragmented := (?frag AND 0xFFF9 \<noteq> 0) \<rparr> \<rparr>"
  let ?last = "(set_proto (pkt ! off) ?fout)\<lparr> ip_l3_header_len := of_nat (off + 8) \<rparr>"
  have bound: "off + 4 \<le> length pkt" "off < length pkt" using lim by auto
  have o8: "unat (word_of_nat (off + 8) :: u16) = off + 8" by (rule unat_of_nat_less) (use ready in \<open>simp add: loop_ready_def\<close>)
  have eq: "ipv6_loop (Suc left) pkt lim nxt off out = (if ?frag AND 0xFFF8 \<noteq> 0 then Some ?last
      else ipv6_loop left pkt lim (pkt ! off) (off + 8) ?fout)"
    using nxt lim(2) bound by (simp add: load_in at_index_in Let_def)
  show ?thesis
  proof (cases "?frag AND 0xFFF8 = 0")
    case True
    have "loop_ready lim left (off + 8) ?fout" using ready lim(2) by (simp add: loop_ready_def carries_def no_ports_def Let_def)
    from IH [OF this, of "pkt ! off"] obtain p w where p: "ipv6_loop left pkt lim (pkt ! off) (off + 8) ?fout = Some p"
        "same_addr p ?fout" "ext_walk pkt lim left (pkt ! off) (off + 8) (ft_fragmented (ip_tuple ?fout)) w"
        "shows_end (take lim pkt) w p" unfolding loop_exact_def by blast
    have "same_addr p out" using p(2) by (simp add: same_addr_def)
    moreover have "ext_walk pkt lim (Suc left) nxt off (ft_fragmented (ip_tuple out)) w"
      by (rule walk_first) (use p(3) nxt lim(2) True in simp_all)
    moreover have "ipv6_loop (Suc left) pkt lim nxt off out = Some p" unfolding eq using True p(1) by (simp only: simp_thms if_False)
    ultimately show ?thesis unfolding loop_exact_def using p(4) by blast
  next
    case False
    let ?w = "Later (pkt ! off) (off + 8) (?frag AND 0xFFF9 \<noteq> 0)"
    have "same_addr ?last out" "shows_end (take lim pkt) ?w ?last" using ready o8
      by (simp_all add: loop_ready_def same_addr_def shows_end_def set_proto_def carries_def no_ports_def Let_def)
    moreover have "ext_walk pkt lim (Suc left) nxt off (ft_fragmented (ip_tuple out)) ?w"
      by (rule walk_later) (use nxt lim(2) False in simp_all)
    moreover have "ipv6_loop (Suc left) pkt lim nxt off out = Some ?last" unfolding eq using False by (simp only: simp_thms if_True)
    ultimately show ?thesis unfolding loop_exact_def by blast
  qed
qed

lemma loop_exact_ext:
  assumes ready: "loop_ready lim (Suc left) off out" and lim: "lim \<le> length pkt" "off + 8 \<le> lim"
    and ext: "is_ipv6_ext nxt" "nxt \<noteq> 44"
    and IH: "\<And>nxt off out. loop_ready lim left off out \<Longrightarrow> loop_exact pkt lim left nxt off out"
  shows "loop_exact pkt lim (Suc left) nxt off out"
proof -
  define n where "n = ext_size pkt nxt off"
  have bound: "off + 1 < length pkt" "off < length pkt" using lim by auto
  have eq: "ipv6_loop (Suc left) pkt lim nxt off out = (if off + n > lim then Some (set_proto nxt out)
      else ipv6_loop left pkt lim (pkt ! off) (off + n) out)"
    unfolding n_def using ext lim(2) bound by (simp add: at_index_in ext_size_def Let_def)
  show ?thesis
  proof (cases "off + n > lim")
    case True
    then show ?thesis using ready ext eq by (intro loop_exact_cut) (simp_all add: n_def)
  next
    case False
    then have "loop_ready lim left (off + n) out"
      using ready ext_size_le [of pkt nxt off] by (simp add: loop_ready_def n_def)
    from IH [OF this, of "pkt ! off"] show ?thesis
      unfolding loop_exact_def eq if_not_P [OF False]
      using walk_next [of nxt off lim pkt left] ext lim(2) False unfolding n_def by fastforce
  qed
qed

lemma ipv6_loop_exact:
  assumes "loop_ready lim left off out" "lim \<le> length pkt"
  shows "loop_exact pkt lim left nxt off out"
  using assms(1)
proof (induction left arbitrary: nxt off out)
  case 0
  then show ?case using assms(2) by (simp add: loop_exact_upper)
next
  case (Suc left)
  consider "\<not> is_ipv6_ext nxt" | "is_ipv6_ext nxt" "off + 8 > lim"
    | "off + 8 \<le> lim" "nxt = 44" | "is_ipv6_ext nxt" "off + 8 \<le> lim" "nxt \<noteq> 44" by fastforce
  then show ?case
  proof cases
    case 1
    then show ?thesis using Suc.prems assms(2) by (simp add: loop_exact_upper)
  next
    case 2
    then show ?thesis using Suc.prems by (intro loop_exact_cut) simp_all
  next
    case 3
    show ?thesis by (rule loop_exact_frag [OF Suc.prems assms(2) 3 Suc.IH])
  next
    case 4
    show ?thesis by (rule loop_exact_ext [OF Suc.prems assms(2) 4(2) 4(1,3) Suc.IH])
  qed
qed

text \<open>Every field of an accepted IPv6 packet.\<close>

definition ipv6_layers :: "bytes \<Rightarrow> IpPacket \<Rightarrow> bool" where
  "ipv6_layers pkt p \<longleftrightarrow> (let t = ip_tuple p; total = 40 + unat (be_val (take 2 (drop 4 pkt)) :: u16); r = take total pkt in
     ft_ip_version t = 6 \<and> ft_src t = take 16 (drop 8 pkt) \<and> ft_dst t = take 16 (drop 24 pkt) \<and> unat (ip_total_len p) = total \<and>
     (\<exists>w. ext_walk pkt (length r) kMaxIpv6ExtHeaders (pkt ! 6) 40 False w \<and> shows_end r w p))"

lemma parse_ipv6_exact:
  "\<exists>p. parse_ipv6 pkt = Some p \<and> (if ipv6_header_ok pkt then ip_valid p \<and> ipv6_layers pkt p else p = IpPacket_init)"
proof (cases "ipv6_header_ok pkt")
  case False
  then have "parse_ipv6 pkt = Some IpPacket_init"
    by (cases "length pkt < 40") (auto simp: parse_ipv6_def ipv6_header_ok_def Let_def at_index_0)
  then show ?thesis using False by simp
next
  case ok: True
  then have True: "40 \<le> length pkt \<and> drop_bit 4 (pkt ! 0) = 6" by (simp add: ipv6_header_ok_def)
  let ?len = "be_val (take 2 (drop 4 pkt)) :: u16"
  let ?out = "\<lparr> ip_tuple = FiveTuple_init\<lparr> ft_ip_version := 6,
      ft_src := take 16 (drop 8 pkt), ft_dst := take 16 (drop 24 pkt) \<rparr>,
    ip_l4_payload = [], ip_total_len = 40 + ucast ?len, ip_l3_header_len = 40,
    ip_l4_header_len = 0, ip_valid = True \<rparr>"
  have small: "unat ?len < 65536" using unsigned_less [of ?len] by simp
  have tot: "unat (40 + ucast ?len :: u32) = 40 + unat ?len"
    using small by (subst unat_add_less) (simp_all add: unat_ucast_up)
  define r where "r = take (40 + unat ?len) pkt"
  have lim: "length r = (if 40 + unat ?len < length pkt then 40 + unat ?len else length pkt)" "40 \<le> length r" "take (length r) pkt = r"
    using True by (auto simp: r_def min_def)
  have b0: "at_index pkt 0 = Some (pkt ! 0)" by (rule at_index_0 [of _ 40]) (use True in simp_all)
  have "parse_ipv6 pkt = ipv6_loop 8 pkt (length r) (pkt ! 6) 40 ?out"
    using True unfolding lim(1) by (simp add: parse_ipv6_def Let_def span_simps b0 IpPacket_init_def
        del: ipv6_loop.simps cong: if_cong split del: if_split)
  moreover obtain p w where p: "ipv6_loop 8 pkt (length r) (pkt ! 6) 40 ?out = Some p" "same_addr p ?out"
      "ext_walk pkt (length r) 8 (pkt ! 6) 40 False w" "shows_end r w p"
    using ipv6_loop_exact [of "length r" 8 40 ?out pkt "pkt ! 6", unfolded loop_exact_def lim(3)] lim(2) r_def
    by (auto simp: loop_ready_def carries_def no_ports_def FiveTuple_init_def)
  moreover have "ip_valid p" "ipv6_layers pkt p"
    using p(2-4) tot by (auto simp: same_addr_def ipv6_layers_def r_def Let_def)
  ultimately show ?thesis using ok by auto
qed

definition ip_decoded :: "bytes \<Rightarrow> IpPacket \<Rightarrow> bool" where
  "ip_decoded pkt p \<longleftrightarrow> (if ipv4_header_ok pkt then ip_valid p \<and> ipv4_layers pkt p
     else if ipv6_header_ok pkt then ip_valid p \<and> ipv6_layers pkt p else p = IpPacket_init)"

lemma parse_ip_result: "\<exists>p. parse_ip pkt = Some p \<and> ip_decoded pkt p"
proof -
  consider "pkt = []" | "pkt \<noteq> []" "drop_bit 4 (pkt ! 0) = 4" | "pkt \<noteq> []" "drop_bit 4 (pkt ! 0) = 6"
    | "pkt \<noteq> []" "drop_bit 4 (pkt ! 0) \<notin> {4, 6}" by blast
  then show ?thesis
  proof cases
    case 2
    then have "parse_ip pkt = parse_ipv4 pkt" "\<not> ipv6_header_ok pkt"
      by (simp_all add: parse_ip_def at_index_def ipv6_header_ok_def)
    then show ?thesis using parse_ipv4_exact [of pkt] by (auto simp: ip_decoded_def)
  next
    case 3
    then have "parse_ip pkt = parse_ipv6 pkt" "\<not> ipv4_header_ok pkt"
      by (simp_all add: parse_ip_def at_index_def ipv4_header_ok_def Let_def)
    then show ?thesis using parse_ipv6_exact [of pkt] by (auto simp: ip_decoded_def)
  next
    case 1
    then show ?thesis by (simp add: parse_ip_def ipv4_header_ok_def ipv6_header_ok_def ip_decoded_def)
  next
    case 4
    then show ?thesis by (simp add: parse_ip_def at_index_def ipv4_header_ok_def ipv6_header_ok_def ip_decoded_def Let_def)
  qed
qed

lemma ip_decoded_addr:
  assumes "ip_decoded pkt p" "ip_valid p"
  shows "length (ft_src (ip_tuple p)) = 16" "length (ft_dst (ip_tuple p)) = 16"
  using assms by (auto simp: ip_decoded_def ipv4_layers_def ipv6_layers_def ipv4_header_ok_def ipv6_header_ok_def IpPacket_init_def
      Let_def min_def split: if_splits)

subsection \<open>The flow key: hashing and equality\<close>

lemma fnv_prime_unit: "(1099511628211 :: u64) * 14886173955864302971 = 1"
  by simp

lemma fnv_mix_eq_iff: "fnv_mix h a = fnv_mix k b \<longleftrightarrow> h XOR ucast a = k XOR ucast b"
proof
  assume "fnv_mix h a = fnv_mix k b"
  then have "(h XOR ucast a) * (1099511628211 * 14886173955864302971) = (k XOR ucast b) * (1099511628211 * 14886173955864302971)"
    unfolding fnv_mix_def by (simp only: mult.assoc [symmetric])
  then show "h XOR ucast a = k XOR ucast b" unfolding fnv_prime_unit by simp
qed (simp add: fnv_mix_def)

lemma xor_cancel_right: "x XOR z = y XOR z \<longleftrightarrow> x = (y :: 'a::len word)"
  by (metis xor.assoc xor_self_eq xor.right_neutral)

lemma xor_cancel_left: "z XOR x = z XOR y \<longleftrightarrow> x = (y :: 'a::len word)"
  using xor_cancel_right [of x z y] by (simp add: xor.commute)

lemma fnv_mix_inj_hash: "fnv_mix h b = fnv_mix k b \<Longrightarrow> h = k"
  by (simp add: fnv_mix_eq_iff xor_cancel_right)

lemma fnv_mix_inj_byte:
  assumes "fnv_mix h a = fnv_mix h b"
  shows "a = b"
proof -
  have "(ucast a :: u64) = ucast b"
    using assms by (simp add: fnv_mix_eq_iff xor_cancel_left)
  then have "unat (ucast a :: u64) = unat (ucast b :: u64)" by simp
  then show ?thesis by (simp add: unat_ucast_up word_unat_eq_iff)
qed

lemma foldl_fnv_inj: "foldl fnv_mix h ys = foldl fnv_mix k ys \<Longrightarrow> h = k"
  by (induction ys arbitrary: h k) (auto dest: fnv_mix_inj_hash)

subsection \<open>Properties\<close>

lemma parse_ethernet_result:
  "\<exists>e. parse_ethernet frame = Some e \<and> unat (eth_vlan_tags e) \<le> 2 \<and>
     (if eth_valid e
      then 14 + 4 * unat (eth_vlan_tags e) \<le> length frame \<and>
           eth_payload e = drop (14 + 4 * unat (eth_vlan_tags e)) frame
      else eth_payload e = [])"
proof (cases "length frame < 14")
  case True
  then show ?thesis by (simp add: parse_ethernet_def EthFrame_init_def)
next
  case False
  then have "parse_ethernet frame = vlan_loop 2 frame 14 (be_val (take 2 (drop 12 frame))) EthFrame_init"
    by (simp add: parse_ethernet_def load_in)
  then show ?thesis
    using vlan_loop_spec [of 14 frame EthFrame_init 2 "be_val (take 2 (drop 12 frame))"] False
    by (auto simp: EthFrame_init_def)
qed

text \<open>
  Ethernet and VLAN stripping never leaves the frame; it removes at most two tags, and the
  payload of an accepted frame is exactly what follows the 14-byte header and the tags removed. A
  frame that ends inside a tag is refused with an empty payload.
\<close>

theorem parse_ethernet_view:
  "\<exists>e. parse_ethernet frame = Some e \<and> unat (eth_vlan_tags e) \<le> 2 \<and>
     (if eth_valid e
      then 14 + 4 * unat (eth_vlan_tags e) \<le> length frame \<and>
           eth_payload e = drop (14 + 4 * unat (eth_vlan_tags e)) frame
      else eth_payload e = [])"
  by (rule parse_ethernet_result)


text \<open>
  The flow key agrees with tuple equality: tuples the code calls equal have equal keys, and
  tuples whose hashed bytes differ in exactly one place (one port byte, one address byte, the
  protocol) never share a key.
\<close>

theorem flow_key_contract:
  "(five_tuple_eq t u \<longrightarrow> flow_key t = flow_key u) \<and>
   (flow_bytes t = xs @ a # ys \<and> flow_bytes u = xs @ b # ys \<and> a \<noteq> b \<longrightarrow> flow_key t \<noteq> flow_key u)"
proof (intro conjI impI)
  assume "five_tuple_eq t u"
  then show "flow_key t = flow_key u"
    by (simp add: five_tuple_eq_def flow_key_def flow_bytes_def)
next
  assume d: "flow_bytes t = xs @ a # ys \<and> flow_bytes u = xs @ b # ys \<and> a \<noteq> b"
  let ?h = "foldl fnv_mix 1469598103934665603 xs"
  have "fnv_mix ?h a = fnv_mix ?h b" if "flow_key t = flow_key u"
    using that d foldl_fnv_inj [of "fnv_mix ?h a" ys "fnv_mix ?h b"] by (simp add: flow_key_def)
  then show "flow_key t \<noteq> flow_key u" using d fnv_mix_inj_byte by blast
qed

theorem flow_key_contract_witness:
  "flow_key FiveTuple_init \<noteq> flow_key (FiveTuple_init\<lparr> ft_ip_version := 4 \<rparr>)"
proof -
  have "flow_bytes FiveTuple_init = replicate 13 0 @ 0 # []"
    "flow_bytes (FiveTuple_init\<lparr> ft_ip_version := 4 \<rparr>) = replicate 13 0 @ 4 # []" "(0 :: u8) \<noteq> 4"
    by code_simp+
  then show ?thesis using flow_key_contract by blast
qed

end
