(* ===== verification/Spsc_Ring.thy ===== *)
theory Spsc_Ring
  imports Prelude
begin

text \<open>
  \<^verbatim>\<open>include/gtpm/spsc_ring.hpp\<close>: the bounded single-producer single-consumer ring.

  The indices are free-running 64-bit counters, so head and tail are words and wrap around; each
  side keeps a stale copy of the other's index. The first part models the operations as one side
  calls them while the other is quiescent and shows that they implement a bounded list queue
  (locale \<open>fifo\<close>). The second part splits every operation into its accesses to shared memory and
  interleaves the two sides. There each access is atomic and takes effect at once: the
  release store of an index after the slot writes, and its acquire load before the slot reads, are
  the orderings that make this reading sound, and they are kept in the order of the steps.
\<close>

subsection \<open>The ring and its operations\<close>

record 'a ring =
  rg_capacity :: u64
  rg_mask :: u64
  rg_slots :: "'a list"
  rg_head :: u64
  rg_cached_tail :: u64
  rg_tail :: u64
  rg_cached_head :: u64

definition round_up_pow2 :: "nat \<Rightarrow> nat" where
  "round_up_pow2 v = (if has_single_bit v then v else bit_ceil v)"

text \<open>
  The constructor; \<open>dflt\<close> is the value-initialised element. \<^verbatim>\<open>std::bit_ceil\<close> has no result when the
  power of two is not representable, so a capacity above \<open>2\<^sup>6\<^sup>3\<close> has none here.
\<close>

definition SpscRing_new :: "nat \<Rightarrow> 'a \<Rightarrow> 'a ring option" where
  "SpscRing_new capacity dflt = (
     let c = round_up_pow2 (if capacity < 2 then 2 else capacity) in
     if c \<ge> 2 ^ 64 then None
     else Some \<lparr> rg_capacity = of_nat c, rg_mask = of_nat c - 1, rg_slots = replicate c dflt,
            rg_head = 0, rg_cached_tail = 0, rg_tail = 0, rg_cached_head = 0 \<rparr>)"

definition push_slot :: "'a ring \<Rightarrow> 'a \<Rightarrow> (bool \<times> 'a ring) option" where
  "push_slot r v = do {
     slots \<leftarrow> store_at (rg_slots r) (unat (rg_head r AND rg_mask r)) v;
     Some (True, r\<lparr> rg_slots := slots, rg_head := rg_head r + 1 \<rparr>) }"

definition try_push :: "'a ring \<Rightarrow> 'a \<Rightarrow> (bool \<times> 'a ring) option" where
  "try_push r v = (
     if rg_head r - rg_cached_tail r \<ge> rg_capacity r then
       let r = r\<lparr> rg_cached_tail := rg_tail r \<rparr> in
       if rg_head r - rg_cached_tail r \<ge> rg_capacity r then Some (False, r)
       else push_slot r v
     else push_slot r v)"

definition pop_slot :: "'a ring \<Rightarrow> ('a option \<times> 'a ring) option" where
  "pop_slot r = do {
     v \<leftarrow> at_index (rg_slots r) (unat (rg_tail r AND rg_mask r));
     Some (Some v, r\<lparr> rg_tail := rg_tail r + 1 \<rparr>) }"

definition try_pop :: "'a ring \<Rightarrow> ('a option \<times> 'a ring) option" where
  "try_pop r = (
     if rg_tail r = rg_cached_head r then
       let r = r\<lparr> rg_cached_head := rg_head r \<rparr> in
       if rg_tail r = rg_cached_head r then Some (None, r) else pop_slot r
     else pop_slot r)"

fun copy_out :: "nat \<Rightarrow> 'a list \<Rightarrow> u64 \<Rightarrow> u64 \<Rightarrow> 'a list option" where
  "copy_out 0 slots msk i = Some []"
| "copy_out (Suc n) slots msk i = do {
     x \<leftarrow> at_index slots (unat (i AND msk));
     xs \<leftarrow> copy_out n slots msk (i + 1);
     Some (x # xs) }"

definition pop_slots :: "'a ring \<Rightarrow> u64 \<Rightarrow> u64 \<Rightarrow> ('a list \<times> 'a ring) option" where
  "pop_slots r head maxn = (
     let available = (if head - rg_tail r > maxn then maxn else head - rg_tail r) in do {
       out \<leftarrow> copy_out (unat available) (rg_slots r) (rg_mask r) (rg_tail r);
       Some (out, r\<lparr> rg_tail := rg_tail r + available \<rparr>) })"

definition try_pop_bulk :: "'a ring \<Rightarrow> u64 \<Rightarrow> ('a list \<times> 'a ring) option" where
  "try_pop_bulk r maxn = (
     let head = rg_cached_head r in
     if rg_tail r = head then
       let head = rg_head r; r = r\<lparr> rg_cached_head := head \<rparr> in
       if rg_tail r = head then Some ([], r) else pop_slots r head maxn
     else pop_slots r head maxn)"

fun copy_in :: "'a list \<Rightarrow> 'a list \<Rightarrow> u64 \<Rightarrow> u64 \<Rightarrow> 'a list option" where
  "copy_in [] slots msk i = Some slots"
| "copy_in (x # xs) slots msk i = do {
     slots \<leftarrow> store_at slots (unat (i AND msk)) x;
     copy_in xs slots msk (i + 1) }"

definition push_slots :: "'a ring \<Rightarrow> u64 \<Rightarrow> 'a list \<Rightarrow> (u64 \<times> 'a ring) option" where
  "push_slots r free_slots inp = (
     let count = of_nat (length inp); n = (if free_slots < count then free_slots else count) in do {
       slots \<leftarrow> copy_in (take (unat n) inp) (rg_slots r) (rg_mask r) (rg_head r);
       Some (n, r\<lparr> rg_slots := slots, rg_head := rg_head r + n \<rparr>) })"

definition try_push_bulk :: "'a ring \<Rightarrow> 'a list \<Rightarrow> (u64 \<times> 'a ring) option" where
  "try_push_bulk r inp = (
     let free_slots = rg_capacity r - (rg_head r - rg_cached_tail r) in
     if free_slots < of_nat (length inp) then
       let tail = rg_tail r; r = r\<lparr> rg_cached_tail := tail \<rparr> in
       push_slots r (rg_capacity r - (rg_head r - tail)) inp
     else push_slots r free_slots inp)"

definition size_approx :: "'a ring \<Rightarrow> u64" where
  "size_approx r = rg_head r - rg_tail r"

definition empty_approx :: "'a ring \<Rightarrow> bool" where
  "empty_approx r \<longleftrightarrow> size_approx r = 0"

definition produced :: "'a ring \<Rightarrow> u64" where
  "produced r = rg_head r"

definition consumed :: "'a ring \<Rightarrow> u64" where
  "consumed r = rg_tail r"

subsection \<open>The representation invariant\<close>

text \<open>
  \<open>ring_rep r hist c ct ch\<close>: \<open>hist\<close> is everything ever published, \<open>c\<close> how much of it has been
  consumed, \<open>ct \<le> c\<close> and \<open>ch\<close> the values behind the two stale copies. These are natural numbers;
  the words of the ring are their values modulo \<open>2\<^sup>6\<^sup>4\<close>.
\<close>

definition ring_shape :: "'a ring \<Rightarrow> nat \<Rightarrow> bool" where
  "ring_shape r m \<longleftrightarrow> 1 \<le> m \<and> m \<le> 63 \<and> rg_capacity r = 2 ^ m \<and> rg_mask r = 2 ^ m - 1 \<and>
     length (rg_slots r) = 2 ^ m"

definition ring_rep :: "nat \<Rightarrow> 'a ring \<Rightarrow> 'a list \<Rightarrow> nat \<Rightarrow> nat \<Rightarrow> nat \<Rightarrow> bool" where
  "ring_rep m r hist c ct ch \<longleftrightarrow> ring_shape r m \<and>
     rg_head r = of_nat (length hist) \<and> rg_tail r = of_nat c \<and>
     rg_cached_tail r = of_nat ct \<and> rg_cached_head r = of_nat ch \<and>
     ct \<le> c \<and> c \<le> ch \<and> ch \<le> length hist \<and> length hist \<le> ct + 2 ^ m \<and>
     (\<forall>k. c \<le> k \<and> k < length hist \<longrightarrow> rg_slots r ! (k mod 2 ^ m) = hist ! k)"

text \<open>The invariant and the contents as a client sees them, on the words alone.\<close>

definition ring_inv :: "'a ring \<Rightarrow> bool" where
  "ring_inv r \<longleftrightarrow> (\<exists>m\<in>{1..63}. ring_shape r m) \<and>
     rg_head r - rg_tail r \<le> rg_head r - rg_cached_tail r \<and>
     rg_head r - rg_cached_tail r \<le> rg_capacity r \<and>
     rg_cached_head r - rg_tail r \<le> rg_head r - rg_tail r"

definition ring_contents :: "'a ring \<Rightarrow> 'a list" where
  "ring_contents r = map (\<lambda>i. rg_slots r ! unat ((rg_tail r + of_nat i) AND rg_mask r))
     [0..<unat (rg_head r - rg_tail r)]"

definition ring_capacity :: "'a ring \<Rightarrow> nat" where
  "ring_capacity r = unat (rg_capacity r)"

named_theorems ring_reads \<open>index arithmetic of a ring in terms of its history\<close>

lemma two_power_64_word: "(2 ^ 64 :: u64) = 0"
  by simp

lemma power_63_less: "m \<le> 63 \<Longrightarrow> (2 :: nat) ^ m < 2 ^ 64"
  by (rule power_strict_increasing) simp_all

lemma unat_two_power: "m \<le> 63 \<Longrightarrow> unat (2 ^ m :: u64) = 2 ^ m"
proof -
  assume "m \<le> 63"
  then have "(2 :: nat) ^ m < 2 ^ LENGTH(64)" using power_63_less [of m] by simp
  then have "unat (of_nat (2 ^ m) :: u64) = 2 ^ m" by (rule unat_of_nat_less)
  then show ?thesis by simp
qed

lemma ring_index [ring_reads]:
  "ring_shape r m \<Longrightarrow> unat (of_nat k AND rg_mask r) = k mod 2 ^ m"
  by (simp add: ring_shape_def unat_of_nat_and_mask)

lemma ring_index_bound [ring_reads]: "ring_shape r m \<Longrightarrow> k mod 2 ^ m < length (rg_slots r)"
  by (simp add: ring_shape_def)

lemma ring_rep_shape: "ring_rep m r hist c ct ch \<Longrightarrow> ring_shape r m"
  by (simp add: ring_rep_def)

lemma ring_rep_diffs:
  assumes "ring_rep m r hist c ct ch"
  shows "unat (rg_head r - rg_tail r) = length hist - c"
    "unat (rg_head r - rg_cached_tail r) = length hist - ct"
    "unat (rg_cached_head r - rg_tail r) = ch - c"
    "unat (rg_capacity r) = 2 ^ m"
proof -
  from assms have m: "m \<le> 63" by (simp add: ring_rep_def ring_shape_def)
  note power_63_less [OF m]
  with assms show "unat (rg_head r - rg_tail r) = length hist - c"
    "unat (rg_head r - rg_cached_tail r) = length hist - ct"
    "unat (rg_cached_head r - rg_tail r) = ch - c"
    by (auto simp: ring_rep_def intro!: of_nat_diff_word)
  show "unat (rg_capacity r) = 2 ^ m" using assms m by (simp add: ring_rep_def ring_shape_def unat_two_power)
qed

lemma ring_rep_inv:
  assumes "ring_rep m r hist c ct ch"
  shows "ring_inv r" "ring_contents r = drop c hist" "ring_capacity r = 2 ^ m"
proof -
  note d = ring_rep_diffs [OF assms]
  have "m \<in> {1..63}" using assms by (simp add: ring_rep_def ring_shape_def)
  then show "ring_inv r"
    unfolding ring_inv_def word_le_nat_alt d using assms by (auto simp: ring_rep_def)
  show "ring_contents r = drop c hist"
  proof (rule nth_equalityI)
    fix i assume "i < length (ring_contents r)"
    then have i: "c + i < length hist" "i < length hist - c" by (simp_all add: ring_contents_def d)
    have "rg_tail r + of_nat i = of_nat (c + i)" using assms by (simp add: ring_rep_def)
    then have "ring_contents r ! i = rg_slots r ! ((c + i) mod 2 ^ m)"
      using i by (simp add: ring_contents_def d ring_index [OF ring_rep_shape [OF assms]] del: of_nat_add)
    also have "\<dots> = hist ! (c + i)" using assms i by (simp add: ring_rep_def)
    finally show "ring_contents r ! i = drop c hist ! i" using i by simp
  qed (simp add: ring_contents_def d)
  show "ring_capacity r = 2 ^ m" by (simp add: ring_capacity_def d)
qed

lemma ring_inv_rep:
  assumes "ring_inv r"
  obtains m hist c ct ch where "ring_rep m r hist c ct ch" "drop c hist = ring_contents r"
proof -
  from assms obtain m where shape: "ring_shape r m" by (auto simp: ring_inv_def)
  let ?n = "unat (rg_head r - rg_tail r)"
  let ?d = "unat (rg_head r - rg_cached_tail r) - ?n"
  define c where "c = 2 ^ 64 + unat (rg_tail r)"
  define hist where "hist = replicate c (rg_slots r ! 0) @ ring_contents r"
  define ct where "ct = c - ?d"
  define ch where "ch = c + unat (rg_cached_head r - rg_tail r)"
  have c: "of_nat c = rg_tail r"
    using two_power_64_word by (simp add: c_def)
  have le: "?n \<le> unat (rg_head r - rg_cached_tail r)" "unat (rg_head r - rg_cached_tail r) \<le> 2 ^ m"
    "unat (rg_cached_head r - rg_tail r) \<le> ?n"
    using assms shape by (auto simp: ring_inv_def word_le_nat_alt ring_shape_def unat_two_power)
  have d: "?d \<le> c" using power_63_less [of m] shape le unfolding c_def ring_shape_def by linarith
  have "of_nat ?d = rg_tail r - rg_cached_tail r" using le(1) by (simp add: of_nat_diff)
  then have ct: "of_nat ct = rg_cached_tail r" "ct \<le> c" using c d by (simp_all add: ct_def of_nat_diff)
  have len: "length hist = c + ?n" by (simp add: hist_def ring_contents_def)
  have slot: "rg_slots r ! (k mod 2 ^ m) = hist ! k" if "c \<le> k" "k < length hist" for k
  proof -
    have "rg_tail r + of_nat (k - c) = of_nat k" using that by (simp add: c [symmetric] of_nat_diff)
    then show ?thesis using that len
      by (simp add: hist_def nth_append ring_contents_def ring_index [OF shape])
  qed
  have "ring_rep m r hist c ct ch"
    unfolding ring_rep_def
  proof (intro conjI allI impI)
    show "length hist \<le> ct + 2 ^ m" using le d by (simp add: ct_def len)
    show "ch \<le> length hist" using le by (simp add: ch_def len)
  qed (use shape c ct slot in \<open>auto simp: len ch_def\<close>)
  then show ?thesis by (rule that) (simp add: hist_def)
qed

subsection \<open>The operations on a represented ring\<close>

lemma rep_refresh_tail: "ring_rep m r hist c ct ch \<Longrightarrow> ring_rep m (r\<lparr> rg_cached_tail := rg_tail r \<rparr>) hist c c ch"
  by (auto simp: ring_rep_def ring_shape_def)

lemma rep_refresh_head:
  "ring_rep m r hist c ct ch \<Longrightarrow> ring_rep m (r\<lparr> rg_cached_head := rg_head r \<rparr>) hist c ct (length hist)"
  by (auto simp: ring_rep_def ring_shape_def)

text \<open>Writing a run of slots at the head leaves every slot of the last \<open>2\<^sup>m\<close> positions alone.\<close>

lemma copy_in_spec:
  assumes "length slots = 2 ^ m" "m \<le> 63" "length xs \<le> 2 ^ m"
  shows "\<exists>slots'. copy_in xs slots (2 ^ m - 1) (of_nat p) = Some slots' \<and> length slots' = 2 ^ m \<and>
    (\<forall>j<length xs. slots' ! ((p + j) mod 2 ^ m) = xs ! j) \<and>
    (\<forall>k. k < p \<and> p + length xs \<le> k + 2 ^ m \<longrightarrow> slots' ! (k mod 2 ^ m) = slots ! (k mod 2 ^ m))"
  using assms
proof (induction xs arbitrary: slots p)
  case Nil
  then show ?case by simp
next
  case (Cons x xs)
  let ?s = "slots[p mod 2 ^ m := x]"
  have step: "copy_in (x # xs) slots (2 ^ m - 1) (of_nat p) = copy_in xs ?s (2 ^ m - 1) (of_nat (Suc p))"
    using Cons.prems by (simp add: unat_of_nat_and_mask store_at_in add.commute)
  obtain slots' where s': "copy_in xs ?s (2 ^ m - 1) (of_nat (Suc p)) = Some slots'" "length slots' = 2 ^ m"
    "\<And>j. j < length xs \<Longrightarrow> slots' ! ((Suc p + j) mod 2 ^ m) = xs ! j"
    "\<And>k. k < Suc p \<Longrightarrow> Suc p + length xs \<le> k + 2 ^ m \<Longrightarrow> slots' ! (k mod 2 ^ m) = ?s ! (k mod 2 ^ m)"
    using Cons.IH [of ?s "Suc p"] Cons.prems by auto
  have "slots' ! ((p + j) mod 2 ^ m) = (x # xs) ! j" if "j < length (x # xs)" for j
    using that s'(3) [of "j - 1"] s'(4) [of p] Cons.prems by (cases j) auto
  moreover have "slots' ! (k mod 2 ^ m) = slots ! (k mod 2 ^ m)"
    if "k < p" "p + length (x # xs) \<le> k + 2 ^ m" for k
    using that s'(4) [of k] mod_inj_window [of k "2 ^ m" p]
    by (cases "k mod 2 ^ m = p mod 2 ^ m") auto
  ultimately show ?case using step s'(1,2) by auto
qed

lemma copy_out_spec:
  assumes "length slots = 2 ^ m" "m \<le> 63" "\<And>k. c \<le> k \<Longrightarrow> k < c + n \<Longrightarrow> slots ! (k mod 2 ^ m) = hist ! k"
    and "c + n \<le> length hist"
  shows "copy_out n slots (2 ^ m - 1) (of_nat c) = Some (take n (drop c hist))"
  using assms
proof (induction n arbitrary: c)
  case (Suc n)
  have "copy_out n slots (2 ^ m - 1) (of_nat (Suc c)) = Some (take n (drop (Suc c) hist))"
    using Suc.prems by (intro Suc.IH) auto
  then have "copy_out n slots (2 ^ m - 1) (of_nat c + 1) = Some (take n (drop (Suc c) hist))"
    by (simp add: add.commute)
  moreover have "take (Suc n) (drop c hist) = hist ! c # take n (drop (Suc c) hist)"
    using Suc.prems(4) by (subst Cons_nth_drop_Suc [symmetric]) auto
  ultimately show ?case
    using Suc.prems by (simp add: unat_of_nat_and_mask at_index_in)
qed simp

lemma rep_push_run:
  assumes "ring_rep m r hist c ct ch" "length hist + length xs \<le> ct + 2 ^ m"
  shows "\<exists>slots. copy_in xs (rg_slots r) (rg_mask r) (rg_head r) = Some slots \<and>
    ring_rep m (r\<lparr> rg_slots := slots, rg_head := rg_head r + of_nat (length xs) \<rparr>) (hist @ xs) c ct ch"
proof -
  have shape: "length (rg_slots r) = 2 ^ m" "m \<le> 63" "rg_mask r = 2 ^ m - 1"
    "rg_head r = of_nat (length hist)" and le: "ct \<le> c" "c \<le> length hist"
    using assms(1) by (auto simp: ring_rep_def ring_shape_def)
  obtain slots where s: "copy_in xs (rg_slots r) (2 ^ m - 1) (of_nat (length hist)) = Some slots"
    "length slots = 2 ^ m" "\<And>j. j < length xs \<Longrightarrow> slots ! ((length hist + j) mod 2 ^ m) = xs ! j"
    "\<And>k. k < length hist \<Longrightarrow> length hist + length xs \<le> k + 2 ^ m \<Longrightarrow>
      slots ! (k mod 2 ^ m) = rg_slots r ! (k mod 2 ^ m)"
    using copy_in_spec [OF shape(1,2), of xs "length hist"] assms(2) le by auto
  have "slots ! (k mod 2 ^ m) = (hist @ xs) ! k" if "c \<le> k" "k < length (hist @ xs)" for k
  proof (cases "k < length hist")
    case True
    then show ?thesis using s(4) [of k] that assms le by (simp add: nth_append ring_rep_def)
  next
    case False
    then show ?thesis using s(3) [of "k - length hist"] that by (simp add: nth_append)
  qed
  then have "ring_rep m (r\<lparr> rg_slots := slots, rg_head := rg_head r + of_nat (length xs) \<rparr>) (hist @ xs) c ct ch"
    using assms s(2) by (auto simp: ring_rep_def ring_shape_def)
  then show ?thesis using s(1) shape by auto
qed

lemma rep_push_slot:
  assumes "ring_rep m r hist c ct ch" "length hist < ct + 2 ^ m"
  shows "\<exists>r'. push_slot r v = Some (True, r') \<and> ring_rep m r' (hist @ [v]) c ct ch"
  using rep_push_run [OF assms(1), of "[v]"] assms(2)
  by (auto simp: push_slot_def split: bind_splits)

lemma rep_pop_run:
  assumes "ring_rep m r hist c ct ch" "c + n \<le> ch"
  shows "copy_out n (rg_slots r) (rg_mask r) (rg_tail r) = Some (take n (drop c hist))"
    "ring_rep m (r\<lparr> rg_tail := rg_tail r + of_nat n \<rparr>) hist (c + n) ct ch"
  using assms copy_out_spec [of "rg_slots r" m c n hist]
  by (auto simp: ring_rep_def ring_shape_def)

lemma rep_pop_slot:
  assumes "ring_rep m r hist c ct ch" "c < ch"
  shows "\<exists>r'. pop_slot r = Some (Some (hist ! c), r') \<and> ring_rep m r' hist (Suc c) ct ch"
proof -
  have "c < length hist" using assms by (simp add: ring_rep_def)
  then have "take (Suc 0) (drop c hist) = [hist ! c]" by (simp add: take_Suc_conv_app_nth hd_drop_conv_nth take_Suc)
  then show ?thesis
    using rep_pop_run [OF assms(1), of 1] assms(2) by (auto simp: pop_slot_def split: bind_splits)
qed

subsection \<open>The operations on the contents\<close>

lemma SpscRing_new_spec:
  assumes "cap \<le> 2 ^ 63"
  shows "\<exists>r. SpscRing_new cap d = Some r \<and> ring_inv r \<and> ring_contents r = [] \<and>
    cap \<le> ring_capacity r \<and> 2 \<le> ring_capacity r \<and> ring_capacity r < 2 * (if cap < 2 then 2 else cap) \<and>
    ring_capacity r = round_up_pow2 (if cap < 2 then 2 else cap)"
proof -
  let ?v = "if cap < 2 then 2 else cap"
  obtain k where k: "round_up_pow2 ?v = 2 ^ k"
    using has_single_bit_power [of ?v] bit_ceil_power [of ?v] by (metis round_up_pow2_def)
  have b: "?v \<le> round_up_pow2 ?v" "round_up_pow2 ?v < 2 * ?v"
    using bit_ceil_bounds [of ?v] by (auto simp: round_up_pow2_def)
  then have "(2 :: nat) ^ k < 2 ^ 64" using assms k by (auto split: if_splits)
  then have "k < 64" by (rule power_less_imp_less_exp [rotated]) simp
  moreover have "2 \<le> (2 :: nat) ^ k" using b(1) k by (simp split: if_splits)
  then have "k \<noteq> 0" by (cases k) simp_all
  ultimately have m: "1 \<le> k" "k \<le> 63" by auto
  let ?r = "\<lparr> rg_capacity = 2 ^ k, rg_mask = 2 ^ k - 1, rg_slots = replicate (2 ^ k) d,
            rg_head = 0, rg_cached_tail = 0, rg_tail = 0, rg_cached_head = 0 \<rparr>"
  have new: "SpscRing_new cap d = Some ?r"
    unfolding SpscRing_new_def k Let_def using \<open>(2 :: nat) ^ k < 2 ^ 64\<close> by simp
  have "ring_rep k ?r [] 0 0 0" using m by (simp add: ring_rep_def ring_shape_def)
  note i = ring_rep_inv [OF this]
  have "cap \<le> 2 ^ k" "2 \<le> (2 :: nat) ^ k" using b(1) k by (simp_all split: if_splits)
  then show ?thesis using new i b unfolding k by (intro exI [of _ ?r]) (simp only: drop_Nil simp_thms)
qed

lemma try_push_spec:
  assumes "ring_inv r"
  shows "\<exists>r'. try_push r v = Some (length (ring_contents r) < ring_capacity r, r') \<and> ring_inv r' \<and>
    ring_capacity r' = ring_capacity r \<and>
    ring_contents r' = ring_contents r @ (if length (ring_contents r) < ring_capacity r then [v] else [])"
proof -
  obtain m hist c ct ch where rep: "ring_rep m r hist c ct ch" and "drop c hist = ring_contents r"
    using ring_inv_rep [OF assms] .
  then have cont: "ring_contents r = drop c hist" "ring_capacity r = 2 ^ m" using ring_rep_inv [OF rep] by auto
  have le: "ct \<le> c" "c \<le> length hist" using rep by (auto simp: ring_rep_def)
  note tail = rep_refresh_tail [OF rep]
  have full: "(rg_head r - rg_cached_tail r \<ge> rg_capacity r) = (length hist \<ge> ct + 2 ^ m)"
    "(rg_head r - rg_tail r \<ge> rg_capacity r) = (length hist \<ge> c + 2 ^ m)"
    unfolding word_le_nat_alt ring_rep_diffs [OF rep] using le by auto
  have fin: "push_slot q v = Some (True, r') \<Longrightarrow> ring_rep m r' (hist @ [v]) c ct' ch \<Longrightarrow>
      length hist < c + 2 ^ m \<Longrightarrow> try_push r v = push_slot q v \<Longrightarrow> ?thesis" for q r' ct'
    using ring_rep_inv [of m r' "hist @ [v]" c ct' ch] cont le by auto
  consider "length hist < ct + 2 ^ m" | "length hist \<ge> ct + 2 ^ m" "length hist < c + 2 ^ m" | "length hist \<ge> c + 2 ^ m"
    by linarith
  then show ?thesis
  proof cases
    case 1
    then show ?thesis using rep_push_slot [OF rep, of v] full le fin [of r _ ct] by (auto simp: try_push_def)
  next
    case 2
    then show ?thesis
      using rep_push_slot [OF tail, of v] full fin [of "r\<lparr> rg_cached_tail := rg_tail r \<rparr>" _ c]
      by (auto simp: try_push_def)
  next
    case 3
    then show ?thesis using full ring_rep_inv [OF tail] cont le by (auto simp: try_push_def)
  qed
qed

lemma rep_head_eq:
  assumes "ring_rep m r hist c ct ch"
  shows "(rg_tail r = rg_cached_head r) = (ch = c)" "(rg_tail r = rg_head r) = (length hist = c)"
proof -
  have eq: "x = y \<longleftrightarrow> unat (y - x) = 0" for x y :: u64 by (auto simp: unat_eq_0)
  show "(rg_tail r = rg_cached_head r) = (ch = c)" "(rg_tail r = rg_head r) = (length hist = c)"
    unfolding eq ring_rep_diffs [OF assms] using assms by (auto simp: ring_rep_def)
qed

lemma try_pop_spec:
  assumes "ring_inv r"
  shows "\<exists>r'. try_pop r = Some (if ring_contents r = [] then None else Some (hd (ring_contents r)), r') \<and>
    ring_inv r' \<and> ring_capacity r' = ring_capacity r \<and> ring_contents r' = tl (ring_contents r)"
proof -
  obtain m hist c ct ch where rep: "ring_rep m r hist c ct ch" and "drop c hist = ring_contents r"
    using ring_inv_rep [OF assms] .
  then have cont: "ring_contents r = drop c hist" "ring_capacity r = 2 ^ m" using ring_rep_inv [OF rep] by auto
  have le: "c \<le> ch" "ch \<le> length hist" using rep by (auto simp: ring_rep_def)
  note head = rep_refresh_head [OF rep] and eq = rep_head_eq [OF rep]
  have fin: "try_pop r = Some (Some (hist ! c), r') \<Longrightarrow> ring_rep m r' hist (Suc c) ct ch' \<Longrightarrow> c < length hist \<Longrightarrow> ?thesis"
    for r' ch'
    using ring_rep_inv [of m r' hist "Suc c" ct ch'] cont by (auto simp: hd_drop_conv_nth drop_Suc tl_drop)
  consider "c < ch" | "ch = c" "c < length hist" | "ch = c" "length hist = c" using le by linarith
  then show ?thesis
  proof cases
    case 1
    then obtain r' where "pop_slot r = Some (Some (hist ! c), r')" "ring_rep m r' hist (Suc c) ct ch"
      using rep_pop_slot [OF rep] by blast
    then show ?thesis using 1 le eq by (intro fin [of r' ch]) (simp_all add: try_pop_def)
  next
    case 2
    then obtain r' where "pop_slot (r\<lparr> rg_cached_head := rg_head r \<rparr>) = Some (Some (hist ! c), r')"
      "ring_rep m r' hist (Suc c) ct (length hist)"
      using rep_pop_slot [OF head] by blast
    then show ?thesis using 2 eq by (intro fin [of r' "length hist"]) (simp_all add: try_pop_def)
  next
    case 3
    then show ?thesis using eq ring_rep_inv [OF head] cont by (auto simp: try_pop_def)
  qed
qed

lemma try_pop_bulk_spec:
  assumes "ring_inv r"
  shows "\<exists>out r'. try_pop_bulk r maxn = Some (out, r') \<and> ring_inv r' \<and> ring_capacity r' = ring_capacity r \<and>
    ring_contents r = out @ ring_contents r' \<and> length out \<le> unat maxn \<and>
    (ring_contents r \<noteq> [] \<and> maxn \<noteq> 0 \<longrightarrow> out \<noteq> [])"
proof -
  obtain m hist c ct ch where rep: "ring_rep m r hist c ct ch" and "drop c hist = ring_contents r"
    using ring_inv_rep [OF assms] .
  then have cont: "ring_contents r = drop c hist" "ring_capacity r = 2 ^ m" using ring_rep_inv [OF rep] by auto
  have le: "c \<le> ch" "ch \<le> length hist" using rep by (auto simp: ring_rep_def)
  note head = rep_refresh_head [OF rep] and eq = rep_head_eq [OF rep]
  have run: "\<exists>out r'. pop_slots q (rg_cached_head q) maxn = Some (out, r') \<and> ring_inv r' \<and>
      ring_capacity r' = ring_capacity r \<and> ring_contents r = out @ ring_contents r' \<and>
      length out \<le> unat maxn \<and> (maxn \<noteq> 0 \<longrightarrow> out \<noteq> [])"
    if q: "ring_rep m q hist c ct ch'" "c < ch'" for q ch'
  proof -
    define a where "a = (if rg_cached_head q - rg_tail q > maxn then maxn else rg_cached_head q - rg_tail q)"
    define r' where "r' = q\<lparr> rg_tail := rg_tail q + a \<rparr>"
    have a: "unat a = min (unat maxn) (ch' - c)"
      using ring_rep_diffs(3) [OF q(1)] by (auto simp: word_less_nat_alt a_def)
    have le': "c + unat a \<le> ch'" "ch' \<le> length hist" using a q by (auto simp: ring_rep_def)
    note pr = rep_pop_run [OF q(1) le'(1)]
    have "pop_slots q (rg_cached_head q) maxn = Some (take (unat a) (drop c hist), r')"
      unfolding pop_slots_def Let_def a_def [symmetric] pr(1) r'_def by simp
    moreover have "ring_rep m r' hist (c + unat a) ct ch'" using pr(2) by (simp add: r'_def)
    note ring_rep_inv [OF this]
    moreover have "ring_contents r = take (unat a) (drop c hist) @ drop (c + unat a) hist"
      using append_take_drop_id [of "unat a" "drop c hist"] by (simp add: cont(1) add.commute)
    moreover have "unat a \<le> unat maxn" "maxn \<noteq> 0 \<Longrightarrow> unat a \<noteq> 0" using a q(2) by (auto simp: unat_gt_0)
    moreover have "length (take (unat a) (drop c hist)) = unat a" using le' by simp
    ultimately show ?thesis using cont(2)
      by (intro exI [of _ "take (unat a) (drop c hist)"] exI [of _ r'] conjI) auto
  qed
  consider "c < ch" | "ch = c" "c < length hist" | "ch = c" "length hist = c" using le by linarith
  then show ?thesis
  proof cases
    case 1
    then have "try_pop_bulk r maxn = pop_slots r (rg_cached_head r) maxn" using eq by (simp add: try_pop_bulk_def)
    then show ?thesis using run [OF rep 1] by auto
  next
    case 2
    let ?q = "r\<lparr> rg_cached_head := rg_head r \<rparr>"
    from 2 have "try_pop_bulk r maxn = pop_slots ?q (rg_cached_head ?q) maxn"
      using eq by (simp add: try_pop_bulk_def Let_def)
    then show ?thesis using run [OF head 2(2)] by auto
  next
    case 3
    then show ?thesis using eq ring_rep_inv [OF head] cont by (auto simp: try_pop_bulk_def Let_def)
  qed
qed

lemma try_push_bulk_spec:
  assumes "ring_inv r" "length inp < 2 ^ 64"
  defines "n \<equiv> min (ring_capacity r - length (ring_contents r)) (length inp)"
  shows "\<exists>r'. try_push_bulk r inp = Some (of_nat n, r') \<and> ring_inv r' \<and>
    ring_capacity r' = ring_capacity r \<and> ring_contents r' = ring_contents r @ take n inp"
proof -
  obtain m hist c ct ch where rep: "ring_rep m r hist c ct ch" and "drop c hist = ring_contents r"
    using ring_inv_rep [OF assms(1)] .
  then have cont: "ring_contents r = drop c hist" "ring_capacity r = 2 ^ m" using ring_rep_inv [OF rep] by auto
  have le: "ct \<le> c" "c \<le> length hist" "length hist \<le> ct + 2 ^ m" using rep by (auto simp: ring_rep_def)
  have cnt: "unat (of_nat (length inp) :: u64) = length inp" using assms(2) by (simp add: unat_of_nat_less)
  have free: "unat (rg_capacity q - (rg_head q - rg_cached_tail q)) = ct' + 2 ^ m - length hist"
    if q: "ring_rep m q hist c ct' ch" for q ct'
  proof -
    have "rg_head q - rg_cached_tail q \<le> rg_capacity q"
      unfolding word_le_nat_alt ring_rep_diffs [OF q] using q by (auto simp: ring_rep_def)
    from unat_sub [OF this] have "unat (rg_capacity q - (rg_head q - rg_cached_tail q)) = 2 ^ m - (length hist - ct')"
      unfolding ring_rep_diffs [OF q] .
    moreover have "ct' \<le> length hist" using q by (auto simp: ring_rep_def)
    ultimately show ?thesis by simp
  qed
  have run: "\<exists>r'. push_slots q (rg_capacity q - (rg_head q - rg_cached_tail q)) inp = Some (of_nat n, r') \<and>
      ring_inv r' \<and> ring_capacity r' = ring_capacity r \<and> ring_contents r' = ring_contents r @ take n inp"
    if q: "ring_rep m q hist c ct' ch" "n = min (ct' + 2 ^ m - length hist) (length inp)" for q ct'
  proof -
    let ?f = "rg_capacity q - (rg_head q - rg_cached_tail q)"
    let ?k = "if ?f < of_nat (length inp) then ?f else of_nat (length inp)"
    have "unat ?k = n" using free [OF q(1)] cnt q(2) by (auto simp: word_less_nat_alt)
    moreover have "?k = of_nat (unat ?k)" by simp
    ultimately have k: "unat ?k = n" "?k = of_nat n" by simp_all
    have n: "length hist + length (take n inp) \<le> ct' + 2 ^ m" "length (take n inp) = n"
      using q by (auto simp: ring_rep_def)
    obtain slots where s: "copy_in (take n inp) (rg_slots q) (rg_mask q) (rg_head q) = Some slots"
      "ring_rep m (q\<lparr> rg_slots := slots, rg_head := rg_head q + of_nat n \<rparr>) (hist @ take n inp) c ct' ch"
      using rep_push_run [OF q(1) n(1)] unfolding n(2) by blast
    have "push_slots q ?f inp = Some (of_nat n, q\<lparr> rg_slots := slots, rg_head := rg_head q + of_nat n \<rparr>)"
      unfolding push_slots_def Let_def k(1) s(1) by (simp add: k(2))
    then show ?thesis using ring_rep_inv [OF s(2)] cont le by auto
  qed
  have n0: "n = min (c + 2 ^ m - length hist) (length inp)" using le by (simp add: n_def cont add.commute)
  show ?thesis
  proof (cases "rg_capacity r - (rg_head r - rg_cached_tail r) < of_nat (length inp)")
    case True
    then show ?thesis using run [OF rep_refresh_tail [OF rep] n0] by (simp add: try_push_bulk_def Let_def)
  next
    case False
    then have "length inp \<le> ct + 2 ^ m - length hist" by (simp add: word_less_nat_alt free [OF rep] cnt not_less)
    moreover from this le have "length inp \<le> c + 2 ^ m - length hist" by linarith
    ultimately have "n = min (ct + 2 ^ m - length hist) (length inp)" using n0 by (simp add: min_absorb2)
    then show ?thesis using run [OF rep] False by (simp add: try_push_bulk_def Let_def)
  qed
qed

subsection \<open>A bounded first-in first-out queue\<close>

datatype 'a fifo_op = Push 'a | Pop
datatype 'a fifo_out = Pushed bool | Popped "'a option"

fun fifo_run ::
  "('q \<Rightarrow> 'a \<Rightarrow> (bool \<times> 'q) option) \<Rightarrow> ('q \<Rightarrow> ('a option \<times> 'q) option) \<Rightarrow> 'a fifo_op list \<Rightarrow> 'q \<Rightarrow>
   ('a fifo_out list \<times> 'q) option" where
  "fifo_run push pop [] q = Some ([], q)"
| "fifo_run push pop (Push v # ops) q = do {
     (b, q) \<leftarrow> push q v;
     (outs, q) \<leftarrow> fifo_run push pop ops q;
     Some (Pushed b # outs, q) }"
| "fifo_run push pop (Pop # ops) q = do {
     (x, q) \<leftarrow> pop q;
     (outs, q) \<leftarrow> fifo_run push pop ops q;
     Some (Popped x # outs, q) }"

text \<open>The specification: a list of at most \<open>cap\<close> elements.\<close>

fun list_run :: "nat \<Rightarrow> 'a fifo_op list \<Rightarrow> 'a list \<Rightarrow> 'a fifo_out list \<times> 'a list" where
  "list_run cap [] xs = ([], xs)"
| "list_run cap (Push v # ops) xs =
     (let b = length xs < cap; (outs, ys) = list_run cap ops (if b then xs @ [v] else xs) in (Pushed b # outs, ys))"
| "list_run cap (Pop # ops) xs =
     (let x = (if xs = [] then None else Some (hd xs)); (outs, ys) = list_run cap ops (tl xs) in (Popped x # outs, ys))"

fun accepted :: "'a fifo_op list \<Rightarrow> 'a fifo_out list \<Rightarrow> 'a list" where
  "accepted (Push v # ops) (Pushed b # outs) = (if b then [v] else []) @ accepted ops outs"
| "accepted (op # ops) (out # outs) = accepted ops outs"
| "accepted _ _ = []"

fun delivered :: "'a fifo_out list \<Rightarrow> 'a list" where
  "delivered (Popped (Some v) # outs) = v # delivered outs"
| "delivered (_ # outs) = delivered outs"
| "delivered [] = []"

locale fifo =
  fixes inv :: "'q \<Rightarrow> bool" and contents :: "'q \<Rightarrow> 'a list" and cap :: "'q \<Rightarrow> nat"
    and push :: "'q \<Rightarrow> 'a \<Rightarrow> (bool \<times> 'q) option" and pop :: "'q \<Rightarrow> ('a option \<times> 'q) option"
  assumes push_law: "inv q \<Longrightarrow> \<exists>q'. push q v = Some (length (contents q) < cap q, q') \<and> inv q' \<and> cap q' = cap q \<and>
      contents q' = contents q @ (if length (contents q) < cap q then [v] else [])"
    and pop_law: "inv q \<Longrightarrow> \<exists>q'. pop q = Some (if contents q = [] then None else Some (hd (contents q)), q') \<and>
      inv q' \<and> cap q' = cap q \<and> contents q' = tl (contents q)"
begin

lemma run_refines:
  "inv q \<Longrightarrow> \<exists>q'. fifo_run push pop ops q = Some (fst (list_run (cap q) ops (contents q)), q') \<and> inv q' \<and>
     cap q' = cap q \<and> contents q' = snd (list_run (cap q) ops (contents q))"
proof (induction ops arbitrary: q)
  case (Cons op ops)
  show ?case
  proof (cases op)
    case (Push v)
    obtain q1 where q1: "push q v = Some (length (contents q) < cap q, q1)" "inv q1" "cap q1 = cap q"
      "contents q1 = contents q @ (if length (contents q) < cap q then [v] else [])"
      using push_law [OF Cons.prems] by blast
    then show ?thesis using Cons.IH [OF q1(2)] Push
      by (auto simp: Let_def split_beta)
  next
    case Pop
    obtain q1 where q1: "pop q = Some (if contents q = [] then None else Some (hd (contents q)), q1)" "inv q1"
      "cap q1 = cap q" "contents q1 = tl (contents q)"
      using pop_law [OF Cons.prems] by blast
    then show ?thesis using Cons.IH [OF q1(2)] Pop by (auto simp: Let_def split_beta)
  qed
qed simp

end

lemma list_run_conserves:
  "xs @ accepted ops (fst (list_run cap ops xs)) = delivered (fst (list_run cap ops xs)) @ snd (list_run cap ops xs)"
proof (induction ops arbitrary: xs)
  case (Cons op ops)
  show ?case
  proof (cases op)
    case (Push v)
    then show ?thesis using Cons.IH [of "if length xs < cap then xs @ [v] else xs"]
      by (simp add: Let_def split_beta split: if_splits)
  next
    case Pop
    then show ?thesis using Cons.IH [of "tl xs"] Cons.IH [of "[]"] by (cases xs) (simp_all add: Let_def split_beta)
  qed
qed simp

lemma list_run_bounded: "length xs \<le> cap \<Longrightarrow> length (snd (list_run cap ops xs)) \<le> cap"
proof (induction ops arbitrary: xs)
  case (Cons op ops)
  then show ?case by (cases op) (auto simp: Let_def split_beta)
qed simp

interpretation spsc: fifo ring_inv ring_contents ring_capacity try_push try_pop
  by unfold_locales (rule try_push_spec, assumption, rule try_pop_spec, assumption)

subsection \<open>Properties\<close>

text \<open>
  C30: called one at a time, the ring is a bounded first-in first-out queue. For every sequence of
  pushes and pops on a new ring, each call returns what a list of at most the rounded-up capacity
  returns, so a push is refused only when the ring is full and a pop only when it is empty; the
  values delivered and those still inside are exactly the accepted ones, in order. This holds
  after any number of operations, index wrap-around included.
\<close>

theorem spsc_fifo:
  assumes "capacity \<le> 2 ^ 63"
  shows "\<exists>r outs r'. SpscRing_new capacity d = Some r \<and>
    ring_capacity r = round_up_pow2 (if capacity < 2 then 2 else capacity) \<and>
    fifo_run try_push try_pop ops r = Some (outs, r') \<and>
    (outs, ring_contents r') = list_run (ring_capacity r) ops [] \<and>
    accepted ops outs = delivered outs @ ring_contents r' \<and>
    length (ring_contents r') \<le> ring_capacity r"
proof -
  obtain r where r: "SpscRing_new capacity d = Some r" "ring_inv r" "ring_contents r = []"
    "ring_capacity r = round_up_pow2 (if capacity < 2 then 2 else capacity)"
    using SpscRing_new_spec [OF assms, of d] by metis
  then show ?thesis
    using spsc.run_refines [OF r(2), of ops] list_run_conserves [of "[]" ops "ring_capacity r"]
      list_run_bounded [of "[]" "ring_capacity r" ops] by auto
qed

theorem spsc_fifo_witness:
  "\<exists>r r'. SpscRing_new 2 (0 :: nat) = Some r \<and>
     fifo_run try_push try_pop [Push 5, Push 6, Push 7, Pop] r =
       Some ([Pushed True, Pushed True, Pushed False, Popped (Some 5)], r') \<and> ring_contents r' = [6]"
proof -
  have "round_up_pow2 2 = 2" by code_simp
  then show ?thesis using spsc_fifo [of 2 "0 :: nat" "[Push 5, Push 6, Push 7, Pop]"] by auto
qed

text \<open>
  The bulk operations move whole runs. A bulk push accepts exactly as many elements as fit and
  appends them in order; a bulk pop removes a prefix of the contents of at most the requested
  length, and is empty-handed only when the ring is empty or nothing was asked for.
\<close>

theorem spsc_bulk:
  assumes "ring_inv r" "length inp < 2 ^ 64"
  shows "(\<exists>r'. try_push_bulk r inp = Some (of_nat (min (ring_capacity r - length (ring_contents r)) (length inp)), r') \<and>
      ring_inv r' \<and>
      ring_contents r' = ring_contents r @ take (ring_capacity r - length (ring_contents r)) inp) \<and>
    (\<exists>out r'. try_pop_bulk r maxn = Some (out, r') \<and> ring_inv r' \<and>
      ring_contents r = out @ ring_contents r' \<and> length out \<le> unat maxn \<and>
      (out = [] \<longleftrightarrow> ring_contents r = [] \<or> maxn = 0))"
proof (intro conjI)
  have take: "take (min a (length inp)) inp = take a inp" for a by (simp add: min_def)
  show "\<exists>r'. try_push_bulk r inp = Some (of_nat (min (ring_capacity r - length (ring_contents r)) (length inp)), r') \<and>
      ring_inv r' \<and> ring_contents r' = ring_contents r @ take (ring_capacity r - length (ring_contents r)) inp"
    using try_push_bulk_spec [OF assms] unfolding take by blast
  show "\<exists>out r'. try_pop_bulk r maxn = Some (out, r') \<and> ring_inv r' \<and>
      ring_contents r = out @ ring_contents r' \<and> length out \<le> unat maxn \<and>
      (out = [] \<longleftrightarrow> ring_contents r = [] \<or> maxn = 0)"
    using try_pop_bulk_spec [OF assms(1), of maxn] by fastforce
qed

definition ring_sample :: "nat ring" where
  "ring_sample = \<lparr> rg_capacity = 4, rg_mask = 3, rg_slots = [10, 11, 12, 13], rg_head = 1, rg_cached_tail = -2,
     rg_tail = -1, rg_cached_head = 0 \<rparr>"

lemma ring_sample_inv: "ring_inv ring_sample"
proof -
  have "ring_shape ring_sample 2" "(2 :: nat) \<in> {1..63}" by (simp_all add: ring_shape_def ring_sample_def)
  then show ?thesis unfolding ring_inv_def by (intro conjI bexI [of _ 2]) (simp_all add: ring_sample_def)
qed

theorem spsc_bulk_witness:
  "\<exists>r'. try_push_bulk ring_sample [20, 21, 22] = Some (2, r') \<and> ring_contents r' = [13, 10, 20, 21]"
proof -
  have "ring_contents ring_sample = [13, 10]" "ring_capacity ring_sample = 4" by code_simp+
  then show ?thesis using spsc_bulk [OF ring_sample_inv, of "[20, 21, 22]" 0] by auto
qed

end
