(* ===== verification/Spsc_Interleaving.thy ===== *)
theory Spsc_Interleaving
  imports Spsc_Ring "HOL-Library.Sublist"
begin

text \<open>
  The producer and the consumer of \<^verbatim>\<open>include/gtpm/spsc_ring.hpp\<close> running at the same time.

  Each operation is cut at its accesses to memory the other side can see: the load of the other
  side's index, every slot access, and the store of the own index. A state holds the ring, where
  each side is, and, as history, what was published and what was consumed so far.
\<close>

subsection \<open>States and steps\<close>

text \<open>
  \<open>PTail1\<close>, \<open>PTailN\<close>: about to load the tail, in \<^verbatim>\<open>try_push\<close> and \<^verbatim>\<open>try_push_bulk\<close>. \<open>PWrite vs i\<close>: about to
  write element \<open>i\<close> of \<open>vs\<close>, or to publish when all are written. The consumer likewise.
\<close>

datatype 'a producer_pc = PIdle | PTail1 'a | PTailN "'a list" | PWrite "'a list" nat
datatype 'a consumer_pc = CIdle | CHead1 | CHeadN u64 | CRead nat "'a list"

record 'a ring_sys =
  rs_ring :: "'a ring"
  rs_ppc :: "'a producer_pc"
  rs_cpc :: "'a consumer_pc"
  rs_pub :: "'a list"
  rs_got :: "'a list"

definition free_by :: "'a ring \<Rightarrow> u64 \<Rightarrow> u64" where
  "free_by r tail = rg_capacity r - (rg_head r - tail)"

definition write_index :: "'a ring_sys \<Rightarrow> nat \<Rightarrow> nat" where
  "write_index s i = unat ((rg_head (rs_ring s) + of_nat i) AND rg_mask (rs_ring s))"

definition read_index :: "'a ring_sys \<Rightarrow> nat \<Rightarrow> nat" where
  "read_index s i = unat ((rg_tail (rs_ring s) + of_nat i) AND rg_mask (rs_ring s))"

inductive producer_step :: "'a ring_sys \<Rightarrow> 'a ring_sys \<Rightarrow> bool" where
  push_fast: "rs_ppc s = PIdle \<Longrightarrow> \<not> rg_head (rs_ring s) - rg_cached_tail (rs_ring s) \<ge> rg_capacity (rs_ring s) \<Longrightarrow>
    producer_step s (s\<lparr> rs_ppc := PWrite [v] 0 \<rparr>)"
| push_slow: "rs_ppc s = PIdle \<Longrightarrow> rg_head (rs_ring s) - rg_cached_tail (rs_ring s) \<ge> rg_capacity (rs_ring s) \<Longrightarrow>
    producer_step s (s\<lparr> rs_ppc := PTail1 v \<rparr>)"
| push_load: "rs_ppc s = PTail1 v \<Longrightarrow> r = (rs_ring s)\<lparr> rg_cached_tail := rg_tail (rs_ring s) \<rparr> \<Longrightarrow>
    producer_step s (s\<lparr> rs_ring := r,
      rs_ppc := (if rg_head r - rg_cached_tail r \<ge> rg_capacity r then PIdle else PWrite [v] 0) \<rparr>)"
| bulk_fast: "rs_ppc s = PIdle \<Longrightarrow> length vs < 2 ^ 64 \<Longrightarrow>
    \<not> free_by (rs_ring s) (rg_cached_tail (rs_ring s)) < of_nat (length vs) \<Longrightarrow>
    producer_step s (s\<lparr> rs_ppc := PWrite vs 0 \<rparr>)"
| bulk_slow: "rs_ppc s = PIdle \<Longrightarrow> length vs < 2 ^ 64 \<Longrightarrow>
    free_by (rs_ring s) (rg_cached_tail (rs_ring s)) < of_nat (length vs) \<Longrightarrow>
    producer_step s (s\<lparr> rs_ppc := PTailN vs \<rparr>)"
| bulk_load: "rs_ppc s = PTailN vs \<Longrightarrow> r = (rs_ring s)\<lparr> rg_cached_tail := rg_tail (rs_ring s) \<rparr> \<Longrightarrow>
    n = (if free_by r (rg_cached_tail r) < of_nat (length vs) then free_by r (rg_cached_tail r) else of_nat (length vs)) \<Longrightarrow>
    producer_step s (s\<lparr> rs_ring := r, rs_ppc := PWrite (take (unat n) vs) 0 \<rparr>)"
| write_slot: "rs_ppc s = PWrite vs i \<Longrightarrow> i < length vs \<Longrightarrow>
    store_at (rg_slots (rs_ring s)) (write_index s i) (vs ! i) = Some slots \<Longrightarrow>
    producer_step s (s\<lparr> rs_ring := (rs_ring s)\<lparr> rg_slots := slots \<rparr>, rs_ppc := PWrite vs (Suc i) \<rparr>)"
| publish: "rs_ppc s = PWrite vs (length vs) \<Longrightarrow>
    producer_step s (s\<lparr> rs_ring := (rs_ring s)\<lparr> rg_head := rg_head (rs_ring s) + of_nat (length vs) \<rparr>,
      rs_ppc := PIdle, rs_pub := rs_pub s @ vs \<rparr>)"

definition pop_count :: "u64 \<Rightarrow> u64 \<Rightarrow> u64" where
  "pop_count available maxn = (if available > maxn then maxn else available)"

inductive consumer_step :: "'a ring_sys \<Rightarrow> 'a ring_sys \<Rightarrow> bool" where
  pop_fast: "rs_cpc s = CIdle \<Longrightarrow> rg_tail (rs_ring s) \<noteq> rg_cached_head (rs_ring s) \<Longrightarrow>
    consumer_step s (s\<lparr> rs_cpc := CRead 1 [] \<rparr>)"
| pop_slow: "rs_cpc s = CIdle \<Longrightarrow> rg_tail (rs_ring s) = rg_cached_head (rs_ring s) \<Longrightarrow>
    consumer_step s (s\<lparr> rs_cpc := CHead1 \<rparr>)"
| pop_load: "rs_cpc s = CHead1 \<Longrightarrow> r = (rs_ring s)\<lparr> rg_cached_head := rg_head (rs_ring s) \<rparr> \<Longrightarrow>
    consumer_step s (s\<lparr> rs_ring := r, rs_cpc := (if rg_tail r = rg_cached_head r then CIdle else CRead 1 []) \<rparr>)"
| bulk_pop_fast: "rs_cpc s = CIdle \<Longrightarrow> rg_tail (rs_ring s) \<noteq> rg_cached_head (rs_ring s) \<Longrightarrow>
    consumer_step s (s\<lparr> rs_cpc :=
      CRead (unat (pop_count (rg_cached_head (rs_ring s) - rg_tail (rs_ring s)) maxn)) [] \<rparr>)"
| bulk_pop_slow: "rs_cpc s = CIdle \<Longrightarrow> rg_tail (rs_ring s) = rg_cached_head (rs_ring s) \<Longrightarrow>
    consumer_step s (s\<lparr> rs_cpc := CHeadN maxn \<rparr>)"
| bulk_pop_load: "rs_cpc s = CHeadN maxn \<Longrightarrow> r = (rs_ring s)\<lparr> rg_cached_head := rg_head (rs_ring s) \<rparr> \<Longrightarrow>
    consumer_step s (s\<lparr> rs_ring := r, rs_cpc := (if rg_tail r = rg_cached_head r then CIdle
      else CRead (unat (pop_count (rg_cached_head r - rg_tail r) maxn)) []) \<rparr>)"
| read_slot: "rs_cpc s = CRead n acc \<Longrightarrow> length acc < n \<Longrightarrow>
    at_index (rg_slots (rs_ring s)) (read_index s (length acc)) = Some v \<Longrightarrow>
    consumer_step s (s\<lparr> rs_cpc := CRead n (acc @ [v]) \<rparr>)"
| release: "rs_cpc s = CRead n acc \<Longrightarrow> length acc = n \<Longrightarrow>
    consumer_step s (s\<lparr> rs_ring := (rs_ring s)\<lparr> rg_tail := rg_tail (rs_ring s) + of_nat n \<rparr>,
      rs_cpc := CIdle, rs_got := rs_got s @ acc \<rparr>)"

definition ring_step :: "'a ring_sys \<Rightarrow> 'a ring_sys \<Rightarrow> bool" where
  "ring_step s s' \<longleftrightarrow> producer_step s s' \<or> consumer_step s s'"

definition ring_start :: "'a ring \<Rightarrow> 'a ring_sys" where
  "ring_start r = \<lparr> rs_ring = r, rs_ppc = PIdle, rs_cpc = CIdle, rs_pub = [], rs_got = [] \<rparr>"

subsection \<open>The invariant\<close>

definition producer_ok :: "nat \<Rightarrow> 'a ring_sys \<Rightarrow> nat \<Rightarrow> bool" where
  "producer_ok m s ct = (case rs_ppc s of
       PWrite vs i \<Rightarrow> i \<le> length vs \<and> length (rs_pub s) + length vs \<le> ct + 2 ^ m \<and>
         (\<forall>j<i. rg_slots (rs_ring s) ! ((length (rs_pub s) + j) mod 2 ^ m) = vs ! j)
     | PTailN vs \<Rightarrow> length vs < 2 ^ 64
     | _ \<Rightarrow> True)"

definition consumer_ok :: "'a ring_sys \<Rightarrow> nat \<Rightarrow> bool" where
  "consumer_ok s ch = (case rs_cpc s of
       CRead n acc \<Rightarrow> length (rs_got s) + n \<le> ch \<and> length acc \<le> n \<and>
         acc = take (length acc) (drop (length (rs_got s)) (rs_pub s))
     | _ \<Rightarrow> True)"

definition sys_inv :: "nat \<Rightarrow> 'a ring_sys \<Rightarrow> bool" where
  "sys_inv m s \<longleftrightarrow> (\<exists>ct ch. ring_rep m (rs_ring s) (rs_pub s) (length (rs_got s)) ct ch \<and>
     rs_got s = take (length (rs_got s)) (rs_pub s) \<and> producer_ok m s ct \<and> consumer_ok s ch)"

lemma sys_invI:
  "ring_rep m (rs_ring s) (rs_pub s) (length (rs_got s)) ct ch \<Longrightarrow>
   rs_got s = take (length (rs_got s)) (rs_pub s) \<Longrightarrow> producer_ok m s ct \<Longrightarrow> consumer_ok s ch \<Longrightarrow> sys_inv m s"
  unfolding sys_inv_def by blast

lemma consumer_okI:
  "rs_cpc s = CRead n acc \<Longrightarrow> length (rs_got s) + n \<le> ch \<Longrightarrow> length acc \<le> n \<Longrightarrow>
   acc = take (length acc) (drop (length (rs_got s)) (rs_pub s)) \<Longrightarrow> consumer_ok s ch"
  by (simp add: consumer_ok_def)

lemma rep_free_by:
  assumes "ring_rep m r hist c ct ch"
  shows "unat (free_by r (rg_cached_tail r)) = ct + 2 ^ m - length hist"
proof -
  have le: "ct \<le> length hist" "length hist \<le> ct + 2 ^ m" using assms by (auto simp: ring_rep_def)
  have "rg_head r - rg_cached_tail r \<le> rg_capacity r"
    unfolding word_le_nat_alt ring_rep_diffs [OF assms] using le by auto
  from unat_sub [OF this] show ?thesis unfolding ring_rep_diffs [OF assms] free_by_def using le by simp
qed

lemma rep_write_free:
  assumes "ring_rep m r hist c ct ch" "length hist + j < ct + 2 ^ m"
  shows "ring_rep m (r\<lparr> rg_slots := (rg_slots r)[(length hist + j) mod 2 ^ m := v] \<rparr>) hist c ct ch"
proof -
  have "(length hist + j) mod 2 ^ m \<noteq> k mod 2 ^ m" if "c \<le> k" "k < length hist" for k
    using mod_inj_window [of k "2 ^ m" "length hist + j"] that assms by (auto simp: ring_rep_def)
  then show ?thesis using assms(1) by (auto simp: ring_rep_def ring_shape_def)
qed

lemma rep_write_slot:
  assumes "ring_rep m r hist c ct ch" "length hist + length vs \<le> ct + 2 ^ m"
    and "\<And>j. j < i \<Longrightarrow> rg_slots r ! ((length hist + j) mod 2 ^ m) = vs ! j" "i < length vs"
  defines "slots \<equiv> (rg_slots r)[(length hist + i) mod 2 ^ m := vs ! i]"
  shows "ring_rep m (r\<lparr> rg_slots := slots \<rparr>) hist c ct ch \<and>
    (\<forall>j<Suc i. slots ! ((length hist + j) mod 2 ^ m) = vs ! j)"
proof (intro conjI allI impI)
  show "ring_rep m (r\<lparr> rg_slots := slots \<rparr>) hist c ct ch"
    unfolding slots_def using rep_write_free [OF assms(1)] assms(2,4) by simp
  fix j assume j: "j < Suc i"
  have len: "length (rg_slots r) = 2 ^ m" "ct \<le> length hist" using assms(1) by (auto simp: ring_rep_def ring_shape_def)
  have "(length hist + j) mod 2 ^ m \<noteq> (length hist + i) mod 2 ^ m" if "j \<noteq> i"
    using mod_inj_window [of "length hist + j" "2 ^ m" "length hist + i"] that j assms(2,4) len by auto
  then show "slots ! ((length hist + j) mod 2 ^ m) = vs ! j"
    using assms(3) j len by (cases "j = i") (auto simp: slots_def)
qed

lemma rep_publish:
  assumes "ring_rep m r hist c ct ch" "length hist + length vs \<le> ct + 2 ^ m"
    and "\<And>j. j < length vs \<Longrightarrow> rg_slots r ! ((length hist + j) mod 2 ^ m) = vs ! j"
  shows "ring_rep m (r\<lparr> rg_head := rg_head r + of_nat (length vs) \<rparr>) (hist @ vs) c ct ch"
proof -
  have "rg_slots r ! (k mod 2 ^ m) = (hist @ vs) ! k" if "c \<le> k" "k < length hist + length vs" for k
    using assms(1) assms(3) [of "k - length hist"] that
    by (cases "k < length hist") (auto simp: nth_append ring_rep_def)
  then show ?thesis using assms(1,2) by (auto simp: ring_rep_def ring_shape_def)
qed

lemma write_index_eq:
  assumes "ring_rep m (rs_ring s) (rs_pub s) c ct ch"
  shows "write_index s i = (length (rs_pub s) + i) mod 2 ^ m" "read_index s i = (c + i) mod 2 ^ m"
proof -
  have "rg_head (rs_ring s) + of_nat i = of_nat (length (rs_pub s) + i)"
    "rg_tail (rs_ring s) + of_nat i = of_nat (c + i)" using assms by (simp_all add: ring_rep_def)
  then show "write_index s i = (length (rs_pub s) + i) mod 2 ^ m" "read_index s i = (c + i) mod 2 ^ m"
    unfolding write_index_def read_index_def by (simp_all only: ring_index [OF ring_rep_shape [OF assms]])
qed

lemma producer_step_inv:
  assumes "producer_step s s'" "sys_inv m s"
  shows "sys_inv m s'"
proof -
  from assms(2) obtain ct ch where rep: "ring_rep m (rs_ring s) (rs_pub s) (length (rs_got s)) ct ch"
    and got: "rs_got s = take (length (rs_got s)) (rs_pub s)" and p: "producer_ok m s ct" and c: "consumer_ok s ch"
    unfolding sys_inv_def by blast
  have le: "ct \<le> length (rs_got s)" "length (rs_got s) \<le> ch" "ch \<le> length (rs_pub s)" "length (rs_pub s) \<le> ct + 2 ^ m"
    using rep by (auto simp: ring_rep_def)
  have keep: "consumer_ok s' ch" if "rs_cpc s' = rs_cpc s" "rs_got s' = rs_got s" "rs_pub s' = rs_pub s" for s'
    using c that by (cases "rs_cpc s") (simp_all add: consumer_ok_def)
  note tail = rep_refresh_tail [OF rep]
  show ?thesis
    using assms(1)
  proof cases
    case (push_fast v)
    then have "length (rs_pub s) < ct + 2 ^ m"
      unfolding word_le_nat_alt ring_rep_diffs [OF rep] using le by auto
    then show ?thesis using rep got push_fast keep
      by (intro sys_invI [of m s' ct ch]) (auto simp: producer_ok_def)
  next
    case (push_slow v)
    then show ?thesis using rep got keep by (intro sys_invI [of m s' ct ch]) (auto simp: producer_ok_def)
  next
    case (push_load v r)
    have "length (rs_pub s) < length (rs_got s) + 2 ^ m" if "\<not> rg_head r - rg_cached_tail r \<ge> rg_capacity r"
      using that le unfolding push_load(3) word_le_nat_alt ring_rep_diffs [OF tail] by auto
    then show ?thesis using tail got push_load keep
      by (intro sys_invI [of m s' "length (rs_got s)" ch]) (auto simp: producer_ok_def)
  next
    case (bulk_fast vs)
    then have "length (rs_pub s) + length vs \<le> ct + 2 ^ m"
      using le by (auto simp: word_less_nat_alt rep_free_by [OF rep] unat_of_nat_less)
    then show ?thesis using rep got bulk_fast keep
      by (intro sys_invI [of m s' ct ch]) (auto simp: producer_ok_def)
  next
    case (bulk_slow vs)
    then show ?thesis using rep got keep by (intro sys_invI [of m s' ct ch]) (auto simp: producer_ok_def)
  next
    case (bulk_load vs r n)
    have "length vs < 2 ^ 64" using p bulk_load(2) by (simp add: producer_ok_def)
    then have "unat n \<le> length (rs_got s) + 2 ^ m - length (rs_pub s)"
      using rep_free_by [OF tail] unfolding bulk_load(3,4) by (auto simp: word_less_nat_alt unat_of_nat_less)
    then have "length (rs_pub s) + length (take (unat n) vs) \<le> length (rs_got s) + 2 ^ m" using le by auto
    then show ?thesis using tail got bulk_load keep
      by (intro sys_invI [of m s' "length (rs_got s)" ch]) (auto simp: producer_ok_def)
  next
    case (write_slot vs i slots)
    have ok: "i \<le> length vs" "length (rs_pub s) + length vs \<le> ct + 2 ^ m"
      "\<And>j. j < i \<Longrightarrow> rg_slots (rs_ring s) ! ((length (rs_pub s) + j) mod 2 ^ m) = vs ! j"
      using p write_slot(2) by (auto simp: producer_ok_def)
    from rep_write_slot [OF rep ok(2) ok(3) write_slot(3)] write_slot(4)
    have "ring_rep m (rs_ring s') (rs_pub s) (length (rs_got s)) ct ch"
      "\<And>j. j < Suc i \<Longrightarrow> slots ! ((length (rs_pub s) + j) mod 2 ^ m) = vs ! j"
      unfolding write_slot(1) write_index_eq(1) [OF rep] by (auto simp: store_at_eq_Some_conv)
    then show ?thesis using got write_slot keep ok
      by (intro sys_invI [of m s' ct ch]) (auto simp: producer_ok_def)
  next
    case (publish vs)
    have "ring_rep m (rs_ring s') (rs_pub s') (length (rs_got s')) ct ch"
      unfolding publish(1) using rep_publish [OF rep, of vs] p publish(2) by (simp add: producer_ok_def)
    moreover have "consumer_ok s' ch" using c le publish
      by (auto simp: consumer_ok_def split: consumer_pc.splits)
    ultimately show ?thesis using got publish le
      by (intro sys_invI [of m s' ct ch]) (auto simp: producer_ok_def)
  qed
qed

lemma consumer_step_inv:
  assumes "consumer_step s s'" "sys_inv m s"
  shows "sys_inv m s'"
proof -
  from assms(2) obtain ct ch where rep: "ring_rep m (rs_ring s) (rs_pub s) (length (rs_got s)) ct ch"
    and got: "rs_got s = take (length (rs_got s)) (rs_pub s)" and p: "producer_ok m s ct" and c: "consumer_ok s ch"
    unfolding sys_inv_def by blast
  have le: "length (rs_got s) \<le> ch" "ch \<le> length (rs_pub s)" using rep by (auto simp: ring_rep_def)
  have keep: "producer_ok m s' ct"
    if "rs_ppc s' = rs_ppc s" "rs_pub s' = rs_pub s" "rg_slots (rs_ring s') = rg_slots (rs_ring s)" for s'
    using p that by (cases "rs_ppc s") (simp_all add: producer_ok_def)
  have count: "length (rs_got s) + unat (pop_count (rg_cached_head r - rg_tail r) maxn) \<le> ch'"
    if "ring_rep m r (rs_pub s) (length (rs_got s)) ct ch'" for r ch' maxn
    using ring_rep_diffs(3) [OF that] that by (auto simp: pop_count_def word_less_nat_alt ring_rep_def)
  note head = rep_refresh_head [OF rep] and eq = rep_head_eq [OF rep] and heq = rep_head_eq [OF rep_refresh_head [OF rep]]
  show ?thesis
    using assms(1)
  proof cases
    case pop_fast
    then show ?thesis using rep got keep eq le
      by (intro sys_invI [of m s' ct ch]) (auto simp: consumer_ok_def)
  next
    case pop_slow
    then show ?thesis using rep got keep by (intro sys_invI [of m s' ct ch]) (auto simp: consumer_ok_def)
  next
    case (pop_load r)
    then show ?thesis using head got keep heq le
      by (intro sys_invI [of m s' ct "length (rs_pub s)"]) (auto simp: consumer_ok_def)
  next
    case (bulk_pop_fast maxn)
    then show ?thesis using rep got keep count [OF rep, of maxn]
      by (intro sys_invI [of m s' ct ch]) (auto simp: consumer_ok_def)
  next
    case (bulk_pop_slow maxn)
    then show ?thesis using rep got keep by (intro sys_invI [of m s' ct ch]) (auto simp: consumer_ok_def)
  next
    case (bulk_pop_load maxn r)
    then show ?thesis using head got keep count [OF head, of maxn]
      by (intro sys_invI [of m s' ct "length (rs_pub s)"]) (auto simp: consumer_ok_def)
  next
    case (read_slot n acc v)
    let ?k = "length (rs_got s) + length acc"
    have acc: "length (rs_got s) + n \<le> ch" "acc = take (length acc) (drop (length (rs_got s)) (rs_pub s))"
      using c read_slot(2) by (auto simp: consumer_ok_def)
    then have "?k < length (rs_pub s)" using read_slot(3) le by simp
    moreover have "v = rg_slots (rs_ring s) ! (?k mod 2 ^ m)"
      using read_slot(4) write_index_eq(2) [OF rep] by (auto simp: at_index_eq_Some_conv)
    ultimately have "v = rs_pub s ! ?k" using rep by (simp add: ring_rep_def)
    then have acc': "acc @ [v] = take (length (acc @ [v])) (drop (length (rs_got s)) (rs_pub s))"
      using acc(2) \<open>?k < length (rs_pub s)\<close> by (simp add: take_Suc_conv_app_nth)
    have "rs_cpc s' = CRead n (acc @ [v])" "rs_got s' = rs_got s" "rs_pub s' = rs_pub s" "length (acc @ [v]) \<le> n"
      using read_slot(1,3) by simp_all
    then have "consumer_ok s' ch" using acc(1) acc' by (intro consumer_okI [of s' n "acc @ [v]"]) (simp_all only:)
    then show ?thesis using rep got keep read_slot(1) by (intro sys_invI [of m s' ct ch]) auto
  next
    case (release n acc)
    have acc: "length (rs_got s) + n \<le> ch" "acc = take n (drop (length (rs_got s)) (rs_pub s))"
      using c release by (auto simp: consumer_ok_def)
    then have "take (length (rs_got s) + n) (rs_pub s) = rs_got s @ acc"
      using got by (simp add: take_add)
    then show ?thesis using rep_pop_run(2) [OF rep acc(1)] keep release
      by (intro sys_invI [of m s' ct ch]) (auto simp: consumer_ok_def)
  qed
qed

lemma ring_start_inv:
  assumes "SpscRing_new capacity d = Some r" "capacity \<le> 2 ^ 63"
  shows "\<exists>m. sys_inv m (ring_start r) \<and> ring_capacity r = 2 ^ m"
proof -
  obtain m hist c ct ch where rep: "ring_rep m r hist c ct ch"
    using SpscRing_new_spec [OF assms(2), of d] assms(1) ring_inv_rep [of r] by (metis option.inject)
  moreover have "rg_head r = 0" "rg_tail r = 0" "rg_cached_tail r = 0" "rg_cached_head r = 0"
    using assms(1) by (auto simp: SpscRing_new_def Let_def split: if_splits)
  ultimately have "ring_rep m r [] 0 0 0" by (auto simp: ring_rep_def)
  then show ?thesis using ring_rep_inv(3)
    by (intro exI [of _ m] conjI sys_invI [of m "ring_start r" 0 0])
       (auto simp: ring_start_def producer_ok_def consumer_ok_def)
qed

lemma reachable_inv:
  assumes "rtranclp ring_step s s'" "sys_inv m s"
  shows "sys_inv m s'"
  using assms by (induction rule: rtranclp_induct) (auto simp: ring_step_def producer_step_inv consumer_step_inv)

lemma step_capacity: "ring_step s s' \<Longrightarrow> rg_capacity (rs_ring s') = rg_capacity (rs_ring s)"
  unfolding ring_step_def by (elim disjE producer_step.cases consumer_step.cases) simp_all

lemma reachable_capacity: "rtranclp ring_step s s' \<Longrightarrow> rg_capacity (rs_ring s') = rg_capacity (rs_ring s)"
  by (induction rule: rtranclp_induct) (auto dest: step_capacity)

subsection \<open>Properties\<close>

text \<open>Both sides about to touch the same slot, and a slot access outside the array.\<close>

definition racing :: "'a ring_sys \<Rightarrow> bool" where
  "racing s = (case (rs_ppc s, rs_cpc s) of
     (PWrite vs i, CRead n acc) \<Rightarrow> i < length vs \<and> length acc < n \<and> write_index s i = read_index s (length acc)
   | _ \<Rightarrow> False)"

definition slots_in_bounds :: "'a ring_sys \<Rightarrow> bool" where
  "slots_in_bounds s \<longleftrightarrow> (\<forall>i. write_index s i < length (rg_slots (rs_ring s)) \<and>
     read_index s i < length (rg_slots (rs_ring s)))"

lemma sys_inv_facts:
  assumes "sys_inv m s"
  shows "prefix (rs_got s) (rs_pub s)" "length (rs_pub s) - length (rs_got s) \<le> 2 ^ m" "\<not> racing s" "slots_in_bounds s"
proof -
  from assms obtain ct ch where rep: "ring_rep m (rs_ring s) (rs_pub s) (length (rs_got s)) ct ch"
    and got: "rs_got s = take (length (rs_got s)) (rs_pub s)" and p: "producer_ok m s ct" and c: "consumer_ok s ch"
    unfolding sys_inv_def by blast
  have le: "ct \<le> length (rs_got s)" "ch \<le> length (rs_pub s)" "length (rs_pub s) \<le> ct + 2 ^ m"
    using rep by (auto simp: ring_rep_def)
  show "prefix (rs_got s) (rs_pub s)" by (metis got take_is_prefix)
  show "length (rs_pub s) - length (rs_got s) \<le> 2 ^ m" using le by simp
  show "slots_in_bounds s"
    using ring_index_bound [OF ring_rep_shape [OF rep]] by (simp add: slots_in_bounds_def write_index_eq [OF rep])
  show "\<not> racing s"
  proof
    assume "racing s"
    then obtain vs i n acc where r: "rs_ppc s = PWrite vs i" "rs_cpc s = CRead n acc" "i < length vs" "length acc < n"
      "write_index s i = read_index s (length acc)"
      by (auto simp: racing_def split: producer_pc.splits consumer_pc.splits)
    then have "length (rs_got s) + length acc < length (rs_pub s)" "length (rs_pub s) + i < length (rs_got s) + 2 ^ m"
      using p c le by (auto simp: producer_ok_def consumer_ok_def)
    then show False
      using mod_inj_window [of "length (rs_got s) + length acc" "2 ^ m" "length (rs_pub s) + i"] r(5)
      by (auto simp: write_index_eq [OF rep])
  qed
qed

text \<open>A run that fills a ring of two slots while the consumer is already reading the first.\<close>

definition run_ring :: "nat list \<Rightarrow> u64 \<Rightarrow> u64 \<Rightarrow> nat ring" where
  "run_ring slots head ch = \<lparr> rg_capacity = 2, rg_mask = 1, rg_slots = slots, rg_head = head,
     rg_cached_tail = 0, rg_tail = 0, rg_cached_head = ch \<rparr>"

definition run_sys :: "nat list \<Rightarrow> u64 \<Rightarrow> u64 \<Rightarrow> nat producer_pc \<Rightarrow> nat consumer_pc \<Rightarrow> nat list \<Rightarrow> nat ring_sys" where
  "run_sys slots head ch ppc cpc pub = \<lparr> rs_ring = run_ring slots head ch, rs_ppc = ppc, rs_cpc = cpc,
     rs_pub = pub, rs_got = [] \<rparr>"

lemmas run_simps = run_sys_def run_ring_def write_index_def store_at_def word_le_nat_alt

lemma run_new: "SpscRing_new 2 (0 :: nat) = Some (run_ring [0, 0] 0 0)" "ring_capacity (run_ring [0, 0] 0 0) = 2"
proof -
  have "round_up_pow2 2 = 2" by code_simp
  moreover have "replicate 2 (0 :: nat) = [0, 0]" by (simp add: numeral_2_eq_2)
  ultimately show "SpscRing_new 2 (0 :: nat) = Some (run_ring [0, 0] 0 0)" by (simp add: SpscRing_new_def run_ring_def)
  show "ring_capacity (run_ring [0, 0] 0 0) = 2" by (simp add: ring_capacity_def run_ring_def)
qed

lemma run_steps:
  "producer_step (run_sys [0, 0] 0 0 PIdle CIdle []) (run_sys [0, 0] 0 0 (PWrite [5] 0) CIdle [])"
  "producer_step (run_sys [0, 0] 0 0 (PWrite [5] 0) CIdle []) (run_sys [5, 0] 0 0 (PWrite [5] 1) CIdle [])"
  "producer_step (run_sys [5, 0] 0 0 (PWrite [5] 1) CIdle []) (run_sys [5, 0] 1 0 PIdle CIdle [5])"
  "consumer_step (run_sys [5, 0] 1 0 PIdle CIdle [5]) (run_sys [5, 0] 1 0 PIdle CHead1 [5])"
  "consumer_step (run_sys [5, 0] 1 0 PIdle CHead1 [5]) (run_sys [5, 0] 1 1 PIdle (CRead 1 []) [5])"
  "producer_step (run_sys [5, 0] 1 1 PIdle (CRead 1 []) [5]) (run_sys [5, 0] 1 1 (PWrite [6] 0) (CRead 1 []) [5])"
  "producer_step (run_sys [5, 0] 1 1 (PWrite [6] 0) (CRead 1 []) [5]) (run_sys [5, 6] 1 1 (PWrite [6] 1) (CRead 1 []) [5])"
  "producer_step (run_sys [5, 6] 1 1 (PWrite [6] 1) (CRead 1 []) [5]) (run_sys [5, 6] 2 1 PIdle (CRead 1 []) [5, 6])"
  "producer_step (run_sys [5, 6] 2 1 PIdle (CRead 1 []) [5, 6]) (run_sys [5, 6] 2 1 (PTail1 7) (CRead 1 []) [5, 6])"
  "producer_step (run_sys [5, 6] 2 1 (PTail1 7) (CRead 1 []) [5, 6]) (run_sys [5, 6] 2 1 PIdle (CRead 1 []) [5, 6])"
proof -
  show "producer_step (run_sys [0, 0] 0 0 PIdle CIdle []) (run_sys [0, 0] 0 0 (PWrite [5] 0) CIdle [])"
    using push_fast [of "run_sys [0, 0] 0 0 PIdle CIdle []" 5]
    by (simp add: run_simps)
  show "producer_step (run_sys [0, 0] 0 0 (PWrite [5] 0) CIdle []) (run_sys [5, 0] 0 0 (PWrite [5] 1) CIdle [])"
    using write_slot [of "run_sys [0, 0] 0 0 (PWrite [5] 0) CIdle []" "[5]" 0 "[5, 0]"]
    by (simp add: run_simps)
  show "producer_step (run_sys [5, 0] 0 0 (PWrite [5] 1) CIdle []) (run_sys [5, 0] 1 0 PIdle CIdle [5])"
    using publish [of "run_sys [5, 0] 0 0 (PWrite [5] 1) CIdle []" "[5]"]
    by (simp add: run_simps)
  show "consumer_step (run_sys [5, 0] 1 0 PIdle CIdle [5]) (run_sys [5, 0] 1 0 PIdle CHead1 [5])"
    using pop_slow [of "run_sys [5, 0] 1 0 PIdle CIdle [5]"]
    by (simp add: run_simps)
  show "consumer_step (run_sys [5, 0] 1 0 PIdle CHead1 [5]) (run_sys [5, 0] 1 1 PIdle (CRead 1 []) [5])"
    using pop_load [of "run_sys [5, 0] 1 0 PIdle CHead1 [5]"]
    by (simp add: run_simps)
  show "producer_step (run_sys [5, 0] 1 1 PIdle (CRead 1 []) [5]) (run_sys [5, 0] 1 1 (PWrite [6] 0) (CRead 1 []) [5])"
    using push_fast [of "run_sys [5, 0] 1 1 PIdle (CRead 1 []) [5]" 6]
    by (simp add: run_simps)
  show "producer_step (run_sys [5, 0] 1 1 (PWrite [6] 0) (CRead 1 []) [5]) (run_sys [5, 6] 1 1 (PWrite [6] 1) (CRead 1 []) [5])"
    using write_slot [of "run_sys [5, 0] 1 1 (PWrite [6] 0) (CRead 1 []) [5]" "[6]" 0 "[5, 6]"]
    by (simp add: run_simps)
  show "producer_step (run_sys [5, 6] 1 1 (PWrite [6] 1) (CRead 1 []) [5]) (run_sys [5, 6] 2 1 PIdle (CRead 1 []) [5, 6])"
    using publish [of "run_sys [5, 6] 1 1 (PWrite [6] 1) (CRead 1 []) [5]" "[6]"]
    by (simp add: run_simps)
  show "producer_step (run_sys [5, 6] 2 1 PIdle (CRead 1 []) [5, 6]) (run_sys [5, 6] 2 1 (PTail1 7) (CRead 1 []) [5, 6])"
    using push_slow [of "run_sys [5, 6] 2 1 PIdle (CRead 1 []) [5, 6]" 7]
    by (simp add: run_simps)
  show "producer_step (run_sys [5, 6] 2 1 (PTail1 7) (CRead 1 []) [5, 6]) (run_sys [5, 6] 2 1 PIdle (CRead 1 []) [5, 6])"
    using push_load [of "run_sys [5, 6] 2 1 (PTail1 7) (CRead 1 []) [5, 6]" 7]
    by (simp add: run_simps)
qed

lemma run_reachable:
  "rtranclp ring_step (ring_start (run_ring [0, 0] 0 0)) (run_sys [5, 0] 1 1 (PWrite [6] 0) (CRead 1 []) [5])"
  "rtranclp ring_step (ring_start (run_ring [0, 0] 0 0)) (run_sys [5, 6] 2 1 (PTail1 7) (CRead 1 []) [5, 6])"
proof -
  have start: "ring_start (run_ring [0, 0] 0 0) = run_sys [0, 0] 0 0 PIdle CIdle []"
    by (simp add: ring_start_def run_sys_def)
  have step: "producer_step s s' \<Longrightarrow> ring_step s s'" "consumer_step s s' \<Longrightarrow> ring_step s s'" for s s' :: "nat ring_sys"
    by (simp_all add: ring_step_def)
  note into = rtranclp.rtrancl_into_rtrancl [of ring_step]
  note st = run_steps(1,2,3) [THEN step(1)] run_steps(4,5) [THEN step(2)] run_steps(6-10) [THEN step(1)]
  show one: "rtranclp ring_step (ring_start (run_ring [0, 0] 0 0)) (run_sys [5, 0] 1 1 (PWrite [6] 0) (CRead 1 []) [5])"
    unfolding start
    by (rule into [OF into [OF into [OF into [OF into [OF into [OF rtranclp.rtrancl_refl st(1)] st(2)] st(3)]
          st(4)] st(5)] st(6)])
  show "rtranclp ring_step (ring_start (run_ring [0, 0] 0 0)) (run_sys [5, 6] 2 1 (PTail1 7) (CRead 1 []) [5, 6])"
    by (rule into [OF into [OF into [OF one st(7)] st(8)] st(9)])
qed

text \<open>
  C5: with the producer and the consumer running concurrently, whatever the interleaving, the
  consumer receives exactly the published elements in order, with none lost, repeated or torn: what
  it has taken is a prefix of what was published, and at most one capacity behind. The two sides
  never touch the same slot at the same time, and no slot index leaves the array.
\<close>

theorem spsc_interleaving_safe:
  assumes "SpscRing_new capacity d = Some r" "capacity \<le> 2 ^ 63" "rtranclp ring_step (ring_start r) s"
  shows "prefix (rs_got s) (rs_pub s) \<and> length (rs_pub s) - length (rs_got s) \<le> ring_capacity r \<and>
    \<not> racing s \<and> slots_in_bounds s"
proof -
  obtain m where m: "sys_inv m (ring_start r)" "ring_capacity r = 2 ^ m"
    using ring_start_inv [OF assms(1,2)] by blast
  then show ?thesis using sys_inv_facts [OF reachable_inv [OF assms(3)]] by auto
qed

theorem spsc_interleaving_safe_witness:
  "\<not> racing (run_sys [5, 0] 1 1 (PWrite [6] 0) (CRead 1 []) [5]) \<and>
   slots_in_bounds (run_sys [5, 0] 1 1 (PWrite [6] 0) (CRead 1 []) [5])"
proof -
  have "(2 :: nat) \<le> 2 ^ 63" by simp
  from spsc_interleaving_safe [OF run_new(1) this run_reachable(1)] show ?thesis by blast
qed

text \<open>
  A refusal is never spurious, even though each side decides on a stale copy of the other's
  index. When a push gives up, the ring holds a full capacity of unconsumed elements at that
  moment; when a pop gives up, everything published has been consumed.
\<close>

theorem spsc_refusals_exact:
  assumes "SpscRing_new capacity d = Some r" "capacity \<le> 2 ^ 63"
    and "rtranclp ring_step (ring_start r) s" "ring_step s s'"
  shows "(rs_ppc s = PTail1 v \<and> rs_ppc s' = PIdle \<longrightarrow> length (rs_pub s) = length (rs_got s) + ring_capacity r) \<and>
    (rs_cpc s = CHead1 \<and> rs_cpc s' = CIdle \<longrightarrow> rs_got s = rs_pub s)"
proof -
  obtain m where m: "sys_inv m (ring_start r)" "ring_capacity r = 2 ^ m"
    using ring_start_inv [OF assms(1,2)] by blast
  from reachable_inv [OF assms(3) m(1)] obtain ct ch where
    rep: "ring_rep m (rs_ring s) (rs_pub s) (length (rs_got s)) ct ch" and
    got: "rs_got s = take (length (rs_got s)) (rs_pub s)" unfolding sys_inv_def by blast
  have full: "(rg_head (rs_ring s) - rg_tail (rs_ring s) \<ge> rg_capacity (rs_ring s)) =
      (length (rs_pub s) - length (rs_got s) \<ge> 2 ^ m)"
    unfolding word_le_nat_alt ring_rep_diffs [OF rep] ..
  have le: "length (rs_got s) \<le> length (rs_pub s)" "length (rs_pub s) \<le> length (rs_got s) + 2 ^ m"
    using rep by (auto simp: ring_rep_def)
  show ?thesis
  proof (intro conjI impI)
    assume "rs_ppc s = PTail1 v \<and> rs_ppc s' = PIdle"
    then have "rg_head (rs_ring s) - rg_tail (rs_ring s) \<ge> rg_capacity (rs_ring s)"
      using assms(4) unfolding ring_step_def
      by (elim disjE producer_step.cases consumer_step.cases) (auto split: if_splits)
    then show "length (rs_pub s) = length (rs_got s) + ring_capacity r" using full le m(2) by simp
  next
    assume "rs_cpc s = CHead1 \<and> rs_cpc s' = CIdle"
    then have "rg_tail (rs_ring s) = rg_head (rs_ring s)"
      using assms(4) unfolding ring_step_def
      by (elim disjE producer_step.cases consumer_step.cases) (auto split: if_splits)
    then show "rs_got s = rs_pub s" using rep_head_eq(2) [OF rep] got by simp
  qed
qed

theorem spsc_refusals_exact_witness:
  "length (rs_pub (run_sys [5, 6] 2 1 (PTail1 7) (CRead 1 []) [5, 6])) =
   length (rs_got (run_sys [5, 6] 2 1 (PTail1 7) (CRead 1 []) [5, 6])) + ring_capacity (run_ring [0, 0] 0 0)"
proof -
  have "ring_step (run_sys [5, 6] 2 1 (PTail1 7) (CRead 1 []) [5, 6]) (run_sys [5, 6] 2 1 PIdle (CRead 1 []) [5, 6])"
    using run_steps(10) by (simp add: ring_step_def)
  note exact = spsc_refusals_exact [OF run_new(1) _ run_reachable(2) this, of 7]
  have "rs_ppc (run_sys [5, 6] 2 1 (PTail1 7) (CRead 1 []) [5, 6]) = PTail1 7 \<and>
    rs_ppc (run_sys [5, 6] 2 1 PIdle (CRead 1 []) [5, 6]) = PIdle" by (simp add: run_sys_def)
  moreover have "(2 :: nat) \<le> 2 ^ 63" by simp
  ultimately show ?thesis using exact by blast
qed

end
