(* ===== verification/Flat_Hash.thy ===== *)
theory Flat_Hash
  imports Prelude
begin

text \<open>
  \<^verbatim>\<open>include/gtpm/flat_hash.hpp\<close>: the open-addressing table that maps TEIDs to bindings, with linear
  probing, a side slot for the reserved key, and backward-shift deletion.

  Keys and values are two parallel arrays of a power-of-two length; slot indices are 64-bit words
  masked like the code masks them. A pointer to a value is a \<open>fh_ref\<close>. The loops that probe at
  most \<open>mask + 1\<close> slots recurse on the probes left; the loop of \<^verbatim>\<open>remove_at\<close> has no bound in the code
  and is a \<^theory_text>\<open>partial_function\<close>, so \<^const>\<open>None\<close> also means that it does not return. The table
  implements a finite map (locale \<open>bounded_map\<close>).
\<close>

abbreviation (input) kEmptyKey :: u32 where "kEmptyKey \<equiv> 0xFFFFFFFF"

definition hash_u32 :: "u32 \<Rightarrow> u32" where
  "hash_u32 key = (
     let x = key;
         x = x XOR drop_bit 16 x;
         x = x * 0x7feb352d;
         x = x XOR drop_bit 15 x;
         x = x * 0x846ca68b;
         x = x XOR drop_bit 16 x in x)"

record 'v flat =
  fh_capacity :: u64
  fh_mask :: u64
  fh_keys :: "u32 list"
  fh_values :: "'v list"
  fh_size :: u64
  fh_probes :: u64
  fh_lookups :: u64
  fh_sentinel_value :: 'v
  fh_sentinel_used :: bool

datatype fh_ref = Slot nat | Sentinel

definition table_pow2 :: "nat \<Rightarrow> nat" where
  "table_pow2 v = (if has_single_bit v then v else bit_ceil v)"

text \<open>The constructor; \<open>dflt\<close> is the value-initialised value.\<close>

definition FlatHash_new :: "nat \<Rightarrow> 'v \<Rightarrow> 'v flat option" where
  "FlatHash_new capacity dflt = (
     let c = table_pow2 (if capacity < 8 then 8 else capacity) in
     if c \<ge> 2 ^ 64 then None
     else Some \<lparr> fh_capacity = of_nat c, fh_mask = of_nat c - 1, fh_keys = replicate c kEmptyKey,
            fh_values = replicate c dflt, fh_size = 0, fh_probes = 0, fh_lookups = 0,
            fh_sentinel_value = dflt, fh_sentinel_used = False \<rparr>)"

definition fh_count :: "'v flat \<Rightarrow> u64" where
  "fh_count t = fh_size t + (if fh_sentinel_used t then 1 else 0)"

definition fh_empty :: "'v flat \<Rightarrow> bool" where
  "fh_empty t \<longleftrightarrow> fh_count t = 0"

text \<open>Reading and writing through a pointer a lookup returned.\<close>

fun fh_get :: "'v flat \<Rightarrow> fh_ref \<Rightarrow> 'v option" where
  "fh_get t (Slot i) = at_index (fh_values t) i"
| "fh_get t Sentinel = Some (fh_sentinel_value t)"

fun fh_set :: "'v flat \<Rightarrow> fh_ref \<Rightarrow> 'v \<Rightarrow> 'v flat option" where
  "fh_set t (Slot i) v = do { vs \<leftarrow> store_at (fh_values t) i v; Some (t\<lparr> fh_values := vs \<rparr>) }"
| "fh_set t Sentinel v = Some (t\<lparr> fh_sentinel_value := v \<rparr>)"

definition first_index :: "'v flat \<Rightarrow> u32 \<Rightarrow> u64" where
  "first_index t key = ucast (hash_u32 key) AND fh_mask t"

fun find_loop :: "nat \<Rightarrow> u32 \<Rightarrow> u64 \<Rightarrow> 'v flat \<Rightarrow> (fh_ref option \<times> 'v flat) option" where
  "find_loop 0 key idx t = Some (None, t)"
| "find_loop (Suc left) key idx t = (
     let t = t\<lparr> fh_probes := fh_probes t + 1 \<rparr> in do {
       k \<leftarrow> at_index (fh_keys t) (unat idx);
       if k = key then Some (Some (Slot (unat idx)), t)
       else if k = kEmptyKey then Some (None, t)
       else find_loop left key ((idx + 1) AND fh_mask t) t })"

definition fh_find :: "'v flat \<Rightarrow> u32 \<Rightarrow> (fh_ref option \<times> 'v flat) option" where
  "fh_find t key = (
     if key = kEmptyKey then Some (if fh_sentinel_used t then Some Sentinel else None, t)
     else
       let t = t\<lparr> fh_lookups := fh_lookups t + 1 \<rparr> in
       find_loop (unat (fh_mask t) + 1) key (first_index t key) t)"

definition fh_contains :: "'v flat \<Rightarrow> u32 \<Rightarrow> (bool \<times> 'v flat) option" where
  "fh_contains t key = do { (r, t) \<leftarrow> fh_find t key; Some (r \<noteq> None, t) }"

fun insert_loop :: "nat \<Rightarrow> u32 \<Rightarrow> 'v \<Rightarrow> u64 \<Rightarrow> 'v flat \<Rightarrow> (bool \<times> 'v flat) option" where
  "insert_loop 0 key value idx t = Some (False, t)"
| "insert_loop (Suc left) key value idx t = (
     let t = t\<lparr> fh_probes := fh_probes t + 1 \<rparr> in do {
       k \<leftarrow> at_index (fh_keys t) (unat idx);
       if k = kEmptyKey then do {
         ks \<leftarrow> store_at (fh_keys t) (unat idx) key;
         vs \<leftarrow> store_at (fh_values t) (unat idx) value;
         Some (True, t\<lparr> fh_keys := ks, fh_values := vs, fh_size := fh_size t + 1 \<rparr>) }
       else if k = key then do {
         vs \<leftarrow> store_at (fh_values t) (unat idx) value;
         Some (True, t\<lparr> fh_values := vs \<rparr>) }
       else insert_loop left key value ((idx + 1) AND fh_mask t) t })"

definition fh_insert :: "'v flat \<Rightarrow> u32 \<Rightarrow> 'v \<Rightarrow> (bool \<times> 'v flat) option" where
  "fh_insert t key value = (
     if key = kEmptyKey then Some (True, t\<lparr> fh_sentinel_value := value, fh_sentinel_used := True \<rparr>)
     else if fh_size t \<ge> fh_capacity t then Some (False, t)
     else insert_loop (unat (fh_mask t) + 1) key value (first_index t key) t)"

text \<open>One iteration of the loop of \<^verbatim>\<open>remove_at\<close> on \<open>(hole, next)\<close>, and the loop.\<close>

definition remove_body :: "u64 \<Rightarrow> u64 \<Rightarrow> 'v flat \<Rightarrow> (u64 \<times> u64 \<times> 'v flat) option" where
  "remove_body hole nxt t = do {
     k \<leftarrow> at_index (fh_keys t) (unat nxt);
     let ideal = first_index t k;
     let dist_hole = (nxt - hole) AND fh_mask t;
     let dist_ideal = (nxt - ideal) AND fh_mask t;
     (hole, t) \<leftarrow> (if dist_ideal \<ge> dist_hole then do {
         v \<leftarrow> at_index (fh_values t) (unat nxt);
         ks \<leftarrow> store_at (fh_keys t) (unat hole) k;
         vs \<leftarrow> store_at (fh_values t) (unat hole) v;
         Some (nxt, t\<lparr> fh_keys := ks, fh_values := vs \<rparr>) }
       else Some (hole, t));
     Some (hole, (nxt + 1) AND fh_mask t, t) }"

partial_function (option) remove_loop :: "u64 \<Rightarrow> u64 \<Rightarrow> 'v flat \<Rightarrow> (u64 \<times> 'v flat) option" where
  "remove_loop hole nxt t = do {
     k \<leftarrow> at_index (fh_keys t) (unat nxt);
     if k \<noteq> kEmptyKey then do {
       (hole, nxt, t) \<leftarrow> remove_body hole nxt t;
       remove_loop hole nxt t }
     else Some (hole, t) }"

definition remove_at :: "'v flat \<Rightarrow> u64 \<Rightarrow> 'v flat option" where
  "remove_at t hole = do {
     (hole, t) \<leftarrow> remove_loop hole ((hole + 1) AND fh_mask t) t;
     ks \<leftarrow> store_at (fh_keys t) (unat hole) kEmptyKey;
     Some (t\<lparr> fh_keys := ks \<rparr>) }"

fun erase_loop :: "nat \<Rightarrow> u32 \<Rightarrow> u64 \<Rightarrow> 'v flat \<Rightarrow> (bool \<times> 'v flat) option" where
  "erase_loop 0 key idx t = Some (False, t)"
| "erase_loop (Suc left) key idx t = do {
     k \<leftarrow> at_index (fh_keys t) (unat idx);
     if k = kEmptyKey then Some (False, t)
     else if k = key then do {
       t \<leftarrow> remove_at t idx;
       Some (True, t\<lparr> fh_size := fh_size t - 1 \<rparr>) }
     else erase_loop left key ((idx + 1) AND fh_mask t) t }"

definition fh_erase :: "'v flat \<Rightarrow> u32 \<Rightarrow> (bool \<times> 'v flat) option" where
  "fh_erase t key = (
     if key = kEmptyKey then Some (fh_sentinel_used t, t\<lparr> fh_sentinel_used := False \<rparr>)
     else erase_loop (unat (fh_mask t) + 1) key (first_index t key) t)"

definition fh_clear :: "'v flat \<Rightarrow> 'v flat" where
  "fh_clear t = t\<lparr> fh_keys := replicate (length (fh_keys t)) kEmptyKey, fh_size := 0, fh_sentinel_used := False \<rparr>"

definition fh_reset_stats :: "'v flat \<Rightarrow> 'v flat" where
  "fh_reset_stats t = t\<lparr> fh_probes := 0, fh_lookups := 0 \<rparr>"

text \<open>The entries \<^verbatim>\<open>for_each\<close> visits, in its order.\<close>

definition fh_entries :: "'v flat \<Rightarrow> (u32 \<times> 'v) list" where
  "fh_entries t = filter (\<lambda>(k, v). k \<noteq> kEmptyKey) (zip (fh_keys t) (fh_values t)) @
     (if fh_sentinel_used t then [(kEmptyKey, fh_sentinel_value t)] else [])"

text \<open>The finite map a table stands for.\<close>

definition fh_map :: "'v flat \<Rightarrow> u32 \<Rightarrow> 'v option" where
  "fh_map t key = (if key = kEmptyKey then (if fh_sentinel_used t then Some (fh_sentinel_value t) else None)
     else map_of (zip (fh_keys t) (fh_values t)) key)"

subsection \<open>The invariant of the table\<close>

definition home :: "nat \<Rightarrow> u32 \<Rightarrow> nat" where
  "home m key = unat (hash_u32 key) mod 2 ^ m"

definition occupied :: "u32 list \<Rightarrow> nat set" where
  "occupied ks = {i. i < length ks \<and> ks ! i \<noteq> kEmptyKey}"

text \<open>
  No key occurs twice, and the path from the home slot of a key to its place has no gap: this is
  what makes a gap mean that a key is absent.
\<close>

definition keys_ok :: "nat \<Rightarrow> u32 list \<Rightarrow> bool" where
  "keys_ok m ks \<longleftrightarrow> length ks = 2 ^ m \<and>
     (\<forall>i<2 ^ m. \<forall>j<2 ^ m. ks ! i \<noteq> kEmptyKey \<and> ks ! i = ks ! j \<longrightarrow> i = j) \<and>
     (\<forall>i<2 ^ m. ks ! i \<noteq> kEmptyKey \<longrightarrow>
        (\<forall>p<2 ^ m. cdist (2 ^ m) (home m (ks ! i)) p < cdist (2 ^ m) (home m (ks ! i)) i \<longrightarrow> ks ! p \<noteq> kEmptyKey))"

definition tab_shape :: "nat \<Rightarrow> 'v flat \<Rightarrow> bool" where
  "tab_shape m t \<longleftrightarrow> 1 \<le> m \<and> m \<le> 63 \<and> fh_capacity t = 2 ^ m \<and> fh_mask t = 2 ^ m - 1 \<and>
     length (fh_keys t) = 2 ^ m \<and> length (fh_values t) = 2 ^ m"

definition fh_rep :: "nat \<Rightarrow> 'v flat \<Rightarrow> bool" where
  "fh_rep m t \<longleftrightarrow> tab_shape m t \<and> keys_ok m (fh_keys t) \<and> fh_size t = of_nat (card (occupied (fh_keys t)))"

definition fh_inv :: "'v flat \<Rightarrow> bool" where
  "fh_inv t \<longleftrightarrow> (\<exists>m. fh_rep m t)"

definition fh_cap :: "'v flat \<Rightarrow> nat" where
  "fh_cap t = unat (fh_capacity t)"

lemma keys_ok_length: "keys_ok m ks \<Longrightarrow> length ks = 2 ^ m"
  by (simp add: keys_ok_def)

lemma keys_ok_distinct:
  assumes "keys_ok m ks" "i < 2 ^ m" "j < 2 ^ m" "ks ! i \<noteq> kEmptyKey" "ks ! i = ks ! j"
  shows "i = j"
  using assms unfolding keys_ok_def by blast

lemma keys_ok_chain:
  assumes "keys_ok m ks" "i < 2 ^ m" "ks ! i \<noteq> kEmptyKey" "p < 2 ^ m"
    and "cdist (2 ^ m) (home m (ks ! i)) p < cdist (2 ^ m) (home m (ks ! i)) i"
  shows "ks ! p \<noteq> kEmptyKey"
  using assms unfolding keys_ok_def by blast

lemma keys_okI:
  assumes "length ks = 2 ^ m"
    and "\<And>i j. i < 2 ^ m \<Longrightarrow> j < 2 ^ m \<Longrightarrow> ks ! i \<noteq> kEmptyKey \<Longrightarrow> ks ! i = ks ! j \<Longrightarrow> i = j"
    and "\<And>i p. i < 2 ^ m \<Longrightarrow> ks ! i \<noteq> kEmptyKey \<Longrightarrow> p < 2 ^ m \<Longrightarrow>
      cdist (2 ^ m) (home m (ks ! i)) p < cdist (2 ^ m) (home m (ks ! i)) i \<Longrightarrow> ks ! p \<noteq> kEmptyKey"
  shows "keys_ok m ks"
  unfolding keys_ok_def using assms by blast

lemma power_64_bound: "m \<le> 63 \<Longrightarrow> (2 :: nat) ^ m < 2 ^ 64"
  by (rule power_strict_increasing) simp_all

lemma unat_power_64: "m \<le> 63 \<Longrightarrow> unat (2 ^ m :: u64) = 2 ^ m"
  using unat_of_nat_less [where 'a = 64, of "2 ^ m"] power_64_bound [of m] by simp

lemma tab_shape_cap: "tab_shape m t \<Longrightarrow> fh_cap t = 2 ^ m"
  by (simp add: tab_shape_def fh_cap_def unat_power_64)

lemma tab_shape_mask: "tab_shape m t \<Longrightarrow> unat (fh_mask t) + 1 = 2 ^ m"
proof -
  assume "tab_shape m t"
  moreover have "(1 :: u64) \<le> 2 ^ m" if "m \<le> 63" using unat_power_64 [OF that] by (simp add: word_le_nat_alt)
  ultimately show ?thesis by (simp add: tab_shape_def unat_sub unat_power_64)
qed

lemma home_less: "home m key < 2 ^ m"
  by (simp add: home_def)

lemma first_index_home: "tab_shape m t \<Longrightarrow> unat (first_index t key) = home m key"
  unfolding first_index_def tab_shape_def home_def
  by (simp add: unat_and_mask unat_ucast_up)

lemma occupied_finite [simp]: "finite (occupied ks)"
  unfolding occupied_def by simp

lemma occupied_card_le: "card (occupied ks) \<le> length ks"
proof -
  have "occupied ks \<subseteq> {..<length ks}" unfolding occupied_def by auto
  from card_mono [OF _ this] show ?thesis by simp
qed

lemma occupied_full: "card (occupied ks) = length ks \<Longrightarrow> i < length ks \<Longrightarrow> ks ! i \<noteq> kEmptyKey"
proof -
  assume full: "card (occupied ks) = length ks" and i: "i < length ks"
  have "occupied ks = {..<length ks}"
    by (rule card_subset_eq) (use full in \<open>auto simp: occupied_def\<close>)
  then show ?thesis using i by (auto simp: occupied_def)
qed

lemma occupied_gap: "card (occupied ks) < length ks \<Longrightarrow> \<exists>i<length ks. ks ! i = kEmptyKey"
proof (rule ccontr)
  assume "card (occupied ks) < length ks" and none: "\<not> (\<exists>i<length ks. ks ! i = kEmptyKey)"
  moreover from none have "occupied ks = {..<length ks}" by (auto simp: occupied_def)
  ultimately show False by simp
qed

subsection \<open>Scanning a probe sequence\<close>

text \<open>The three probing loops stop at the first slot that holds the key or is empty.\<close>

fun scan :: "nat \<Rightarrow> u32 list \<Rightarrow> u32 \<Rightarrow> nat \<Rightarrow> nat option" where
  "scan 0 ks key p = None"
| "scan (Suc left) ks key p = (if ks ! p = key \<or> ks ! p = kEmptyKey then Some p
     else scan left ks key (cnext (length ks) p))"

lemma scan_from:
  assumes "h < n" "p < n" "n = length ks" "left = n - cdist n h p"
    and "\<And>q. q < n \<Longrightarrow> cdist n h q < cdist n h p \<Longrightarrow> ks ! q \<noteq> key \<and> ks ! q \<noteq> kEmptyKey"
  shows "case scan left ks key p of
      None \<Rightarrow> \<forall>q<n. ks ! q \<noteq> key \<and> ks ! q \<noteq> kEmptyKey
    | Some r \<Rightarrow> r < n \<and> (ks ! r = key \<or> ks ! r = kEmptyKey) \<and>
        (\<forall>q<n. cdist n h q < cdist n h r \<longrightarrow> ks ! q \<noteq> key \<and> ks ! q \<noteq> kEmptyKey)"
  using assms
proof (induction left arbitrary: p)
  case 0
  then show ?case using cdist_less [of h n p] by simp
next
  case (Suc left)
  show ?case
  proof (cases "ks ! p = key \<or> ks ! p = kEmptyKey")
    case True
    then have "scan (Suc left) ks key p = Some p" by simp
    then show ?thesis using Suc.prems(2,5) True by simp
  next
    case False
    have seen: "ks ! q \<noteq> key \<and> ks ! q \<noteq> kEmptyKey" if q: "q < n" "cdist n h q < Suc (cdist n h p)" for q
    proof (cases "cdist n h q < cdist n h p")
      case True
      then show ?thesis by (rule Suc.prems(5) [OF q(1)])
    next
      case not_less: False
      then have "q = p" using cdist_inj [OF Suc.prems(1) q(1) Suc.prems(2)] q(2) by simp
      then show ?thesis using False by simp
    qed
    show ?thesis
    proof (cases "Suc (cdist n h p) < n")
      case True
      then have "cdist n h (cnext n p) = Suc (cdist n h p)" using Suc.prems(1,2) by (rule cdist_cnext [rotated 2])
      then have "case scan left ks key (cnext n p) of
          None \<Rightarrow> \<forall>q<n. ks ! q \<noteq> key \<and> ks ! q \<noteq> kEmptyKey
        | Some r \<Rightarrow> r < n \<and> (ks ! r = key \<or> ks ! r = kEmptyKey) \<and>
            (\<forall>q<n. cdist n h q < cdist n h r \<longrightarrow> ks ! q \<noteq> key \<and> ks ! q \<noteq> kEmptyKey)"
        using Suc.prems(4) seen by (intro Suc.IH [OF Suc.prems(1) cnext_less [OF Suc.prems(2)] Suc.prems(3)]) simp_all
      then show ?thesis using False Suc.prems(3) by simp
    next
      case wrap: False
      then have "left = 0" using Suc.prems(4) by simp
      moreover have "ks ! q \<noteq> key \<and> ks ! q \<noteq> kEmptyKey" if "q < n" for q
        using seen [OF that] cdist_less [of h n q] that Suc.prems(1) wrap by simp
      ultimately show ?thesis using False by simp
    qed
  qed
qed

text \<open>Where a complete scan from the home slot ends.\<close>

lemma scan_home:
  assumes "length ks = 2 ^ m"
  shows "case scan (2 ^ m) ks key (home m key) of
      None \<Rightarrow> \<forall>q<2 ^ m. ks ! q \<noteq> key \<and> ks ! q \<noteq> kEmptyKey
    | Some r \<Rightarrow> r < 2 ^ m \<and> (ks ! r = key \<or> ks ! r = kEmptyKey) \<and>
        (\<forall>q<2 ^ m. cdist (2 ^ m) (home m key) q < cdist (2 ^ m) (home m key) r \<longrightarrow> ks ! q \<noteq> key \<and> ks ! q \<noteq> kEmptyKey)"
  by (rule scan_from [OF home_less home_less assms [symmetric]]) (simp_all add: cdist_def)

lemma scan_present:
  assumes "keys_ok m ks" "i < 2 ^ m" "ks ! i = key" "key \<noteq> kEmptyKey"
  shows "scan (2 ^ m) ks key (home m key) = Some i"
proof -
  let ?n = "2 ^ m" and ?h = "home m key"
  have len: "length ks = ?n" using assms(1) by (simp add: keys_ok_def)
  have chain: "ks ! p \<noteq> kEmptyKey" if "p < ?n" "cdist ?n ?h p < cdist ?n ?h i" for p
    using keys_ok_chain [OF assms(1,2) _ that(1)] assms(3,4) that(2) by simp
  have same: "q = i" if "q < ?n" "ks ! q = key" for q
    using keys_ok_distinct [OF assms(1) that(1) assms(2)] assms(3,4) that(2) by simp
  obtain r where r0: "scan ?n ks key ?h = Some r"
    using scan_home [OF len, of key] assms(2,3) by (cases "scan ?n ks key ?h") simp_all
  then have r: "scan ?n ks key ?h = Some r" "r < ?n" "ks ! r = key \<or> ks ! r = kEmptyKey"
    "\<And>q. q < ?n \<Longrightarrow> cdist ?n ?h q < cdist ?n ?h r \<Longrightarrow> ks ! q \<noteq> key"
    using scan_home [OF len, of key] by simp_all
  have "\<not> cdist ?n ?h i < cdist ?n ?h r" using r(4) assms(2,3) by blast
  then consider "cdist ?n ?h r < cdist ?n ?h i" | "cdist ?n ?h r = cdist ?n ?h i" by linarith
  then have "r = i"
  proof cases
    case 1
    then show ?thesis using chain [OF r(2) 1] r(3) same [OF r(2)] by simp
  next
    case 2
    then show ?thesis by (rule cdist_inj [OF home_less r(2) assms(2)])
  qed
  then show ?thesis using r(1) by simp
qed

lemma scan_absent:
  assumes "keys_ok m ks" "\<And>i. i < 2 ^ m \<Longrightarrow> ks ! i \<noteq> key" "e < 2 ^ m" "ks ! e = kEmptyKey"
  shows "\<exists>r<2 ^ m. scan (2 ^ m) ks key (home m key) = Some r \<and> ks ! r = kEmptyKey \<and>
    (\<forall>q<2 ^ m. cdist (2 ^ m) (home m key) q < cdist (2 ^ m) (home m key) r \<longrightarrow> ks ! q \<noteq> kEmptyKey)"
proof -
  have len: "length ks = 2 ^ m" using assms(1) by (simp add: keys_ok_def)
  show ?thesis
  proof (cases "scan (2 ^ m) ks key (home m key)")
    case None
    then show ?thesis using scan_home [OF len, of key] assms(3,4) by simp
  next
    case (Some r)
    then have "r < 2 ^ m" "ks ! r = key \<or> ks ! r = kEmptyKey"
      "\<forall>q<2 ^ m. cdist (2 ^ m) (home m key) q < cdist (2 ^ m) (home m key) r \<longrightarrow> ks ! q \<noteq> kEmptyKey"
      using scan_home [OF len, of key] by simp_all
    then show ?thesis using Some assms(2) [of r] by blast
  qed
qed

lemma word_step:
  "tab_shape m t \<Longrightarrow> unat idx < 2 ^ m \<Longrightarrow> unat ((idx + 1) AND fh_mask t) = cnext (2 ^ m) (unat idx)"
  by (simp add: tab_shape_def word_cnext)

definition find_result :: "u32 list \<Rightarrow> u32 \<Rightarrow> nat option \<Rightarrow> fh_ref option" where
  "find_result ks key res = (case res of None \<Rightarrow> None | Some r \<Rightarrow> if ks ! r = key then Some (Slot r) else None)"

definition insert_result :: "u32 \<Rightarrow> 'v \<Rightarrow> nat option \<Rightarrow> 'v flat \<Rightarrow> bool \<times> 'v flat" where
  "insert_result key v res t = (case res of None \<Rightarrow> (False, t)
     | Some r \<Rightarrow> (True, if fh_keys t ! r = kEmptyKey
         then t\<lparr> fh_keys := (fh_keys t)[r := key], fh_values := (fh_values t)[r := v], fh_size := fh_size t + 1 \<rparr>
         else t\<lparr> fh_values := (fh_values t)[r := v] \<rparr>))"

lemma find_loop_scan:
  assumes "tab_shape m t" "unat idx < 2 ^ m" "key \<noteq> kEmptyKey"
  shows "\<exists>pr. find_loop left key idx t =
    Some (find_result (fh_keys t) key (scan left (fh_keys t) key (unat idx)), t\<lparr> fh_probes := pr \<rparr>)"
  using assms
proof (induction left arbitrary: idx t)
  case 0
  then show ?case by (intro exI [of _ "fh_probes t"]) (simp add: find_result_def)
next
  case (Suc left)
  let ?t = "t\<lparr> fh_probes := fh_probes t + 1 \<rparr>" and ?i = "(idx + 1) AND fh_mask t"
  have shape: "tab_shape m ?t" and len: "length (fh_keys t) = 2 ^ m"
    using Suc.prems(1) by (simp_all add: tab_shape_def)
  have step: "unat ?i = cnext (2 ^ m) (unat idx)" using word_step [OF Suc.prems(1,2)] .
  then have "unat ?i < 2 ^ m" using cnext_less [OF Suc.prems(2)] by simp
  from Suc.IH [OF shape this Suc.prems(3)] obtain pr where "find_loop left key ?i ?t =
      Some (find_result (fh_keys t) key (scan left (fh_keys t) key (unat ?i)), t\<lparr> fh_probes := pr \<rparr>)" by auto
  then show ?case using Suc.prems(2,3) len step
    by (cases "fh_keys t ! unat idx = key \<or> fh_keys t ! unat idx = kEmptyKey")
       (auto simp: Let_def at_index_in find_result_def)
qed

lemma insert_loop_scan:
  assumes "tab_shape m t" "unat idx < 2 ^ m" "key \<noteq> kEmptyKey"
  shows "\<exists>pr. insert_loop left key v idx t =
    Some (insert_result key v (scan left (fh_keys t) key (unat idx)) (t\<lparr> fh_probes := pr \<rparr>))"
  using assms
proof (induction left arbitrary: idx t)
  case 0
  then show ?case by (intro exI [of _ "fh_probes t"]) (simp add: insert_result_def)
next
  case (Suc left)
  let ?t = "t\<lparr> fh_probes := fh_probes t + 1 \<rparr>" and ?i = "(idx + 1) AND fh_mask t"
  have shape: "tab_shape m ?t" and len: "length (fh_keys t) = 2 ^ m" "length (fh_values t) = 2 ^ m"
    using Suc.prems(1) by (simp_all add: tab_shape_def)
  have step: "unat ?i = cnext (2 ^ m) (unat idx)" using word_step [OF Suc.prems(1,2)] .
  then have "unat ?i < 2 ^ m" using cnext_less [OF Suc.prems(2)] by simp
  from Suc.IH [OF shape this Suc.prems(3)] obtain pr where ih: "insert_loop left key v ?i ?t =
      Some (insert_result key v (scan left (fh_keys t) key (unat ?i)) (t\<lparr> fh_probes := pr \<rparr>))" by auto
  show ?case
  proof (cases "fh_keys t ! unat idx = key \<or> fh_keys t ! unat idx = kEmptyKey")
    case True
    then show ?thesis using Suc.prems(2,3) len
      by (intro exI [of _ "fh_probes t + 1"]) (auto simp: Let_def at_index_in store_at_in insert_result_def)
  next
    case False
    then show ?thesis using ih Suc.prems(2) len step by (intro exI [of _ pr]) (simp add: Let_def at_index_in)
  qed
qed

lemma erase_loop_scan:
  assumes "tab_shape m t" "unat idx < 2 ^ m" "key \<noteq> kEmptyKey"
  shows "erase_loop left key idx t = (case scan left (fh_keys t) key (unat idx) of
      None \<Rightarrow> Some (False, t)
    | Some r \<Rightarrow> if fh_keys t ! r = kEmptyKey then Some (False, t)
        else do { t \<leftarrow> remove_at t (of_nat r); Some (True, t\<lparr> fh_size := fh_size t - 1 \<rparr>) })"
  using assms
proof (induction left arbitrary: idx)
  case (Suc left)
  have len: "length (fh_keys t) = 2 ^ m" using Suc.prems(1) by (simp add: tab_shape_def)
  have "erase_loop left key ((idx + 1) AND fh_mask t) t = (case scan left (fh_keys t) key (cnext (2 ^ m) (unat idx)) of
      None \<Rightarrow> Some (False, t)
    | Some r \<Rightarrow> if fh_keys t ! r = kEmptyKey then Some (False, t)
        else do { t \<leftarrow> remove_at t (of_nat r); Some (True, t\<lparr> fh_size := fh_size t - 1 \<rparr>) })"
    using Suc.IH [of "(idx + 1) AND fh_mask t"] Suc.prems word_step [OF Suc.prems(1,2)] cnext_less [of "unat idx" "2 ^ m"]
    by simp
  then show ?case using Suc.prems len by (auto simp: at_index_in)
qed simp

subsection \<open>The map of a table\<close>

lemma map_of_zip_unique:
  assumes "length ks = length vs" "i < length ks" "ks ! i = key" "\<And>j. j < length ks \<Longrightarrow> ks ! j = key \<Longrightarrow> j = i"
  shows "map_of (zip ks vs) key = Some (vs ! i)"
proof -
  have "key \<in> set ks" using assms(2,3) by (metis nth_mem)
  then obtain v where v: "map_of (zip ks vs) key = Some v" using assms(1) by (metis map_of_zip_is_Some)
  then have "(key, v) \<in> set (zip ks vs)" by (rule map_of_SomeD)
  then obtain j where "j < length ks" "ks ! j = key" "vs ! j = v" by (auto simp: in_set_zip)
  then show ?thesis using assms(4) v by blast
qed

lemma map_of_zip_absent: "length ks = length vs \<Longrightarrow> (\<And>i. i < length ks \<Longrightarrow> ks ! i \<noteq> key) \<Longrightarrow> map_of (zip ks vs) key = None"
  by (metis in_set_conv_nth map_of_zip_is_None)

lemma fh_rep_shape: "fh_rep m t \<Longrightarrow> tab_shape m t" and fh_rep_keys: "fh_rep m t \<Longrightarrow> keys_ok m (fh_keys t)"
  by (simp_all add: fh_rep_def)

lemma fh_map_at:
  assumes "tab_shape m t" "keys_ok m (fh_keys t)" "i < 2 ^ m" "fh_keys t ! i = key" "key \<noteq> kEmptyKey"
  shows "fh_map t key = Some (fh_values t ! i)"
proof -
  have "map_of (zip (fh_keys t) (fh_values t)) key = Some (fh_values t ! i)"
  proof (rule map_of_zip_unique)
    fix j assume "j < length (fh_keys t)" "fh_keys t ! j = key"
    then show "j = i" using keys_ok_distinct [OF assms(2), of j i] assms by (simp add: tab_shape_def)
  qed (use assms in \<open>simp_all add: tab_shape_def\<close>)
  then show ?thesis using assms(5) by (simp add: fh_map_def)
qed

lemma fh_map_absent:
  "tab_shape m t \<Longrightarrow> (\<And>i. i < 2 ^ m \<Longrightarrow> fh_keys t ! i \<noteq> key) \<Longrightarrow> key \<noteq> kEmptyKey \<Longrightarrow> fh_map t key = None"
  by (simp add: fh_map_def tab_shape_def map_of_zip_absent)

text \<open>Two tables with the same entries stand for the same map.\<close>

lemma fh_map_eqI:
  assumes "tab_shape m t" "keys_ok m (fh_keys t)" "tab_shape m u" "keys_ok m (fh_keys u)" "key \<noteq> kEmptyKey"
    and "\<And>i. i < 2 ^ m \<Longrightarrow> fh_keys t ! i = key \<Longrightarrow> \<exists>j<2 ^ m. fh_keys u ! j = key \<and> fh_values u ! j = fh_values t ! i"
    and "\<And>j. j < 2 ^ m \<Longrightarrow> fh_keys u ! j = key \<Longrightarrow> \<exists>i<2 ^ m. fh_keys t ! i = key"
  shows "fh_map u key = fh_map t key"
proof (cases "\<exists>i<2 ^ m. fh_keys t ! i = key")
  case True
  then obtain i j where "i < 2 ^ m" "fh_keys t ! i = key" "j < 2 ^ m" "fh_keys u ! j = key"
    "fh_values u ! j = fh_values t ! i" using assms(6) by blast
  then show ?thesis using fh_map_at [OF assms(1,2), of i key] fh_map_at [OF assms(3,4), of j key] assms(5) by simp
next
  case False
  then have "\<And>j. j < 2 ^ m \<Longrightarrow> fh_keys u ! j \<noteq> key" using assms(7) by blast
  then show ?thesis using False fh_map_absent [OF assms(1) _ assms(5)] fh_map_absent [OF assms(3) _ assms(5)] by metis
qed

lemma fh_used_card:
  assumes "fh_rep m t"
  shows "card (dom (fh_map t) - {kEmptyKey}) = card (occupied (fh_keys t))"
proof -
  have shape: "tab_shape m t" and ok: "keys_ok m (fh_keys t)" using assms by (simp_all add: fh_rep_def)
  have len: "length (fh_keys t) = 2 ^ m" using shape by (simp add: tab_shape_def)
  have "inj_on ((!) (fh_keys t)) (occupied (fh_keys t))"
    by (rule inj_onI, rule keys_ok_distinct [OF ok]) (simp_all add: occupied_def len)
  moreover have "(!) (fh_keys t) ` occupied (fh_keys t) = dom (fh_map t) - {kEmptyKey}"
  proof (intro equalityI subsetI)
    fix key assume "key \<in> (!) (fh_keys t) ` occupied (fh_keys t)"
    then obtain i where "i < 2 ^ m" "fh_keys t ! i = key" "key \<noteq> kEmptyKey" by (auto simp: occupied_def len)
    then show "key \<in> dom (fh_map t) - {kEmptyKey}" using fh_map_at [OF shape ok] by blast
  next
    fix key assume key: "key \<in> dom (fh_map t) - {kEmptyKey}"
    then have "\<exists>i<2 ^ m. fh_keys t ! i = key" using fh_map_absent [OF shape, of key] by fastforce
    then show "key \<in> (!) (fh_keys t) ` occupied (fh_keys t)" using key len by (auto simp: occupied_def)
  qed
  ultimately show ?thesis by (metis card_image)
qed

definition fh_used :: "'v flat \<Rightarrow> nat" where
  "fh_used t = card (dom (fh_map t) - {kEmptyKey})"

lemma fh_size_used:
  assumes "fh_rep m t"
  shows "unat (fh_size t) = fh_used t" "fh_used t \<le> 2 ^ m"
proof -
  have "length (fh_keys t) = 2 ^ m" "m \<le> 63" using assms by (auto simp: fh_rep_def tab_shape_def)
  then have le: "card (occupied (fh_keys t)) \<le> 2 ^ m" using occupied_card_le [of "fh_keys t"] by simp
  then show "fh_used t \<le> 2 ^ m" by (simp add: fh_used_def fh_used_card [OF assms])
  have "card (occupied (fh_keys t)) < 2 ^ LENGTH(64)" using le power_64_bound [OF \<open>m \<le> 63\<close>] by simp
  then show "unat (fh_size t) = fh_used t"
    using assms by (simp add: fh_rep_def fh_used_def fh_used_card [OF assms] unat_of_nat_less)
qed

subsection \<open>Lookup\<close>

lemma fh_rep_stats:
  "fh_rep m (t\<lparr> fh_probes := a, fh_lookups := b \<rparr>) = fh_rep m t"
  "fh_map (t\<lparr> fh_probes := a, fh_lookups := b \<rparr>) = fh_map t"
  by (simp_all add: fh_rep_def tab_shape_def fh_map_def fun_eq_iff)

lemma fh_rep_values:
  assumes "fh_rep m t" "r < 2 ^ m" "fh_keys t ! r = key" "key \<noteq> kEmptyKey"
  shows "fh_rep m (t\<lparr> fh_values := (fh_values t)[r := v] \<rparr>)"
    "fh_map (t\<lparr> fh_values := (fh_values t)[r := v] \<rparr>) = (fh_map t)(key \<mapsto> v)"
proof -
  let ?u = "t\<lparr> fh_values := (fh_values t)[r := v] \<rparr>"
  have shape: "tab_shape m t" "tab_shape m ?u" and ok: "keys_ok m (fh_keys t)" "keys_ok m (fh_keys ?u)"
    using assms(1) by (auto simp: fh_rep_def tab_shape_def)
  show "fh_rep m ?u" using assms(1) by (simp add: fh_rep_def tab_shape_def)
  have len: "length (fh_values t) = 2 ^ m" using shape by (simp add: tab_shape_def)
  show "fh_map ?u = (fh_map t)(key \<mapsto> v)"
  proof
    fix k
    consider "k = kEmptyKey" | "k = key" | "k \<noteq> kEmptyKey" "k \<noteq> key" by blast
    then show "fh_map ?u k = ((fh_map t)(key \<mapsto> v)) k"
    proof cases
      case 1
      then show ?thesis using assms(4) by (simp add: fh_map_def)
    next
      case 2
      then show ?thesis using fh_map_at [OF shape(2) ok(2) assms(2)] assms(2-4) len by simp
    next
      case 3
      have "fh_map ?u k = fh_map t k"
      proof (rule fh_map_eqI [OF shape(1) ok(1) shape(2) ok(2) 3(1)])
        fix i assume i: "i < 2 ^ m" "fh_keys t ! i = k"
        then have "i \<noteq> r" using 3(2) assms(3) by auto
        then show "\<exists>j<2 ^ m. fh_keys ?u ! j = k \<and> fh_values ?u ! j = fh_values t ! i" using i by auto
      qed auto
      then show ?thesis using 3 by simp
    qed
  qed
qed

lemma fh_find_spec:
  assumes "fh_rep m t"
  shows "\<exists>res a b. fh_find t key = Some (res, t\<lparr> fh_probes := a, fh_lookups := b \<rparr>) \<and>
    (case fh_map t key of None \<Rightarrow> res = None
     | Some v \<Rightarrow> \<exists>ref. res = Some ref \<and> (\<forall>a b. fh_get (t\<lparr> fh_probes := a, fh_lookups := b \<rparr>) ref = Some v) \<and>
         (\<forall>w. \<exists>u. fh_set t ref w = Some u \<and> fh_rep m u \<and> fh_map u = (fh_map t)(key \<mapsto> w)))"
proof (cases "key = kEmptyKey")
  case True
  have "fh_rep m (t\<lparr> fh_sentinel_value := w \<rparr>)" for w using assms by (simp add: fh_rep_def tab_shape_def)
  moreover have "fh_map (t\<lparr> fh_sentinel_value := w \<rparr>) = (fh_map t)(kEmptyKey \<mapsto> w)" if "fh_sentinel_used t" for w
    using that by (simp add: fh_map_def fun_eq_iff)
  ultimately show ?thesis using True
    by (intro exI [of _ "if fh_sentinel_used t then Some Sentinel else None"] exI [of _ "fh_probes t"] exI [of _ "fh_lookups t"])
       (simp add: fh_find_def fh_map_def)
next
  case False
  have shape: "tab_shape m t" and ok: "keys_ok m (fh_keys t)" using assms by (simp_all add: fh_rep_def)
  let ?t = "t\<lparr> fh_lookups := fh_lookups t + 1 \<rparr>"
  have shape': "tab_shape m ?t" using shape by (simp add: tab_shape_def)
  have idx: "unat (first_index ?t key) = home m key" using first_index_home [OF shape'] .
  then obtain pr where fl: "find_loop (2 ^ m) key (first_index ?t key) ?t =
      Some (find_result (fh_keys t) key (scan (2 ^ m) (fh_keys t) key (home m key)), ?t\<lparr> fh_probes := pr \<rparr>)"
    using find_loop_scan [OF shape', of "first_index ?t key" key "2 ^ m"] home_less [of m key] False by auto
  have fnd: "fh_find t key = Some (find_result (fh_keys t) key (scan (2 ^ m) (fh_keys t) key (home m key)),
      t\<lparr> fh_probes := pr, fh_lookups := fh_lookups t + 1 \<rparr>)"
    unfolding fh_find_def Let_def tab_shape_mask [OF shape'] fl using False by simp
  show ?thesis
  proof (cases "\<exists>i<2 ^ m. fh_keys t ! i = key")
    case True
    then obtain i where i: "i < 2 ^ m" "fh_keys t ! i = key" by blast
    have "scan (2 ^ m) (fh_keys t) key (home m key) = Some i" by (rule scan_present [OF ok i False])
    then have "fh_find t key = Some (Some (Slot i), t\<lparr> fh_probes := pr, fh_lookups := fh_lookups t + 1 \<rparr>)"
      using fnd i by (simp add: find_result_def)
    moreover have "i < length (fh_values t)" using shape i by (simp add: tab_shape_def)
    ultimately show ?thesis
      using fh_map_at [OF shape ok i False] fh_rep_values [OF assms i False]
      by (intro exI [of _ "Some (Slot i)"] exI [of _ pr] exI [of _ "fh_lookups t + 1"])
         (simp add: at_index_in store_at_in)
  next
    case none: False
    then have "find_result (fh_keys t) key (scan (2 ^ m) (fh_keys t) key (home m key)) = None"
      using scan_home [of "fh_keys t" m key] keys_ok_length [OF ok]
      by (auto simp: find_result_def split: option.splits)
    then show ?thesis using fnd fh_map_absent [OF shape _ False] none by auto
  qed
qed

subsection \<open>Insertion\<close>

lemma occupied_update: "r < length ks \<Longrightarrow> key \<noteq> kEmptyKey \<Longrightarrow> occupied (ks[r := key]) = insert r (occupied ks)"
  by (auto simp: occupied_def nth_list_update)

lemma keys_ok_insert:
  assumes ok: "keys_ok m ks" and r: "r < 2 ^ m" "ks ! r = kEmptyKey" and key: "key \<noteq> kEmptyKey"
    and new: "\<And>i. i < 2 ^ m \<Longrightarrow> ks ! i \<noteq> key"
    and path: "\<And>q. q < 2 ^ m \<Longrightarrow> cdist (2 ^ m) (home m key) q < cdist (2 ^ m) (home m key) r \<Longrightarrow> ks ! q \<noteq> kEmptyKey"
  shows "keys_ok m (ks[r := key])"
proof -
  let ?k = "ks[r := key]"
  have len: "length ks = 2 ^ m" using ok by (rule keys_ok_length)
  have nth: "?k ! i = (if i = r then key else ks ! i)" if "i < 2 ^ m" for i
    using that len r(1) by simp
  have distinct: "i = j" if "i < 2 ^ m" "j < 2 ^ m" "?k ! i \<noteq> kEmptyKey" "?k ! i = ?k ! j" for i j
    using that nth new keys_ok_distinct [OF ok, of i j] by (metis (full_types))
  have chain: "?k ! p \<noteq> kEmptyKey"
    if "i < 2 ^ m" "?k ! i \<noteq> kEmptyKey" "p < 2 ^ m"
      "cdist (2 ^ m) (home m (?k ! i)) p < cdist (2 ^ m) (home m (?k ! i)) i" for i p
  proof (cases "p = r")
    case True
    then show ?thesis using nth [OF that(3)] key by simp
  next
    case False
    then have "ks ! p \<noteq> kEmptyKey"
      using that nth path [of p] keys_ok_chain [OF ok, of i p] by (cases "i = r") simp_all
    then show ?thesis using nth [OF that(3)] False by simp
  qed
  show ?thesis by (rule keys_okI [OF _ distinct chain]) (simp_all add: len)
qed

lemma fh_rep_insert:
  fixes t :: "'v flat" and v :: 'v
  assumes rep: "fh_rep m t" and r: "r < 2 ^ m" "fh_keys t ! r = kEmptyKey" and key: "key \<noteq> kEmptyKey"
    and new: "\<And>i. i < 2 ^ m \<Longrightarrow> fh_keys t ! i \<noteq> key"
    and path: "\<And>q. q < 2 ^ m \<Longrightarrow> cdist (2 ^ m) (home m key) q < cdist (2 ^ m) (home m key) r \<Longrightarrow> fh_keys t ! q \<noteq> kEmptyKey"
  defines "u \<equiv> t\<lparr> fh_keys := (fh_keys t)[r := key], fh_values := (fh_values t)[r := v], fh_size := fh_size t + 1 \<rparr>"
  shows "fh_rep m u" "fh_map u = (fh_map t)(key \<mapsto> v)"
proof -
  have shape: "tab_shape m t" "tab_shape m u" and ok: "keys_ok m (fh_keys t)"
    using rep by (auto simp: fh_rep_def tab_shape_def u_def)
  have ok': "keys_ok m (fh_keys u)" using keys_ok_insert [OF ok r key new path] by (simp add: u_def)
  have len: "length (fh_keys t) = 2 ^ m" "length (fh_values t) = 2 ^ m" using shape by (simp_all add: tab_shape_def)
  have "r \<notin> occupied (fh_keys t)" using r by (simp add: occupied_def)
  then have "card (occupied (fh_keys u)) = Suc (card (occupied (fh_keys t)))"
    using r(1) len key by (simp add: u_def occupied_update)
  then show "fh_rep m u" using rep shape ok' by (simp add: fh_rep_def u_def)
  have nth: "fh_keys u ! i = (if i = r then key else fh_keys t ! i)" "fh_values u ! i = (if i = r then v else fh_values t ! i)"
    if "i < 2 ^ m" for i using that len r(1) by (auto simp: u_def)
  show "fh_map u = (fh_map t)(key \<mapsto> v)"
  proof
    fix k
    consider "k = kEmptyKey" | "k = key" | "k \<noteq> kEmptyKey" "k \<noteq> key" by blast
    then show "fh_map u k = ((fh_map t)(key \<mapsto> v)) k"
    proof cases
      case 1
      then show ?thesis using key by (simp add: fh_map_def u_def)
    next
      case 2
      then show ?thesis using fh_map_at [OF shape(2) ok' r(1)] nth [OF r(1)] key by simp
    next
      case 3
      have "fh_map u k = fh_map t k"
      proof (rule fh_map_eqI [OF shape(1) ok shape(2) ok' 3(1)])
        fix i assume i: "i < 2 ^ m" "fh_keys t ! i = k"
        then have "i \<noteq> r" using 3(1) r(2) by auto
        then show "\<exists>j<2 ^ m. fh_keys u ! j = k \<and> fh_values u ! j = fh_values t ! i" using i nth by auto
      next
        fix j assume "j < 2 ^ m" "fh_keys u ! j = k"
        then show "\<exists>i<2 ^ m. fh_keys t ! i = k" using nth 3(2) by (metis (full_types))
      qed
      then show ?thesis using 3 by simp
    qed
  qed
qed

lemma fh_insert_spec:
  assumes rep: "fh_rep m t" and room: "key = kEmptyKey \<or> fh_used t < 2 ^ m"
  shows "\<exists>u. fh_insert t key v = Some (True, u) \<and> fh_rep m u \<and> fh_map u = (fh_map t)(key \<mapsto> v)"
proof (cases "key = kEmptyKey")
  case True
  let ?u = "t\<lparr> fh_sentinel_value := v, fh_sentinel_used := True \<rparr>"
  have "fh_rep m ?u" using rep by (simp add: fh_rep_def tab_shape_def)
  moreover have "fh_map ?u = (fh_map t)(key \<mapsto> v)" using True by (simp add: fh_map_def fun_eq_iff)
  ultimately show ?thesis using True by (simp add: fh_insert_def)
next
  case False
  have shape: "tab_shape m t" and ok: "keys_ok m (fh_keys t)" using rep by (simp_all add: fh_rep_def)
  have used: "fh_used t < 2 ^ m" using room False by blast
  then have nofull: "\<not> fh_size t \<ge> fh_capacity t"
    using fh_size_used [OF rep] tab_shape_cap [OF shape] by (simp add: word_le_nat_alt fh_cap_def)
  have idx: "unat (first_index t key) = home m key" using first_index_home [OF shape] .
  obtain pr where il: "insert_loop (2 ^ m) key v (first_index t key) t =
      Some (insert_result key v (scan (2 ^ m) (fh_keys t) key (home m key)) (t\<lparr> fh_probes := pr \<rparr>))"
    using insert_loop_scan [OF shape, of "first_index t key" key "2 ^ m" v] home_less [of m key] False idx by auto
  have ins: "fh_insert t key v = Some (insert_result key v (scan (2 ^ m) (fh_keys t) key (home m key)) (t\<lparr> fh_probes := pr \<rparr>))"
    unfolding fh_insert_def tab_shape_mask [OF shape] il using False nofull by simp
  have rep': "fh_rep m (t\<lparr> fh_probes := pr \<rparr>)" and map': "fh_map (t\<lparr> fh_probes := pr \<rparr>) = fh_map t"
    using rep by (simp_all add: fh_rep_def tab_shape_def fh_map_def fun_eq_iff)
  show ?thesis
  proof (cases "\<exists>i<2 ^ m. fh_keys t ! i = key")
    case True
    then obtain i where i: "i < 2 ^ m" "fh_keys t ! i = key" by blast
    have "scan (2 ^ m) (fh_keys t) key (home m key) = Some i" by (rule scan_present [OF ok i False])
    then show ?thesis using ins i False fh_rep_values [OF rep', of i key v] map' by (simp add: insert_result_def)
  next
    case none: False
    obtain e where "e < 2 ^ m" "fh_keys t ! e = kEmptyKey"
      using occupied_gap [of "fh_keys t"] used keys_ok_length [OF ok] fh_used_card [OF rep] by (auto simp: fh_used_def)
    then obtain r where r: "r < 2 ^ m" "scan (2 ^ m) (fh_keys t) key (home m key) = Some r" "fh_keys t ! r = kEmptyKey"
      "\<forall>q<2 ^ m. cdist (2 ^ m) (home m key) q < cdist (2 ^ m) (home m key) r \<longrightarrow> fh_keys t ! q \<noteq> kEmptyKey"
      using scan_absent [OF ok, of key] none by metis
    then show ?thesis using ins False none fh_rep_insert [OF rep', of r key v] map' by (simp add: insert_result_def)
  qed
qed

lemma fh_insert_full:
  assumes "fh_rep m t" "key \<noteq> kEmptyKey" "fh_used t = 2 ^ m"
  shows "fh_insert t key v = Some (False, t)"
  using assms fh_size_used [OF assms(1)] tab_shape_cap [OF fh_rep_shape [OF assms(1)]]
  by (simp add: fh_insert_def word_le_nat_alt fh_cap_def)

subsection \<open>Backward-shift deletion\<close>

text \<open>
  The loop invariant of \<^verbatim>\<open>remove_at\<close>. The slot \<open>hole\<close> still holds a stale key; every other entry is
  reachable from its home if the hole counts as occupied, and the entries between the hole and
  \<open>nxt\<close> do not have the hole on their path. \<open>e\<close> is an empty slot, which ends the loop.
\<close>

definition rem_inv :: "nat \<Rightarrow> u32 list \<Rightarrow> nat \<Rightarrow> nat \<Rightarrow> nat \<Rightarrow> bool" where
  "rem_inv m ks hole nxt e \<longleftrightarrow> length ks = 2 ^ m \<and> hole < 2 ^ m \<and> nxt < 2 ^ m \<and> e < 2 ^ m \<and>
     nxt \<noteq> hole \<and> ks ! hole \<noteq> kEmptyKey \<and> ks ! e = kEmptyKey \<and>
     (\<forall>i<2 ^ m. \<forall>j<2 ^ m. i \<noteq> hole \<and> j \<noteq> hole \<and> ks ! i \<noteq> kEmptyKey \<and> ks ! i = ks ! j \<longrightarrow> i = j) \<and>
     (\<forall>i<2 ^ m. i \<noteq> hole \<and> ks ! i \<noteq> kEmptyKey \<longrightarrow>
        (\<forall>p<2 ^ m. cdist (2 ^ m) (home m (ks ! i)) p < cdist (2 ^ m) (home m (ks ! i)) i \<longrightarrow> ks ! p \<noteq> kEmptyKey)) \<and>
     (\<forall>p<2 ^ m. 0 < cdist (2 ^ m) hole p \<and> cdist (2 ^ m) hole p < cdist (2 ^ m) hole nxt \<longrightarrow>
        ks ! p \<noteq> kEmptyKey \<and> \<not> cdist (2 ^ m) (home m (ks ! p)) hole < cdist (2 ^ m) (home m (ks ! p)) p)"

lemma rem_invD:
  assumes "rem_inv m ks hole nxt e"
  shows "length ks = 2 ^ m" "hole < 2 ^ m" "nxt < 2 ^ m" "e < 2 ^ m" "nxt \<noteq> hole" "ks ! hole \<noteq> kEmptyKey" "ks ! e = kEmptyKey"
    "\<And>i j. i < 2 ^ m \<Longrightarrow> j < 2 ^ m \<Longrightarrow> i \<noteq> hole \<Longrightarrow> j \<noteq> hole \<Longrightarrow> ks ! i \<noteq> kEmptyKey \<Longrightarrow> ks ! i = ks ! j \<Longrightarrow> i = j"
    "\<And>i p. i < 2 ^ m \<Longrightarrow> i \<noteq> hole \<Longrightarrow> ks ! i \<noteq> kEmptyKey \<Longrightarrow> p < 2 ^ m \<Longrightarrow>
      cdist (2 ^ m) (home m (ks ! i)) p < cdist (2 ^ m) (home m (ks ! i)) i \<Longrightarrow> ks ! p \<noteq> kEmptyKey"
    "\<And>p. p < 2 ^ m \<Longrightarrow> 0 < cdist (2 ^ m) hole p \<Longrightarrow> cdist (2 ^ m) hole p < cdist (2 ^ m) hole nxt \<Longrightarrow>
      ks ! p \<noteq> kEmptyKey \<and> \<not> cdist (2 ^ m) (home m (ks ! p)) hole < cdist (2 ^ m) (home m (ks ! p)) p"
  using assms unfolding rem_inv_def by blast+

lemma rem_invI:
  assumes "length ks = 2 ^ m" "hole < 2 ^ m" "nxt < 2 ^ m" "e < 2 ^ m" "nxt \<noteq> hole" "ks ! hole \<noteq> kEmptyKey" "ks ! e = kEmptyKey"
    and "\<And>i j. i < 2 ^ m \<Longrightarrow> j < 2 ^ m \<Longrightarrow> i \<noteq> hole \<Longrightarrow> j \<noteq> hole \<Longrightarrow> ks ! i \<noteq> kEmptyKey \<Longrightarrow> ks ! i = ks ! j \<Longrightarrow> i = j"
    and "\<And>i p. i < 2 ^ m \<Longrightarrow> i \<noteq> hole \<Longrightarrow> ks ! i \<noteq> kEmptyKey \<Longrightarrow> p < 2 ^ m \<Longrightarrow>
      cdist (2 ^ m) (home m (ks ! i)) p < cdist (2 ^ m) (home m (ks ! i)) i \<Longrightarrow> ks ! p \<noteq> kEmptyKey"
    and "\<And>p. p < 2 ^ m \<Longrightarrow> 0 < cdist (2 ^ m) hole p \<Longrightarrow> cdist (2 ^ m) hole p < cdist (2 ^ m) hole nxt \<Longrightarrow>
      ks ! p \<noteq> kEmptyKey \<and> \<not> cdist (2 ^ m) (home m (ks ! p)) hole < cdist (2 ^ m) (home m (ks ! p)) p"
  shows "rem_inv m ks hole nxt e"
  using assms unfolding rem_inv_def by blast

lemma cdist_path: "a < n \<Longrightarrow> b < n \<Longrightarrow> c < n \<Longrightarrow> b \<noteq> c \<Longrightarrow> cdist n b c \<le> cdist n a c \<longleftrightarrow> cdist n a b < cdist n a c"
  by (auto simp: cdist_def split: if_splits)

lemma cdist_between:
  "a < n \<Longrightarrow> b < n \<Longrightarrow> c < n \<Longrightarrow> d < n \<Longrightarrow> cdist n a b < cdist n a d \<Longrightarrow> cdist n b c < cdist n b d \<Longrightarrow> cdist n a c < cdist n a d"
  by (auto simp: cdist_def split: if_splits)

lemma cdist_pos: "a < n \<Longrightarrow> b < n \<Longrightarrow> a \<noteq> b \<Longrightarrow> 0 < cdist n a b"
  by (auto simp: cdist_def)

lemma cdist_cnext_self: "a < n \<Longrightarrow> 1 < n \<Longrightarrow> cdist n a (cnext n a) = 1"
  by (auto simp: cdist_def cnext_def)

lemma cdist_cnext_left: "a < n \<Longrightarrow> b < n \<Longrightarrow> a \<noteq> b \<Longrightarrow> cdist n (cnext n a) b < cdist n a b"
  by (auto simp: cdist_def cnext_def split: if_splits)

lemma rem_start:
  assumes "keys_ok m ks" "1 \<le> m" "hole < 2 ^ m" "ks ! hole \<noteq> kEmptyKey" "e < 2 ^ m" "ks ! e = kEmptyKey"
  shows "rem_inv m ks hole (cnext (2 ^ m) hole) e"
proof -
  have n: "1 < (2 :: nat) ^ m" by (rule one_less_power) (use assms(2) in simp_all)
  note one = cdist_cnext_self [OF assms(3) n]
  have "cnext (2 ^ m) hole \<noteq> hole" using one cdist_eq_0 [OF assms(3), of hole] assms(3) by auto
  then show ?thesis
  proof (rule rem_invI [OF keys_ok_length [OF assms(1)] assms(3) cnext_less [OF assms(3)] assms(5) _ assms(4,6)])
    show "i = j" if "i < 2 ^ m" "j < 2 ^ m" "ks ! i \<noteq> kEmptyKey" "ks ! i = ks ! j" for i j
      using keys_ok_distinct [OF assms(1) that] .
    show "ks ! p \<noteq> kEmptyKey" if "i < 2 ^ m" "ks ! i \<noteq> kEmptyKey" "p < 2 ^ m"
      "cdist (2 ^ m) (home m (ks ! i)) p < cdist (2 ^ m) (home m (ks ! i)) i" for i p
      using keys_ok_chain [OF assms(1) that] .
  qed (use one in simp)
qed

lemma rem_skip:
  assumes inv: "rem_inv m ks hole nxt e" and live: "ks ! nxt \<noteq> kEmptyKey"
    and stay: "\<not> cdist (2 ^ m) hole nxt \<le> cdist (2 ^ m) (home m (ks ! nxt)) nxt"
  shows "rem_inv m ks hole (cnext (2 ^ m) nxt) e"
proof -
  let ?n = "2 ^ m"
  note d = rem_invD [OF inv]
  have e: "e \<noteq> hole" "e \<noteq> nxt" using d(6,7) live by auto
  have "\<not> cdist ?n hole e < cdist ?n hole nxt" using d(10) [OF d(4)] d(7) cdist_pos [OF d(2,4)] e by auto
  moreover have "cdist ?n hole e \<noteq> cdist ?n hole nxt" using cdist_inj [OF d(2,4,3)] e by auto
  ultimately have "Suc (cdist ?n hole nxt) < ?n" using cdist_less [OF d(2,4)] by linarith
  then have step: "cdist ?n hole (cnext ?n nxt) = Suc (cdist ?n hole nxt)" using cdist_cnext [OF d(2,3)] by blast
  have "ks ! p \<noteq> kEmptyKey \<and> \<not> cdist ?n (home m (ks ! p)) hole < cdist ?n (home m (ks ! p)) p"
    if p: "p < ?n" "0 < cdist ?n hole p" "cdist ?n hole p < cdist ?n hole (cnext ?n nxt)" for p
  proof (cases "cdist ?n hole p < cdist ?n hole nxt")
    case True
    then show ?thesis using d(10) p by blast
  next
    case False
    then have "p = nxt" using p(3) step cdist_inj [OF d(2) p(1) d(3)] by simp
    then show ?thesis using live stay cdist_path [OF home_less d(2,3), of "ks ! nxt"] d(5) by auto
  qed
  moreover have "cnext ?n nxt \<noteq> hole" using step cdist_eq_0 [OF d(2,2)] by auto
  ultimately show ?thesis
    by (intro rem_invI [OF d(1,2) cnext_less [OF d(3)] d(4) _ d(6,7,8,9)]) blast+
qed

lemma rem_move:
  assumes inv: "rem_inv m ks hole nxt e" and live: "ks ! nxt \<noteq> kEmptyKey"
    and move: "cdist (2 ^ m) hole nxt \<le> cdist (2 ^ m) (home m (ks ! nxt)) nxt"
  shows "rem_inv m (ks[hole := ks ! nxt]) nxt (cnext (2 ^ m) nxt) e"
proof -
  let ?n = "2 ^ m" and ?k = "ks[hole := ks ! nxt]"
  note d = rem_invD [OF inv]
  have nth: "?k ! i = (if i = hole then ks ! nxt else ks ! i)" if "i < ?n" for i
    using that d(1,2) by simp
  have occ: "?k ! p \<noteq> kEmptyKey" if "p < ?n" "ks ! p \<noteq> kEmptyKey" for p
    using nth [OF that(1)] that(2) live by simp
  have on: "cdist ?n (home m (ks ! nxt)) hole < cdist ?n (home m (ks ! nxt)) nxt"
    using move cdist_path [OF home_less d(2,3), of "ks ! nxt"] d(5) by auto
  have n: "1 < (2 :: nat) ^ m" using d(2,3,5) by linarith
  have distinct: "i = j" if ij: "i < ?n" "j < ?n" "i \<noteq> nxt" "j \<noteq> nxt" "?k ! i \<noteq> kEmptyKey" "?k ! i = ?k ! j" for i j
  proof -
    consider "i = hole" "j = hole" | "i = hole" "j \<noteq> hole" | "i \<noteq> hole" "j = hole" | "i \<noteq> hole" "j \<noteq> hole"
      by (cases "i = hole"; cases "j = hole") simp_all
    then show ?thesis
    proof cases
      case 2
      have "ks ! nxt = ks ! j"
        using ij(6) unfolding nth [OF ij(1)] nth [OF ij(2)] if_P [OF 2(1)] if_not_P [OF 2(2)] .
      from d(8) [OF d(3) ij(2) d(5) 2(2) live this] have "nxt = j" .
      then show ?thesis using ij(4) by simp
    next
      case 3
      have "ks ! nxt = ks ! i"
        using ij(6) unfolding nth [OF ij(1)] nth [OF ij(2)] if_not_P [OF 3(1)] if_P [OF 3(2)] by (rule sym)
      from d(8) [OF d(3) ij(1) d(5) 3(1) live this] have "nxt = i" .
      then show ?thesis using ij(3) by simp
    next
      case 4
      show ?thesis
        using d(8) [OF ij(1,2) 4] ij(5,6) unfolding nth [OF ij(1)] nth [OF ij(2)] if_not_P [OF 4(1)] if_not_P [OF 4(2)] .
    qed simp
  qed
  have chain: "?k ! p \<noteq> kEmptyKey" if i: "i < ?n" "i \<noteq> nxt" "?k ! i \<noteq> kEmptyKey" and p: "p < ?n"
    "cdist ?n (home m (?k ! i)) p < cdist ?n (home m (?k ! i)) i" for i p
  proof (cases "i = hole")
    case True
    then have "cdist ?n (home m (ks ! nxt)) p < cdist ?n (home m (ks ! nxt)) nxt" using p(2) on nth [OF i(1)] by simp
    then show ?thesis by (rule occ [OF p(1) d(9) [OF d(3,5) live p(1)]])
  next
    case False
    then show ?thesis using occ [OF p(1) d(9) [OF i(1) False _ p(1)]] p(2) i(3) nth [OF i(1)] by simp
  qed
  have one: "cdist ?n nxt (cnext ?n nxt) = 1" by (rule cdist_cnext_self [OF d(3) n])
  then have "cnext ?n nxt \<noteq> nxt" using cdist_eq_0 [OF d(3,3)] by auto
  moreover have "?k ! e = kEmptyKey" "?k ! nxt \<noteq> kEmptyKey" using nth d(3,4,5,6,7) live by auto
  ultimately show ?thesis
    using d(1) one by (intro rem_invI [OF _ d(3) cnext_less [OF d(3)] d(4) _ _ _ distinct chain]) simp_all
qed

lemma rem_exit:
  assumes inv: "rem_inv m ks hole nxt e" and gap: "ks ! nxt = kEmptyKey"
  shows "keys_ok m (ks[hole := kEmptyKey])"
proof -
  let ?n = "2 ^ m" and ?k = "ks[hole := kEmptyKey]"
  note d = rem_invD [OF inv]
  have nth: "?k ! i = (if i = hole then kEmptyKey else ks ! i)" if "i < ?n" for i using that d(1,2) by simp
  show ?thesis
  proof (rule keys_okI)
    show "length ?k = ?n" using d(1) by simp
    show "i = j" if ij: "i < ?n" "j < ?n" "?k ! i \<noteq> kEmptyKey" "?k ! i = ?k ! j" for i j
    proof -
      have "i \<noteq> hole" "j \<noteq> hole" using ij nth [OF ij(1)] nth [OF ij(2)] by auto
      then show ?thesis using d(8) [OF ij(1,2)] ij(3,4) nth [OF ij(1)] nth [OF ij(2)] by simp
    qed
    fix i p assume i: "i < ?n" "?k ! i \<noteq> kEmptyKey" and p: "p < ?n" "cdist ?n (home m (?k ! i)) p < cdist ?n (home m (?k ! i)) i"
    have h: "i \<noteq> hole"
    proof
      assume "i = hole"
      then show False using i(2) nth [OF i(1)] by simp
    qed
    have eq: "?k ! i = ks ! i" using nth [OF i(1)] unfolding if_not_P [OF h] .
    have ih: "i \<noteq> hole" "ks ! i \<noteq> kEmptyKey" "?k ! i = ks ! i" using h eq i(2) by (simp_all only: not_False_eq_True)
    have ch: "ks ! q \<noteq> kEmptyKey" if "q < ?n" "cdist ?n (home m (ks ! i)) q < cdist ?n (home m (ks ! i)) i" for q
      using d(9) [OF i(1) ih(1,2) that] .
    have "p \<noteq> hole"
    proof
      assume "p = hole"
      then have on: "cdist ?n (home m (ks ! i)) hole < cdist ?n (home m (ks ! i)) i" using p(2) ih(3) by simp
      have "i \<noteq> nxt" using ih(2) gap by auto
      then have "cdist ?n hole i \<noteq> cdist ?n hole nxt" using cdist_inj [OF d(2) i(1) d(3)] by auto
      moreover have "\<not> cdist ?n hole i < cdist ?n hole nxt"
        using d(10) [OF i(1)] cdist_pos [OF d(2) i(1)] ih(1) on by auto
      ultimately have "cdist ?n hole nxt < cdist ?n hole i" by linarith
      from cdist_between [OF home_less d(2,3) i(1) on this] show False using ch [OF d(3)] gap by blast
    qed
    then show "?k ! p \<noteq> kEmptyKey" using nth [OF p(1)] ch [OF p(1)] p(2) ih(3) by simp
  qed
qed

definition entries_but :: "nat \<Rightarrow> u32 list \<Rightarrow> 'v list \<Rightarrow> (u32 \<times> 'v) set" where
  "entries_but hole ks vs = {(ks ! i, vs ! i) | i. i < length ks \<and> i \<noteq> hole \<and> ks ! i \<noteq> kEmptyKey}"

lemma entries_but_move:
  assumes "length vs = length ks" "hole < length ks" "nxt < length ks" "nxt \<noteq> hole" "ks ! nxt \<noteq> kEmptyKey"
  shows "entries_but nxt (ks[hole := ks ! nxt]) (vs[hole := vs ! nxt]) = entries_but hole ks vs"
proof (intro set_eqI iffI)
  fix x assume "x \<in> entries_but nxt (ks[hole := ks ! nxt]) (vs[hole := vs ! nxt])"
  then obtain i where i: "i < length ks" "i \<noteq> nxt" "ks[hole := ks ! nxt] ! i \<noteq> kEmptyKey"
    "x = (ks[hole := ks ! nxt] ! i, vs[hole := vs ! nxt] ! i)" unfolding entries_but_def by auto
  then show "x \<in> entries_but hole ks vs"
    unfolding entries_but_def using assms
    by (cases "i = hole") (auto intro: exI [of _ nxt] exI [of _ i])
next
  fix x assume "x \<in> entries_but hole ks vs"
  then obtain i where i: "i < length ks" "i \<noteq> hole" "ks ! i \<noteq> kEmptyKey" "x = (ks ! i, vs ! i)"
    unfolding entries_but_def by auto
  let ?j = "if i = nxt then hole else i"
  have "?j < length ks" "?j \<noteq> nxt" "(ks[hole := ks ! nxt]) ! ?j = ks ! i" "(vs[hole := vs ! nxt]) ! ?j = vs ! i"
    using i assms by auto
  then show "x \<in> entries_but nxt (ks[hole := ks ! nxt]) (vs[hole := vs ! nxt])"
    unfolding entries_but_def using i(3,4) by (intro CollectI exI [of _ ?j]) simp
qed

lemma remove_body_eq:
  assumes shape: "tab_shape m t" and h: "unat hole < 2 ^ m" and n: "unat nxt < 2 ^ m"
  defines "k \<equiv> fh_keys t ! unat nxt"
  shows "remove_body hole nxt t = Some (
    if cdist (2 ^ m) (unat hole) (unat nxt) \<le> cdist (2 ^ m) (home m k) (unat nxt)
    then (nxt, (nxt + 1) AND fh_mask t,
          t\<lparr> fh_keys := (fh_keys t)[unat hole := k], fh_values := (fh_values t)[unat hole := fh_values t ! unat nxt] \<rparr>)
    else (hole, (nxt + 1) AND fh_mask t, t))"
proof -
  have mk: "fh_mask t = 2 ^ m - 1" "m \<le> 63" and len: "length (fh_keys t) = 2 ^ m" "length (fh_values t) = 2 ^ m"
    using shape by (simp_all add: tab_shape_def)
  have fi: "unat (first_index t k) = home m k" by (rule first_index_home [OF shape])
  have "unat ((nxt - hole) AND fh_mask t) = cdist (2 ^ m) (unat hole) (unat nxt)"
    unfolding mk(1) by (rule word_cdist [OF h n mk(2)])
  moreover have "unat ((nxt - first_index t k) AND fh_mask t) = cdist (2 ^ m) (home m k) (unat nxt)"
    unfolding mk(1) using word_cdist [of "first_index t k" m nxt] fi home_less [of m k] n mk(2) by simp
  ultimately have cond: "((nxt - first_index t k) AND fh_mask t \<ge> (nxt - hole) AND fh_mask t) =
      (cdist (2 ^ m) (unat hole) (unat nxt) \<le> cdist (2 ^ m) (home m k) (unat nxt))"
    by (simp only: word_le_nat_alt)
  have acc: "at_index (fh_keys t) (unat nxt) = Some k" "at_index (fh_values t) (unat nxt) = Some (fh_values t ! unat nxt)"
    "\<And>v. store_at (fh_keys t) (unat hole) v = Some ((fh_keys t)[unat hole := v])"
    "\<And>v. store_at (fh_values t) (unat hole) v = Some ((fh_values t)[unat hole := v])"
    using h n len by (simp_all add: at_index_in store_at_in k_def)
  show ?thesis
    unfolding remove_body_def acc bind.bind_lunit Let_def cond
    by (simp add: acc)
qed

lemma remove_loop_spec:
  assumes "tab_shape m t" "rem_inv m (fh_keys t) (unat hole) (unat nxt) e"
  shows "\<exists>hole' ks vs nxt'. remove_loop hole nxt t = Some (hole', t\<lparr> fh_keys := ks, fh_values := vs \<rparr>) \<and>
    length vs = 2 ^ m \<and> rem_inv m ks (unat hole') nxt' e \<and> ks ! nxt' = kEmptyKey \<and>
    entries_but (unat hole') ks vs = entries_but (unat hole) (fh_keys t) (fh_values t)"
  using assms
proof (induction "cdist (2 ^ m) (unat nxt) e" arbitrary: hole nxt t rule: less_induct)
  case less
  note shape = less.prems(1) and d = rem_invD [OF less.prems(2)]
  have len: "length (fh_keys t) = 2 ^ m" "length (fh_values t) = 2 ^ m" using shape by (simp_all add: tab_shape_def)
  let ?k = "fh_keys t ! unat nxt" and ?nn = "(nxt + 1) AND fh_mask t"
  have acc: "at_index (fh_keys t) (unat nxt) = Some ?k" using d(3) len by (simp add: at_index_in)
  show ?case
  proof (cases "?k = kEmptyKey")
    case True
    then have "remove_loop hole nxt t = Some (hole, t\<lparr> fh_keys := fh_keys t, fh_values := fh_values t \<rparr>)"
      by (subst remove_loop.simps) (simp add: acc)
    then show ?thesis using less.prems(2) len True by blast
  next
    case False
    have nn: "unat ?nn = cnext (2 ^ m) (unat nxt)" by (rule word_step [OF shape d(3)])
    have "unat nxt \<noteq> e" using d(7) False by auto
    then have dec: "cdist (2 ^ m) (unat ?nn) e < cdist (2 ^ m) (unat nxt) e"
      unfolding nn by (rule cdist_cnext_left [OF d(3,4)])
    note body = remove_body_eq [OF shape d(2,3)]
    show ?thesis
    proof (cases "cdist (2 ^ m) (unat hole) (unat nxt) \<le> cdist (2 ^ m) (home m ?k) (unat nxt)")
      case True
      let ?t = "t\<lparr> fh_keys := (fh_keys t)[unat hole := ?k], fh_values := (fh_values t)[unat hole := fh_values t ! unat nxt] \<rparr>"
      have rec: "remove_loop hole nxt t = remove_loop nxt ?nn ?t"
        by (subst remove_loop.simps) (simp add: acc False body True)
      have shape': "tab_shape m ?t" using shape by (simp add: tab_shape_def)
      have inv: "rem_inv m (fh_keys ?t) (unat nxt) (unat ?nn) e"
        unfolding nn using rem_move [OF less.prems(2) False True] by simp
      from less.hyps [OF dec shape' inv] show ?thesis
        unfolding rec using entries_but_move [of "fh_values t" "fh_keys t" "unat hole" "unat nxt"] len d(2,3,5) False
        by simp
    next
      case skip: False
      have rec: "remove_loop hole nxt t = remove_loop hole ?nn t"
        by (subst remove_loop.simps) (simp add: acc False body skip)
      have inv: "rem_inv m (fh_keys t) (unat hole) (unat ?nn) e"
        unfolding nn by (rule rem_skip [OF less.prems(2) False skip])
      from less.hyps [OF dec shape inv] show ?thesis unfolding rec .
    qed
  qed
qed

lemma entries_but_iff:
  "(k, v) \<in> entries_but hole ks vs \<longleftrightarrow> (\<exists>i<length ks. i \<noteq> hole \<and> ks ! i = k \<and> vs ! i = v) \<and> k \<noteq> kEmptyKey"
  unfolding entries_but_def by auto

lemma entries_but_clear:
  assumes "length vs = length ks" "hole < length ks"
  shows "entries_but (length ks) (ks[hole := kEmptyKey]) vs = entries_but hole ks vs"
proof -
  have "(\<exists>i<length ks. i \<noteq> length ks \<and> (ks[hole := kEmptyKey]) ! i = k \<and> vs ! i = v) \<longleftrightarrow>
      (\<exists>i<length ks. i \<noteq> hole \<and> ks ! i = k \<and> vs ! i = v)" if "k \<noteq> kEmptyKey" for k v
    using that assms(2) by (metis less_irrefl nth_list_update_eq nth_list_update_neq)
  then have "(k, v) \<in> entries_but (length ks) (ks[hole := kEmptyKey]) vs \<longleftrightarrow> (k, v) \<in> entries_but hole ks vs" for k v
    unfolding entries_but_iff by (cases "k = kEmptyKey") simp_all
  then show ?thesis by auto
qed

lemma fst_entries_but: "fst ` entries_but hole ks vs = (!) ks ` (occupied ks - {hole})"
  unfolding entries_but_def occupied_def by force

lemma keys_ok_inj: "keys_ok m ks \<Longrightarrow> inj_on ((!) ks) (occupied ks)"
proof (rule inj_onI)
  fix i j assume ok: "keys_ok m ks" and "i \<in> occupied ks" "j \<in> occupied ks" "ks ! i = ks ! j"
  then show "i = j" using keys_ok_distinct [OF ok, of i j] keys_ok_length [OF ok] by (simp add: occupied_def)
qed

lemma remove_at_spec:
  assumes rep: "fh_rep m t" and used: "fh_used t < 2 ^ m" and r: "r < 2 ^ m" "fh_keys t ! r \<noteq> kEmptyKey"
  shows "\<exists>ks vs. remove_at t (of_nat r) = Some (t\<lparr> fh_keys := ks, fh_values := vs \<rparr>) \<and> length vs = 2 ^ m \<and>
    keys_ok m ks \<and> entries_but (2 ^ m) ks vs = entries_but r (fh_keys t) (fh_values t)"
proof -
  have shape: "tab_shape m t" and ok: "keys_ok m (fh_keys t)" using rep by (simp_all add: fh_rep_def)
  have m: "1 \<le> m" "m \<le> 63" using shape by (simp_all add: tab_shape_def)
  obtain e where e: "e < 2 ^ m" "fh_keys t ! e = kEmptyKey"
    using occupied_gap [of "fh_keys t"] used keys_ok_length [OF ok] fh_used_card [OF rep] by (auto simp: fh_used_def)
  have hole: "unat (of_nat r :: u64) = r" using r(1) power_64_bound [OF m(2)] by (intro unat_of_nat_less) simp
  let ?nn = "(of_nat r + 1) AND fh_mask t"
  have nn: "unat ?nn = cnext (2 ^ m) r" using word_step [OF shape, of "of_nat r"] hole r(1) by simp
  have "rem_inv m (fh_keys t) (unat (of_nat r :: u64)) (unat ?nn) e"
    unfolding hole nn by (rule rem_start [OF ok m(1) r e])
  from remove_loop_spec [OF shape this] obtain h ks vs n' where
    l: "remove_loop (of_nat r) ?nn t = Some (h, t\<lparr> fh_keys := ks, fh_values := vs \<rparr>)" and
    vs: "length vs = 2 ^ m" and inv: "rem_inv m ks (unat h) n' e" "ks ! n' = kEmptyKey" and
    en: "entries_but (unat h) ks vs = entries_but r (fh_keys t) (fh_values t)" unfolding hole by blast
  note d = rem_invD [OF inv(1)]
  have "remove_at t (of_nat r) = Some (t\<lparr> fh_keys := ks[unat h := kEmptyKey], fh_values := vs \<rparr>)"
    unfolding remove_at_def l using d(1,2) by (simp add: store_at_in)
  moreover have "entries_but (2 ^ m) (ks[unat h := kEmptyKey]) vs = entries_but (unat h) ks vs"
    using entries_but_clear [of vs ks "unat h"] d(1,2) vs by simp
  ultimately show ?thesis using vs rem_exit [OF inv] en by metis
qed

lemma fh_erase_present:
  assumes rep: "fh_rep m t" and used: "fh_used t < 2 ^ m" and r: "r < 2 ^ m" "fh_keys t ! r = key" and key: "key \<noteq> kEmptyKey"
  shows "\<exists>u. fh_erase t key = Some (True, u) \<and> fh_rep m u \<and> fh_map u = (fh_map t)(key := None)"
proof -
  have shape: "tab_shape m t" and ok: "keys_ok m (fh_keys t)" using rep by (simp_all add: fh_rep_def)
  have len: "length (fh_keys t) = 2 ^ m" using shape by (simp add: tab_shape_def)
  obtain ks vs where rm: "remove_at t (of_nat r) = Some (t\<lparr> fh_keys := ks, fh_values := vs \<rparr>)" and
    vs: "length vs = 2 ^ m" and ok': "keys_ok m ks" and en: "entries_but (2 ^ m) ks vs = entries_but r (fh_keys t) (fh_values t)"
    using remove_at_spec [OF rep used r(1)] r(2) key by auto
  let ?u = "t\<lparr> fh_keys := ks, fh_values := vs, fh_size := fh_size t - 1 \<rparr>"
  have len': "length ks = 2 ^ m" by (rule keys_ok_length [OF ok'])
  have shape': "tab_shape m ?u" using shape len' vs by (simp add: tab_shape_def)
  have "erase_loop (2 ^ m) key (first_index t key) t = Some (True, ?u)"
    using erase_loop_scan [OF shape, of "first_index t key" key "2 ^ m"] first_index_home [OF shape, of key]
      home_less [of m key] scan_present [OF ok r key] r(2) key rm by simp
  then have er: "fh_erase t key = Some (True, ?u)"
    unfolding fh_erase_def tab_shape_mask [OF shape] using key by simp
  have "(!) ks ` occupied ks = (!) (fh_keys t) ` (occupied (fh_keys t) - {r})"
    using arg_cong [OF en, of "(`) fst"] len' by (simp add: fst_entries_but occupied_def)
  then have c: "card (occupied ks) = card (occupied (fh_keys t) - {r})"
    using keys_ok_inj [OF ok'] keys_ok_inj [OF ok] by (metis card_image Diff_subset inj_on_subset)
  have "r \<in> occupied (fh_keys t)" using r key len by (simp add: occupied_def)
  from card_Suc_Diff1 [OF occupied_finite this] have "card (occupied (fh_keys t)) = Suc (card (occupied ks))"
    unfolding c by (rule sym)
  then have "fh_rep m ?u" using rep shape' ok' by (simp add: fh_rep_def)
  moreover have "fh_map ?u = (fh_map t)(key := None)"
  proof
    fix k
    have mem: "(\<exists>i<2 ^ m. ks ! i = k \<and> vs ! i = v) \<longleftrightarrow> (\<exists>i<2 ^ m. i \<noteq> r \<and> fh_keys t ! i = k \<and> fh_values t ! i = v)"
      if "k \<noteq> kEmptyKey" for v
      using entries_but_iff [of k v "2 ^ m" ks vs] entries_but_iff [of k v r "fh_keys t" "fh_values t"] en that len len' by auto
    consider "k = kEmptyKey" | "k = key" | "k \<noteq> kEmptyKey" "k \<noteq> key" by blast
    then show "fh_map ?u k = ((fh_map t)(key := None)) k"
    proof cases
      case 1
      then show ?thesis using key by (simp add: fh_map_def)
    next
      case 2
      have "ks ! i \<noteq> key" if i: "i < 2 ^ m" for i
      proof
        assume "ks ! i = key"
        then obtain i' where i': "i' < 2 ^ m" "i' \<noteq> r" "fh_keys t ! i' = key"
          using mem [of "vs ! i"] i key 2 by auto
        then have "i' = r" using keys_ok_distinct [OF ok i'(1) r(1)] r(2) key by simp
        then show False using i'(2) by simp
      qed
      then show ?thesis using fh_map_absent [OF shape', of key] key 2 by simp
    next
      case 3
      have "fh_map ?u k = fh_map t k"
      proof (rule fh_map_eqI [OF shape ok shape' _ 3(1)])
        show "keys_ok m (fh_keys ?u)" using ok' by simp
        fix i assume i: "i < 2 ^ m" "fh_keys t ! i = k"
        then have "i \<noteq> r" using 3(2) r(2) by auto
        then show "\<exists>j<2 ^ m. fh_keys ?u ! j = k \<and> fh_values ?u ! j = fh_values t ! i"
          using i mem [OF 3(1), of "fh_values t ! i"] by auto
      next
        fix j assume "j < 2 ^ m" "fh_keys ?u ! j = k"
        then show "\<exists>i<2 ^ m. fh_keys t ! i = k" using mem [OF 3(1), of "vs ! j"] by auto
      qed
      then show ?thesis using 3 by simp
    qed
  qed
  ultimately show ?thesis using er by blast
qed

lemma fh_erase_spec:
  assumes rep: "fh_rep m t" and used: "fh_used t < 2 ^ m"
  shows "\<exists>u. fh_erase t key = Some (fh_map t key \<noteq> None, u) \<and> fh_rep m u \<and> fh_map u = (fh_map t)(key := None)"
proof -
  have shape: "tab_shape m t" and ok: "keys_ok m (fh_keys t)" using rep by (simp_all add: fh_rep_def)
  consider "key = kEmptyKey" | r where "key \<noteq> kEmptyKey" "r < 2 ^ m" "fh_keys t ! r = key"
    | "key \<noteq> kEmptyKey" "\<And>r. r < 2 ^ m \<Longrightarrow> fh_keys t ! r \<noteq> key" by blast
  then show ?thesis
  proof cases
    case 1
    let ?u = "t\<lparr> fh_sentinel_used := False \<rparr>"
    have "fh_rep m ?u" using rep by (simp add: fh_rep_def tab_shape_def)
    moreover have "fh_map ?u = (fh_map t)(key := None)" using 1 by (simp add: fh_map_def fun_eq_iff)
    ultimately show ?thesis using 1 by (simp add: fh_erase_def fh_map_def)
  next
    case 2
    then show ?thesis using fh_erase_present [OF rep used 2(2,3,1)] fh_map_at [OF shape ok 2(2,3,1)] by simp
  next
    case 3
    have none: "fh_map t key = None" by (rule fh_map_absent [OF shape 3(2) 3(1)])
    obtain e where "e < 2 ^ m" "fh_keys t ! e = kEmptyKey"
      using occupied_gap [of "fh_keys t"] used keys_ok_length [OF ok] fh_used_card [OF rep] by (auto simp: fh_used_def)
    then obtain r where "scan (2 ^ m) (fh_keys t) key (home m key) = Some r" "fh_keys t ! r = kEmptyKey"
      using scan_absent [OF ok 3(2)] by blast
    then have "erase_loop (2 ^ m) key (first_index t key) t = Some (False, t)"
      using erase_loop_scan [OF shape, of "first_index t key" key "2 ^ m"] first_index_home [OF shape, of key]
        home_less [of m key] 3(1) by simp
    then have "fh_erase t key = Some (False, t)" unfolding fh_erase_def tab_shape_mask [OF shape] using 3(1) by simp
    then show ?thesis using rep none by auto
  qed
qed

subsection \<open>A completely full table\<close>

definition full_keys :: "nat \<Rightarrow> 'v flat \<Rightarrow> bool" where
  "full_keys m t \<longleftrightarrow> tab_shape m t \<and> (\<forall>i<2 ^ m. fh_keys t ! i \<noteq> kEmptyKey)"

lemma full_remove_body:
  assumes "full_keys m t" "unat hole < 2 ^ m" "unat nxt < 2 ^ m"
  shows "\<exists>h x u. remove_body hole nxt t = Some (h, x, u) \<and> full_keys m u \<and> unat h < 2 ^ m \<and> unat x < 2 ^ m"
proof -
  have shape: "tab_shape m t" and live: "\<And>i. i < 2 ^ m \<Longrightarrow> fh_keys t ! i \<noteq> kEmptyKey"
    using assms(1) by (simp_all add: full_keys_def)
  have len: "length (fh_keys t) = 2 ^ m" using shape by (simp add: tab_shape_def)
  have x: "unat ((nxt + 1) AND fh_mask t) < 2 ^ m"
    using word_step [OF shape assms(3)] cnext_less [OF assms(3)] by simp
  have "full_keys m (t\<lparr> fh_keys := (fh_keys t)[unat hole := fh_keys t ! unat nxt], fh_values := (fh_values t)[unat hole := w] \<rparr>)" for w
    using shape live assms(2,3) len by (auto simp: full_keys_def tab_shape_def nth_list_update)
  then show ?thesis
    unfolding remove_body_eq [OF shape assms(2,3)] using assms x by auto
qed

fun remove_iter :: "nat \<Rightarrow> u64 \<Rightarrow> u64 \<Rightarrow> 'v flat \<Rightarrow> (u64 \<times> u64 \<times> 'v flat) option" where
  "remove_iter 0 hole nxt t = Some (hole, nxt, t)"
| "remove_iter (Suc n) hole nxt t = do { (hole, nxt, t) \<leftarrow> remove_body hole nxt t; remove_iter n hole nxt t }"

lemma full_remove_iter:
  assumes "full_keys m t" "unat hole < 2 ^ m" "unat nxt < 2 ^ m"
  shows "\<exists>h x u k. remove_iter n hole nxt t = Some (h, x, u) \<and> at_index (fh_keys u) (unat x) = Some k \<and> k \<noteq> kEmptyKey"
  using assms
proof (induction n arbitrary: hole nxt t)
  case 0
  then show ?case by (simp add: full_keys_def tab_shape_def at_index_in)
next
  case (Suc n)
  from full_remove_body [OF Suc.prems] obtain h x u where
    "remove_body hole nxt t = Some (h, x, u)" "full_keys m u" "unat h < 2 ^ m" "unat x < 2 ^ m" by blast
  then show ?case using Suc.IH [of u h x] by simp
qed

lemma full_remove_loop:
  assumes "remove_loop hole nxt t = Some res"
  shows "\<not> (full_keys m t \<and> unat hole < 2 ^ m \<and> unat nxt < 2 ^ m)"
proof (rule remove_loop.raw_induct [OF _ assms,
    where P = "\<lambda>hole nxt t res. \<not> (full_keys m t \<and> unat hole < 2 ^ m \<and> unat nxt < 2 ^ m)"], rule notI)
  fix loop hole nxt and t :: "'a flat" and res
  assume IH: "\<And>hole nxt t res. loop hole nxt t = Some res \<Longrightarrow> \<not> (full_keys m t \<and> unat hole < 2 ^ m \<and> unat nxt < 2 ^ m)"
    and step: "at_index (fh_keys t) (unat nxt) \<bind> (\<lambda>k. if k \<noteq> kEmptyKey
        then remove_body hole nxt t \<bind> (\<lambda>(hole, nxt, t). loop hole nxt t) else Some (hole, t)) = Some res"
    and f: "full_keys m t \<and> unat hole < 2 ^ m \<and> unat nxt < 2 ^ m"
  then have acc: "at_index (fh_keys t) (unat nxt) = Some (fh_keys t ! unat nxt)" "fh_keys t ! unat nxt \<noteq> kEmptyKey"
    by (auto simp: full_keys_def tab_shape_def at_index_in)
  from f full_remove_body [of m t hole nxt] obtain h x u where
    b: "remove_body hole nxt t = Some (h, x, u)" "full_keys m u" "unat h < 2 ^ m" "unat x < 2 ^ m" by blast
  have "loop h x u = Some res" using step acc b(1) by simp
  then show False using IH b by blast
qed

lemma fh_erase_full:
  assumes rep: "fh_rep m t" and full: "fh_used t = 2 ^ m" and key: "key \<noteq> kEmptyKey" "fh_map t key \<noteq> None"
  shows "fh_erase t key = None" "full_keys m t"
proof -
  have shape: "tab_shape m t" and ok: "keys_ok m (fh_keys t)" using rep by (simp_all add: fh_rep_def)
  show fk: "full_keys m t"
    using shape occupied_full [of "fh_keys t"] full fh_used_card [OF rep] keys_ok_length [OF ok]
    by (simp add: full_keys_def fh_used_def)
  obtain r where r: "r < 2 ^ m" "fh_keys t ! r = key" using fh_map_absent [OF shape, of key] key by blast
  have hole: "unat (of_nat r :: u64) = r"
    using r(1) power_64_bound [of m] shape by (intro unat_of_nat_less) (simp add: tab_shape_def)
  have "unat ((of_nat r + 1) AND fh_mask t) < 2 ^ m"
    using word_step [OF shape, of "of_nat r"] hole r(1) cnext_less [of r "2 ^ m"] by simp
  then have "remove_loop (of_nat r) ((of_nat r + 1) AND fh_mask t) t = None"
    using full_remove_loop fk hole r(1) by (metis not_Some_eq)
  then have "remove_at t (of_nat r) = None" by (simp add: remove_at_def)
  then have "erase_loop (2 ^ m) key (first_index t key) t = None"
    using erase_loop_scan [OF shape, of "first_index t key" key "2 ^ m"] first_index_home [OF shape, of key]
      home_less [of m key] scan_present [OF ok r key(1)] r(2) key(1) by simp
  then show "fh_erase t key = None" unfolding fh_erase_def tab_shape_mask [OF shape] using key(1) by simp
qed

subsection \<open>A bounded finite map\<close>

datatype ('k, 'v) map_op = Map_Insert 'k 'v | Map_Erase 'k | Map_Find 'k
datatype 'v map_out = Done bool | Found "'v option"

fun map_op_key :: "('k, 'v) map_op \<Rightarrow> 'k" where
  "map_op_key (Map_Insert k v) = k"
| "map_op_key (Map_Erase k) = k"
| "map_op_key (Map_Find k) = k"

text \<open>A run of the operations of a table, and of the finite map it should be.\<close>

fun table_step ::
  "('t \<Rightarrow> 'k \<Rightarrow> ('r option \<times> 't) option) \<Rightarrow> ('t \<Rightarrow> 'r \<Rightarrow> 'v option) \<Rightarrow> ('t \<Rightarrow> 'k \<Rightarrow> 'v \<Rightarrow> (bool \<times> 't) option) \<Rightarrow>
   ('t \<Rightarrow> 'k \<Rightarrow> (bool \<times> 't) option) \<Rightarrow> ('k, 'v) map_op \<Rightarrow> 't \<Rightarrow> ('v map_out \<times> 't) option" where
  "table_step fnd get ins del (Map_Insert k v) t = do { (b, t) \<leftarrow> ins t k v; Some (Done b, t) }"
| "table_step fnd get ins del (Map_Erase k) t = do { (b, t) \<leftarrow> del t k; Some (Done b, t) }"
| "table_step fnd get ins del (Map_Find k) t = do {
     (r, t) \<leftarrow> fnd t k;
     case r of None \<Rightarrow> Some (Found None, t) | Some p \<Rightarrow> do { v \<leftarrow> get t p; Some (Found (Some v), t) } }"

fun table_run where
  "table_run fnd get ins del [] t = Some ([], t)"
| "table_run fnd get ins del (op # ops) t = do {
     (out, t) \<leftarrow> table_step fnd get ins del op t;
     (outs, t) \<leftarrow> table_run fnd get ins del ops t;
     Some (out # outs, t) }"

fun map_step :: "('k, 'v) map_op \<Rightarrow> ('k \<Rightarrow> 'v option) \<Rightarrow> 'v map_out \<times> ('k \<Rightarrow> 'v option)" where
  "map_step (Map_Insert k v) f = (Done True, f(k \<mapsto> v))"
| "map_step (Map_Erase k) f = (Done (f k \<noteq> None), f(k := None))"
| "map_step (Map_Find k) f = (Found (f k), f)"

fun map_run :: "('k, 'v) map_op list \<Rightarrow> ('k \<Rightarrow> 'v option) \<Rightarrow> 'v map_out list \<times> ('k \<Rightarrow> 'v option)" where
  "map_run [] f = ([], f)"
| "map_run (op # ops) f = (let (out, f) = map_step op f; (outs, f) = map_run ops f in (out # outs, f))"

locale bounded_map =
  fixes inv :: "'t \<Rightarrow> bool" and amap :: "'t \<Rightarrow> 'k \<Rightarrow> 'v option" and cap :: "'t \<Rightarrow> nat"
    and fnd :: "'t \<Rightarrow> 'k \<Rightarrow> ('r option \<times> 't) option" and get :: "'t \<Rightarrow> 'r \<Rightarrow> 'v option"
    and ins :: "'t \<Rightarrow> 'k \<Rightarrow> 'v \<Rightarrow> (bool \<times> 't) option" and del :: "'t \<Rightarrow> 'k \<Rightarrow> (bool \<times> 't) option"
  assumes find_law: "inv t \<Longrightarrow> \<exists>r t'. fnd t k = Some (r, t') \<and> inv t' \<and> amap t' = amap t \<and> cap t' = cap t \<and>
      (case amap t k of None \<Rightarrow> r = None | Some v \<Rightarrow> \<exists>p. r = Some p \<and> get t' p = Some v)"
    and ins_law: "inv t \<Longrightarrow> card (dom (amap t)) < cap t \<Longrightarrow>
      \<exists>t'. ins t k v = Some (True, t') \<and> inv t' \<and> amap t' = (amap t)(k \<mapsto> v) \<and> cap t' = cap t"
    and del_law: "inv t \<Longrightarrow> card (dom (amap t)) < cap t \<Longrightarrow>
      \<exists>t'. del t k = Some (amap t k \<noteq> None, t') \<and> inv t' \<and> amap t' = (amap t)(k := None) \<and> cap t' = cap t"
begin

lemma step_refines:
  assumes "inv t" "card (dom (amap t)) < cap t"
  shows "\<exists>t'. table_step fnd get ins del op t = Some (fst (map_step op (amap t)), t') \<and> inv t' \<and>
    amap t' = snd (map_step op (amap t)) \<and> cap t' = cap t"
proof (cases op)
  case (Map_Insert k v)
  then show ?thesis using ins_law [OF assms, of k v] by auto
next
  case (Map_Erase k)
  then show ?thesis using del_law [OF assms, of k] by auto
next
  case (Map_Find k)
  then show ?thesis using find_law [OF assms(1), of k] by (cases "amap t k") auto
qed

text \<open>As long as fewer keys than slots are in play, a run of the table is a run of the map.\<close>

lemma run_refines_map:
  assumes "inv t" "finite K" "card K < cap t" "dom (amap t) \<subseteq> K" "map_op_key ` set ops \<subseteq> K"
  shows "\<exists>t'. table_run fnd get ins del ops t = Some (fst (map_run ops (amap t)), t') \<and> inv t' \<and>
    amap t' = snd (map_run ops (amap t)) \<and> cap t' = cap t"
  using assms
proof (induction ops arbitrary: t)
  case (Cons op ops)
  have "card (dom (amap t)) < cap t" using card_mono [OF Cons.prems(2,4)] Cons.prems(3) by simp
  from step_refines [OF Cons.prems(1) this, of op] obtain t1 where
    t1: "table_step fnd get ins del op t = Some (fst (map_step op (amap t)), t1)" "inv t1"
    "amap t1 = snd (map_step op (amap t))" "cap t1 = cap t" by blast
  have "dom (amap t1) \<subseteq> K" using Cons.prems(4,5) t1(3) by (cases op) (auto split: if_splits)
  then show ?case using Cons.IH [OF t1(2)] Cons.prems(2,3,5) t1
    by (auto simp: Let_def split_beta)
qed simp

end

lemma fh_rep_cap: "fh_rep m t \<Longrightarrow> fh_cap t = 2 ^ m"
  by (rule tab_shape_cap [OF fh_rep_shape])

lemma fh_used_le_dom: "fh_used t \<le> card (dom (fh_map t))"
  unfolding fh_used_def by (rule card_mono) auto

interpretation teid_map: bounded_map fh_inv fh_map fh_cap fh_find fh_get fh_insert fh_erase
proof unfold_locales
  fix t :: "'v flat" and k
  assume "fh_inv t"
  then obtain m where rep: "fh_rep m t" by (auto simp: fh_inv_def)
  from fh_find_spec [OF rep, of k] obtain res a b where
    f: "fh_find t k = Some (res, t\<lparr> fh_probes := a, fh_lookups := b \<rparr>)" and
    r: "case fh_map t k of None \<Rightarrow> res = None
      | Some v \<Rightarrow> \<exists>ref. res = Some ref \<and> (\<forall>a b. fh_get (t\<lparr> fh_probes := a, fh_lookups := b \<rparr>) ref = Some v) \<and>
         (\<forall>w. \<exists>u. fh_set t ref w = Some u \<and> fh_rep m u \<and> fh_map u = (fh_map t)(k \<mapsto> w))" by blast
  let ?t = "t\<lparr> fh_probes := a, fh_lookups := b \<rparr>"
  have "fh_inv ?t" "fh_map ?t = fh_map t" "fh_cap ?t = fh_cap t"
    using rep by (auto simp: fh_inv_def fh_cap_def fh_rep_stats)
  moreover have "case fh_map t k of None \<Rightarrow> res = None | Some v \<Rightarrow> \<exists>p. res = Some p \<and> fh_get ?t p = Some v"
    using r by (cases "fh_map t k") auto
  ultimately show "\<exists>r t'. fh_find t k = Some (r, t') \<and> fh_inv t' \<and> fh_map t' = fh_map t \<and> fh_cap t' = fh_cap t \<and>
      (case fh_map t k of None \<Rightarrow> r = None | Some v \<Rightarrow> \<exists>p. r = Some p \<and> fh_get t' p = Some v)"
    using f by blast
next
  fix t :: "'v flat" and k v
  assume "fh_inv t" "card (dom (fh_map t)) < fh_cap t"
  then obtain m where rep: "fh_rep m t" by (auto simp: fh_inv_def)
  have used: "fh_used t < 2 ^ m"
    using fh_used_le_dom [of t] fh_rep_cap [OF rep] \<open>card (dom (fh_map t)) < fh_cap t\<close> by simp
  obtain u where "fh_insert t k v = Some (True, u)" "fh_rep m u" "fh_map u = (fh_map t)(k \<mapsto> v)"
    using fh_insert_spec [OF rep, of k v] used by blast
  then show "\<exists>t'. fh_insert t k v = Some (True, t') \<and> fh_inv t' \<and> fh_map t' = (fh_map t)(k \<mapsto> v) \<and> fh_cap t' = fh_cap t"
    using fh_rep_cap [OF rep] fh_rep_cap [of m u] by (auto simp: fh_inv_def)
  obtain w where "fh_erase t k = Some (fh_map t k \<noteq> None, w)" "fh_rep m w" "fh_map w = (fh_map t)(k := None)"
    using fh_erase_spec [OF rep used, of k] by blast
  then show "\<exists>t'. fh_erase t k = Some (fh_map t k \<noteq> None, t') \<and> fh_inv t' \<and> fh_map t' = (fh_map t)(k := None) \<and> fh_cap t' = fh_cap t"
    using fh_rep_cap [OF rep] fh_rep_cap [of m w] by (auto simp: fh_inv_def)
qed

lemma FlatHash_new_spec:
  assumes "capacity \<le> 2 ^ 63"
  shows "\<exists>t. FlatHash_new capacity d = Some t \<and> fh_inv t \<and> fh_map t = Map.empty \<and> capacity \<le> fh_cap t \<and> 8 \<le> fh_cap t"
proof -
  let ?v = "if capacity < 8 then 8 else capacity"
  have "\<exists>k. table_pow2 v = 2 ^ k" for v
    unfolding table_pow2_def using has_single_bit_power [of v] bit_ceil_power [of v] by (cases "has_single_bit v") simp_all
  then obtain k where k: "table_pow2 ?v = 2 ^ k" by blast
  have b: "?v \<le> table_pow2 ?v" "table_pow2 ?v < 2 * ?v"
    using bit_ceil_bounds [of ?v] by (auto simp: table_pow2_def)
  have lt: "(2 :: nat) ^ k < 2 ^ 64" using assms b k by (auto split: if_splits)
  then have "k < 64" by (rule power_less_imp_less_exp [rotated]) simp
  have ge: "capacity \<le> 2 ^ k" "8 \<le> (2 :: nat) ^ k" using b(1) k by (simp_all split: if_splits)
  then have "k \<noteq> 0" by (cases k) simp_all
  define t where "t = \<lparr> fh_capacity = 2 ^ k, fh_mask = 2 ^ k - 1, fh_keys = replicate (2 ^ k) kEmptyKey,
            fh_values = replicate (2 ^ k) d, fh_size = 0, fh_probes = 0, fh_lookups = 0,
            fh_sentinel_value = d, fh_sentinel_used = False \<rparr>"
  have new: "FlatHash_new capacity d = Some t"
    unfolding FlatHash_new_def k Let_def t_def using lt by simp
  have shape: "tab_shape k t" using \<open>k < 64\<close> \<open>k \<noteq> 0\<close> by (simp add: tab_shape_def t_def)
  have "keys_ok k (fh_keys t)" by (rule keys_okI) (simp_all add: t_def)
  moreover have "occupied (fh_keys t) = {}" by (auto simp: occupied_def t_def)
  ultimately have "fh_rep k t" using shape by (simp add: fh_rep_def t_def)
  moreover have "fh_map t key = None" for key
    using fh_map_absent [OF shape, of key] by (cases "key = kEmptyKey") (simp_all add: t_def fh_map_def)
  ultimately show ?thesis using new ge tab_shape_cap [OF shape] by (auto simp: fh_inv_def fun_eq_iff)
qed

lemma full_keys_ok:
  assumes "length ks = 2 ^ m" "distinct ks" "kEmptyKey \<notin> set ks"
  shows "keys_ok m ks"
proof (rule keys_okI [OF assms(1)])
  show "i = j" if "i < 2 ^ m" "j < 2 ^ m" "ks ! i = ks ! j" for i j
    using that assms(1,2) by (simp add: nth_eq_iff_index_eq)
  show "ks ! p \<noteq> kEmptyKey" if "p < 2 ^ m" for p using that assms(1,3) by (metis nth_mem)
qed

subsection \<open>Properties\<close>

text \<open>
  C2: the TEID table is a finite map. On a new table, for every sequence of inserts, erases and
  lookups over fewer distinct keys than the requested capacity (the reserved key included), every
  call returns and returns what the same call on a map returns: probing, wrap-around and
  backward-shift deletion never lose, duplicate or confuse an entry.
\<close>

theorem flat_hash_refines_map:
  assumes "capacity \<le> 2 ^ 63" "card (map_op_key ` set ops) < capacity"
  shows "\<exists>t u. FlatHash_new capacity d = Some t \<and>
    table_run fh_find fh_get fh_insert fh_erase ops t = Some (fst (map_run ops Map.empty), u) \<and>
    fh_inv u \<and> fh_map u = snd (map_run ops Map.empty)"
proof -
  obtain t where t: "FlatHash_new capacity d = Some t" "fh_inv t" "fh_map t = Map.empty" "capacity \<le> fh_cap t"
    using FlatHash_new_spec [OF assms(1), of d] by metis
  then show ?thesis
    using teid_map.run_refines_map [OF t(2), of "map_op_key ` set ops" ops] assms(2) by auto
qed

theorem flat_hash_refines_map_witness:
  "\<exists>t u. FlatHash_new 8 (0 :: nat) = Some t \<and>
    table_run fh_find fh_get fh_insert fh_erase [Map_Insert 5 1, Map_Find 5, Map_Erase 5, Map_Find 5] t =
      Some ([Done True, Found (Some 1), Done True, Found None], u)"
proof -
  let ?ops = "[Map_Insert 5 1, Map_Find 5, Map_Erase 5, Map_Find 5] :: (u32, nat) map_op list"
  have "(8 :: nat) \<le> 2 ^ 63" "card (map_op_key ` set ?ops) < 8" by simp_all
  from flat_hash_refines_map [OF this, of 0] show ?thesis by auto
qed

text \<open>
  Insertion never corrupts the table. It fails exactly when the key is an ordinary one and every
  slot is taken, and then leaves the table as it was, even for a key already present; otherwise it
  returns true and maps the key to the value, leaving every other key alone.
\<close>

theorem fh_insert_total:
  assumes "fh_inv t"
  shows "if key = kEmptyKey \<or> fh_used t < fh_cap t
    then \<exists>u. fh_insert t key v = Some (True, u) \<and> fh_inv u \<and> fh_cap u = fh_cap t \<and> fh_map u = (fh_map t)(key \<mapsto> v)
    else fh_insert t key v = Some (False, t)"
proof -
  obtain m where rep: "fh_rep m t" using assms by (auto simp: fh_inv_def)
  have cap: "fh_cap t = 2 ^ m" by (rule fh_rep_cap [OF rep])
  show ?thesis
  proof (cases "key = kEmptyKey \<or> fh_used t < fh_cap t")
    case True
    then obtain u where "fh_insert t key v = Some (True, u)" "fh_rep m u" "fh_map u = (fh_map t)(key \<mapsto> v)"
      using fh_insert_spec [OF rep, of key v] cap by auto
    then show ?thesis using True cap fh_rep_cap [of m u] by (auto simp: fh_inv_def)
  next
    case False
    then show ?thesis using fh_insert_full [OF rep] fh_size_used(2) [OF rep] cap by simp
  qed
qed

definition full_sample :: "nat flat" where
  "full_sample = \<lparr> fh_capacity = 8, fh_mask = 7, fh_keys = [0, 1, 2, 3, 4, 5, 6, 7],
     fh_values = [10, 11, 12, 13, 14, 15, 16, 17], fh_size = 8, fh_probes = 0, fh_lookups = 0,
     fh_sentinel_value = 0, fh_sentinel_used = False \<rparr>"

lemma full_sample_rep: "fh_rep 3 full_sample" "fh_used full_sample = 8" "fh_map full_sample 3 = Some 13" "fh_cap full_sample = 8"
proof -
  let ?ks = "[0, 1, 2, 3, 4, 5, 6, 7] :: u32 list"
  have ok: "keys_ok 3 ?ks" by (rule full_keys_ok) simp_all
  have out: "kEmptyKey \<notin> set ?ks" and len: "length ?ks = 8" by simp_all
  have "?ks ! i \<noteq> kEmptyKey" if "i < length ?ks" for i using nth_mem [OF that] out by metis
  then have "?ks ! i \<noteq> kEmptyKey" if "i < 8" for i using that unfolding len .
  then have "occupied ?ks = {..<8}" unfolding occupied_def len by blast
  then have occ: "card (occupied ?ks) = 8" by simp
  show rep: "fh_rep 3 full_sample" using ok occ by (simp add: fh_rep_def tab_shape_def full_sample_def)
  show "fh_used full_sample = 8" using fh_used_card [OF rep] occ by (simp add: fh_used_def full_sample_def)
  show "fh_map full_sample 3 = Some 13" by (simp add: fh_map_def full_sample_def)
  show "fh_cap full_sample = 8" by (simp add: fh_cap_def full_sample_def)
qed

theorem fh_insert_total_witness: "fh_insert full_sample 9 (20 :: nat) = Some (False, full_sample)"
proof -
  have "fh_inv full_sample" using full_sample_rep(1) by (auto simp: fh_inv_def)
  from fh_insert_total [OF this, of 9 20] show ?thesis using full_sample_rep(2,4) by simp
qed

text \<open>
  C38: erasing from a completely full table does not return. The backward shift runs until it meets
  an empty slot; when every slot is taken there is none, so after any number of iterations the loop
  condition still holds, whatever entry is being erased.
\<close>

theorem fh_erase_full_diverges:
  assumes "fh_inv t" "fh_used t = fh_cap t" "key \<noteq> kEmptyKey" "fh_map t key \<noteq> None"
  shows "fh_erase t key = None \<and>
    (\<forall>n. \<forall>hole. unat hole < fh_cap t \<longrightarrow>
      (\<exists>h x u k. remove_iter n hole ((hole + 1) AND fh_mask t) t = Some (h, x, u) \<and>
         at_index (fh_keys u) (unat x) = Some k \<and> k \<noteq> kEmptyKey))"
proof -
  obtain m where rep: "fh_rep m t" using assms by (auto simp: fh_inv_def)
  have cap: "fh_cap t = 2 ^ m" by (rule fh_rep_cap [OF rep])
  note f = fh_erase_full [OF rep assms(2) [unfolded cap] assms(3,4)]
  have "unat ((hole + 1) AND fh_mask t) < 2 ^ m" if "unat hole < 2 ^ m" for hole
    using word_step [OF fh_rep_shape [OF rep] that] cnext_less [OF that] by simp
  then show ?thesis unfolding cap using f full_remove_iter [OF f(2)] by blast
qed

theorem fh_erase_full_diverges_witness: "fh_erase full_sample 3 = None"
proof -
  have "fh_inv full_sample" using full_sample_rep(1) by (auto simp: fh_inv_def)
  from fh_erase_full_diverges [OF this, of 3] show ?thesis using full_sample_rep by simp
qed

end
