(* ===== verification/Diameter.thy ===== *)
theory Diameter
  imports Byte_Order
begin

text \<open>
  \<^verbatim>\<open>include/gtpm/diameter.hpp\<close>: the Diameter header (RFC 6733), the walk over attribute-value
  pairs (AVPs) and the Gy credit-control fields (RFC 4006).

  \<open>for_each_avp\<close> takes its visitor as an argument, as the template does: the variables a lambda
  captures by reference are a state that is passed through, and the visitor returns whether to go
  on. A string view is the bytes it views. The lemmas show that the walk visits exactly the AVPs
  whose wire images make up the area, that the extraction of the Gy fields is a fold over them,
  and that no message makes the decoder read outside its buffer.
\<close>

subsection \<open>Constants and codes\<close>

abbreviation (input) kDiameterPort :: u16 where "kDiameterPort \<equiv> 3868"
abbreviation (input) kDiameterHeaderLen :: nat where "kDiameterHeaderLen \<equiv> 20"
abbreviation (input) kDiameterMaxMsgLen :: u32 where "kDiameterMaxMsgLen \<equiv> 0x100000"
abbreviation (input) kAvpMaxDepth :: nat where "kAvpMaxDepth \<equiv> 8"
abbreviation (input) kMaxMsccPerMessage :: nat where "kMaxMsccPerMessage \<equiv> 8"
abbreviation (input) kResultSuccess :: u32 where "kResultSuccess \<equiv> 2001"

datatype DiameterCommand =
    kCapabilitiesExchange | kDeviceWatchdog | kDisconnectPeer | kReAuth | kSessionTermination
  | DiameterCommand_kCreditControl

primrec diameter_command_code :: "DiameterCommand \<Rightarrow> u32" where
  "diameter_command_code kCapabilitiesExchange = 257"
| "diameter_command_code kDeviceWatchdog = 280"
| "diameter_command_code kDisconnectPeer = 282"
| "diameter_command_code kReAuth = 258"
| "diameter_command_code kSessionTermination = 275"
| "diameter_command_code DiameterCommand_kCreditControl = 272"

datatype DiameterApp = kCommon | DiameterApp_kCreditControl | kGx

primrec diameter_app_code :: "DiameterApp \<Rightarrow> u32" where
  "diameter_app_code kCommon = 0"
| "diameter_app_code DiameterApp_kCreditControl = 4"
| "diameter_app_code kGx = 16777238"

datatype AvpCode =
    kSessionId | kOriginHost | kOriginRealm | kDestinationHost | kDestinationRealm | kResultCode
  | kCcRequestType | kCcRequestNumber | kSubscriptionId | kSubscriptionIdType | kSubscriptionIdData
  | kMultipleServicesCreditControl | kRatingGroup | kServiceIdentifier | kGrantedServiceUnit
  | kUsedServiceUnit | kCcInputOctets | kCcOutputOctets | kCcTotalOctets | kCcTime
  | kEventTimestamp | kUserName

primrec avp_code :: "AvpCode \<Rightarrow> u32" where
  "avp_code kSessionId = 263"
| "avp_code kOriginHost = 264"
| "avp_code kOriginRealm = 296"
| "avp_code kDestinationHost = 293"
| "avp_code kDestinationRealm = 283"
| "avp_code kResultCode = 268"
| "avp_code kCcRequestType = 416"
| "avp_code kCcRequestNumber = 415"
| "avp_code kSubscriptionId = 443"
| "avp_code kSubscriptionIdType = 450"
| "avp_code kSubscriptionIdData = 444"
| "avp_code kMultipleServicesCreditControl = 456"
| "avp_code kRatingGroup = 432"
| "avp_code kServiceIdentifier = 439"
| "avp_code kGrantedServiceUnit = 431"
| "avp_code kUsedServiceUnit = 446"
| "avp_code kCcInputOctets = 412"
| "avp_code kCcOutputOctets = 414"
| "avp_code kCcTotalOctets = 421"
| "avp_code kCcTime = 420"
| "avp_code kEventTimestamp = 55"
| "avp_code kUserName = 1"

datatype CcRequestType = kInitial | kUpdate | kTermination | kEvent

primrec cc_request_code :: "CcRequestType \<Rightarrow> u32" where
  "cc_request_code kInitial = 1"
| "cc_request_code kUpdate = 2"
| "cc_request_code kTermination = 3"
| "cc_request_code kEvent = 4"

datatype SubscriptionIdType = kE164 | kImsi | kSipUri | kNai | kPrivate

primrec subscription_id_code :: "SubscriptionIdType \<Rightarrow> u32" where
  "subscription_id_code kE164 = 0"
| "subscription_id_code kImsi = 1"
| "subscription_id_code kSipUri = 2"
| "subscription_id_code kNai = 3"
| "subscription_id_code kPrivate = 4"

datatype DiameterStatus =
    DiameterStatus_kOk | DiameterStatus_kTruncated | DiameterStatus_kBadVersion
  | DiameterStatus_kBadLength | DiameterStatus_kBadAvp | DiameterStatus_kAvpTooDeep

primrec diameter_status_string :: "DiameterStatus \<Rightarrow> string" where
  "diameter_status_string DiameterStatus_kOk = ''ok''"
| "diameter_status_string DiameterStatus_kTruncated = ''truncated''"
| "diameter_status_string DiameterStatus_kBadVersion = ''bad-version''"
| "diameter_status_string DiameterStatus_kBadLength = ''bad-length''"
| "diameter_status_string DiameterStatus_kBadAvp = ''bad-avp''"
| "diameter_status_string DiameterStatus_kAvpTooDeep = ''avp-too-deep''"

subsection \<open>The header\<close>

record DiameterHeader =
  dh_avps :: bytes
  dh_msg_length :: u32
  dh_command_code :: u32
  dh_application_id :: u32
  dh_hop_by_hop :: u32
  dh_end_to_end :: u32
  dh_flags :: u8

definition DiameterHeader_init :: DiameterHeader where
  "DiameterHeader_init = \<lparr>dh_avps = [], dh_msg_length = 0, dh_command_code = 0, dh_application_id = 0,
     dh_hop_by_hop = 0, dh_end_to_end = 0, dh_flags = 0\<rparr>"

definition request :: "DiameterHeader \<Rightarrow> bool" where
  "request h \<longleftrightarrow> dh_flags h AND 0x80 \<noteq> 0"

definition proxiable :: "DiameterHeader \<Rightarrow> bool" where
  "proxiable h \<longleftrightarrow> dh_flags h AND 0x40 \<noteq> 0"

definition error_bit :: "DiameterHeader \<Rightarrow> bool" where
  "error_bit h \<longleftrightarrow> dh_flags h AND 0x20 \<noteq> 0"

definition retransmit :: "DiameterHeader \<Rightarrow> bool" where
  "retransmit h \<longleftrightarrow> dh_flags h AND 0x10 \<noteq> 0"

definition is_credit_control :: "DiameterHeader \<Rightarrow> bool" where
  "is_credit_control h \<longleftrightarrow> dh_command_code h = diameter_command_code DiameterCommand_kCreditControl"

definition parse_diameter_header :: "bytes \<Rightarrow> (DiameterStatus \<times> DiameterHeader) option" where
  "parse_diameter_header buf = (
     let out = DiameterHeader_init in
     if length buf < kDiameterHeaderLen then Some (DiameterStatus_kTruncated, out)
     else do {
       version \<leftarrow> at_index buf 0;
       if version \<noteq> 1 then Some (DiameterStatus_kBadVersion, out)
       else do {
         len \<leftarrow> load_be24 buf 1;
         if unat len < kDiameterHeaderLen \<or> len > kDiameterMaxMsgLen then Some (DiameterStatus_kBadLength, out)
         else if len AND 3 \<noteq> 0 then Some (DiameterStatus_kBadLength, out)
         else if length buf < unat len then Some (DiameterStatus_kTruncated, out)
         else do {
           flags \<leftarrow> at_index buf 4;
           command_code \<leftarrow> load_be24 buf 5;
           application_id \<leftarrow> load_be32 buf 8;
           hop_by_hop \<leftarrow> load_be32 buf 12;
           end_to_end \<leftarrow> load_be32 buf 16;
           avps \<leftarrow> subspan buf kDiameterHeaderLen (unat len - kDiameterHeaderLen);
           Some (DiameterStatus_kOk, out\<lparr>dh_msg_length := len, dh_flags := flags, dh_command_code := command_code,
             dh_application_id := application_id, dh_hop_by_hop := hop_by_hop, dh_end_to_end := end_to_end,
             dh_avps := avps\<rparr>) } } })"

subsection \<open>AVPs\<close>

record Avp =
  av_data :: bytes
  av_code :: u32
  av_vendor_id :: u32
  av_length :: u32
  av_flags :: u8

definition Avp_init :: Avp where
  "Avp_init = \<lparr>av_data = [], av_code = 0, av_vendor_id = 0, av_length = 0, av_flags = 0\<rparr>"

definition vendor_specific :: "Avp \<Rightarrow> bool" where
  "vendor_specific a \<longleftrightarrow> av_flags a AND 0x80 \<noteq> 0"

definition mandatory :: "Avp \<Rightarrow> bool" where
  "mandatory a \<longleftrightarrow> av_flags a AND 0x40 \<noteq> 0"

definition protectedf :: "Avp \<Rightarrow> bool" where
  "protectedf a \<longleftrightarrow> av_flags a AND 0x20 \<noteq> 0"

definition as_u32 :: "Avp \<Rightarrow> u32 \<Rightarrow> (bool \<times> u32) option" where
  "as_u32 a out = (if length (av_data a) \<noteq> 4 then Some (False, out)
     else do { v \<leftarrow> load_be32 (av_data a) 0; Some (True, v) })"

definition as_i32 :: "Avp \<Rightarrow> int \<Rightarrow> (bool \<times> int) option" where
  "as_i32 a out = do {
     (ok, v) \<leftarrow> as_u32 a 0;
     Some (if \<not> ok then (False, out) else (True, sint v)) }"

definition as_u64 :: "Avp \<Rightarrow> u64 \<Rightarrow> (bool \<times> u64) option" where
  "as_u64 a out = (if length (av_data a) = 8 then do { v \<leftarrow> load_be64 (av_data a) 0; Some (True, v) }
     else if length (av_data a) = 4 then do { v \<leftarrow> load_be32 (av_data a) 0; Some (True, ucast v) }
     else Some (False, out))"

definition as_string :: "Avp \<Rightarrow> bytes" where
  "as_string a = av_data a"

text \<open>The distance to the next AVP: \<^verbatim>\<open>(avp.length + 3u) & ~size_t{3}\<close>.\<close>

definition avp_advance :: "u32 \<Rightarrow> nat" where
  "avp_advance len = unat (ucast (len + 3) AND NOT 3 :: u64)"

type_synonym 's visitor = "Avp \<Rightarrow> nat \<Rightarrow> 's \<Rightarrow> (bool \<times> 's) option"

function for_each_loop :: "bytes \<Rightarrow> 's visitor \<Rightarrow> nat \<Rightarrow> nat \<Rightarrow> 's \<Rightarrow> (DiameterStatus \<times> 's) option" where
  "for_each_loop area fn depth off s =
     (if off \<ge> length area then Some (DiameterStatus_kOk, s)
      else if length area - off < 8 then Some (DiameterStatus_kBadAvp, s)
      else do {
        code \<leftarrow> load_be32 area off;
        flags \<leftarrow> at_index area (off + 4);
        len \<leftarrow> load_be24 area (off + 5);
        let avp = Avp_init\<lparr>av_code := code, av_flags := flags, av_length := len\<rparr>;
        let hdr = (if vendor_specific avp then 12 else 8);
        if unat len < hdr then Some (DiameterStatus_kBadAvp, s)
        else if unat len > length area - off then Some (DiameterStatus_kBadAvp, s)
        else do {
          vendor \<leftarrow> (if vendor_specific avp then load_be32 area (off + 8) else Some (av_vendor_id avp));
          data \<leftarrow> subspan area (off + hdr) (unat len - hdr);
          (go, s) \<leftarrow> fn (avp\<lparr>av_vendor_id := vendor, av_data := data\<rparr>) depth s;
          if \<not> go then Some (DiameterStatus_kOk, s)
          else if avp_advance len = 0 \<or> avp_advance len > length area - off then Some (DiameterStatus_kBadAvp, s)
          else for_each_loop area fn depth (off + avp_advance len) s } })"
  by pat_completeness auto
termination
  by (relation "measure (\<lambda>(area, fn, depth, off, s). length area - off)") auto

declare for_each_loop.simps [simp del]

definition for_each_avp :: "bytes \<Rightarrow> 's visitor \<Rightarrow> nat \<Rightarrow> 's \<Rightarrow> (DiameterStatus \<times> 's) option" where
  "for_each_avp area fn depth s =
     (if depth \<ge> kAvpMaxDepth then Some (DiameterStatus_kAvpTooDeep, s) else for_each_loop area fn depth 0 s)"

definition for_each_sub_avp :: "Avp \<Rightarrow> 's visitor \<Rightarrow> nat \<Rightarrow> 's \<Rightarrow> (DiameterStatus \<times> 's) option" where
  "for_each_sub_avp grouped fn depth s = for_each_avp (av_data grouped) fn (depth + 1) s"

subsection \<open>The Gy fields\<close>

record MsccInfo =
  ms_used_input_octets :: u64
  ms_used_output_octets :: u64
  ms_used_total_octets :: u64
  ms_granted_total_octets :: u64
  ms_rating_group :: u32
  ms_service_identifier :: u32
  ms_has_rating_group :: bool
  ms_has_service_identifier :: bool
  ms_has_used :: bool
  ms_has_granted :: bool

definition MsccInfo_init :: MsccInfo where
  "MsccInfo_init = \<lparr>ms_used_input_octets = 0, ms_used_output_octets = 0, ms_used_total_octets = 0,
     ms_granted_total_octets = 0, ms_rating_group = 0, ms_service_identifier = 0, ms_has_rating_group = False,
     ms_has_service_identifier = False, ms_has_used = False, ms_has_granted = False\<rparr>"

record GyMessage =
  gm_session_id :: bytes
  gm_origin_host :: bytes
  gm_origin_realm :: bytes
  gm_msisdn :: bytes
  gm_mscc :: "MsccInfo list"
  gm_imsi :: u64
  gm_cc_request_type :: u32
  gm_cc_request_number :: u32
  gm_result_code :: u32
  gm_mscc_count :: nat
  gm_is_request :: bool
  gm_has_imsi :: bool
  gm_has_result_code :: bool
  gm_mscc_overflow :: bool

definition GyMessage_init :: GyMessage where
  "GyMessage_init = \<lparr>gm_session_id = [], gm_origin_host = [], gm_origin_realm = [], gm_msisdn = [],
     gm_mscc = replicate kMaxMsccPerMessage MsccInfo_init, gm_imsi = 0, gm_cc_request_type = 0,
     gm_cc_request_number = 0, gm_result_code = 0, gm_mscc_count = 0, gm_is_request = False,
     gm_has_imsi = False, gm_has_result_code = False, gm_mscc_overflow = False\<rparr>"

text \<open>\<^verbatim>\<open>pack_imsi\<close>: the loop over the digits, then the length checks around it.\<close>

fun pack_digits :: "u64 \<Rightarrow> bytes \<Rightarrow> u64 option" where
  "pack_digits v [] = Some v"
| "pack_digits v (c # cs) = (if c < 0x30 \<or> c > 0x39 then None else pack_digits (v * 10 + ucast (c - 0x30)) cs)"

definition pack_imsi :: "bytes \<Rightarrow> u64 \<Rightarrow> bool \<times> u64" where
  "pack_imsi s out = (if s = [] \<or> length s > 19 then (False, out)
     else case pack_digits 0 s of None \<Rightarrow> (False, out) | Some v \<Rightarrow> (True, v))"

definition used_unit_visitor :: "MsccInfo visitor" where
  "used_unit_visitor a d info =
     (if av_code a = avp_code kCcInputOctets then do {
        (_, v) \<leftarrow> as_u64 a (ms_used_input_octets info); Some (True, info\<lparr>ms_used_input_octets := v\<rparr>) }
      else if av_code a = avp_code kCcOutputOctets then do {
        (_, v) \<leftarrow> as_u64 a (ms_used_output_octets info); Some (True, info\<lparr>ms_used_output_octets := v\<rparr>) }
      else if av_code a = avp_code kCcTotalOctets then do {
        (_, v) \<leftarrow> as_u64 a (ms_used_total_octets info); Some (True, info\<lparr>ms_used_total_octets := v\<rparr>) }
      else Some (True, info))"

definition parse_used_service_unit :: "Avp \<Rightarrow> MsccInfo \<Rightarrow> nat \<Rightarrow> MsccInfo option" where
  "parse_used_service_unit usu info depth = do {
     let info = info\<lparr>ms_has_used := True\<rparr>;
     (_, info) \<leftarrow> for_each_sub_avp usu used_unit_visitor depth info;
     Some (if ms_used_total_octets info = 0
           then info\<lparr>ms_used_total_octets := ms_used_input_octets info + ms_used_output_octets info\<rparr>
           else info) }"

definition granted_unit_visitor :: "MsccInfo visitor" where
  "granted_unit_visitor g d info =
     (if av_code g = avp_code kCcTotalOctets then do {
        (_, v) \<leftarrow> as_u64 g (ms_granted_total_octets info); Some (True, info\<lparr>ms_granted_total_octets := v\<rparr>) }
      else Some (True, info))"

definition mscc_visitor :: "nat \<Rightarrow> MsccInfo visitor" where
  "mscc_visitor depth a d info =
     (if av_code a = avp_code kRatingGroup then do {
        (ok, v) \<leftarrow> as_u32 a (ms_rating_group info);
        Some (True, info\<lparr>ms_rating_group := v, ms_has_rating_group := ok\<rparr>) }
      else if av_code a = avp_code kServiceIdentifier then do {
        (ok, v) \<leftarrow> as_u32 a (ms_service_identifier info);
        Some (True, info\<lparr>ms_service_identifier := v, ms_has_service_identifier := ok\<rparr>) }
      else if av_code a = avp_code kUsedServiceUnit then do {
        info \<leftarrow> parse_used_service_unit a info (depth + 1); Some (True, info) }
      else if av_code a = avp_code kGrantedServiceUnit then do {
        let info = info\<lparr>ms_has_granted := True\<rparr>;
        (_, info) \<leftarrow> for_each_sub_avp a granted_unit_visitor (depth + 2) info;
        Some (True, info) }
      else Some (True, info))"

definition parse_mscc :: "Avp \<Rightarrow> MsccInfo \<Rightarrow> nat \<Rightarrow> MsccInfo option" where
  "parse_mscc mscc_avp info depth = map_option snd (for_each_sub_avp mscc_avp (mscc_visitor depth) depth info)"

definition subscription_visitor :: "(u32 \<times> bytes) visitor" where
  "subscription_visitor a d s =
     (if av_code a = avp_code kSubscriptionIdType then do {
        (_, t) \<leftarrow> as_u32 a (fst s); Some (True, (t, snd s)) }
      else if av_code a = avp_code kSubscriptionIdData then Some (True, (fst s, as_string a))
      else Some (True, s))"

definition parse_subscription_id :: "Avp \<Rightarrow> GyMessage \<Rightarrow> nat \<Rightarrow> GyMessage option" where
  "parse_subscription_id sub out depth = do {
     (_, t, data) \<leftarrow> for_each_sub_avp sub subscription_visitor depth (0xFFFFFFFF, []);
     Some (if t = subscription_id_code kImsi then
             (case pack_imsi data (gm_imsi out) of (ok, v) \<Rightarrow> out\<lparr>gm_imsi := v, gm_has_imsi := ok\<rparr>)
           else if t = subscription_id_code kE164 then out\<lparr>gm_msisdn := data\<rparr>
           else out) }"

definition gy_visitor :: "GyMessage visitor" where
  "gy_visitor a depth out =
     (if av_code a = avp_code kSessionId then Some (True, out\<lparr>gm_session_id := as_string a\<rparr>)
      else if av_code a = avp_code kOriginHost then Some (True, out\<lparr>gm_origin_host := as_string a\<rparr>)
      else if av_code a = avp_code kOriginRealm then Some (True, out\<lparr>gm_origin_realm := as_string a\<rparr>)
      else if av_code a = avp_code kCcRequestType then do {
        (_, v) \<leftarrow> as_u32 a (gm_cc_request_type out); Some (True, out\<lparr>gm_cc_request_type := v\<rparr>) }
      else if av_code a = avp_code kCcRequestNumber then do {
        (_, v) \<leftarrow> as_u32 a (gm_cc_request_number out); Some (True, out\<lparr>gm_cc_request_number := v\<rparr>) }
      else if av_code a = avp_code kResultCode then do {
        (ok, v) \<leftarrow> as_u32 a (gm_result_code out);
        Some (True, out\<lparr>gm_result_code := v, gm_has_result_code := ok\<rparr>) }
      else if av_code a = avp_code kSubscriptionId then do {
        out \<leftarrow> parse_subscription_id a out depth; Some (True, out) }
      else if av_code a = avp_code kMultipleServicesCreditControl then
        (if gm_mscc_count out < length (gm_mscc out) then do {
           info \<leftarrow> at_index (gm_mscc out) (gm_mscc_count out);
           info \<leftarrow> parse_mscc a info depth;
           mscc \<leftarrow> store_at (gm_mscc out) (gm_mscc_count out) info;
           Some (True, out\<lparr>gm_mscc := mscc, gm_mscc_count := gm_mscc_count out + 1\<rparr>) }
         else Some (True, out\<lparr>gm_mscc_overflow := True\<rparr>))
      else Some (True, out))"

definition parse_gy :: "DiameterHeader \<Rightarrow> (DiameterStatus \<times> GyMessage) option" where
  "parse_gy hdr = for_each_avp (dh_avps hdr) gy_visitor 0 (GyMessage_init\<lparr>gm_is_request := request hdr\<rparr>)"

definition parse_diameter_gy ::
  "bytes \<Rightarrow> GyMessage \<Rightarrow> (DiameterStatus \<times> DiameterHeader \<times> GyMessage) option" where
  "parse_diameter_gy buf gy = do {
     (st, hdr) \<leftarrow> parse_diameter_header buf;
     if st \<noteq> DiameterStatus_kOk then Some (st, hdr, gy)
     else if \<not> is_credit_control hdr then Some (DiameterStatus_kOk, hdr, gy)
     else do { (st, gy) \<leftarrow> parse_gy hdr; Some (st, hdr, gy) } }"

subsection \<open>The AVPs of an area\<close>

text \<open>
  The abstract view of an area: the first AVP at its start, if its header is sound, and from it the
  list of AVPs and how the list ends. No visitor and no offset is involved.
\<close>

definition avp_len :: "bytes \<Rightarrow> nat" where
  "avp_len a = unat (be_val (take 3 (drop 5 a)) :: u32)"

definition avp_hdr :: "bytes \<Rightarrow> nat" where
  "avp_hdr a = (if a ! 4 AND 0x80 \<noteq> 0 then 12 else 8)"

definition avp_sound :: "bytes \<Rightarrow> bool" where
  "avp_sound a \<longleftrightarrow> 8 \<le> length a \<and> avp_hdr a \<le> avp_len a \<and> avp_len a \<le> length a"

definition first_avp :: "bytes \<Rightarrow> Avp" where
  "first_avp a = \<lparr>av_data = take (avp_len a - avp_hdr a) (drop (avp_hdr a) a), av_code = be_val (take 4 a),
     av_vendor_id = (if a ! 4 AND 0x80 \<noteq> 0 then be_val (take 4 (drop 8 a)) else 0),
     av_length = be_val (take 3 (drop 5 a)), av_flags = a ! 4\<rparr>"

definition padded :: "nat \<Rightarrow> nat" where
  "padded n = (n + 3) div 4 * 4"

lemma padded_bounds: "n \<le> padded n" "padded n < n + 4" "4 dvd padded n"
  by (auto simp: padded_def)

lemma avp_len_less: "avp_len a < 2 ^ 24"
proof -
  have "be_nat (take 3 (drop 5 a)) 0 < 256 ^ length (take 3 (drop 5 a))" by (rule be_nat_bound)
  also have "\<dots> \<le> 256 ^ 3" by (intro power_increasing) simp_all
  finally show ?thesis by (simp add: avp_len_def unat_be_val)
qed

lemma avp_hdr_ge: "8 \<le> avp_hdr a"
  by (simp add: avp_hdr_def)

function avps :: "bytes \<Rightarrow> Avp list \<times> DiameterStatus" where
  "avps a =
     (if a = [] then ([], DiameterStatus_kOk)
      else if \<not> avp_sound a then ([], DiameterStatus_kBadAvp)
      else if length a < padded (avp_len a) then ([first_avp a], DiameterStatus_kBadAvp)
      else (case avps (drop (padded (avp_len a)) a) of (vs, st) \<Rightarrow> (first_avp a # vs, st)))"
  by pat_completeness auto
termination
proof (relation "measure length", simp)
  fix a assume "a \<noteq> ([] :: bytes)" "\<not> \<not> avp_sound a"
  then have "0 < padded (avp_len a)" "0 < length a"
    using avp_hdr_ge [of a] padded_bounds(1) [of "avp_len a"] by (auto simp: avp_sound_def)
  then show "(drop (padded (avp_len a)) a, a) \<in> measure length" by simp
qed

declare avps.simps [simp del]

lemma avps_Nil [simp]: "avps [] = ([], DiameterStatus_kOk)"
  by (simp add: avps.simps)

text \<open>Visiting a list of AVPs in order, until the visitor asks to stop.\<close>

fun visit :: "'s visitor \<Rightarrow> nat \<Rightarrow> Avp list \<times> DiameterStatus \<Rightarrow> 's \<Rightarrow> (DiameterStatus \<times> 's) option" where
  "visit fn depth ([], st) s = Some (st, s)"
| "visit fn depth (v # vs, st) s = do {
     (go, s) \<leftarrow> fn v depth s;
     if go then visit fn depth (vs, st) s else Some (DiameterStatus_kOk, s) }"

lemma unat_and_not_3: "unat (x AND NOT 3 :: u64) = unat x div 4 * 4"
proof -
  have "(3 :: u64) = mask 2" by (simp add: mask_eq_exp_minus_1)
  moreover have "x AND NOT (mask 2) = push_bit 2 (drop_bit 2 x)"
    by (rule bit_word_eqI) (auto simp: bit_simps simp del: add_2_eq_Suc add_2_eq_Suc')
  ultimately have "x AND NOT 3 = push_bit 2 (drop_bit 2 x)" by metis
  moreover have "unat x div 4 * 4 < 2 ^ 64" using unsigned_less [of x, where 'a=nat] by simp
  ultimately show ?thesis
    by (simp only: unsigned_push_bit_eq unat_drop_bit_eq push_bit_nat_def drop_bit_nat_def)
      (simp add: take_bit_nat_eq_self)
qed

lemma avp_advance_padded: "unat len < 2 ^ 24 \<Longrightarrow> avp_advance len = padded (unat len)"
proof -
  assume l: "unat len < 2 ^ 24"
  then have "unat (len + 3) = unat len + 3" by (subst unat_add_less) simp_all
  then show ?thesis unfolding avp_advance_def unat_and_not_3 by (simp add: unat_ucast_up padded_def)
qed

lemma for_each_step:
  assumes "off < length area"
  defines "a \<equiv> drop off area"
  shows "for_each_loop area fn depth off s =
    (if \<not> avp_sound a then Some (DiameterStatus_kBadAvp, s)
     else do {
       (go, s) \<leftarrow> fn (first_avp a) depth s;
       if \<not> go then Some (DiameterStatus_kOk, s)
       else if length a < padded (avp_len a) then Some (DiameterStatus_kBadAvp, s)
       else for_each_loop area fn depth (off + padded (avp_len a)) s })"
proof (cases "8 \<le> length a")
  case False
  then show ?thesis using assms by (subst for_each_loop.simps) (simp add: avp_sound_def)
next
  case True
  have len: "off + 8 \<le> length area" using True by (simp add: a_def)
  have f: "a ! 4 = area ! (off + 4)" using len by (simp add: a_def)
  have reads: "load_be32 area off = Some (be_val (take 4 a))" "at_index area (off + 4) = Some (a ! 4)"
      "load_be24 area (off + 5) = Some (be_val (take 3 (drop 5 a)))"
    using len f by (simp_all add: span_simps a_def add.commute)
  have adv: "avp_advance (be_val (take 3 (drop 5 a))) = padded (avp_len a)"
    using avp_len_less [of a] by (simp add: avp_advance_padded avp_len_def)
  have pos: "avp_hdr a \<le> avp_len a \<Longrightarrow> padded (avp_len a) \<noteq> 0"
    using padded_bounds(1) [of "avp_len a"] avp_hdr_ge [of a] by linarith
  have v: "load_be32 area (off + 8) = Some (be_val (take 4 (drop 8 a)))" if "12 \<le> avp_len a" "avp_len a \<le> length a"
    using that by (simp add: span_simps a_def add.commute)
  have d: "subspan area (off + avp_hdr a) (avp_len a - avp_hdr a) = Some (take (avp_len a - avp_hdr a) (drop (avp_hdr a) a))"
    if "avp_hdr a \<le> avp_len a" "avp_len a \<le> length a"
    using that len by (simp add: subspan_in a_def add.commute)
  have la: "length area - off = length a" by (simp add: a_def)
  have init: "vendor_specific (Avp_init\<lparr>av_code := c, av_flags := a ! 4, av_length := l\<rparr>) \<longleftrightarrow> a ! 4 AND 0x80 \<noteq> 0" for c l
    by (simp add: vendor_specific_def Avp_init_def)
  have hdr: "(if a ! 4 AND 0x80 \<noteq> 0 then 12 else 8) = avp_hdr a" by (simp add: avp_hdr_def)
  show ?thesis
  proof (cases "avp_sound a")
    case True
    then have s: "avp_hdr a \<le> avp_len a" "avp_len a \<le> length a" by (auto simp: avp_sound_def)
    note body = la reads vendor_specific_def adv Let_def avp_len_def [symmetric] first_avp_def Avp_init_def
    show ?thesis
    proof (cases "a ! 4 AND 0x80 = 0")
      case flag: True
      then have h: "avp_hdr a = 8" by (simp add: avp_hdr_def)
      show ?thesis
        using assms(1) len True pos [OF s(1)] s [unfolded h] d [OF s] flag
        by (subst for_each_loop.simps) (simp add: body h cong: if_cong)
    next
      case flag: False
      then have h: "avp_hdr a = 12" by (simp add: avp_hdr_def)
      show ?thesis
        using assms(1) len True pos [OF s(1)] s [unfolded h] d [OF s] flag v
        by (subst for_each_loop.simps) (simp add: body h cong: if_cong)
    qed
  next
    case False
    then have "avp_len a < avp_hdr a \<or> length a < avp_len a" using \<open>8 \<le> length a\<close> by (auto simp: avp_sound_def)
    then show ?thesis
      using assms(1) len False
      by (subst for_each_loop.simps) (auto simp: la reads init hdr Let_def avp_len_def [symmetric])
  qed
qed

lemma for_each_loop_visits: "for_each_loop area fn depth off s = visit fn depth (avps (drop off area)) s"
proof (induction "length area - off" arbitrary: off s rule: less_induct)
  case less
  let ?a = "drop off area"
  show ?case
  proof (cases "off < length area")
    case False
    then show ?thesis by (subst for_each_loop.simps) simp
  next
    case True
    show ?thesis
    proof (cases "avp_sound ?a")
      case False
      then show ?thesis using True by (simp add: for_each_step avps.simps [of ?a])
    next
      case sound: True
      have pos: "0 < padded (avp_len ?a)"
        using sound avp_hdr_ge [of ?a] padded_bounds(1) [of "avp_len ?a"] by (auto simp: avp_sound_def)
      have ih: "for_each_loop area fn depth (off + padded (avp_len ?a)) t =
          visit fn depth (avps (drop (padded (avp_len ?a)) ?a)) t" for t
        using less [of "off + padded (avp_len ?a)" t] pos True by (simp add: add.commute)
      obtain vs st where r: "avps (drop (padded (avp_len ?a)) ?a) = (vs, st)" by fastforce
      have step: "for_each_loop area fn depth off s = do {
         (go, s) \<leftarrow> fn (first_avp ?a) depth s;
         if \<not> go then Some (DiameterStatus_kOk, s)
         else if length ?a < padded (avp_len ?a) then Some (DiameterStatus_kBadAvp, s)
         else visit fn depth (vs, st) s }"
        using for_each_step [OF True, of fn depth s] sound ih r by (simp cong: if_cong del: drop_drop length_drop)
      have a: "avps ?a = (if length ?a < padded (avp_len ?a) then ([first_avp ?a], DiameterStatus_kBadAvp) else (first_avp ?a # vs, st))"
        using True sound r by (subst avps.simps) (simp del: drop_drop length_drop)
      show ?thesis
        unfolding step a by (cases "fn (first_avp ?a) depth s") (auto split: prod.splits)
    qed
  qed
qed

lemma for_each_avp_visits: "depth < 8 \<Longrightarrow> for_each_avp area fn depth s = visit fn depth (avps area) s"
  by (simp add: for_each_avp_def for_each_loop_visits)

lemma visit_fold:
  assumes "\<And>v s. fn v depth s = Some (True, g v s)"
  shows "visit fn depth (vs, st) s = Some (st, fold g vs s)"
  by (induction vs arbitrary: s) (simp_all add: assms)

lemma for_each_avp_fold:
  "depth < 8 \<Longrightarrow> (\<And>v s. fn v depth s = Some (True, g v s)) \<Longrightarrow>
     for_each_avp area fn depth s = Some (snd (avps area), fold g (fst (avps area)) s)"
  using visit_fold [of fn depth g "fst (avps area)" "snd (avps area)" s] by (simp add: for_each_avp_visits)

text \<open>The bytes of one AVP with its padding.\<close>

definition avp_image :: "Avp \<Rightarrow> bytes \<Rightarrow> bool" where
  "avp_image v bs \<longleftrightarrow> avp_sound bs \<and> v = first_avp bs \<and> length bs = padded (avp_len bs)"

lemma avp_take:
  assumes "avp_sound a" "avp_len a \<le> n" "n \<le> length a"
  shows "avp_len (take n a) = avp_len a" "avp_hdr (take n a) = avp_hdr a" "avp_sound (take n a)"
    "first_avp (take n a) = first_avp a"
proof -
  have n: "8 \<le> n" using assms avp_hdr_ge [of a] by (auto simp: avp_sound_def)
  show l: "avp_len (take n a) = avp_len a" "avp_hdr (take n a) = avp_hdr a"
    using n by (simp_all add: avp_len_def avp_hdr_def take_drop min_def)
  then show "avp_sound (take n a)" using assms n by (auto simp: avp_sound_def)
  have "a ! 4 AND 0x80 \<noteq> 0 \<Longrightarrow> 12 \<le> n" using assms by (auto simp: avp_sound_def avp_hdr_def)
  then show "first_avp (take n a) = first_avp a"
    using n assms l by (auto simp: first_avp_def take_drop min_def)
qed

lemma avps_images:
  "avps a = (vs, st) \<Longrightarrow> st = DiameterStatus_kOk \<Longrightarrow> \<exists>bss. a = concat bss \<and> list_all2 avp_image vs bss"
proof (induction a arbitrary: vs rule: avps.induct)
  case (1 a)
  show ?case
  proof (cases "a = []")
    case True
    then show ?thesis using 1 by (intro exI [of _ "[]"]) simp
  next
    case False
    then have s: "avp_sound a" "padded (avp_len a) \<le> length a"
      using 1 by (auto simp: avps.simps [of a] split: if_splits)
    obtain ws where w: "avps (drop (padded (avp_len a)) a) = (ws, st)" "vs = first_avp a # ws"
      using False s 1 by (auto simp: avps.simps [of a] split: prod.splits)
    obtain bss where b: "drop (padded (avp_len a)) a = concat bss" "list_all2 avp_image ws bss"
      using 1(1) [OF False _ _ w(1)] s 1(3) by auto
    have "avp_image (first_avp a) (take (padded (avp_len a)) a)"
      using avp_take [OF s(1) padded_bounds(1) s(2)] s by (simp add: avp_image_def)
    then show ?thesis
      using b w by (intro exI [of _ "take (padded (avp_len a)) a # bss"]) (simp flip: b(1))
  qed
qed

text \<open>
  C21: The walk over an AVP area is exact. Below the depth limit \<^verbatim>\<open>for_each_avp\<close> calls its visitor
  on the AVPs of the area in order, stops early only when the visitor says so, and otherwise ends
  with the status of the area; and when that status is ok, the bytes of the area are the wire images
  of the AVPs visited, one after the other, each with its padding and nothing in between.
\<close>

theorem for_each_avp_exact:
  assumes "depth < 8"
  shows "for_each_avp area fn depth s = visit fn depth (avps area) s \<and>
    (snd (avps area) = DiameterStatus_kOk \<longrightarrow>
       (\<exists>bss. area = concat bss \<and> list_all2 avp_image (fst (avps area)) bss))"
  using for_each_avp_visits [OF assms, of area fn s] avps_images [of area "fst (avps area)" "snd (avps area)"]
  by (metis prod.collapse)

text \<open>A Session-Id of one byte with its three bytes of padding, then a vendor-specific AVP.\<close>

definition area_sample :: bytes where
  "area_sample = [0, 0, 1, 7, 0x40, 0, 0, 9, 0x61, 0, 0, 0, 0, 0, 0, 1, 0x80, 0, 0, 16, 0, 0, 0x28, 0xAF, 1, 2, 3, 4]"

theorem for_each_avp_exact_witness:
  "for_each_avp area_sample (\<lambda>a _ s. Some (True, s @ [(av_code a, av_vendor_id a, av_data a)])) 0 [] =
     Some (DiameterStatus_kOk, [(263, 0, [0x61]), (1, 10415, [1, 2, 3, 4])]) \<and>
   (\<exists>bss. area_sample = concat bss \<and> list_all2 avp_image (fst (avps area_sample)) bss)"
proof
  have "snd (avps area_sample) = DiameterStatus_kOk" by code_simp
  with for_each_avp_exact [of 0 area_sample "\<lambda>a d s. Some (True, s)" "()"]
  show "\<exists>bss. area_sample = concat bss \<and> list_all2 avp_image (fst (avps area_sample)) bss" by simp
qed code_simp

subsection \<open>The Gy fields as a fold\<close>

definition u32_of :: "Avp \<Rightarrow> u32 \<Rightarrow> u32" where
  "u32_of a out = (if length (av_data a) = 4 then be_val (av_data a) else out)"

definition u64_of :: "Avp \<Rightarrow> u64 \<Rightarrow> u64" where
  "u64_of a out = (if length (av_data a) = 8 \<or> length (av_data a) = 4 then be_val (av_data a) else out)"

lemma as_u32_eq: "as_u32 a out = Some (length (av_data a) = 4, u32_of a out)"
  by (simp add: as_u32_def u32_of_def span_simps)

lemma ucast_be_val: "length bs = 4 \<Longrightarrow> ucast (be_val bs :: u32) = (be_val bs :: u64)"
  by (rule word_unat_eq_iff [THEN iffD2]) (simp add: unat_ucast_up unat_be_val)

lemma as_u64_eq: "as_u64 a out = Some (length (av_data a) \<in> {4, 8}, u64_of a out)"
  by (simp add: as_u64_def u64_of_def span_simps ucast_be_val)

definition sub_avps :: "Avp \<Rightarrow> Avp list" where
  "sub_avps a = fst (avps (av_data a))"

definition used_unit_upd :: "Avp \<Rightarrow> MsccInfo \<Rightarrow> MsccInfo" where
  "used_unit_upd a info =
     (if av_code a = 412 then info\<lparr>ms_used_input_octets := u64_of a (ms_used_input_octets info)\<rparr>
      else if av_code a = 414 then info\<lparr>ms_used_output_octets := u64_of a (ms_used_output_octets info)\<rparr>
      else if av_code a = 421 then info\<lparr>ms_used_total_octets := u64_of a (ms_used_total_octets info)\<rparr>
      else info)"

definition total_used :: "MsccInfo \<Rightarrow> MsccInfo" where
  "total_used info = (if ms_used_total_octets info = 0
     then info\<lparr>ms_used_total_octets := ms_used_input_octets info + ms_used_output_octets info\<rparr> else info)"

definition granted_unit_upd :: "Avp \<Rightarrow> MsccInfo \<Rightarrow> MsccInfo" where
  "granted_unit_upd a info =
     (if av_code a = 421 then info\<lparr>ms_granted_total_octets := u64_of a (ms_granted_total_octets info)\<rparr> else info)"

definition mscc_upd :: "Avp \<Rightarrow> MsccInfo \<Rightarrow> MsccInfo" where
  "mscc_upd a info =
     (if av_code a = 432 then info\<lparr>ms_rating_group := u32_of a (ms_rating_group info),
        ms_has_rating_group := (length (av_data a) = 4)\<rparr>
      else if av_code a = 439 then info\<lparr>ms_service_identifier := u32_of a (ms_service_identifier info),
        ms_has_service_identifier := (length (av_data a) = 4)\<rparr>
      else if av_code a = 446 then total_used (fold used_unit_upd (sub_avps a) (info\<lparr>ms_has_used := True\<rparr>))
      else if av_code a = 431 then fold granted_unit_upd (sub_avps a) (info\<lparr>ms_has_granted := True\<rparr>)
      else info)"

definition subscription_upd :: "Avp \<Rightarrow> u32 \<times> bytes \<Rightarrow> u32 \<times> bytes" where
  "subscription_upd a s = (if av_code a = 450 then (u32_of a (fst s), snd s)
     else if av_code a = 444 then (fst s, av_data a) else s)"

definition subscribe :: "u32 \<times> bytes \<Rightarrow> GyMessage \<Rightarrow> GyMessage" where
  "subscribe s out = (if fst s = 1 then
       out\<lparr>gm_imsi := snd (pack_imsi (snd s) (gm_imsi out)), gm_has_imsi := fst (pack_imsi (snd s) (gm_imsi out))\<rparr>
     else if fst s = 0 then out\<lparr>gm_msisdn := snd s\<rparr> else out)"

definition gy_upd :: "Avp \<Rightarrow> GyMessage \<Rightarrow> GyMessage" where
  "gy_upd a out =
     (if av_code a = 263 then out\<lparr>gm_session_id := av_data a\<rparr>
      else if av_code a = 264 then out\<lparr>gm_origin_host := av_data a\<rparr>
      else if av_code a = 296 then out\<lparr>gm_origin_realm := av_data a\<rparr>
      else if av_code a = 416 then out\<lparr>gm_cc_request_type := u32_of a (gm_cc_request_type out)\<rparr>
      else if av_code a = 415 then out\<lparr>gm_cc_request_number := u32_of a (gm_cc_request_number out)\<rparr>
      else if av_code a = 268 then out\<lparr>gm_result_code := u32_of a (gm_result_code out),
        gm_has_result_code := (length (av_data a) = 4)\<rparr>
      else if av_code a = 443 then subscribe (fold subscription_upd (sub_avps a) (0xFFFFFFFF, [])) out
      else if av_code a = 456 then
        (if gm_mscc_count out < length (gm_mscc out)
         then out\<lparr>gm_mscc := (gm_mscc out)[gm_mscc_count out := fold mscc_upd (sub_avps a) (gm_mscc out ! gm_mscc_count out)],
                  gm_mscc_count := gm_mscc_count out + 1\<rparr>
         else out\<lparr>gm_mscc_overflow := True\<rparr>)
      else out)"

lemma for_each_sub_avp_fold:
  "depth < 7 \<Longrightarrow> (\<And>v s. fn v (depth + 1) s = Some (True, g v s)) \<Longrightarrow>
     for_each_sub_avp a fn depth s = Some (snd (avps (av_data a)), fold g (sub_avps a) s)"
  unfolding for_each_sub_avp_def sub_avps_def by (intro for_each_avp_fold) simp_all

lemma used_unit_visitor_upd: "used_unit_visitor a d info = Some (True, used_unit_upd a info)"
  by (simp add: used_unit_visitor_def used_unit_upd_def as_u64_eq)

lemma granted_unit_visitor_upd: "granted_unit_visitor a d info = Some (True, granted_unit_upd a info)"
  by (simp add: granted_unit_visitor_def granted_unit_upd_def as_u64_eq)

lemma subscription_visitor_upd: "subscription_visitor a d s = Some (True, subscription_upd a s)"
  by (simp add: subscription_visitor_def subscription_upd_def as_u32_eq as_string_def)

lemma parse_used_service_unit_eq:
  "d < 7 \<Longrightarrow> parse_used_service_unit a info d = Some (total_used (fold used_unit_upd (sub_avps a) (info\<lparr>ms_has_used := True\<rparr>)))"
  by (simp add: parse_used_service_unit_def for_each_sub_avp_fold [OF _ used_unit_visitor_upd] total_used_def Let_def)

lemma mscc_visitor_upd: "d \<le> 4 \<Longrightarrow> mscc_visitor d a d' info = Some (True, mscc_upd a info)"
  by (simp add: mscc_visitor_def mscc_upd_def as_u32_eq parse_used_service_unit_eq
      for_each_sub_avp_fold [OF _ granted_unit_visitor_upd] Let_def)

lemma parse_mscc_eq: "d \<le> 4 \<Longrightarrow> parse_mscc a info d = Some (fold mscc_upd (sub_avps a) info)"
  by (simp add: parse_mscc_def for_each_sub_avp_fold [OF _ mscc_visitor_upd])

lemma parse_subscription_id_eq:
  "d < 7 \<Longrightarrow> parse_subscription_id a out d = Some (subscribe (fold subscription_upd (sub_avps a) (0xFFFFFFFF, [])) out)"
  by (simp add: parse_subscription_id_def for_each_sub_avp_fold [OF _ subscription_visitor_upd] subscribe_def
      split: prod.splits)

lemma gy_visitor_upd: "d \<le> 4 \<Longrightarrow> gy_visitor a d out = Some (True, gy_upd a out)"
  by (simp add: gy_visitor_def gy_upd_def as_u32_eq as_string_def parse_subscription_id_eq parse_mscc_eq
      at_index_in store_at_in)

lemma parse_gy_eq:
  "parse_gy hdr = Some (snd (avps (dh_avps hdr)),
     fold gy_upd (fst (avps (dh_avps hdr))) (GyMessage_init\<lparr>gm_is_request := request hdr\<rparr>))"
  unfolding parse_gy_def by (rule for_each_avp_fold) (simp_all add: gy_visitor_upd)

lemma gy_upd_any_vendor: "gy_upd (a\<lparr>av_vendor_id := vendor, av_flags := flags\<rparr>) out = gy_upd a out"
  by (simp add: gy_upd_def u32_of_def sub_avps_def)

text \<open>
  C22: Extracting the Gy fields never fails and reads every field off the AVPs of the message: the
  result is the fold of one update per AVP, in message order, and of the updates of the AVPs nested
  in grouped ones. The depth limit is never met, whatever the message nests. An AVP is recognised by its
  code alone: its flags and its vendor make no difference, so a vendor-specific AVP whose code is
  that of a Gy field sets the field.
\<close>

theorem parse_gy_fields:
  "parse_gy hdr = Some (snd (avps (dh_avps hdr)),
     fold gy_upd (fst (avps (dh_avps hdr))) (GyMessage_init\<lparr>gm_is_request := request hdr\<rparr>)) \<and>
   (\<forall>a vendor flags out. gy_upd (a\<lparr>av_vendor_id := vendor, av_flags := flags\<rparr>) out = gy_upd a out)"
  by (simp add: parse_gy_eq gy_upd_any_vendor)

subsection \<open>The decimal IMSI\<close>

definition is_digit :: "u8 \<Rightarrow> bool" where
  "is_digit c \<longleftrightarrow> 0x30 \<le> c \<and> c \<le> 0x39"

definition dec_value :: "bytes \<Rightarrow> nat" where
  "dec_value s = foldl (\<lambda>n c. n * 10 + (unat c - 48)) 0 s"

lemma digit_value:
  assumes "is_digit c"
  shows "unat (c - 0x30) = unat c - 48" "unat c - 48 \<le> 9"
proof -
  have "48 \<le> unat c" "unat c \<le> 57" using assms by (simp_all add: is_digit_def word_le_nat_alt)
  then show "unat (c - 0x30) = unat c - 48" "unat c - 48 \<le> 9" by (simp_all add: unat_sub word_le_nat_alt)
qed

lemma foldl_dec_bound:
  "list_all is_digit s \<Longrightarrow> foldl (\<lambda>n c. n * 10 + (unat c - 48)) n s < (n + 1) * 10 ^ length s"
proof (induction s arbitrary: n)
  case (Cons c s)
  have "foldl (\<lambda>n c. n * 10 + (unat c - 48)) (n * 10 + (unat c - 48)) s < (n * 10 + (unat c - 48) + 1) * 10 ^ length s"
    using Cons by simp
  also have "\<dots> \<le> (n * 10 + 10) * 10 ^ length s"
    using digit_value(2) [of c] Cons.prems by (intro mult_le_mono1) simp
  finally show ?case by (simp add: algebra_simps)
qed simp

lemma dec_value_bound: "list_all is_digit s \<Longrightarrow> dec_value s < 10 ^ length s"
  using foldl_dec_bound [of s 0] by (simp add: dec_value_def)

lemma pack_digits_None: "\<not> list_all is_digit s \<Longrightarrow> pack_digits v s = None"
  by (induction s arbitrary: v) (auto simp: is_digit_def not_le)

lemma pack_digits_value:
  assumes "list_all is_digit s" "(unat v + 1) * 10 ^ length s \<le> 2 ^ 64"
  shows "\<exists>w. pack_digits v s = Some w \<and> unat w = foldl (\<lambda>n c. n * 10 + (unat c - 48)) (unat v) s"
  using assms
proof (induction s arbitrary: v)
  case (Cons c s)
  have d: "is_digit c" using Cons.prems by simp
  have "(unat v + 1) * 10 \<le> (unat v + 1) * 10 ^ length (c # s)" by (intro mult_le_mono) simp_all
  also have "\<dots> \<le> 2 ^ 64" by (rule Cons.prems(2))
  finally have v10: "(unat v + 1) * 10 \<le> 2 ^ 64" .
  have u: "unat (ucast (c - 0x30) :: u64) = unat c - 48"
    using digit_value(1) [OF d] by (simp add: unat_ucast_up)
  have "unat (v * 10 :: u64) = unat v * 10" using v10 by (subst unat_mult_lem [THEN iffD1]) simp_all
  then have n: "unat (v * 10 + ucast (c - 0x30)) = unat v * 10 + (unat c - 48)"
    using digit_value(2) [OF d] u v10 by (subst unat_add_less) simp_all
  have "(unat v * 10 + (unat c - 48) + 1) * 10 ^ length s \<le> (unat v * 10 + 10) * 10 ^ length s"
    using digit_value(2) [OF d] by (intro mult_le_mono1) simp
  also have "\<dots> = (unat v + 1) * 10 ^ length (c # s)" by (simp add: algebra_simps)
  also have "\<dots> \<le> 2 ^ 64" by (rule Cons.prems(2))
  finally have "(unat (v * 10 + ucast (c - 0x30)) + 1) * 10 ^ length s \<le> 2 ^ 64" by (simp only: n)
  from Cons.IH [OF _ this] Cons.prems(1) d show ?case by (auto simp: n is_digit_def not_le [symmetric])
qed simp

lemma pack_imsi_result:
  "if s \<noteq> [] \<and> length s \<le> 19 \<and> list_all is_digit s
   then \<exists>v. pack_imsi s out = (True, v) \<and> unat v = dec_value s \<and> dec_value s < 10 ^ length s
   else pack_imsi s out = (False, out)"
proof (cases "s \<noteq> [] \<and> length s \<le> 19 \<and> list_all is_digit s")
  case True
  then have "(10 :: nat) ^ length s \<le> 10 ^ 19" by (intro power_increasing) simp_all
  then have "(unat (0 :: u64) + 1) * 10 ^ length s \<le> 2 ^ 64" by simp
  with pack_digits_value [of s 0] True dec_value_bound [of s] show ?thesis
    by (auto simp: pack_imsi_def dec_value_def)
next
  case False
  then show ?thesis using pack_digits_None [of s 0] by (auto simp: pack_imsi_def)
qed

text \<open>
  An IMSI is packed exactly: a string of one to nineteen decimal digits gives its decimal value,
  which always fits 64 bits, and any other string, empty, too long or with another character, is
  refused and leaves the result as it was.
\<close>

theorem pack_imsi_exact:
  "if s \<noteq> [] \<and> length s \<le> 19 \<and> list_all is_digit s
   then \<exists>v. pack_imsi s out = (True, v) \<and> unat v = dec_value s \<and> dec_value s < 10 ^ length s
   else pack_imsi s out = (False, out)"
  by (rule pack_imsi_result)

subsection \<open>The message\<close>

definition wire_length :: "bytes \<Rightarrow> nat" where
  "wire_length buf = unat (be_val (take 3 (drop 1 buf)) :: u32)"

definition wire_header :: "bytes \<Rightarrow> DiameterHeader" where
  "wire_header buf = \<lparr>dh_avps = take (wire_length buf - 20) (drop 20 buf), dh_msg_length = be_val (take 3 (drop 1 buf)),
     dh_command_code = be_val (take 3 (drop 5 buf)), dh_application_id = be_val (take 4 (drop 8 buf)),
     dh_hop_by_hop = be_val (take 4 (drop 12 buf)), dh_end_to_end = be_val (take 4 (drop 16 buf)), dh_flags = buf ! 4\<rparr>"

lemma aligned_mask: "len AND 3 = 0 \<longleftrightarrow> 4 dvd unat (len :: u32)"
  using unat_and_mask [of 2 len] by (simp add: unat_eq_0 [symmetric] dvd_eq_mod_eq_0)

lemma parse_diameter_header_cascade:
  "parse_diameter_header buf =
     (if length buf < 20 then Some (DiameterStatus_kTruncated, DiameterHeader_init)
      else if buf ! 0 \<noteq> 1 then Some (DiameterStatus_kBadVersion, DiameterHeader_init)
      else if wire_length buf < 20 \<or> 2 ^ 20 < wire_length buf \<or> \<not> 4 dvd wire_length buf
        then Some (DiameterStatus_kBadLength, DiameterHeader_init)
      else if length buf < wire_length buf then Some (DiameterStatus_kTruncated, DiameterHeader_init)
      else Some (DiameterStatus_kOk, wire_header buf))"
proof (cases "length buf < 20")
  case False
  then have r: "at_index buf 0 = Some (buf ! 0)" "load_be24 buf (Suc 0) = Some (be_val (take 3 (drop (Suc 0) buf)))"
      "at_index buf 4 = Some (buf ! 4)" "load_be24 buf 5 = Some (be_val (take 3 (drop 5 buf)))"
      "load_be32 buf 8 = Some (be_val (take 4 (drop 8 buf)))" "load_be32 buf 12 = Some (be_val (take 4 (drop 12 buf)))"
      "load_be32 buf 16 = Some (be_val (take 4 (drop 16 buf)))"
    by (auto simp: span_simps at_index_def)
  have gt: "(kDiameterMaxMsgLen < be_val (take 3 (drop (Suc 0) buf))) = (2 ^ 20 < wire_length buf)"
    by (simp add: wire_length_def word_less_nat_alt)
  show ?thesis
    using False
    by (auto simp: parse_diameter_header_def Let_def r gt [simplified] aligned_mask wire_length_def [simplified, symmetric]
        subspan_in wire_header_def DiameterHeader_init_def)
qed (simp add: parse_diameter_header_def)

definition gy_wf :: "GyMessage \<Rightarrow> bool" where
  "gy_wf g \<longleftrightarrow> length (gm_mscc g) = 8 \<and> gm_mscc_count g \<le> 8"

lemma gy_upd_wf: "gy_wf g \<Longrightarrow> gy_wf (gy_upd a g)"
  by (auto simp: gy_wf_def gy_upd_def subscribe_def)

lemma fold_gy_upd_wf: "gy_wf g \<Longrightarrow> gy_wf (fold gy_upd vs g)"
  by (induction vs arbitrary: g) (simp_all add: gy_upd_wf)

lemma parse_diameter_gy_result:
  "case parse_diameter_gy buf GyMessage_init of None \<Rightarrow> False
   | Some (st, hdr, gy) \<Rightarrow> length (gm_mscc gy) = 8 \<and> gm_mscc_count gy \<le> 8 \<and>
       (st = DiameterStatus_kOk \<longrightarrow>
          (let n = unat (dh_msg_length hdr) in 20 \<le> n \<and> n \<le> length buf \<and> n \<le> 2 ^ 20 \<and> 4 dvd n \<and>
             dh_avps hdr = take (n - 20) (drop 20 buf)))"
proof -
  have "gy_wf GyMessage_init" by (simp add: gy_wf_def GyMessage_init_def)
  moreover have "gy_wf (GyMessage_init\<lparr>gm_is_request := r\<rparr>)" for r by (simp add: gy_wf_def GyMessage_init_def)
  ultimately show ?thesis
    using fold_gy_upd_wf [of "GyMessage_init\<lparr>gm_is_request := request (wire_header buf)\<rparr>"]
    by (auto simp: parse_diameter_gy_def parse_diameter_header_cascade parse_gy_eq gy_wf_def wire_header_def
        wire_length_def Let_def)
qed

text \<open>
  C16: The Diameter decoder is safe on any bytes. Whatever the buffer holds, decoding returns without
  reading outside it. An accepted message has a declared length between the header and the buffer's
  length, a multiple of four, its AVP area is exactly the bytes behind the header that the length
  covers, and at most eight credit-control blocks are kept.
\<close>

theorem parse_diameter_gy_safe:
  "case parse_diameter_gy buf GyMessage_init of None \<Rightarrow> False
   | Some (st, hdr, gy) \<Rightarrow> length (gm_mscc gy) = 8 \<and> gm_mscc_count gy \<le> 8 \<and>
       (st = DiameterStatus_kOk \<longrightarrow>
          (let n = unat (dh_msg_length hdr) in 20 \<le> n \<and> n \<le> length buf \<and> n \<le> 2 ^ 20 \<and> 4 dvd n \<and>
             dh_avps hdr = take (n - 20) (drop 20 buf)))"
  by (rule parse_diameter_gy_result)

definition watchdog_sample :: bytes where
  "watchdog_sample = [1, 0, 0, 20, 0x80, 0, 1, 24, 0, 0, 0, 0, 0, 0, 0, 1, 0, 0, 0, 2]"

theorem parse_diameter_gy_safe_witness:
  "\<exists>hdr. parse_diameter_gy watchdog_sample GyMessage_init = Some (DiameterStatus_kOk, hdr, GyMessage_init) \<and>
     dh_avps hdr = []"
proof -
  have "case parse_diameter_gy watchdog_sample GyMessage_init of
      Some (DiameterStatus_kOk, hdr, gy) \<Rightarrow> gy = GyMessage_init \<and> dh_msg_length hdr = 20 | _ \<Rightarrow> False" by code_simp
  with parse_diameter_gy_safe [of watchdog_sample] show ?thesis
    by (auto split: option.splits prod.splits DiameterStatus.splits simp: Let_def)
qed

end
