(* ===== verification/Meter_Event.thy ===== *)
theory Meter_Event
  imports Prelude
begin

text \<open>
  The values that cross the rings from the parser to the metering thread,
  \<^verbatim>\<open>include/gtpm/meter_event.hpp\<close>: one \<^verbatim>\<open>MeterEvent\<close> per user-plane packet and one \<^verbatim>\<open>GyEvent\<close> per
  charging report.
\<close>

datatype Direction = kUplink | kDownlink | kUnknown

primrec direction_code :: "Direction \<Rightarrow> u8" where
  "direction_code kUplink = 0"
| "direction_code kDownlink = 1"
| "direction_code kUnknown = 2"

primrec direction_string :: "Direction \<Rightarrow> string" where
  "direction_string kUplink = ''uplink''"
| "direction_string kDownlink = ''downlink''"
| "direction_string kUnknown = ''unknown''"

abbreviation (input) kFlagHasQfi :: u8 where "kFlagHasQfi \<equiv> 1"
abbreviation (input) kFlagFragmented :: u8 where "kFlagFragmented \<equiv> 2"
abbreviation (input) kFlagInnerParsed :: u8 where "kFlagInnerParsed \<equiv> 4"
abbreviation (input) kFlagControlPdu :: u8 where "kFlagControlPdu \<equiv> 8"

record MeterEvent =
  ev_ts_ns :: u64
  ev_flow_key :: u64
  ev_teid :: u32
  ev_bytes :: u32
  ev_src_ip :: u32
  ev_dst_ip :: u32
  ev_src_port :: u16
  ev_dst_port :: u16
  ev_wire_bytes :: u16
  ev_proto :: u8
  ev_qfi :: u8
  ev_dir :: u8
  ev_msg_type :: u8
  ev_ip_version :: u8
  ev_flags :: u8

definition MeterEvent_init :: MeterEvent where
  "MeterEvent_init = \<lparr>ev_ts_ns = 0, ev_flow_key = 0, ev_teid = 0, ev_bytes = 0, ev_src_ip = 0, ev_dst_ip = 0,
     ev_src_port = 0, ev_dst_port = 0, ev_wire_bytes = 0, ev_proto = 0, ev_qfi = 0,
     ev_dir = direction_code kUnknown, ev_msg_type = 0, ev_ip_version = 0, ev_flags = 0\<rparr>"

definition has_qfi :: "MeterEvent \<Rightarrow> bool" where
  "has_qfi ev \<longleftrightarrow> ev_flags ev AND kFlagHasQfi \<noteq> 0"

definition inner_parsed :: "MeterEvent \<Rightarrow> bool" where
  "inner_parsed ev \<longleftrightarrow> ev_flags ev AND kFlagInnerParsed \<noteq> 0"

record GyEvent =
  gy_ts_ns :: u64
  gy_imsi :: u64
  gy_used_input_octets :: u64
  gy_used_output_octets :: u64
  gy_used_total_octets :: u64
  gy_granted_total_octets :: u64
  gy_rating_group :: u32
  gy_cc_request_type :: u32
  gy_cc_request_number :: u32
  gy_result_code :: u32
  gy_is_request :: bool
  gy_has_used :: bool
  gy_has_granted :: bool
  gy_has_imsi :: bool

definition GyEvent_init :: GyEvent where
  "GyEvent_init = \<lparr>gy_ts_ns = 0, gy_imsi = 0, gy_used_input_octets = 0, gy_used_output_octets = 0,
     gy_used_total_octets = 0, gy_granted_total_octets = 0, gy_rating_group = 0, gy_cc_request_type = 0,
     gy_cc_request_number = 0, gy_result_code = 0, gy_is_request = False, gy_has_used = False,
     gy_has_granted = False, gy_has_imsi = False\<rparr>"

end
