(* ===== verification/Pipeline.thy ===== *)
theory Pipeline
  imports Gtpu Net Diameter Spsc_Ring Meter_Event
begin

text \<open>
  \<^verbatim>\<open>include/gtpm/pipeline.hpp\<close>: the ingest side. One captured frame is decoded down to the GTP-U
  tunnel or the Diameter message it carries and turned into metering or charging events, which are
  pushed onto the rings.

  The \<^verbatim>\<open>Ingest\<close> object is a record of its configuration, its two rings (a null pointer is
  \<^const>\<open>None\<close>) and its counters, and every method returns the outcome with the updated object.
  The lemmas show that no frame makes the ingest path read outside the frame or lose track of an
  event, and what each outcome means for the rings and the counters.
\<close>

subsection \<open>State\<close>

record IngestStats =
  ig_frames :: u64
  ig_frames_bytes :: u64
  ig_non_ip :: u64
  ig_not_gtpu_port :: u64
  ig_gtpu_parse_errors :: u64
  ig_gtpu_gpdus :: u64
  ig_gtpu_control :: u64
  ig_inner_parse_errors :: u64
  ig_diameter_messages :: u64
  ig_diameter_parse_errors :: u64
  ig_gy_events :: u64
  ig_events_pushed :: u64
  ig_events_dropped :: u64
  ig_gy_events_dropped :: u64
  ig_truncated_frames :: u64

definition IngestStats_init :: IngestStats where
  "IngestStats_init = \<lparr>ig_frames = 0, ig_frames_bytes = 0, ig_non_ip = 0, ig_not_gtpu_port = 0,
     ig_gtpu_parse_errors = 0, ig_gtpu_gpdus = 0, ig_gtpu_control = 0, ig_inner_parse_errors = 0,
     ig_diameter_messages = 0, ig_diameter_parse_errors = 0, ig_gy_events = 0, ig_events_pushed = 0,
     ig_events_dropped = 0, ig_gy_events_dropped = 0, ig_truncated_frames = 0\<rparr>"

datatype FrameOutcome = kMetered | kGyControl | kGtpuControl | kNotOurTraffic | kParseError | kDropped

record IngestConfig =
  ic_gtpu_port :: u16
  ic_diameter_port :: u16
  ic_parse_diameter :: bool
  ic_count_wire_bytes :: bool
  ic_meter_inner_ip_length :: bool

definition IngestConfig_init :: IngestConfig where
  "IngestConfig_init = \<lparr>ic_gtpu_port = kGtpuPort, ic_diameter_port = kDiameterPort, ic_parse_diameter = True,
     ic_count_wire_bytes = True, ic_meter_inner_ip_length = True\<rparr>"

record Ingest =
  in_cfg :: IngestConfig
  in_meter_ring :: "MeterEvent ring option"
  in_gy_ring :: "GyEvent ring option"
  in_stats :: IngestStats

definition Ingest_new :: "MeterEvent ring option \<Rightarrow> GyEvent ring option \<Rightarrow> IngestConfig \<Rightarrow> Ingest" where
  "Ingest_new meter_ring gy_ring cfg = \<lparr>in_cfg = cfg, in_meter_ring = meter_ring, in_gy_ring = gy_ring,
     in_stats = IngestStats_init\<rparr>"

definition ingest_reset_stats :: "Ingest \<Rightarrow> Ingest" where
  "ingest_reset_stats g = g\<lparr>in_stats := IngestStats_init\<rparr>"

definition count_ig :: "(IngestStats \<Rightarrow> IngestStats) \<Rightarrow> Ingest \<Rightarrow> Ingest" where
  "count_ig f g = g\<lparr>in_stats := f (in_stats g)\<rparr>"

subsection \<open>Events out\<close>

definition count_pushed :: "IngestStats \<Rightarrow> IngestStats" where
  "count_pushed s = s\<lparr>ig_events_pushed := ig_events_pushed s + 1\<rparr>"

definition push_event :: "MeterEvent \<Rightarrow> Ingest \<Rightarrow> (bool \<times> Ingest) option" where
  "push_event ev g = (case in_meter_ring g of
     None \<Rightarrow> Some (True, count_ig count_pushed g)
   | Some ring \<Rightarrow> do {
       (ok, ring) \<leftarrow> try_push ring ev;
       let g = g\<lparr>in_meter_ring := Some ring\<rparr>;
       if ok then Some (True, count_ig count_pushed g)
       else Some (False, count_ig (\<lambda>s. s\<lparr>ig_events_dropped := ig_events_dropped s + 1\<rparr>) g) })"

definition gy_event :: "GyMessage \<Rightarrow> u64 \<Rightarrow> nat \<Rightarrow> GyEvent option" where
  "gy_event gy ts_ns i = (
     let ev = GyEvent_init\<lparr>gy_ts_ns := ts_ns, gy_imsi := gm_imsi gy, gy_has_imsi := gm_has_imsi gy,
       gy_is_request := gm_is_request gy, gy_cc_request_type := gm_cc_request_type gy,
       gy_cc_request_number := gm_cc_request_number gy, gy_result_code := gm_result_code gy\<rparr> in
     if gm_mscc_count gy \<noteq> 0 then do {
       m \<leftarrow> at_index (gm_mscc gy) i;
       Some (ev\<lparr>gy_rating_group := ms_rating_group m, gy_used_input_octets := ms_used_input_octets m,
         gy_used_output_octets := ms_used_output_octets m, gy_used_total_octets := ms_used_total_octets m,
         gy_granted_total_octets := ms_granted_total_octets m, gy_has_used := ms_has_used m,
         gy_has_granted := ms_has_granted m\<rparr>) }
     else Some ev)"

definition push_gy :: "GyEvent \<Rightarrow> Ingest \<Rightarrow> (bool \<times> Ingest) option" where
  "push_gy ev g = (
     let g = count_ig (\<lambda>s. s\<lparr>ig_gy_events := ig_gy_events s + 1\<rparr>) g in
     case in_gy_ring g of
       None \<Rightarrow> Some (True, g)
     | Some ring \<Rightarrow> do {
         (ok, ring) \<leftarrow> try_push ring ev;
         let g = g\<lparr>in_gy_ring := Some ring\<rparr>;
         if ok then Some (True, g)
         else Some (False, count_ig (\<lambda>s. s\<lparr>ig_gy_events_dropped := ig_gy_events_dropped s + 1\<rparr>) g) })"

fun emit_gy_loop :: "GyMessage \<Rightarrow> u64 \<Rightarrow> nat list \<Rightarrow> bool \<Rightarrow> Ingest \<Rightarrow> (bool \<times> Ingest) option" where
  "emit_gy_loop gy ts_ns [] any g = Some (any, g)"
| "emit_gy_loop gy ts_ns (i # is) any g = do {
     ev \<leftarrow> gy_event gy ts_ns i;
     (ok, g) \<leftarrow> push_gy ev g;
     emit_gy_loop gy ts_ns is (if ok then True else any) g }"

definition emit_gy_events :: "GyMessage \<Rightarrow> u64 \<Rightarrow> Ingest \<Rightarrow> (bool \<times> Ingest) option" where
  "emit_gy_events gy ts_ns g =
     emit_gy_loop gy ts_ns [0..<(if gm_mscc_count gy = 0 then 1 else gm_mscc_count gy)] False g"

subsection \<open>GTP-U\<close>

definition gtpu_event :: "IngestConfig \<Rightarrow> GtpuHeader \<Rightarrow> u64 \<Rightarrow> u16 \<Rightarrow> MeterEvent" where
  "gtpu_event cfg h ts_ns wire_bytes = (
     let ev = MeterEvent_init\<lparr>ev_ts_ns := ts_ns, ev_teid := gh_teid h, ev_msg_type := gh_msg_type h,
       ev_wire_bytes := (if ic_count_wire_bytes cfg then wire_bytes else 0)\<rparr> in
     if gh_has_qfi h
     then ev\<lparr>ev_qfi := gh_qfi h, ev_flags := ev_flags ev OR kFlagHasQfi,
             ev_dir := direction_code (if gh_pdu_type h = 1 then kUplink else kDownlink)\<rparr>
     else ev)"

definition inner_event :: "IngestConfig \<Rightarrow> GtpuHeader \<Rightarrow> IpPacket \<Rightarrow> MeterEvent \<Rightarrow> MeterEvent option" where
  "inner_event cfg h inner ev = (
     let t = ip_tuple inner;
         ev = ev\<lparr>ev_flags := ev_flags ev OR kFlagInnerParsed,
           ev_bytes := (if ic_meter_inner_ip_length cfg then ip_total_len inner else of_nat (length (gh_payload h))),
           ev_ip_version := ft_ip_version t, ev_proto := ft_proto t, ev_src_port := ft_src_port t,
           ev_dst_port := ft_dst_port t, ev_flow_key := flow_key t\<rparr> in do {
     ev \<leftarrow> (if ft_ip_version t = 4 then do {
              s \<leftarrow> src_v4 t; d \<leftarrow> dst_v4 t; Some (ev\<lparr>ev_src_ip := s, ev_dst_ip := d\<rparr>) }
            else Some ev);
     Some (if ft_fragmented t then ev\<lparr>ev_flags := ev_flags ev OR kFlagFragmented\<rparr> else ev) })"

definition gpdu_event :: "GtpuHeader \<Rightarrow> MeterEvent \<Rightarrow> Ingest \<Rightarrow> (MeterEvent \<times> Ingest) option" where
  "gpdu_event h ev g = do {
     inner \<leftarrow> parse_ip (gh_payload h);
     if ip_valid inner then do { ev \<leftarrow> inner_event (in_cfg g) h inner ev; Some (ev, g) }
     else Some (ev\<lparr>ev_bytes := of_nat (length (gh_payload h))\<rparr>,
            count_ig (\<lambda>s. s\<lparr>ig_inner_parse_errors := ig_inner_parse_errors s + 1\<rparr>) g) }"

definition process_gtpu :: "bytes \<Rightarrow> u64 \<Rightarrow> u16 \<Rightarrow> Ingest \<Rightarrow> (FrameOutcome \<times> Ingest) option" where
  "process_gtpu pdu ts_ns wire_bytes g = do {
     (st, h) \<leftarrow> parse_gtpu pdu;
     if st \<noteq> GtpuStatus_kOk then do {
       let g = count_ig (\<lambda>s. s\<lparr>ig_gtpu_parse_errors := ig_gtpu_parse_errors s + 1\<rparr>) g;
       let g = (if st = GtpuStatus_kTruncated
                then count_ig (\<lambda>s. s\<lparr>ig_truncated_frames := ig_truncated_frames s + 1\<rparr>) g else g);
       Some (kParseError, g) }
     else do {
       let ev = gtpu_event (in_cfg g) h ts_ns wire_bytes;
       if \<not> is_gpdu h then do {
         let g = count_ig (\<lambda>s. s\<lparr>ig_gtpu_control := ig_gtpu_control s + 1\<rparr>) g;
         (ok, g) \<leftarrow> push_event (ev\<lparr>ev_flags := ev_flags ev OR kFlagControlPdu, ev_bytes := 0\<rparr>) g;
         Some (if ok then kGtpuControl else kDropped, g) }
       else do {
         let g = count_ig (\<lambda>s. s\<lparr>ig_gtpu_gpdus := ig_gtpu_gpdus s + 1\<rparr>) g;
         (ev, g) \<leftarrow> gpdu_event h ev g;
         (ok, g) \<leftarrow> push_event ev g;
         Some (if ok then kMetered else kDropped, g) } } }"

subsection \<open>Diameter\<close>

function diameter_loop :: "bytes \<Rightarrow> u64 \<Rightarrow> nat \<Rightarrow> bool \<Rightarrow> Ingest \<Rightarrow> (FrameOutcome \<times> Ingest) option" where
  "diameter_loop payload ts_ns offset yielded g =
     (if offset + kDiameterHeaderLen > length payload
      then Some (if yielded then kGyControl else kNotOurTraffic, g)
      else do {
        rest \<leftarrow> subspan_from payload offset;
        (st, hdr, gy) \<leftarrow> parse_diameter_gy rest GyMessage_init;
        if st \<noteq> DiameterStatus_kOk
        then Some (if yielded then kGyControl else kParseError,
               count_ig (\<lambda>s. s\<lparr>ig_diameter_parse_errors := ig_diameter_parse_errors s + 1\<rparr>) g)
        else do {
          let g = count_ig (\<lambda>s. s\<lparr>ig_diameter_messages := ig_diameter_messages s + 1\<rparr>) g;
          (any, g) \<leftarrow> (if is_credit_control hdr then emit_gy_events gy ts_ns g else Some (False, g));
          if dh_msg_length hdr = 0 then Some (if any \<or> yielded then kGyControl else kNotOurTraffic, g)
          else diameter_loop payload ts_ns (offset + unat (dh_msg_length hdr)) (any \<or> yielded) g } })"
  by pat_completeness auto
termination
  by (relation "measure (\<lambda>(payload, ts_ns, offset, yielded, g). length payload - offset)")
    (auto intro!: diff_less_mono2 simp: unat_gt_0)

declare diameter_loop.simps [simp del]

definition process_diameter :: "bytes \<Rightarrow> u64 \<Rightarrow> Ingest \<Rightarrow> (FrameOutcome \<times> Ingest) option" where
  "process_diameter payload ts_ns g =
     (if payload = [] then Some (kNotOurTraffic, g) else diameter_loop payload ts_ns 0 False g)"

subsection \<open>Frames\<close>

definition count_non_ip :: "IngestStats \<Rightarrow> IngestStats" where
  "count_non_ip s = s\<lparr>ig_non_ip := ig_non_ip s + 1\<rparr>"

definition process_ip :: "bytes \<Rightarrow> u64 \<Rightarrow> u16 \<Rightarrow> Ingest \<Rightarrow> (FrameOutcome \<times> Ingest) option" where
  "process_ip ip_packet ts_ns wire_bytes g = do {
     outer \<leftarrow> parse_ip ip_packet;
     let t = ip_tuple outer;
     if \<not> ip_valid outer then Some (kNotOurTraffic, count_ig count_non_ip g)
     else if ft_proto t = ip_proto_code kUdp \<and>
        (ft_dst_port t = ic_gtpu_port (in_cfg g) \<or> ft_src_port t = ic_gtpu_port (in_cfg g))
     then process_gtpu (ip_l4_payload outer) ts_ns wire_bytes g
     else if ic_parse_diameter (in_cfg g) \<and>
        (ft_proto t = ip_proto_code kTcp \<or> ft_proto t = ip_proto_code kSctp) \<and>
        (ft_dst_port t = ic_diameter_port (in_cfg g) \<or> ft_src_port t = ic_diameter_port (in_cfg g))
     then process_diameter (ip_l4_payload outer) ts_ns g
     else Some (kNotOurTraffic, count_ig (\<lambda>s. s\<lparr>ig_not_gtpu_port := ig_not_gtpu_port s + 1\<rparr>) g) }"

definition process_frame :: "bytes \<Rightarrow> u64 \<Rightarrow> Ingest \<Rightarrow> (FrameOutcome \<times> Ingest) option" where
  "process_frame frame ts_ns g = do {
     let g = count_ig (\<lambda>s. s\<lparr>ig_frames := ig_frames s + 1,
                 ig_frames_bytes := ig_frames_bytes s + of_nat (length frame)\<rparr>) g;
     eth \<leftarrow> parse_ethernet frame;
     if \<not> eth_valid eth then Some (kNotOurTraffic, count_ig count_non_ip g)
     else process_ip (eth_payload eth) ts_ns (of_nat (length frame)) g }"

subsection \<open>What a step of the ingest path does\<close>

definition ring_ok :: "'a ring option \<Rightarrow> bool" where
  "ring_ok r \<longleftrightarrow> (case r of None \<Rightarrow> True | Some q \<Rightarrow> ring_inv q)"

definition room :: "'a ring option \<Rightarrow> bool" where
  "room r \<longleftrightarrow> (case r of None \<Rightarrow> True | Some q \<Rightarrow> length (ring_contents q) < ring_capacity q)"

text \<open>A ring, if there is one, has taken \<open>xs\<close>.\<close>

definition ring_grows :: "'a ring option \<Rightarrow> 'a list \<Rightarrow> 'a ring option \<Rightarrow> bool" where
  "ring_grows r xs r' \<longleftrightarrow> ring_ok r' \<and> (case r of None \<Rightarrow> r' = None
     | Some q \<Rightarrow> \<exists>q'. r' = Some q' \<and> ring_capacity q' = ring_capacity q \<and> ring_contents q' = ring_contents q @ xs)"

text \<open>
  The effect of a step: \<open>n\<close> frames seen, the metering events \<open>evs\<close> taken by their ring and \<open>lost\<close> more
  refused by it, the charging events \<open>gys\<close> taken and \<open>gylost\<close> refused.
\<close>

definition ingest_delta ::
  "nat \<Rightarrow> MeterEvent list \<Rightarrow> nat \<Rightarrow> GyEvent list \<Rightarrow> nat \<Rightarrow> Ingest \<Rightarrow> Ingest \<Rightarrow> bool" where
  "ingest_delta n evs lost gys gylost g g' \<longleftrightarrow> (let s = in_stats g; s' = in_stats g' in
     in_cfg g' = in_cfg g \<and> ring_grows (in_meter_ring g) evs (in_meter_ring g') \<and>
     ring_grows (in_gy_ring g) gys (in_gy_ring g') \<and>
     ig_frames s' = ig_frames s + of_nat n \<and>
     ig_events_pushed s' = ig_events_pushed s + of_nat (length evs) \<and>
     ig_events_dropped s' = ig_events_dropped s + of_nat lost \<and>
     ig_gtpu_gpdus s' + ig_gtpu_control s' = ig_gtpu_gpdus s + ig_gtpu_control s + of_nat (length evs + lost) \<and>
     ig_gy_events s' = ig_gy_events s + of_nat (length gys + gylost) \<and>
     ig_gy_events_dropped s' = ig_gy_events_dropped s + of_nat gylost)"

definition ingest_ok :: "Ingest \<Rightarrow> bool" where
  "ingest_ok g \<longleftrightarrow> ring_ok (in_meter_ring g) \<and> ring_ok (in_gy_ring g)"

lemma ring_grows_refl: "ring_ok r \<Longrightarrow> ring_grows r [] r"
  by (auto simp: ring_grows_def split: option.splits)

lemma ring_grows_trans: "ring_grows r xs r' \<Longrightarrow> ring_grows r' ys r'' \<Longrightarrow> ring_grows r (xs @ ys) r''"
  by (auto simp: ring_grows_def split: option.splits)

lemma delta_ok: "ingest_delta n evs lost gys gylost g g' \<Longrightarrow> ingest_ok g'"
  by (simp add: ingest_delta_def ingest_ok_def ring_grows_def Let_def)

lemma delta_trans:
  "ingest_delta n evs lost gys gylost g g' \<Longrightarrow> ingest_delta n2 evs2 lost2 gys2 gylost2 g' g'' \<Longrightarrow>
     ingest_delta (n + n2) (evs @ evs2) (lost + lost2) (gys @ gys2) (gylost + gylost2) g g''"
  by (auto simp: ingest_delta_def Let_def ring_grows_trans algebra_simps)

text \<open>Counters that are not part of the effect may be counted without changing it.\<close>

definition uncounted :: "(IngestStats \<Rightarrow> IngestStats) \<Rightarrow> bool" where
  "uncounted f \<longleftrightarrow> (\<forall>s. ig_frames (f s) = ig_frames s \<and> ig_events_pushed (f s) = ig_events_pushed s \<and>
     ig_events_dropped (f s) = ig_events_dropped s \<and> ig_gtpu_gpdus (f s) = ig_gtpu_gpdus s \<and>
     ig_gtpu_control (f s) = ig_gtpu_control s \<and> ig_gy_events (f s) = ig_gy_events s \<and>
     ig_gy_events_dropped (f s) = ig_gy_events_dropped s)"

lemma delta_count: "ingest_ok g \<Longrightarrow> uncounted f \<Longrightarrow> ingest_delta 0 [] 0 [] 0 g (count_ig f g)"
  by (simp add: ingest_delta_def ingest_ok_def uncounted_def count_ig_def ring_grows_refl Let_def)

lemma delta_refl: "ingest_ok g \<Longrightarrow> ingest_delta 0 [] 0 [] 0 g g"
  by (simp add: ingest_delta_def ingest_ok_def ring_grows_refl Let_def)

lemma try_push_grows:
  assumes "ring_inv q"
  shows "\<exists>q'. try_push q v = Some (room (Some q), q') \<and> ring_grows (Some q) (if room (Some q) then [v] else []) (Some q')"
  using try_push_spec [OF assms, of v] by (auto simp: room_def ring_grows_def ring_ok_def)

lemma push_event_spec:
  assumes "ring_ok (in_meter_ring g)"
  defines "ok \<equiv> room (in_meter_ring g)"
  shows "\<exists>r'. push_event ev g = Some (ok, count_ig
      (if ok then count_pushed else (\<lambda>s. s\<lparr>ig_events_dropped := ig_events_dropped s + 1\<rparr>)) (g\<lparr>in_meter_ring := r'\<rparr>)) \<and>
    ring_grows (in_meter_ring g) (if ok then [ev] else []) r'"
proof (cases "in_meter_ring g")
  case None
  then show ?thesis by (cases g) (auto simp: push_event_def count_ig_def ok_def room_def ring_grows_def ring_ok_def)
next
  case (Some q)
  then show ?thesis
    using try_push_grows [of q ev] assms(1) by (auto simp: push_event_def ok_def ring_ok_def Let_def)
qed

lemma push_gy_spec:
  assumes "ingest_ok g"
  shows "\<exists>g'. push_gy ev g = Some (room (in_gy_ring g), g') \<and>
    ingest_delta 0 [] 0 (if room (in_gy_ring g) then [ev] else []) (if room (in_gy_ring g) then 0 else 1) g g'"
proof (cases "in_gy_ring g")
  case None
  then show ?thesis using assms
    by (auto simp: push_gy_def count_ig_def room_def ingest_delta_def ring_grows_def ring_ok_def ingest_ok_def Let_def
        split: option.splits)
next
  case (Some q)
  then show ?thesis
    using try_push_grows [of q ev] assms ring_grows_refl [of "in_meter_ring g"]
    by (auto simp: push_gy_def count_ig_def ingest_delta_def ingest_ok_def ring_ok_def Let_def)
qed

lemma gy_event_Some: "gm_mscc_count gy = 0 \<or> i < length (gm_mscc gy) \<Longrightarrow> \<exists>ev. gy_event gy ts i = Some ev"
  by (auto simp: gy_event_def Let_def at_index_in)

lemma emit_gy_loop_spec:
  assumes "ingest_ok g" "\<forall>i\<in>set is. gm_mscc_count gy = 0 \<or> i < length (gm_mscc gy)"
  shows "\<exists>g' gys gylost. emit_gy_loop gy ts is any g = Some (any \<or> gys \<noteq> [], g') \<and>
    ingest_delta 0 [] 0 gys gylost g g' \<and> length gys + gylost = length is"
  using assms
proof (induction "is" arbitrary: any g)
  case Nil
  then show ?case using delta_refl by fastforce
next
  case (Cons i "is")
  obtain ev where ev: "gy_event gy ts i = Some ev" using gy_event_Some [of gy i ts] Cons.prems(2) by auto
  let ?ok = "room (in_gy_ring g)"
  obtain g1 where g1: "push_gy ev g = Some (?ok, g1)"
    "ingest_delta 0 [] 0 (if ?ok then [ev] else []) (if ?ok then 0 else 1) g g1"
    using push_gy_spec [OF Cons.prems(1)] by blast
  obtain g2 gys gylost where g2: "emit_gy_loop gy ts is (if ?ok then True else any) g1 = Some ((if ?ok then True else any) \<or> gys \<noteq> [], g2)"
    "ingest_delta 0 [] 0 gys gylost g1 g2" "length gys + gylost = length is"
    using Cons.IH [OF delta_ok [OF g1(2)], of "if ?ok then True else any"] Cons.prems(2) by auto
  show ?case
    using delta_trans [OF g1(2) g2(2)] g1(1) g2(1,3) ev
    by (intro exI [of _ g2] exI [of _ "(if ?ok then [ev] else []) @ gys"] exI [of _ "(if ?ok then 0 else 1) + gylost"]) auto
qed

lemma emit_gy_events_spec:
  assumes "ingest_ok g" "gy_wf gy"
  shows "\<exists>g' gys gylost. emit_gy_events gy ts g = Some (gys \<noteq> [], g') \<and> ingest_delta 0 [] 0 gys gylost g g'"
proof -
  have "\<forall>i\<in>set [0..<(if gm_mscc_count gy = 0 then 1 else gm_mscc_count gy)]. gm_mscc_count gy = 0 \<or> i < length (gm_mscc gy)"
    using assms(2) by (auto simp: gy_wf_def)
  from emit_gy_loop_spec [OF assms(1) this, of ts False] show ?thesis unfolding emit_gy_events_def simp_thms by blast
qed

text \<open>What each outcome means. \<open>evs\<close>, \<open>lost\<close> and \<open>gys\<close> are those of the effect.\<close>

definition outcome_ok :: "bool \<Rightarrow> FrameOutcome \<Rightarrow> MeterEvent list \<Rightarrow> nat \<Rightarrow> GyEvent list \<Rightarrow> bool" where
  "outcome_ok space res evs lost gys \<longleftrightarrow> (case res of
     kMetered \<Rightarrow> (\<exists>ev. evs = [ev] \<and> ev_flags ev AND kFlagControlPdu = 0) \<and> lost = 0 \<and> gys = []
   | kGtpuControl \<Rightarrow> (\<exists>ev. evs = [ev] \<and> ev_flags ev AND kFlagControlPdu \<noteq> 0 \<and> ev_bytes ev = 0) \<and> lost = 0 \<and> gys = []
   | kDropped \<Rightarrow> \<not> space \<and> evs = [] \<and> lost = 1 \<and> gys = []
   | kGyControl \<Rightarrow> evs = [] \<and> lost = 0 \<and> gys \<noteq> []
   | kNotOurTraffic \<Rightarrow> evs = [] \<and> lost = 0 \<and> gys = []
   | kParseError \<Rightarrow> evs = [] \<and> lost = 0 \<and> gys = [])"

lemma gtpu_event_flags: "ev_flags (gtpu_event cfg h ts w) \<in> {0, 1}"
  by (simp add: gtpu_event_def MeterEvent_init_def Let_def)

lemma inner_event_Some:
  assumes "ip_decoded pkt p" "ip_valid p" "ev_flags ev \<in> {0, 1}"
  shows "\<exists>ev'. inner_event cfg h p ev = Some ev' \<and> ev_flags ev' AND 8 = 0 \<and> ev_teid ev' = ev_teid ev \<and>
    ev_bytes ev' = (if ic_meter_inner_ip_length cfg then ip_total_len p else of_nat (length (gh_payload h)))"
proof -
  have "length (ft_src (ip_tuple p)) = 16" "length (ft_dst (ip_tuple p)) = 16"
    using ip_decoded_addr [OF assms(1,2)] by simp_all
  then show ?thesis using assms(3) by (auto simp: inner_event_def src_v4_def dst_v4_def load_in Let_def)
qed

lemma gpdu_event_spec:
  assumes "ingest_ok g" "ev_flags ev \<in> {0, 1}"
  shows "\<exists>ev' g'. gpdu_event h ev g = Some (ev', g') \<and> ev_flags ev' AND 8 = 0 \<and> ingest_delta 0 [] 0 [] 0 g g' \<and>
    in_meter_ring g' = in_meter_ring g \<and> in_gy_ring g' = in_gy_ring g"
proof -
  obtain p where p: "parse_ip (gh_payload h) = Some p" "ip_decoded (gh_payload h) p" using parse_ip_result by blast
  show ?thesis
  proof (cases "ip_valid p")
    case True
    then show ?thesis
      using p inner_event_Some [OF p(2) True assms(2), of "in_cfg g" h] delta_refl [OF assms(1)]
      by (auto simp: gpdu_event_def)
  next
    case False
    have "ev_flags ev AND 8 = 0" using assms(2) by auto
    moreover have "uncounted (\<lambda>s. s\<lparr>ig_inner_parse_errors := ig_inner_parse_errors s + 1\<rparr>)" by (simp add: uncounted_def)
    ultimately show ?thesis using p False delta_count [OF assms(1)] by (auto simp: gpdu_event_def count_ig_def)
  qed
qed

lemma process_gtpu_spec:
  assumes "ingest_ok g"
  shows "\<exists>res g' evs lost. process_gtpu pdu ts w g = Some (res, g') \<and> ingest_delta 0 evs lost [] 0 g g' \<and>
    outcome_ok (room (in_meter_ring g)) res evs lost []"
proof -
  obtain st h where p: "parse_gtpu pdu = Some (st, h)" using parse_gtpu_returns by blast
  let ?ev = "gtpu_event (in_cfg g) h ts w"
  have push: "\<exists>g2 evs lost. push_event ev g1 = Some (room (in_meter_ring g), g2) \<and> ingest_delta 0 evs lost [] 0 g g2 \<and>
      (if room (in_meter_ring g) then evs = [ev] \<and> lost = 0 else evs = [] \<and> lost = 1)"
    if "in_meter_ring g1 = in_meter_ring g" "in_gy_ring g1 = in_gy_ring g" "in_cfg g1 = in_cfg g"
      "ig_frames (in_stats g1) = ig_frames (in_stats g)" "ig_events_pushed (in_stats g1) = ig_events_pushed (in_stats g)"
      "ig_events_dropped (in_stats g1) = ig_events_dropped (in_stats g)" "ig_gy_events (in_stats g1) = ig_gy_events (in_stats g)"
      "ig_gy_events_dropped (in_stats g1) = ig_gy_events_dropped (in_stats g)"
      "ig_gtpu_gpdus (in_stats g1) + ig_gtpu_control (in_stats g1) = ig_gtpu_gpdus (in_stats g) + ig_gtpu_control (in_stats g) + 1"
    for g1 ev
    using push_event_spec [of g1 ev] that assms ring_grows_refl [of "in_gy_ring g"]
    by (auto simp: ingest_delta_def ingest_ok_def count_ig_def count_pushed_def Let_def)
  consider "st \<noteq> GtpuStatus_kOk" | "st = GtpuStatus_kOk" "\<not> is_gpdu h" | "st = GtpuStatus_kOk" "is_gpdu h" by blast
  then show ?thesis
  proof cases
    case 1
    let ?f = "\<lambda>s. s\<lparr>ig_gtpu_parse_errors := ig_gtpu_parse_errors s + 1\<rparr>"
    let ?f2 = "\<lambda>s. s\<lparr>ig_truncated_frames := ig_truncated_frames s + 1\<rparr>"
    have u: "uncounted ?f" "uncounted ?f2" by (simp_all add: uncounted_def)
    note d = delta_count [OF assms u(1)]
    note d2 = delta_trans [OF d delta_count [OF delta_ok [OF d] u(2)]]
    show ?thesis using 1 p d d2 by (auto simp: process_gtpu_def outcome_ok_def Let_def)
  next
    case 2
    let ?c = "?ev\<lparr>ev_flags := ev_flags ?ev OR kFlagControlPdu, ev_bytes := 0\<rparr>"
    have "ev_flags ?c AND 8 \<noteq> 0" using gtpu_event_flags [of "in_cfg g" h ts w] by auto
    then show ?thesis
      using 2 p push [of "count_ig (\<lambda>s. s\<lparr>ig_gtpu_control := ig_gtpu_control s + 1\<rparr>) g" ?c]
      by (fastforce simp: process_gtpu_def outcome_ok_def count_ig_def Let_def)
  next
    case 3
    let ?g = "count_ig (\<lambda>s. s\<lparr>ig_gtpu_gpdus := ig_gtpu_gpdus s + 1\<rparr>) g"
    have "ingest_ok ?g" using assms by (simp add: ingest_ok_def count_ig_def)
    from gpdu_event_spec [OF this gtpu_event_flags, of h "in_cfg g" h ts w] obtain ev g1 where
      e: "gpdu_event h ?ev ?g = Some (ev, g1)" "ev_flags ev AND 8 = 0" "ingest_delta 0 [] 0 [] 0 ?g g1"
        "in_meter_ring g1 = in_meter_ring ?g" "in_gy_ring g1 = in_gy_ring ?g" by blast
    then show ?thesis
      using 3 p e push [of g1 ev]
      by (fastforce simp: process_gtpu_def outcome_ok_def count_ig_def ingest_delta_def Let_def)
  qed
qed

lemma diameter_loop_spec:
  assumes "ingest_ok g"
  shows "\<exists>res g' gys gylost. diameter_loop payload ts off yielded g = Some (res, g') \<and> ingest_delta 0 [] 0 gys gylost g g' \<and>
    outcome_ok space res [] 0 (if yielded then GyEvent_init # gys else gys)"
  using assms
proof (induction "length payload - off" arbitrary: off yielded g rule: less_induct)
  case less
  show ?case
  proof (cases "length payload < off + 20")
    case True
    then show ?thesis using delta_refl [OF less.prems]
      by (subst diameter_loop.simps) (fastforce simp: outcome_ok_def)
  next
    case False
    let ?rest = "drop off payload"
    obtain st hdr gy where p: "parse_diameter_gy ?rest GyMessage_init = Some (st, hdr, gy)" "gy_wf gy"
        "st = DiameterStatus_kOk \<Longrightarrow> 20 \<le> unat (dh_msg_length hdr) \<and> unat (dh_msg_length hdr) \<le> length ?rest"
      using parse_diameter_gy_result [of ?rest] by (auto simp: gy_wf_def Let_def split: option.splits)
    have sub: "subspan_from payload off = Some ?rest" using False by (simp add: subspan_from_in)
    show ?thesis
    proof (cases "st = DiameterStatus_kOk")
      case False
      have "uncounted (\<lambda>s. s\<lparr>ig_diameter_parse_errors := ig_diameter_parse_errors s + 1\<rparr>)" by (simp add: uncounted_def)
      from delta_count [OF less.prems this] show ?thesis
        using \<open>\<not> length payload < off + 20\<close> sub p(1) False
        by (subst diameter_loop.simps) (fastforce simp: outcome_ok_def)
    next
      case True
      let ?g = "count_ig (\<lambda>s. s\<lparr>ig_diameter_messages := ig_diameter_messages s + 1\<rparr>) g"
      have "uncounted (\<lambda>s. s\<lparr>ig_diameter_messages := ig_diameter_messages s + 1\<rparr>)" by (simp add: uncounted_def)
      note d = delta_count [OF less.prems this]
      obtain g1 gys gylost where e: "(if is_credit_control hdr then emit_gy_events gy ts ?g else Some (False, ?g)) = Some (gys \<noteq> [], g1)"
          "ingest_delta 0 [] 0 gys gylost ?g g1"
        using emit_gy_events_spec [OF delta_ok [OF d] p(2), of ts] delta_refl [OF delta_ok [OF d]] by (cases "is_credit_control hdr") fastforce+
      have n: "dh_msg_length hdr \<noteq> 0" using p(3) [OF True] by auto
      have lt: "length payload - (off + unat (dh_msg_length hdr)) < length payload - off"
        using p(3) [OF True] False by (intro diff_less_mono2) auto
      obtain res g2 gys2 gylost2 where r: "diameter_loop payload ts (off + unat (dh_msg_length hdr)) (gys \<noteq> [] \<or> yielded) g1 = Some (res, g2)"
          "ingest_delta 0 [] 0 gys2 gylost2 g1 g2"
          "outcome_ok space res [] 0 (if gys \<noteq> [] \<or> yielded then GyEvent_init # gys2 else gys2)"
        using less.hyps [OF lt delta_ok [OF e(2)], of "gys \<noteq> [] \<or> yielded"] by blast
      have "diameter_loop payload ts off yielded g = Some (res, g2)"
        using False sub p(1) True e(1) n r(1) by (subst diameter_loop.simps) (simp add: Let_def)
      moreover have "ingest_delta 0 [] 0 (gys @ gys2) (gylost + gylost2) g g2"
        using delta_trans [OF delta_trans [OF d e(2)] r(2)] by simp
      moreover have "outcome_ok space res [] 0 (if yielded then GyEvent_init # (gys @ gys2) else gys @ gys2)"
        using r(3) by (auto simp: outcome_ok_def split: FrameOutcome.splits if_splits)
      ultimately show ?thesis by blast
    qed
  qed
qed

lemma process_ip_spec:
  assumes "ingest_ok g"
  shows "\<exists>res g' evs lost gys gylost. process_ip pkt ts w g = Some (res, g') \<and> ingest_delta 0 evs lost gys gylost g g' \<and>
    outcome_ok (room (in_meter_ring g)) res evs lost gys"
proof -
  obtain p where p: "parse_ip pkt = Some p" using parse_ip_result by blast
  have quiet: "outcome_ok space kNotOurTraffic [] 0 []" for space by (simp add: outcome_ok_def)
  have u: "uncounted count_non_ip" "uncounted (\<lambda>s. s\<lparr>ig_not_gtpu_port := ig_not_gtpu_port s + 1\<rparr>)"
    by (simp_all add: uncounted_def count_non_ip_def)
  have d: "\<exists>res g' gys gylost. process_diameter (ip_l4_payload p) ts g = Some (res, g') \<and> ingest_delta 0 [] 0 gys gylost g g' \<and>
      outcome_ok (room (in_meter_ring g)) res [] 0 gys"
    using diameter_loop_spec [OF assms, of "ip_l4_payload p" ts 0 False "room (in_meter_ring g)"] delta_refl [OF assms] quiet
    by (auto simp: process_diameter_def)
  have g: "\<exists>res g' evs lost gys gylost. process_gtpu (ip_l4_payload p) ts w g = Some (res, g') \<and>
      ingest_delta 0 evs lost gys gylost g g' \<and> outcome_ok (room (in_meter_ring g)) res evs lost gys"
    using process_gtpu_spec [OF assms, of "ip_l4_payload p" ts w] by blast
  have q: "\<exists>res g' evs lost gys gylost. Some (kNotOurTraffic, count_ig f g) = Some (res, g') \<and>
      ingest_delta 0 evs lost gys gylost g g' \<and> outcome_ok (room (in_meter_ring g)) res evs lost gys" if "uncounted f" for f
    using delta_count [OF assms that] quiet by blast
  have if_some: "(c \<Longrightarrow> P x) \<Longrightarrow> (\<not> c \<Longrightarrow> P y) \<Longrightarrow> P (if c then x else y)" for c P and x y :: "(FrameOutcome \<times> Ingest) option"
    by simp
  show ?thesis
    unfolding process_ip_def p bind.bind_lunit Let_def
    by (rule if_some, rule q [OF u(1)], rule if_some, rule g, rule if_some) (use d q [OF u(2)] in blast)+
qed

lemma process_frame_spec:
  assumes "ingest_ok g"
  shows "\<exists>res g' evs lost gys gylost. process_frame frame ts g = Some (res, g') \<and>
    ingest_delta 1 evs lost gys gylost g g' \<and> outcome_ok (room (in_meter_ring g)) res evs lost gys"
proof -
  let ?g = "count_ig (\<lambda>s. s\<lparr>ig_frames := ig_frames s + 1, ig_frames_bytes := ig_frames_bytes s + of_nat (length frame)\<rparr>) g"
  have d: "ingest_delta 1 [] 0 [] 0 g ?g"
    using assms by (simp add: ingest_delta_def ingest_ok_def count_ig_def ring_grows_refl Let_def)
  have room: "in_meter_ring ?g = in_meter_ring g" by (simp add: count_ig_def)
  obtain e where e: "parse_ethernet frame = Some e" using parse_ethernet_result by blast
  show ?thesis
  proof (cases "eth_valid e")
    case False
    have "uncounted count_non_ip" by (simp add: uncounted_def count_non_ip_def)
    note d2 = delta_trans [OF d delta_count [OF delta_ok [OF d] this]]
    have "outcome_ok (room (in_meter_ring g)) kNotOurTraffic [] 0 []" by (simp add: outcome_ok_def)
    then show ?thesis using e False d2 by (auto simp: process_frame_def Let_def)
  next
    case True
    from process_ip_spec [OF delta_ok [OF d], of "eth_payload e" ts "of_nat (length frame)"]
    obtain res g' evs lost gys gylost where r: "process_ip (eth_payload e) ts (of_nat (length frame)) ?g = Some (res, g')"
        "ingest_delta 0 evs lost gys gylost ?g g'" "outcome_ok (room (in_meter_ring g)) res evs lost gys"
      unfolding room by blast
    have "process_frame frame ts g = Some (res, g')" using e True r(1) by (simp add: process_frame_def Let_def)
    moreover have "ingest_delta 1 evs lost gys gylost g g'" using delta_trans [OF d r(2)] by simp
    ultimately show ?thesis using r(3) by blast
  qed
qed

text \<open>
  C10: No frame can break the ingest path, and the outcome says what became of it. On any bytes
  \<^verbatim>\<open>process_frame\<close> returns, keeps both rings sound and counts one frame. A metered frame put exactly
  one event into the metering ring, and not a control event; a GTP-U control frame exactly one
  control event that charges no bytes; a dropped frame means the metering ring was full, and nothing
  was pushed; a charging outcome means at least one charging event was taken; in every other
  outcome both rings are as they were. The counters move with the events pushed and dropped.
\<close>

theorem process_frame_outcome:
  assumes "ingest_ok g"
  shows "\<exists>res g' evs lost gys gylost. process_frame frame ts g = Some (res, g') \<and>
    ingest_delta 1 evs lost gys gylost g g' \<and> outcome_ok (room (in_meter_ring g)) res evs lost gys"
  using assms by (rule process_frame_spec)

theorem process_frame_outcome_witness:
  "\<exists>res g' evs lost gys gylost. process_frame [1, 2, 3] 9 (Ingest_new None None IngestConfig_init) = Some (res, g') \<and>
     ingest_delta 1 evs lost gys gylost (Ingest_new None None IngestConfig_init) g' \<and> outcome_ok True res evs lost gys"
proof -
  have "ingest_ok (Ingest_new None None IngestConfig_init)" by (simp add: ingest_ok_def Ingest_new_def ring_ok_def)
  from process_frame_outcome [OF this, of "[1, 2, 3]" 9] show ?thesis by (simp add: Ingest_new_def room_def)
qed

subsection \<open>Runs of the ingest path\<close>

text \<open>Frames come in, and at any point between them the metering thread takes events off the rings.\<close>

datatype ingest_op = Frame bytes u64 | TakeEvent | TakeGy

fun take_ring :: "'a ring option \<Rightarrow> ('a list \<times> 'a ring option) option" where
  "take_ring None = Some ([], None)"
| "take_ring (Some r) = do {
     (v, r) \<leftarrow> try_pop r;
     Some (case v of None \<Rightarrow> [] | Some x \<Rightarrow> [x], Some r) }"

fun ingest_step :: "ingest_op \<Rightarrow> Ingest \<Rightarrow> (MeterEvent list \<times> GyEvent list \<times> Ingest) option" where
  "ingest_step (Frame frame ts) g = do { (_, g) \<leftarrow> process_frame frame ts g; Some ([], [], g) }"
| "ingest_step TakeEvent g = do { (evs, r) \<leftarrow> take_ring (in_meter_ring g); Some (evs, [], g\<lparr>in_meter_ring := r\<rparr>) }"
| "ingest_step TakeGy g = do { (gys, r) \<leftarrow> take_ring (in_gy_ring g); Some ([], gys, g\<lparr>in_gy_ring := r\<rparr>) }"

fun ingest_run :: "ingest_op list \<Rightarrow> Ingest \<Rightarrow> (MeterEvent list \<times> GyEvent list \<times> Ingest) option" where
  "ingest_run [] g = Some ([], [], g)"
| "ingest_run (x # xs) g = do {
     (evs, gys, g) \<leftarrow> ingest_step x g;
     (evs', gys', g) \<leftarrow> ingest_run xs g;
     Some (evs @ evs', gys @ gys', g) }"

definition queued :: "'a ring option \<Rightarrow> 'a list" where
  "queued r = (case r of None \<Rightarrow> [] | Some q \<Rightarrow> ring_contents q)"

definition is_frame :: "ingest_op \<Rightarrow> bool" where
  "is_frame x \<longleftrightarrow> (case x of Frame _ _ \<Rightarrow> True | _ \<Rightarrow> False)"

text \<open>The balance of the counters after \<open>n\<close> frames, with \<open>evs\<close> and \<open>gys\<close> taken off the rings so far.\<close>

definition ingest_balance :: "nat \<Rightarrow> MeterEvent list \<Rightarrow> GyEvent list \<Rightarrow> Ingest \<Rightarrow> bool" where
  "ingest_balance n evs gys g \<longleftrightarrow> (let s = in_stats g in
     ig_frames s = of_nat n \<and>
     ig_events_pushed s = of_nat (length evs + length (queued (in_meter_ring g))) \<and>
     ig_gtpu_gpdus s + ig_gtpu_control s = ig_events_pushed s + ig_events_dropped s \<and>
     ig_gy_events s = of_nat (length gys + length (queued (in_gy_ring g))) + ig_gy_events_dropped s)"

definition ingest_wired :: "Ingest \<Rightarrow> bool" where
  "ingest_wired g \<longleftrightarrow> ingest_ok g \<and> in_meter_ring g \<noteq> None \<and> in_gy_ring g \<noteq> None"

lemma ring_grows_queued: "ring_grows r xs r' \<Longrightarrow> r \<noteq> None \<Longrightarrow> r' \<noteq> None \<and> queued r' = queued r @ xs"
  by (auto simp: ring_grows_def queued_def)

lemma balance_delta:
  assumes "ingest_balance n evs gys g" "ingest_wired g" "ingest_delta k new lost newgy gylost g g'"
  shows "ingest_balance (n + k) evs gys g' \<and> ingest_wired g'"
  using assms ring_grows_queued [of "in_meter_ring g" new "in_meter_ring g'"]
    ring_grows_queued [of "in_gy_ring g" newgy "in_gy_ring g'"] delta_ok [OF assms(3)]
  by (auto simp: ingest_balance_def ingest_wired_def ingest_delta_def Let_def algebra_simps)

lemma take_ring_spec:
  assumes "ring_ok r"
  shows "\<exists>xs r'. take_ring r = Some (xs, r') \<and> ring_ok r' \<and> (r' = None \<longleftrightarrow> r = None) \<and> queued r = xs @ queued r'"
proof (cases r)
  case (Some q)
  then show ?thesis
    using try_pop_spec [of q] assms by (cases "ring_contents q") (auto simp: ring_ok_def queued_def)
qed (simp add: ring_ok_def)

lemma ingest_run_balance:
  assumes "ingest_wired g" "ingest_balance n evs0 gys0 g"
  shows "\<exists>evs gys g'. ingest_run xs g = Some (evs, gys, g') \<and>
    ingest_balance (n + length (filter is_frame xs)) (evs0 @ evs) (gys0 @ gys) g' \<and> ingest_wired g'"
  using assms
proof (induction xs arbitrary: n evs0 gys0 g)
  case (Cons x xs)
  have ok: "ingest_ok g" using Cons.prems by (simp add: ingest_wired_def)
  have "\<exists>evs gys g1. ingest_step x g = Some (evs, gys, g1) \<and>
      ingest_balance (n + (if is_frame x then 1 else 0)) (evs0 @ evs) (gys0 @ gys) g1 \<and> ingest_wired g1"
  proof (cases x)
    case (Frame frame ts)
    then show ?thesis
      using process_frame_spec [OF ok, of frame ts] balance_delta [OF Cons.prems(2,1)] by (fastforce simp: is_frame_def)
  next
    case TakeEvent
    then show ?thesis
      using take_ring_spec [of "in_meter_ring g"] Cons.prems ok
      by (auto simp: is_frame_def ingest_balance_def ingest_wired_def ingest_ok_def Let_def)
  next
    case TakeGy
    then show ?thesis
      using take_ring_spec [of "in_gy_ring g"] Cons.prems ok
      by (auto simp: is_frame_def ingest_balance_def ingest_wired_def ingest_ok_def Let_def)
  qed
  then obtain evs gys g1 where s: "ingest_step x g = Some (evs, gys, g1)"
      "ingest_balance (n + (if is_frame x then 1 else 0)) (evs0 @ evs) (gys0 @ gys) g1" "ingest_wired g1" by blast
  from Cons.IH [OF s(3,2)] s(1) show ?case by (auto simp: add.assoc)
qed simp

text \<open>
  C13: The ingest path accounts for every event. After any sequence of frames, with the metering thread
  taking events off the rings at any points, the frames counted are the frames processed; every
  accepted GTP-U PDU is counted as pushed or dropped; the events pushed are those taken off the ring
  so far and those still in it; and the charging events counted are those taken, those still queued
  and those dropped.
\<close>

theorem ingest_accounts:
  assumes "SpscRing_new mcap d = Some mring" "mcap \<le> 2 ^ 63" "SpscRing_new gcap d' = Some gring" "gcap \<le> 2 ^ 63"
  shows "\<exists>evs gys g. ingest_run ops (Ingest_new (Some mring) (Some gring) cfg) = Some (evs, gys, g) \<and>
    ingest_balance (length (filter is_frame ops)) evs gys g"
proof -
  have "ring_inv mring" "ring_contents mring = []" "ring_inv gring" "ring_contents gring = []"
    using SpscRing_new_spec [OF assms(2), of d] SpscRing_new_spec [OF assms(4), of d'] assms(1,3) by auto
  then have "ingest_wired (Ingest_new (Some mring) (Some gring) cfg)"
      "ingest_balance 0 [] [] (Ingest_new (Some mring) (Some gring) cfg)"
    by (simp_all add: ingest_wired_def ingest_ok_def ring_ok_def Ingest_new_def ingest_balance_def queued_def IngestStats_init_def)
  from ingest_run_balance [OF this, of ops] show ?thesis by auto
qed

theorem ingest_accounts_witness:
  "\<exists>mring gring evs gys g. SpscRing_new 4 MeterEvent_init = Some mring \<and> SpscRing_new 2 GyEvent_init = Some gring \<and>
     ingest_run [Frame [] 1, TakeEvent, Frame [5] 2] (Ingest_new (Some mring) (Some gring) IngestConfig_init) = Some (evs, gys, g) \<and>
     ingest_balance 2 evs gys g"
proof -
  obtain mring :: "MeterEvent ring" and gring :: "GyEvent ring"
    where r: "SpscRing_new 4 MeterEvent_init = Some mring" "SpscRing_new 2 GyEvent_init = Some gring"
    using SpscRing_new_spec [of 4 MeterEvent_init] SpscRing_new_spec [of 2 GyEvent_init] by auto
  from ingest_accounts [OF r(1) _ r(2), of "[Frame [] 1, TakeEvent, Frame [5] 2]" IngestConfig_init] r show ?thesis
    by (simp add: is_frame_def numeral_2_eq_2 [symmetric] del: ingest_run.simps)
qed

end
