(* ===== verification/Text.thy ===== *)
theory Text
  imports Prelude
begin

text \<open>
  The parts of the C++ standard library's text handling the program uses: printing integers in
  decimal and hexadecimal (\<^verbatim>\<open>std::ostream\<close>, \<^verbatim>\<open>snprintf\<close>), and reading text piece by piece with
  \<^verbatim>\<open>std::getline\<close>. Text is a list of characters.
\<close>

subsection \<open>Digits\<close>

definition digit_char :: "nat \<Rightarrow> char" where
  "digit_char d = (if d < 10 then char_of (48 + d) else char_of (87 + d))"

fun digits_in :: "nat \<Rightarrow> nat \<Rightarrow> string" where
  "digits_in b n = (if b < 2 \<or> n < b then [digit_char n] else digits_in b (n div b) @ [digit_char (n mod b)])"

declare digits_in.simps [simp del]

definition show_dec :: "nat \<Rightarrow> string" where
  "show_dec n = digits_in 10 n"

definition show_hex :: "nat \<Rightarrow> string" where
  "show_hex n = digits_in 16 n"

lemma digits_in_small: "n < b \<Longrightarrow> digits_in b n = [digit_char n]"
  by (subst digits_in.simps) simp

lemma digits_in_step: "2 \<le> b \<Longrightarrow> b \<le> n \<Longrightarrow> digits_in b n = digits_in b (n div b) @ [digit_char (n mod b)]"
  by (subst digits_in.simps) simp

lemma digits_in_nonempty [simp]: "digits_in b n \<noteq> []"
  by (subst digits_in.simps) simp

lemma show_dec_nonempty [simp]: "show_dec n \<noteq> []"
  by (simp add: show_dec_def)

lemma of_char_digit: "d < 10 \<Longrightarrow> of_char (digit_char d) = 48 + d"
  by (simp add: digit_char_def)

lemma digits_dec_chars: "c \<in> set (digits_in 10 n) \<Longrightarrow> \<exists>d<10. c = digit_char d"
proof (induction n rule: less_induct)
  case (less n)
  show ?case
  proof (cases "n < 10")
    case True
    then show ?thesis using less.prems by (auto simp: digits_in_small)
  next
    case False
    then have "c \<in> set (digits_in 10 (n div 10)) \<or> c = digit_char (n mod 10)"
      using less.prems digits_in_step [of 10 n] by auto
    moreover have "n div 10 < n" "n mod 10 < 10" using False by simp_all
    ultimately show ?thesis using less.IH [of "n div 10"] by blast
  qed
qed

text \<open>Decimal digits are none of the characters that structure the text formats.\<close>

lemma show_dec_chars: "c \<in> set (show_dec n) \<Longrightarrow> of_char c \<in> {48..<58::nat}"
  using digits_dec_chars [of c n] of_char_digit by (auto simp: show_dec_def)

lemma length_digits_dec: "n < 10 ^ k \<Longrightarrow> length (digits_in 10 n) \<le> max 1 k"
proof (induction k arbitrary: n)
  case 0
  then show ?case by (simp add: digits_in_small)
next
  case (Suc k)
  show ?case
  proof (cases "n < 10")
    case True
    then show ?thesis by (simp add: digits_in_small)
  next
    case False
    moreover from this have "k \<noteq> 0" using Suc.prems by (cases k) auto
    moreover have "n div 10 < 10 ^ k" using Suc.prems by (simp add: less_mult_imp_div_less mult.commute)
    ultimately show ?thesis using Suc.IH [of "n div 10"] by (simp add: digits_in_step max_def)
  qed
qed

lemma length_show_dec: "n < 10 ^ k \<Longrightarrow> 0 < k \<Longrightarrow> length (show_dec n) \<le> k"
  using length_digits_dec [of n k] by (simp add: show_dec_def max_def split: if_splits)

lemma length_show_u64: "length (show_dec (unat (x :: u64))) \<le> 20"
  using unsigned_less [of x, where 'a=nat] by (intro length_show_dec) simp_all

lemma length_show_u32: "length (show_dec (unat (x :: u32))) \<le> 10"
  using unsigned_less [of x, where 'a=nat] by (intro length_show_dec) simp_all

subsection \<open>Pieces of a text\<close>

text \<open>
  Repeated \<^verbatim>\<open>std::getline\<close> with a delimiter: the pieces between delimiters, where nothing is read
  after a delimiter that ends the text.
\<close>

function getlines :: "char \<Rightarrow> string \<Rightarrow> string list" where
  "getlines d [] = []"
| "getlines d (c # cs) =
     takeWhile (\<lambda>x. x \<noteq> d) (c # cs) # getlines d (tl (dropWhile (\<lambda>x. x \<noteq> d) (c # cs)))"
  by pat_completeness auto

lemma length_tl_dropWhile: "length (tl (dropWhile P xs)) \<le> length xs - 1"
  using length_dropWhile_le [of P xs] by simp

termination getlines
proof (relation "measure (\<lambda>(d, s). length s)")
  show "((d, tl (dropWhile (\<lambda>x. x \<noteq> d) (c # cs))), d, c # cs) \<in> measure (\<lambda>(d, s). length s)" for d c cs
    using length_tl_dropWhile [of "\<lambda>x. x \<noteq> d" "c # cs"]
    by (simp del: dropWhile.simps length_tl)
qed simp

declare getlines.simps [simp del]

lemma getlines_Nil [simp]: "getlines d [] = []"
  by (simp add: getlines.simps)

lemma getlines_nonempty: "s \<noteq> [] \<Longrightarrow>
    getlines d s = takeWhile (\<lambda>x. x \<noteq> d) s # getlines d (tl (dropWhile (\<lambda>x. x \<noteq> d) s))"
  by (cases s) (simp_all only: getlines.simps, simp)

lemma takeWhile_dropWhile_absent:
  assumes "d \<notin> set l"
  shows "takeWhile (\<lambda>x. x \<noteq> d) l = l" "dropWhile (\<lambda>x. x \<noteq> d) l = []"
    and "takeWhile (\<lambda>x. x \<noteq> d) (l @ d # rest) = l" "dropWhile (\<lambda>x. x \<noteq> d) (l @ d # rest) = d # rest"
  using assms by (induction l) auto

lemma getlines_piece:
  assumes "d \<notin> set l"
  shows "getlines d (l @ d # rest) = l # getlines d rest"
  using getlines_nonempty [of "l @ d # rest" d, unfolded takeWhile_dropWhile_absent(3,4) [OF assms]] by simp

lemma getlines_last:
  assumes "d \<notin> set l"
  shows "getlines d l = (if l = [] then [] else [l])"
  using getlines_nonempty [of l d, unfolded takeWhile_dropWhile_absent(1,2) [OF assms]] by simp

end
