(* ===== verification/Session.thy ===== *)
theory Session
  imports Text
begin

text \<open>
  The session table loader, \<^verbatim>\<open>include/gtpm/session.hpp\<close>: one PDU session per row of a CSV file, rows
  that do not parse counted and skipped, and the writer of the same format. A file is its text;
  the text of a file that cannot be opened is \<^const>\<open>None\<close>.
\<close>

subsection \<open>Data\<close>

record SessionSpec =
  ss_imsi :: u64
  ss_ul_teid :: u32
  ss_dl_teid :: u32
  ss_rating_group :: u32
  ss_msisdn :: string
  ss_apn :: string

definition SessionSpec_init :: SessionSpec where
  "SessionSpec_init = \<lparr>ss_imsi = 0, ss_ul_teid = 0, ss_dl_teid = 0, ss_rating_group = 0, ss_msisdn = [], ss_apn = []\<rparr>"

definition session_valid :: "SessionSpec \<Rightarrow> bool" where
  "session_valid s \<longleftrightarrow> ss_imsi s \<noteq> 0 \<and> (ss_ul_teid s \<noteq> 0 \<or> ss_dl_teid s \<noteq> 0)"

record SessionLoadResult =
  sl_sessions :: "SessionSpec list"
  sl_skipped_lines :: u64
  sl_error :: string

definition SessionLoadResult_init :: SessionLoadResult where
  "SessionLoadResult_init = \<lparr>sl_sessions = [], sl_skipped_lines = 0, sl_error = []\<rparr>"

definition load_ok :: "SessionLoadResult \<Rightarrow> bool" where
  "load_ok r \<longleftrightarrow> sl_error r = []"

subsection \<open>Cells\<close>

definition is_blank :: "char \<Rightarrow> bool" where
  "is_blank c \<longleftrightarrow> c = CHR '' '' \<or> c = CHR 0x09 \<or> c = CHR 0x0D"

definition trim :: "string \<Rightarrow> string" where
  "trim s = rev (dropWhile is_blank (rev (dropWhile is_blank s)))"

definition parse_digit :: "nat \<Rightarrow> char \<Rightarrow> u64 option" where
  "parse_digit base ch = (let c = (of_char ch :: nat) in
     if 48 \<le> c \<and> c \<le> 57 then Some (of_nat (c - 48))
     else if base = 16 \<and> 97 \<le> c \<and> c \<le> 102 then Some (of_nat (c - 97 + 10))
     else if base = 16 \<and> 65 \<le> c \<and> c \<le> 70 then Some (of_nat (c - 65 + 10))
     else None)"

fun parse_digits :: "nat \<Rightarrow> u64 \<Rightarrow> string \<Rightarrow> u64 option" where
  "parse_digits base v [] = Some v"
| "parse_digits base v (c # cs) = (case parse_digit base c of
     None \<Rightarrow> None
   | Some digit \<Rightarrow> parse_digits base (v * of_nat base + digit) cs)"

definition parse_base :: "string \<Rightarrow> nat" where
  "parse_base s = (if 2 < length s \<and> s ! 0 = CHR ''0'' \<and> (s ! 1 = CHR ''x'' \<or> s ! 1 = CHR ''X'') then 16 else 10)"

definition parse_u64 :: "string \<Rightarrow> u64 option" where
  "parse_u64 s = (if s = [] then None
     else parse_digits (parse_base s) 0 (drop (if parse_base s = 16 then 2 else 0) s))"

subsection \<open>Rows and files\<close>

definition load_row :: "string list \<Rightarrow> SessionSpec option" where
  "load_row cols =
    (if length cols < 3 then None
     else case (parse_u64 (cols ! 0), parse_u64 (cols ! 1), parse_u64 (cols ! 2)) of
       (Some imsi, Some ul, Some dl) \<Rightarrow>
         if 0xFFFFFFFF < ul \<or> 0xFFFFFFFF < dl then None
         else
           let s = SessionSpec_init\<lparr>ss_imsi := imsi, ss_ul_teid := ucast ul, ss_dl_teid := ucast dl\<rparr>;
               s = (if 3 < length cols then
                      case parse_u64 (cols ! 3) of
                        Some rg \<Rightarrow> if rg \<le> 0xFFFFFFFF then s\<lparr>ss_rating_group := ucast rg\<rparr> else s
                      | None \<Rightarrow> s
                    else s);
               s = (if 4 < length cols then s\<lparr>ss_msisdn := cols ! 4\<rparr> else s);
               s = (if 5 < length cols then s\<lparr>ss_apn := cols ! 5\<rparr> else s)
           in if session_valid s then Some s else None
     | _ \<Rightarrow> None)"

definition load_line :: "SessionLoadResult \<Rightarrow> string \<Rightarrow> SessionLoadResult" where
  "load_line result line = (let trimmed = trim line in
     if trimmed = [] \<or> trimmed ! 0 = CHR ''#'' then result
     else if take 4 trimmed = ''imsi'' then result
     else case load_row (List.map trim (getlines CHR '','' trimmed)) of
       None \<Rightarrow> result\<lparr>sl_skipped_lines := sl_skipped_lines result + 1\<rparr>
     | Some s \<Rightarrow> result\<lparr>sl_sessions := sl_sessions result @ [s]\<rparr>)"

definition load_sessions_csv :: "string \<Rightarrow> string option \<Rightarrow> SessionLoadResult" where
  "load_sessions_csv path file = (case file of
     None \<Rightarrow> SessionLoadResult_init\<lparr>sl_error := ''cannot open session file: '' @ path\<rparr>
   | Some txt \<Rightarrow> fold (\<lambda>line r. load_line r line) (getlines CHR 0x0A txt) SessionLoadResult_init)"

definition session_row :: "SessionSpec \<Rightarrow> string" where
  "session_row s = show_dec (unat (ss_imsi s)) @ '','' @ show_dec (unat (ss_ul_teid s)) @ '','' @
     show_dec (unat (ss_dl_teid s)) @ '','' @ show_dec (unat (ss_rating_group s)) @ '','' @
     ss_msisdn s @ '','' @ ss_apn s @ [CHR 0x0A]"

definition write_sessions_csv :: "SessionSpec list \<Rightarrow> string" where
  "write_sessions_csv sessions =
     ''imsi,ul_teid,dl_teid,rating_group,msisdn,apn'' @ [CHR 0x0A] @ concat (List.map session_row sessions)"

subsection \<open>Numbers\<close>

lemma parse_digits_append:
  "parse_digits b v (xs @ ys) = (case parse_digits b v xs of None \<Rightarrow> None | Some w \<Rightarrow> parse_digits b w ys)"
  by (induction xs arbitrary: v) (simp_all split: option.split)

lemma parse_digit_dec: "d < 10 \<Longrightarrow> parse_digit b (digit_char d) = Some (of_nat d)"
  by (simp add: parse_digit_def of_char_digit)

lemma parse_digits_dec: "parse_digits 10 0 (digits_in 10 n) = Some (of_nat n)"
proof (induction n rule: less_induct)
  case (less n)
  show ?case
  proof (cases "n < 10")
    case True
    then show ?thesis by (simp add: digits_in_small parse_digit_dec)
  next
    case False
    then have "parse_digits 10 0 (digits_in 10 n) = Some (of_nat (n div 10) * 10 + of_nat (n mod 10))"
      using less.IH [of "n div 10"] by (simp add: digits_in_step parse_digits_append parse_digit_dec)
    moreover have "of_nat (n div 10) * 10 + of_nat (n mod 10) = (of_nat n :: u64)"
      using arg_cong [OF div_mult_mod_eq [of n 10], of "of_nat :: nat \<Rightarrow> u64"]
      by (simp only: of_nat_add of_nat_mult of_nat_numeral)
    ultimately show ?thesis by simp
  qed
qed

lemma show_dec_not: "of_char c \<notin> {48..<58::nat} \<Longrightarrow> c \<notin> set (show_dec n)"
  using show_dec_chars by blast

lemma parse_base_dec [simp]: "parse_base (show_dec n) = 10"
proof -
  have "2 < length (show_dec n) \<Longrightarrow> show_dec n ! 1 \<in> set (show_dec n)" by (rule nth_mem) simp
  then have "2 < length (show_dec n) \<Longrightarrow> of_char (show_dec n ! 1) \<in> {48..<58::nat}" using show_dec_chars by blast
  then show ?thesis by (auto simp: parse_base_def)
qed

lemma parse_u64_dec: "parse_u64 (show_dec n) = Some (of_nat n)"
  using parse_digits_dec [of n] by (simp add: parse_u64_def) (simp add: show_dec_def)

subsection \<open>Trimmed text\<close>

definition clean_text :: "string \<Rightarrow> bool" where
  "clean_text s \<longleftrightarrow> (s = [] \<or> \<not> is_blank (hd s) \<and> \<not> is_blank (last s)) \<and> CHR '','' \<notin> set s \<and> CHR 0x0A \<notin> set s"

lemma trim_id: "s = [] \<or> \<not> is_blank (hd s) \<and> \<not> is_blank (last s) \<Longrightarrow> trim s = s"
  by (cases "s = []") (simp_all add: trim_def dropWhile_eq_self_iff [THEN iffD2] hd_rev)

lemma trim_clean: "clean_text s \<Longrightarrow> trim s = s"
  by (simp add: clean_text_def trim_id)

lemma digit_not_blank: "of_char c \<in> {48..<58::nat} \<Longrightarrow> \<not> is_blank c"
  by (auto simp: is_blank_def)

lemma hd_show_dec: "of_char (hd (show_dec n)) \<in> {48..<58::nat}"
  by (rule show_dec_chars [OF hd_in_set [OF show_dec_nonempty]])

lemma last_show_dec: "of_char (last (show_dec n)) \<in> {48..<58::nat}"
  by (rule show_dec_chars [OF last_in_set [OF show_dec_nonempty]])

lemma trim_dec [simp]: "trim (show_dec n) = show_dec n"
  using digit_not_blank [OF hd_show_dec, of n] digit_not_blank [OF last_show_dec, of n] by (simp add: trim_id)

subsection \<open>The writer and the loader\<close>

definition row_text :: "SessionSpec \<Rightarrow> string" where
  "row_text s = show_dec (unat (ss_imsi s)) @ '','' @ show_dec (unat (ss_ul_teid s)) @ '','' @
     show_dec (unat (ss_dl_teid s)) @ '','' @ show_dec (unat (ss_rating_group s)) @ '','' @
     ss_msisdn s @ '','' @ ss_apn s"

definition printable_session :: "SessionSpec \<Rightarrow> bool" where
  "printable_session s \<longleftrightarrow> session_valid s \<and> clean_text (ss_msisdn s) \<and> clean_text (ss_apn s)"

lemma session_row_text: "session_row s = row_text s @ [CHR 0x0A]"
  by (simp add: session_row_def row_text_def)

lemma row_text_no_newline: "printable_session s \<Longrightarrow> CHR 0x0A \<notin> set (row_text s)"
  by (simp add: row_text_def printable_session_def clean_text_def show_dec_not)

lemma row_text_hd: "row_text s \<noteq> []" "hd (row_text s) = hd (show_dec (unat (ss_imsi s)))"
  by (simp_all add: row_text_def)

lemma row_text_trim:
  assumes "printable_session s"
  shows "trim (row_text s) = row_text s"
proof (rule trim_id, rule disjI2, rule conjI)
  show "\<not> is_blank (hd (row_text s))" using digit_not_blank [OF hd_show_dec] by (simp add: row_text_hd)
  have "last (row_text s) = (if ss_apn s = [] then CHR '','' else last (ss_apn s))"
    by (simp add: row_text_def)
  then show "\<not> is_blank (last (row_text s))"
    using assms by (auto simp: printable_session_def clean_text_def is_blank_def)
qed

lemma row_text_cells:
  assumes "printable_session s"
  shows "getlines CHR '','' (row_text s) =
    [show_dec (unat (ss_imsi s)), show_dec (unat (ss_ul_teid s)), show_dec (unat (ss_dl_teid s)),
     show_dec (unat (ss_rating_group s)), ss_msisdn s] @ (if ss_apn s = [] then [] else [ss_apn s])"
  using assms
  by (simp add: row_text_def getlines_piece getlines_last show_dec_not printable_session_def clean_text_def)

lemma teid_word_bounds: "\<not> 0xFFFFFFFF < (of_nat (unat (x::u32)) :: u64)" "ucast (of_nat (unat x) :: u64) = x"
proof -
  have "(of_nat (unat x) :: u64) = ucast x" by (simp add: unsigned_ucast_eq)
  moreover have "ucast x \<le> (0xFFFFFFFF :: u64)"
    using unsigned_less [of x, where 'a=nat] by (simp add: word_le_nat_alt unat_ucast_up)
  ultimately show "\<not> 0xFFFFFFFF < (of_nat (unat (x::u32)) :: u64)" "ucast (of_nat (unat x) :: u64) = x"
    by (simp_all add: not_less ucast_ucast_up)
qed

lemma load_row_text:
  assumes "printable_session s"
  shows "load_row (List.map trim (getlines CHR '','' (row_text s))) = Some s"
  using assms teid_word_bounds
  by (simp add: row_text_cells load_row_def parse_u64_dec trim_clean printable_session_def SessionSpec_init_def
      session_valid_def not_less)

lemma load_line_text:
  assumes "printable_session s"
  shows "load_line r (row_text s) = r\<lparr>sl_sessions := sl_sessions r @ [s]\<rparr>"
proof -
  have hd: "of_char (row_text s ! 0) \<in> {48..<58::nat}"
    using hd_show_dec [of "unat (ss_imsi s)"] row_text_hd [of s] by (simp add: hd_conv_nth)
  then have "row_text s ! 0 \<noteq> CHR ''#''" "row_text s ! 0 \<noteq> CHR ''i''" by auto
  moreover have "take 4 (row_text s) = ''imsi'' \<Longrightarrow> row_text s ! 0 = CHR ''i''"
    by (metis nth_Cons_0 nth_take zero_less_numeral)
  ultimately show ?thesis
    using row_text_hd [of s] load_row_text [OF assms]
    by (auto simp: load_line_def row_text_trim [OF assms] Let_def)
qed

lemma load_rows:
  "\<forall>s\<in>set ss. printable_session s \<Longrightarrow>
   fold (\<lambda>line r. load_line r line) (getlines CHR 0x0A (concat (List.map session_row ss))) r =
   r\<lparr>sl_sessions := sl_sessions r @ ss\<rparr>"
  by (induction ss arbitrary: r) (simp_all add: session_row_text getlines_piece row_text_no_newline load_line_text)

lemma header_line: "load_line r ''imsi,ul_teid,dl_teid,rating_group,msisdn,apn'' = r"
  by (simp add: load_line_def trim_def is_blank_def)

text \<open>
  C35: Round trip of the session table: loading the text that the writer produces for a list of
  valid sessions gives the same sessions in the same order, with no line skipped and no error. The
  two text columns must survive a CSV cell: no comma, no line break, no blank at either end.
\<close>

theorem load_write_sessions:
  assumes "\<forall>s\<in>set ss. session_valid s \<and> clean_text (ss_msisdn s) \<and> clean_text (ss_apn s)"
  shows "load_sessions_csv path (Some (write_sessions_csv ss)) = \<lparr>sl_sessions = ss, sl_skipped_lines = 0, sl_error = []\<rparr>"
proof -
  have "getlines CHR 0x0A (write_sessions_csv ss) =
      ''imsi,ul_teid,dl_teid,rating_group,msisdn,apn'' # getlines CHR 0x0A (concat (List.map session_row ss))"
    unfolding write_sessions_csv_def append_Cons append_Nil
    by (subst getlines_piece [of "CHR 0x0A" "''imsi,ul_teid,dl_teid,rating_group,msisdn,apn''", simplified]) simp
  then show ?thesis
    using assms by (simp add: load_sessions_csv_def header_line load_rows printable_session_def SessionLoadResult_init_def)
qed

definition session_sample :: SessionSpec where
  "session_sample = \<lparr>ss_imsi = 310150123456789, ss_ul_teid = 4096, ss_dl_teid = 8192, ss_rating_group = 7,
     ss_msisdn = ''15551234567'', ss_apn = ''internet''\<rparr>"

theorem load_write_sessions_witness:
  "load_sessions_csv ''s.csv'' (Some (write_sessions_csv [session_sample])) =
     \<lparr>sl_sessions = [session_sample], sl_skipped_lines = 0, sl_error = []\<rparr>"
  by (rule load_write_sessions)
    (simp add: session_sample_def session_valid_def clean_text_def is_blank_def)

subsection \<open>Accounting of lines\<close>

definition data_line :: "string \<Rightarrow> bool" where
  "data_line line \<longleftrightarrow> trim line \<noteq> [] \<and> trim line ! 0 \<noteq> CHR ''#'' \<and> take 4 (trim line) \<noteq> ''imsi''"

definition session_of_line :: "string \<Rightarrow> SessionSpec option" where
  "session_of_line line = load_row (List.map trim (getlines CHR '','' (trim line)))"

lemma load_line_data:
  "load_line r line = (if data_line line then
     (case session_of_line line of
        None \<Rightarrow> r\<lparr>sl_skipped_lines := sl_skipped_lines r + 1\<rparr>
      | Some s \<Rightarrow> r\<lparr>sl_sessions := sl_sessions r @ [s]\<rparr>) else r)"
  by (auto simp: load_line_def data_line_def session_of_line_def Let_def)

lemma load_lines:
  "fold (\<lambda>line r. load_line r line) ls r =
   r\<lparr>sl_sessions := sl_sessions r @ List.map_filter session_of_line (filter data_line ls),
     sl_skipped_lines := sl_skipped_lines r + of_nat (length (filter (\<lambda>l. session_of_line l = None) (filter data_line ls)))\<rparr>"
  by (induction ls arbitrary: r) (simp_all add: load_line_data map_filter_simps split: option.split)

lemma load_row_valid: "load_row cols = Some s \<Longrightarrow> session_valid s"
  by (auto simp: load_row_def Let_def split: if_splits option.splits)

text \<open>
  The loader accounts for every line of a readable file: blank lines, comments and header lines
  are passed over, every other line becomes exactly one session, in file order, or adds one to
  \<^verbatim>\<open>skipped_lines\<close>, and every session loaded is valid. A bad row never ends the load, and
  only a file that cannot be opened gives an error.
\<close>

theorem load_sessions_accounts:
  "load_sessions_csv path None = SessionLoadResult_init\<lparr>sl_error := ''cannot open session file: '' @ path\<rparr> \<and>
   (let data = filter data_line (getlines CHR 0x0A txt); r = load_sessions_csv path (Some txt) in
      load_ok r \<and>
      sl_sessions r = List.map_filter session_of_line data \<and>
      list_all session_valid (sl_sessions r) \<and>
      sl_skipped_lines r = of_nat (length data - length (sl_sessions r)))"
proof -
  have len: "length (List.map_filter f ls) + length (filter (\<lambda>l. f l = None) ls) = length ls"
    for f :: "string \<Rightarrow> SessionSpec option" and ls
    by (induction ls) (auto simp: map_filter_simps split: option.split)
  then have sk: "length (filter (\<lambda>l. f l = None) ls) = length ls - length (List.map_filter f ls)"
    for f :: "string \<Rightarrow> SessionSpec option" and ls
    using len [of f ls] by linarith
  have "list_all session_valid (List.map_filter session_of_line ls)" for ls
    by (induction ls) (auto simp: map_filter_simps session_of_line_def load_row_valid split: option.split)
  then show ?thesis
    unfolding load_sessions_csv_def option.case load_lines
    by (simp add: Let_def load_ok_def SessionLoadResult_init_def sk del: filter_filter)
qed

text \<open>
  A decimal number is read modulo \<^verbatim>\<open>2^64\<close>: the range check on the TEID columns comes after the
  accumulator has wrapped, so it does not see an out-of-range number that wraps into range.
\<close>

theorem load_row_wraps:
  assumes "of_nat imsi \<noteq> (0::u64)" "0 < t" "t < 2 ^ 32"
  shows "load_row [show_dec imsi, show_dec (2 ^ 64 + t), show_dec 0] =
    Some (SessionSpec_init\<lparr>ss_imsi := of_nat imsi, ss_ul_teid := of_nat t\<rparr>)"
proof -
  have "parse_u64 (show_dec (18446744073709551616 + t)) = Some (of_nat t)"
    using word_of_nat_eq_0_iff [where 'a=64, of "2 ^ 64"] by (simp add: parse_u64_dec)
  moreover have "(of_nat t :: u64) \<le> 0xFFFFFFFF" "(of_nat t :: u32) \<noteq> 0"
    using assms(2,3) by (simp_all add: word_le_nat_alt unat_of_nat_less word_of_nat_eq_0_iff nat_dvd_not_less)
  moreover have "ucast (of_nat t :: u64) = (of_nat t :: u32)"
    using assms(3) by (intro word_unat_eq_iff [THEN iffD2])
      (simp add: unat_of_nat_less unsigned_ucast_eq take_bit_nat_eq_self_iff)
  ultimately show ?thesis
    using assms(1) parse_u64_dec [of imsi] parse_u64_dec [of 0]
    by (simp add: load_row_def SessionSpec_init_def session_valid_def not_less)
qed

end
