(* ===== verification/Usage_Record.thy ===== *)
theory Usage_Record
  imports Text
begin

text \<open>
  Usage records, \<^verbatim>\<open>include/gtpm/usage_record.hpp\<close>, and the time stamp of
  \<^verbatim>\<open>include/gtpm/clock.hpp\<close> they are printed with. \<^verbatim>\<open>snprintf\<close> into a buffer of fixed size followed
  by \<^verbatim>\<open>append(buf, n)\<close> reads past the buffer when the text does not fit: the model is \<^const>\<open>None\<close> there.
\<close>

subsection \<open>Buckets and records\<close>

abbreviation (input) kBucketSlots :: nat where "kBucketSlots \<equiv> 3"
abbreviation (input) kAggregateSlot :: nat where "kAggregateSlot \<equiv> 2"
abbreviation (input) kQfiBucketTag :: u32 where "kQfiBucketTag \<equiv> 0x80000000"
abbreviation (input) kUnsetBucket :: u32 where "kUnsetBucket \<equiv> 0xFFFFFFFF"

datatype RecordReason = kInterval | kVolume | kRelease | kShutdown | kGyTrigger

primrec reason_code :: "RecordReason \<Rightarrow> u8" where
  "reason_code kInterval = 0"
| "reason_code kVolume = 1"
| "reason_code kRelease = 2"
| "reason_code kShutdown = 3"
| "reason_code kGyTrigger = 4"

definition reason_string :: "u8 \<Rightarrow> string" where
  "reason_string r = (if r = reason_code kInterval then ''interval''
     else if r = reason_code kVolume then ''volume''
     else if r = reason_code kRelease then ''release''
     else if r = reason_code kShutdown then ''shutdown''
     else if r = reason_code kGyTrigger then ''gy-trigger''
     else ''unknown'')"

record UsageRecord =
  ur_record_wall_ns :: u64
  ur_interval_start_ns :: u64
  ur_interval_end_ns :: u64
  ur_imsi :: u64
  ur_ul_bytes :: u64
  ur_dl_bytes :: u64
  ur_ul_packets :: u64
  ur_dl_packets :: u64
  ur_bucket_bytes :: "u64 list"
  ur_bucket_ids :: "u32 list"
  ur_subscriber_index :: u32
  ur_record_seq :: u32
  ur_reason :: u8
  ur_bucket_aggregated :: bool

definition UsageRecord_init :: UsageRecord where
  "UsageRecord_init = \<lparr>ur_record_wall_ns = 0, ur_interval_start_ns = 0, ur_interval_end_ns = 0, ur_imsi = 0,
     ur_ul_bytes = 0, ur_dl_bytes = 0, ur_ul_packets = 0, ur_dl_packets = 0, ur_bucket_bytes = [0, 0, 0],
     ur_bucket_ids = [kUnsetBucket, kUnsetBucket, kUnsetBucket], ur_subscriber_index = 0, ur_record_seq = 0,
     ur_reason = 0, ur_bucket_aggregated = False\<rparr>"

definition ur_total_bytes :: "UsageRecord \<Rightarrow> u64" where
  "ur_total_bytes r = ur_ul_bytes r + ur_dl_bytes r"

subsection \<open>Time stamps\<close>

text \<open>\<^verbatim>\<open>gmtime_r\<close>: the proleptic Gregorian calendar counted from 1970-01-01.\<close>

definition leap_year :: "nat \<Rightarrow> bool" where
  "leap_year y \<longleftrightarrow> 4 dvd y \<and> (\<not> 100 dvd y \<or> 400 dvd y)"

definition year_days :: "nat \<Rightarrow> nat" where
  "year_days y = (if leap_year y then 366 else 365)"

function civil_year :: "nat \<Rightarrow> nat \<Rightarrow> nat \<times> nat" where
  "civil_year y d = (if d < year_days y then (y, d) else civil_year (y + 1) (d - year_days y))"
  by pat_completeness auto

termination civil_year
  by (relation "measure snd") (auto simp: year_days_def split: if_splits)

declare civil_year.simps [simp del]

definition month_lengths :: "nat \<Rightarrow> nat list" where
  "month_lengths y = [31, if leap_year y then 29 else 28, 31, 30, 31, 30, 31, 31, 30, 31, 30, 31]"

fun civil_month :: "nat list \<Rightarrow> nat \<Rightarrow> nat \<Rightarrow> nat \<times> nat" where
  "civil_month [] m d = (m, d + 1)"
| "civil_month (l # ls) m d = (if d < l then (m, d + 1) else civil_month ls (m + 1) (d - l))"

definition pad_dec :: "nat \<Rightarrow> nat \<Rightarrow> string" where
  "pad_dec w n = replicate (w - length (show_dec n)) CHR ''0'' @ show_dec n"

definition format_rfc3339 :: "u64 \<Rightarrow> string" where
  "format_rfc3339 ns =
    (let secs = unat (ns div 1000000000);
         millis = unat ((ns mod 1000000000) div 1000000);
         (y, yd) = civil_year 1970 (secs div 86400);
         (m, d) = civil_month (month_lengths y) 1 yd;
         s = secs mod 86400
     in pad_dec 4 y @ ''-'' @ pad_dec 2 m @ ''-'' @ pad_dec 2 d @ ''T'' @
        pad_dec 2 (s div 3600) @ '':'' @ pad_dec 2 (s mod 3600 div 60) @ '':'' @ pad_dec 2 (s mod 60) @
        ''.'' @ pad_dec 3 millis @ ''Z'')"

subsection \<open>NDJSON\<close>

definition append_printed :: "nat \<Rightarrow> string \<Rightarrow> string \<Rightarrow> string option" where
  "append_printed cap out txt = (if length txt < cap then Some (out @ txt) else None)"

abbreviation quoted :: "string \<Rightarrow> string" where
  "quoted s \<equiv> CHR 0x22 # s @ [CHR 0x22]"

definition json_num :: "string \<Rightarrow> nat \<Rightarrow> string" where
  "json_num k n = quoted k @ '':'' @ show_dec n"

definition json_str :: "string \<Rightarrow> string \<Rightarrow> string" where
  "json_str k v = quoted k @ '':'' @ quoted v"

definition ndjson_head :: "UsageRecord \<Rightarrow> string" where
  "ndjson_head r =
     ''{'' @ json_str ''ts'' (format_rfc3339 (ur_record_wall_ns r)) @ '','' @
     json_str ''imsi'' (show_dec (unat (ur_imsi r))) @ '','' @
     json_num ''sub'' (unat (ur_subscriber_index r)) @ '','' @
     json_num ''seq'' (unat (ur_record_seq r)) @ '','' @
     json_str ''reason'' (reason_string (ur_reason r)) @ '','' @
     json_num ''ul_bytes'' (unat (ur_ul_bytes r)) @ '','' @
     json_num ''dl_bytes'' (unat (ur_dl_bytes r)) @ '','' @
     json_num ''ul_pkts'' (unat (ur_ul_packets r)) @ '','' @
     json_num ''dl_pkts'' (unat (ur_dl_packets r)) @ '','' @
     json_num ''interval_ns'' (unat (ur_interval_end_ns r - ur_interval_start_ns r)) @ '','' @
     quoted ''buckets'' @ '':[''"

definition ndjson_bucket :: "bool \<Rightarrow> u32 \<Rightarrow> u64 \<Rightarrow> bool \<Rightarrow> string" where
  "ndjson_bucket first bid bytes agg =
     (if first then [] else '','') @ ''{'' @
     json_str ''kind'' (if bid AND kQfiBucketTag \<noteq> 0 then ''qfi'' else ''rating-group'') @ '','' @
     json_num ''id'' (unat (bid AND NOT kQfiBucketTag)) @ '','' @
     json_num ''bytes'' (unat bytes) @ '','' @
     quoted ''aggregate'' @ '':'' @ (if agg then ''true'' else ''false'') @ ''}''"

fun ndjson_buckets :: "UsageRecord \<Rightarrow> nat list \<Rightarrow> bool \<Rightarrow> string \<Rightarrow> string option" where
  "ndjson_buckets r [] first out = Some out"
| "ndjson_buckets r (i # is) first out = do {
     bid \<leftarrow> at_index (ur_bucket_ids r) i;
     bytes \<leftarrow> at_index (ur_bucket_bytes r) i;
     if bid = kUnsetBucket \<and> bytes = 0 then ndjson_buckets r is first out
     else do {
       out \<leftarrow> append_printed 512 out (ndjson_bucket first bid bytes (i = kAggregateSlot \<and> ur_bucket_aggregated r));
       ndjson_buckets r is False out
     }
   }"

definition to_ndjson :: "UsageRecord \<Rightarrow> string option" where
  "to_ndjson r = do {
     out \<leftarrow> append_printed 512 [] (ndjson_head r);
     out \<leftarrow> ndjson_buckets r [0..<kBucketSlots] True out;
     Some (out @ '']}'')
   }"

subsection \<open>The calendar\<close>

lemma civil_year_sound:
  "civil_year y n = (y', d) \<Longrightarrow> y \<le> y' \<and> n = (\<Sum>i=y..<y'. year_days i) + d \<and> d < year_days y'"
proof (induction y n rule: civil_year.induct)
  case (1 y n)
  show ?case
  proof (cases "n < year_days y")
    case True
    then show ?thesis using "1.prems" by (simp add: civil_year.simps [of y n])
  next
    case False
    then have "y + 1 \<le> y' \<and> n - year_days y = (\<Sum>i=y+1..<y'. year_days i) + d \<and> d < year_days y'"
      using "1.IH" "1.prems" by (simp add: civil_year.simps [of y n])
    moreover from this have "(\<Sum>i=y..<y'. year_days i) = year_days y + (\<Sum>i=y+1..<y'. year_days i)"
      by (simp add: sum.atLeast_Suc_lessThan)
    ultimately show ?thesis using False by linarith
  qed
qed

lemma civil_year_bound: "civil_year y n = (y', d) \<Longrightarrow> 365 * (y' - y) \<le> n"
proof -
  assume "civil_year y n = (y', d)"
  then have "n = (\<Sum>i=y..<y'. year_days i) + d" using civil_year_sound by blast
  moreover have "(\<Sum>i=y..<y'. 365) \<le> (\<Sum>i=y..<y'. year_days i)" by (rule sum_mono) (simp add: year_days_def)
  ultimately show ?thesis by simp
qed

lemma civil_month_sound:
  "civil_month ls m n = (m', d) \<Longrightarrow> n < sum_list ls \<Longrightarrow>
     m \<le> m' \<and> m' - m < length ls \<and> 1 \<le> d \<and> d \<le> ls ! (m' - m) \<and> n = sum_list (take (m' - m) ls) + (d - 1)"
proof (induction ls m n rule: civil_month.induct)
  case (2 l ls m n)
  show ?case
  proof (cases "n < l")
    case False
    then have "m + 1 \<le> m' \<and> m' - (m + 1) < length ls \<and> 1 \<le> d \<and> d \<le> ls ! (m' - (m + 1)) \<and>
        n - l = sum_list (take (m' - (m + 1)) ls) + (d - 1)"
      by (intro "2.IH") (use "2.prems" in auto)
    then show ?thesis using False by (auto simp: nth_Cons' take_Cons')
  qed (use 2 in auto)
qed simp

lemma sum_month_lengths: "sum_list (month_lengths y) = year_days y"
  by (simp add: month_lengths_def year_days_def)

lemma length_pad_dec: "n < 10 ^ w \<Longrightarrow> 0 < w \<Longrightarrow> length (pad_dec w n) = w"
  using length_show_dec [of n w] by (simp add: pad_dec_def)

lemma format_rfc3339_fields:
  "\<exists>y m d. format_rfc3339 ns =
      pad_dec 4 y @ ''-'' @ pad_dec 2 m @ ''-'' @ pad_dec 2 d @ ''T'' @
      pad_dec 2 (unat (ns div 1000000000) mod 86400 div 3600) @ '':'' @
      pad_dec 2 (unat (ns div 1000000000) mod 3600 div 60) @ '':'' @
      pad_dec 2 (unat (ns div 1000000000) mod 60) @ ''.'' @ pad_dec 3 (unat (ns mod 1000000000 div 1000000)) @ ''Z'' \<and>
    length (format_rfc3339 ns) = 24 \<and>
    1970 \<le> y \<and> y < 10000 \<and> 1 \<le> m \<and> m \<le> 12 \<and> 1 \<le> d \<and> d \<le> month_lengths y ! (m - 1) \<and>
    unat (ns div 1000000000) div 86400 =
      (\<Sum>i=1970..<y. year_days i) + sum_list (take (m - 1) (month_lengths y)) + (d - 1)"
proof -
  define secs where "secs = unat (ns div 1000000000)"
  define ms where "ms = unat (ns mod 1000000000 div 1000000)"
  obtain y yd where yd: "civil_year 1970 (secs div 86400) = (y, yd)" by fastforce
  obtain m d where md: "civil_month (month_lengths y) 1 yd = (m, d)" by fastforce
  have "unat ns < 2 ^ 64" using unsigned_less [of ns, where 'a=nat] by simp
  then have secs: "secs < 18446744074" by (simp add: secs_def unat_div_distrib)
  have "ms = unat ns mod 1000000000 div 1000000" by (simp add: ms_def unat_div_distrib unat_mod_distrib)
  then have ms: "ms < 1000" by simp
  note Y = civil_year_sound [OF yd] civil_year_bound [OF yd]
  moreover have "secs div 86400 < 213504" using secs by (intro less_mult_imp_div_less) simp
  ultimately have y: "y < 10000" by linarith
  note M = civil_month_sound [OF md, unfolded sum_month_lengths]
  have m: "1 \<le> m" "m \<le> 12" "1 \<le> d" "d \<le> month_lengths y ! (m - 1)"
    using M Y(1) by (auto simp: month_lengths_def)
  have "month_lengths y ! (m - 1) \<le> 31"
    using m(1,2) by (auto simp: month_lengths_def nth_Cons' numeral_eq_Suc)
  then have d: "d < 100" using m(4) by simp
  have sm: "secs mod 86400 mod 3600 = secs mod 3600" "secs mod 86400 mod 60 = secs mod 60"
    by (simp_all add: mod_mod_cancel)
  have fmt: "format_rfc3339 ns =
      pad_dec 4 y @ ''-'' @ pad_dec 2 m @ ''-'' @ pad_dec 2 d @ ''T'' @
      pad_dec 2 (secs mod 86400 div 3600) @ '':'' @
      pad_dec 2 (secs mod 3600 div 60) @ '':'' @ pad_dec 2 (secs mod 60) @ ''.'' @ pad_dec 3 ms @ ''Z''"
    unfolding format_rfc3339_def Let_def secs_def [symmetric] ms_def [symmetric] yd md sm prod.case by (rule refl)
  moreover have "length (format_rfc3339 ns) = 24"
    using y m(2) d ms by (simp add: fmt length_pad_dec)
  moreover have "secs div 86400 = (\<Sum>i=1970..<y. year_days i) + sum_list (take (m - 1) (month_lengths y)) + (d - 1)"
    using M Y(1) by simp
  ultimately show ?thesis
    using y m Y(1) unfolding secs_def ms_def by blast
qed

text \<open>
  A time stamp is printed with exactly 24 characters, as RFC 3339 with milliseconds, and its
  date fields are the calendar date of the instant: the year, month and day are in range, and the
  days of the years since 1970, of the months before, and of the month add up to the days elapsed.
\<close>

theorem format_rfc3339_calendar:
  "\<exists>y m d. format_rfc3339 ns =
      pad_dec 4 y @ ''-'' @ pad_dec 2 m @ ''-'' @ pad_dec 2 d @ ''T'' @
      pad_dec 2 (unat (ns div 1000000000) mod 86400 div 3600) @ '':'' @
      pad_dec 2 (unat (ns div 1000000000) mod 3600 div 60) @ '':'' @
      pad_dec 2 (unat (ns div 1000000000) mod 60) @ ''.'' @ pad_dec 3 (unat (ns mod 1000000000 div 1000000)) @ ''Z'' \<and>
    length (format_rfc3339 ns) = 24 \<and>
    1970 \<le> y \<and> y < 10000 \<and> 1 \<le> m \<and> m \<le> 12 \<and> 1 \<le> d \<and> d \<le> month_lengths y ! (m - 1) \<and>
    unat (ns div 1000000000) div 86400 =
      (\<Sum>i=1970..<y. year_days i) + sum_list (take (m - 1) (month_lengths y)) + (d - 1)"
  by (rule format_rfc3339_fields)

subsection \<open>Printed records\<close>

lemma length_format_rfc3339 [simp]: "length (format_rfc3339 ns) = 24"
  using format_rfc3339_fields [of ns] by blast

lemma length_reason_string: "length (reason_string r) \<le> 10"
  by (simp add: reason_string_def)

lemma length_ndjson_head: "length (ndjson_head r) \<le> 320"
  using length_show_u64 [of "ur_imsi r"] length_show_u64 [of "ur_ul_bytes r"] length_show_u64 [of "ur_dl_bytes r"]
    length_show_u64 [of "ur_ul_packets r"] length_show_u64 [of "ur_dl_packets r"]
    length_show_u64 [of "ur_interval_end_ns r - ur_interval_start_ns r"]
    length_show_u32 [of "ur_subscriber_index r"] length_show_u32 [of "ur_record_seq r"]
    length_reason_string [of "ur_reason r"]
  by (simp add: ndjson_head_def json_num_def json_str_def)

lemma length_ndjson_bucket: "length (ndjson_bucket first bid bytes agg) \<le> 100"
  using length_show_u64 [of bytes] length_show_u32 [of "bid AND NOT kQfiBucketTag"]
  by (simp add: ndjson_bucket_def json_num_def json_str_def)

definition bucket_used :: "UsageRecord \<Rightarrow> nat \<Rightarrow> bool" where
  "bucket_used r i \<longleftrightarrow> \<not> (ur_bucket_ids r ! i = kUnsetBucket \<and> ur_bucket_bytes r ! i = 0)"

definition bucket_json :: "UsageRecord \<Rightarrow> bool \<Rightarrow> nat \<Rightarrow> string" where
  "bucket_json r first i = ndjson_bucket first (ur_bucket_ids r ! i) (ur_bucket_bytes r ! i)
     (i = kAggregateSlot \<and> ur_bucket_aggregated r)"

fun join_buckets :: "UsageRecord \<Rightarrow> bool \<Rightarrow> nat list \<Rightarrow> string" where
  "join_buckets r first [] = []"
| "join_buckets r first (i # is) = bucket_json r first i @ join_buckets r False is"

lemma ndjson_buckets_join:
  "\<forall>i\<in>set is. i < length (ur_bucket_ids r) \<and> i < length (ur_bucket_bytes r) \<Longrightarrow>
   ndjson_buckets r is first out = Some (out @ join_buckets r first (filter (bucket_used r) is))"
  by (induction "is" arbitrary: first out)
    (simp_all add: at_index_in append_printed_def bucket_used_def bucket_json_def
      le_less_trans [OF length_ndjson_bucket])

lemma length_join_buckets: "length (join_buckets r first is) \<le> 100 * length is"
proof (induction "is" arbitrary: first)
  case (Cons i "is")
  show ?case using Cons [of False] length_ndjson_bucket
    by (simp add: bucket_json_def add_mono)
qed simp

lemma to_ndjson_printed:
  assumes "length (ur_bucket_ids r) = kBucketSlots" "length (ur_bucket_bytes r) = kBucketSlots"
  shows "\<exists>out. to_ndjson r = Some out \<and> length out \<le> 622 \<and>
    out = ndjson_head r @ join_buckets r True (filter (bucket_used r) [0..<kBucketSlots]) @ '']}''"
proof -
  have "length (filter (bucket_used r) [0..<3]) \<le> length [0..<(3::nat)]" by (rule length_filter_le)
  then have "length (join_buckets r True (filter (bucket_used r) [0..<3])) \<le> 300"
    using length_join_buckets [of r True "filter (bucket_used r) [0..<3]"] by simp
  moreover have "ndjson_buckets r [0..<3] True out = Some (out @ join_buckets r True (filter (bucket_used r) [0..<3]))" for out
    by (rule ndjson_buckets_join) (simp add: assms)
  ultimately show ?thesis
    using length_ndjson_head [of r] by (simp add: to_ndjson_def append_printed_def del: upt_rec_numeral)
qed

text \<open>
  C36: Printing a record never overruns its 512-byte buffer: for every record with its three buckets
  \<^verbatim>\<open>to_ndjson\<close> returns, the line is the record's fields followed by one JSON object per bucket in
  use, in slot order, and it has at most 622 characters.
\<close>

theorem to_ndjson_fits:
  assumes "length (ur_bucket_ids r) = kBucketSlots" "length (ur_bucket_bytes r) = kBucketSlots"
  shows "\<exists>out. to_ndjson r = Some out \<and> length out \<le> 622 \<and>
    out = ndjson_head r @ join_buckets r True (filter (bucket_used r) [0..<kBucketSlots]) @ '']}''"
  using assms by (rule to_ndjson_printed)

definition record_sample :: UsageRecord where
  "record_sample = UsageRecord_init\<lparr>ur_imsi := 310150123456789, ur_ul_bytes := 0xFFFFFFFFFFFFFFFF,
     ur_bucket_ids := [7, kQfiBucketTag OR 9, kUnsetBucket], ur_bucket_bytes := [1, 0, 0]\<rparr>"

lemma record_sample_buckets:
  "length (ur_bucket_ids record_sample) = kBucketSlots" "length (ur_bucket_bytes record_sample) = kBucketSlots"
  "filter (bucket_used record_sample) [0..<kBucketSlots] = [0, 1]"
  by (simp_all add: record_sample_def UsageRecord_init_def bucket_used_def numeral_3_eq_3)

theorem to_ndjson_fits_witness:
  "\<exists>out. to_ndjson record_sample = Some out \<and> length out \<le> 622 \<and>
    out = ndjson_head record_sample @ join_buckets record_sample True [0, 1] @ '']}''"
  using to_ndjson_fits [OF record_sample_buckets(1,2)] unfolding record_sample_buckets(3) .

end
