(* ===== verification/Meter.thy ===== *)
theory Meter
  imports Spsc_Ring Flat_Hash Session Meter_Event Usage_Record
begin

text \<open>
  The metering engine, \<^verbatim>\<open>include/gtpm/meter.hpp\<close>: per-subscriber counters, the TEID table that binds
  tunnels to subscribers, the flow table, and the usage records it emits. Every operation returns
  \<^const>\<open>None\<close> where the code would read or write outside a vector, dereference a null pointer or not
  return. \<^verbatim>\<open>SIZE_MAX\<close> as a result is \<^const>\<open>None\<close> of the inner option. The wall clock is the function
  \<open>wall\<close>: \<open>wall i\<close> is the \<open>i\<close>-th reading, \<open>me_wall_reads\<close> counts the readings, and \<open>me_log\<close> is the history
  of the records emitted, each with whether it was delivered; both are additions of the model.
\<close>

subsection \<open>State\<close>

record SubscriberCounters =
  sc_ul_bytes :: u64
  sc_dl_bytes :: u64
  sc_ul_packets :: u64
  sc_dl_packets :: u64
  sc_bucket_bytes :: "u64 list"
  sc_last_seen_ns :: u64

definition SubscriberCounters_init :: SubscriberCounters where
  "SubscriberCounters_init = \<lparr>sc_ul_bytes = 0, sc_dl_bytes = 0, sc_ul_packets = 0, sc_dl_packets = 0,
     sc_bucket_bytes = [0, 0, 0], sc_last_seen_ns = 0\<rparr>"

definition sc_total_bytes :: "SubscriberCounters \<Rightarrow> u64" where
  "sc_total_bytes c = sc_ul_bytes c + sc_dl_bytes c"

definition sc_total_packets :: "SubscriberCounters \<Rightarrow> u64" where
  "sc_total_packets c = sc_ul_packets c + sc_dl_packets c"

record SubscriberInfo =
  si_imsi :: u64
  si_first_seen_ns :: u64
  si_interval_start_ns :: u64
  si_emitted_ul_bytes :: u64
  si_emitted_dl_bytes :: u64
  si_emitted_ul_packets :: u64
  si_emitted_dl_packets :: u64
  si_emitted_bucket_bytes :: "u64 list"
  si_gy_reported_octets :: u64
  si_gy_last_ns :: u64
  si_gy_reports :: u32
  si_bucket_ids :: "u32 list"
  si_record_seq :: u32
  si_default_rating_group :: u32
  si_ul_teid :: u32
  si_dl_teid :: u32
  si_active :: bool
  si_bucket_aggregated :: bool
  si_learned :: bool

definition SubscriberInfo_init :: SubscriberInfo where
  "SubscriberInfo_init = \<lparr>si_imsi = 0, si_first_seen_ns = 0, si_interval_start_ns = 0,
     si_emitted_ul_bytes = 0, si_emitted_dl_bytes = 0, si_emitted_ul_packets = 0, si_emitted_dl_packets = 0,
     si_emitted_bucket_bytes = [0, 0, 0], si_gy_reported_octets = 0, si_gy_last_ns = 0, si_gy_reports = 0,
     si_bucket_ids = [kUnsetBucket, kUnsetBucket, kUnsetBucket], si_record_seq = 0, si_default_rating_group = 0,
     si_ul_teid = 0, si_dl_teid = 0, si_active = False, si_bucket_aggregated = False, si_learned = False\<rparr>"

record TeidBinding =
  tb_sub_idx :: u32
  tb_dir :: u8
  tb_slot :: u8

definition TeidBinding_init :: TeidBinding where
  "TeidBinding_init = \<lparr>tb_sub_idx = 0, tb_dir = direction_code kUnknown, tb_slot = 0\<rparr>"

record FlowEntry =
  fl_key :: u64
  fl_bytes :: u64
  fl_packets :: u64
  fl_last_seen_ns :: u64
  fl_src_ip :: u32
  fl_dst_ip :: u32
  fl_sub_idx :: u32
  fl_teid :: u32
  fl_src_port :: u16
  fl_dst_port :: u16
  fl_proto :: u8
  fl_ip_version :: u8
  fl_qfi :: u8
  fl_dir :: u8

definition FlowEntry_init :: FlowEntry where
  "FlowEntry_init = \<lparr>fl_key = 0, fl_bytes = 0, fl_packets = 0, fl_last_seen_ns = 0, fl_src_ip = 0, fl_dst_ip = 0,
     fl_sub_idx = 0, fl_teid = 0, fl_src_port = 0, fl_dst_port = 0, fl_proto = 0, fl_ip_version = 0,
     fl_qfi = 0, fl_dir = 0\<rparr>"

record PipelineStats =
  st_events :: u64
  st_bytes :: u64
  st_ul_bytes :: u64
  st_dl_bytes :: u64
  st_ul_packets :: u64
  st_dl_packets :: u64
  st_control_pdus :: u64
  st_unknown_teid_events :: u64
  st_unknown_teid_bytes :: u64
  st_flows_active :: u64
  st_flow_inserts :: u64
  st_flow_evictions :: u64
  st_records_emitted :: u64
  st_records_dropped :: u64
  st_gy_events :: u64
  st_gy_reported_octets :: u64
  st_subscribers_installed :: u64
  st_teid_bind_failures :: u64
  st_subscribers_learned :: u64
  st_sessions_released :: u64
  st_last_event_ns :: u64

definition PipelineStats_init :: PipelineStats where
  "PipelineStats_init = \<lparr>st_events = 0, st_bytes = 0, st_ul_bytes = 0, st_dl_bytes = 0, st_ul_packets = 0,
     st_dl_packets = 0, st_control_pdus = 0, st_unknown_teid_events = 0, st_unknown_teid_bytes = 0,
     st_flows_active = 0, st_flow_inserts = 0, st_flow_evictions = 0, st_records_emitted = 0,
     st_records_dropped = 0, st_gy_events = 0, st_gy_reported_octets = 0, st_subscribers_installed = 0,
     st_teid_bind_failures = 0, st_subscribers_learned = 0, st_sessions_released = 0, st_last_event_ns = 0\<rparr>"

record MeterConfig =
  mc_max_subscribers :: nat
  mc_teid_table_capacity :: nat
  mc_flow_table_capacity :: nat
  mc_flow_probe_window :: nat
  mc_report_interval_ns :: u64
  mc_volume_threshold_bytes :: u64
  mc_sweep_period_ns :: u64
  mc_sweep_fraction :: nat
  mc_track_flows :: bool
  mc_learn_unknown_teids :: bool

definition MeterConfig_init :: MeterConfig where
  "MeterConfig_init = \<lparr>mc_max_subscribers = 1048576, mc_teid_table_capacity = 4194304,
     mc_flow_table_capacity = 1048576, mc_flow_probe_window = 8, mc_report_interval_ns = 10000000000,
     mc_volume_threshold_bytes = 104857600, mc_sweep_period_ns = 100000000, mc_sweep_fraction = 16,
     mc_track_flows = True, mc_learn_unknown_teids = False\<rparr>"

record MeterEngine =
  me_cfg :: MeterConfig
  me_counters :: "SubscriberCounters list"
  me_info :: "SubscriberInfo list"
  me_teid_map :: "TeidBinding flat"
  me_flows :: "FlowEntry list"
  me_flow_mask :: u64
  me_imsi_index :: "u64 \<Rightarrow> nat option"
  me_record_sink :: "UsageRecord ring option"
  me_stats :: PipelineStats
  me_next_sub :: nat
  me_sweep_cursor :: nat
  me_last_sweep_ns :: u64
  me_wall_reads :: nat
  me_log :: "(UsageRecord \<times> bool) list"

definition round_pow2 :: "nat \<Rightarrow> nat" where
  "round_pow2 v = (if v < 2 then 2 else if has_single_bit v then v else bit_ceil v)"

definition MeterEngine_new :: "MeterConfig \<Rightarrow> MeterEngine option" where
  "MeterEngine_new cfg = do {
     teid_map \<leftarrow> FlatHash_new (mc_teid_table_capacity cfg) TeidBinding_init;
     let nflows = (if mc_track_flows cfg then round_pow2 (mc_flow_table_capacity cfg) else 0);
     if nflows \<ge> 2 ^ 64 then None
     else Some \<lparr>me_cfg = cfg,
       me_counters = replicate (mc_max_subscribers cfg) SubscriberCounters_init,
       me_info = replicate (mc_max_subscribers cfg) SubscriberInfo_init,
       me_teid_map = teid_map,
       me_flows = replicate nflows FlowEntry_init,
       me_flow_mask = (if nflows = 0 then 0 else of_nat nflows - 1),
       me_imsi_index = Map.empty,
       me_record_sink = None,
       me_stats = PipelineStats_init,
       me_next_sub = 0, me_sweep_cursor = 0, me_last_sweep_ns = 0,
       me_wall_reads = 0, me_log = []\<rparr>
   }"

definition set_record_sink :: "MeterEngine \<Rightarrow> UsageRecord ring option \<Rightarrow> MeterEngine" where
  "set_record_sink e sink = e\<lparr>me_record_sink := sink\<rparr>"

subsection \<open>Access to the vectors\<close>

definition set_counters :: "nat \<Rightarrow> SubscriberCounters \<Rightarrow> MeterEngine \<Rightarrow> MeterEngine option" where
  "set_counters idx c e = do { cs \<leftarrow> store_at (me_counters e) idx c; Some (e\<lparr>me_counters := cs\<rparr>) }"

definition set_info :: "nat \<Rightarrow> SubscriberInfo \<Rightarrow> MeterEngine \<Rightarrow> MeterEngine option" where
  "set_info idx i e = do { is \<leftarrow> store_at (me_info e) idx i; Some (e\<lparr>me_info := is\<rparr>) }"

definition upd_stats :: "(PipelineStats \<Rightarrow> PipelineStats) \<Rightarrow> MeterEngine \<Rightarrow> MeterEngine" where
  "upd_stats f e = e\<lparr>me_stats := f (me_stats e)\<rparr>"

subsection \<open>Bindings and accounting slots\<close>

definition bind_teid :: "u32 \<Rightarrow> nat \<Rightarrow> u8 \<Rightarrow> u8 \<Rightarrow> MeterEngine \<Rightarrow> (bool \<times> MeterEngine) option" where
  "bind_teid teid sub_idx dir slot e = do {
     (ok, t) \<leftarrow> fh_insert (me_teid_map e) teid \<lparr>tb_sub_idx = of_nat sub_idx, tb_dir = dir, tb_slot = slot\<rparr>;
     let e = e\<lparr>me_teid_map := t\<rparr>;
     Some (if ok then (True, e)
           else (False, upd_stats (\<lambda>s. s\<lparr>st_teid_bind_failures := st_teid_bind_failures s + 1\<rparr>) e))
   }"

definition erase_teid :: "u32 \<Rightarrow> MeterEngine \<Rightarrow> MeterEngine option" where
  "erase_teid teid e = do { (_, t) \<leftarrow> fh_erase (me_teid_map e) teid; Some (e\<lparr>me_teid_map := t\<rparr>) }"

fun find_slot :: "u32 list \<Rightarrow> u32 \<Rightarrow> nat list \<Rightarrow> nat option" where
  "find_slot ids bid [] = None"
| "find_slot ids bid (i # is) = (if ids ! i = bid then Some i else find_slot ids bid is)"

definition assign_slot :: "SubscriberInfo \<Rightarrow> u32 \<Rightarrow> u8 \<times> SubscriberInfo" where
  "assign_slot info bucket_id =
    (case find_slot (si_bucket_ids info) bucket_id [0..<kBucketSlots] of
       Some i \<Rightarrow> (of_nat i, info)
     | None \<Rightarrow>
         (case find_slot (si_bucket_ids info) kUnsetBucket [0..<kAggregateSlot] of
            Some i \<Rightarrow> (of_nat i, info\<lparr>si_bucket_ids := (si_bucket_ids info)[i := bucket_id]\<rparr>)
          | None \<Rightarrow>
              (of_nat kAggregateSlot,
               if si_bucket_ids info ! kAggregateSlot = kUnsetBucket
               then info\<lparr>si_bucket_ids := (si_bucket_ids info)[kAggregateSlot := bucket_id]\<rparr>
               else if si_bucket_ids info ! kAggregateSlot \<noteq> bucket_id
               then info\<lparr>si_bucket_aggregated := True\<rparr>
               else info)))"

definition resolve_slot :: "SubscriberInfo \<Rightarrow> u32 \<Rightarrow> u8 \<times> SubscriberInfo" where
  "resolve_slot info bucket_id = assign_slot info bucket_id"

definition learned_info :: "MeterEvent \<Rightarrow> u8 \<times> SubscriberInfo" where
  "learned_info ev =
    (let info = SubscriberInfo_init\<lparr>si_active := True, si_learned := True, si_imsi := 0,
           si_first_seen_ns := ev_ts_ns ev, si_interval_start_ns := ev_ts_ns ev\<rparr>;
         (slot, info) = assign_slot info 0
     in (slot, if ev_dir ev = direction_code kDownlink then info\<lparr>si_dl_teid := ev_teid ev\<rparr>
               else info\<lparr>si_ul_teid := ev_teid ev\<rparr>))"

definition learn_teid :: "MeterEvent \<Rightarrow> MeterEngine \<Rightarrow> (TeidBinding option \<times> MeterEngine) option" where
  "learn_teid ev e =
    (if length (me_counters e) \<le> me_next_sub e then Some (None, e)
     else do {
       let idx = me_next_sub e;
       let e = e\<lparr>me_next_sub := me_next_sub e + 1\<rparr>;
       e \<leftarrow> set_counters idx SubscriberCounters_init e;
       let e = upd_stats (\<lambda>s. s\<lparr>st_subscribers_learned := st_subscribers_learned s + 1\<rparr>) e;
       let (slot, info) = learned_info ev;
       e \<leftarrow> set_info idx info e;
       (ok, e) \<leftarrow> bind_teid (ev_teid ev) idx (ev_dir ev) slot e;
       if \<not> ok then Some (None, e)
       else do {
         (r, t) \<leftarrow> fh_find (me_teid_map e) (ev_teid ev);
         let e = e\<lparr>me_teid_map := t\<rparr>;
         case r of None \<Rightarrow> Some (None, e)
         | Some ref \<Rightarrow> do { b \<leftarrow> fh_get t ref; Some (Some b, e) }
       }
     })"

subsection \<open>Flows\<close>

definition init_flow :: "MeterEvent \<Rightarrow> u32 \<Rightarrow> u8 \<Rightarrow> u64 \<Rightarrow> FlowEntry" where
  "init_flow ev sub dir key = \<lparr>fl_key = key, fl_bytes = ucast (ev_bytes ev), fl_packets = 1,
     fl_last_seen_ns = ev_ts_ns ev, fl_src_ip = ev_src_ip ev, fl_dst_ip = ev_dst_ip ev, fl_sub_idx = sub,
     fl_teid = ev_teid ev, fl_src_port = ev_src_port ev, fl_dst_port = ev_dst_port ev, fl_proto = ev_proto ev,
     fl_ip_version = ev_ip_version ev, fl_qfi = ev_qfi ev, fl_dir = dir\<rparr>"

definition flow_start :: "MeterEngine \<Rightarrow> u64 \<Rightarrow> u64" where
  "flow_start e key = (key XOR drop_bit 32 key) AND me_flow_mask e"

fun update_flow_loop :: "nat \<Rightarrow> MeterEvent \<Rightarrow> u32 \<Rightarrow> u8 \<Rightarrow> u64 \<Rightarrow> u64 \<Rightarrow> nat option \<Rightarrow> u64 \<Rightarrow> MeterEngine \<Rightarrow> MeterEngine option" where
  "update_flow_loop 0 ev sub dir key idx victim oldest e = do {
     v \<leftarrow> victim;
     let e = upd_stats (\<lambda>s. s\<lparr>st_flow_evictions := st_flow_evictions s + 1\<rparr>) e;
     fs \<leftarrow> store_at (me_flows e) v (init_flow ev sub dir key);
     Some (e\<lparr>me_flows := fs\<rparr>)
   }"
| "update_flow_loop (Suc left) ev sub dir key idx victim oldest e = do {
     f \<leftarrow> at_index (me_flows e) (unat idx);
     if fl_key f = key then do {
       fs \<leftarrow> store_at (me_flows e) (unat idx)
              (f\<lparr>fl_bytes := fl_bytes f + ucast (ev_bytes ev), fl_packets := fl_packets f + 1, fl_last_seen_ns := ev_ts_ns ev\<rparr>);
       Some (e\<lparr>me_flows := fs\<rparr>)
     }
     else if fl_key f = 0 then do {
       fs \<leftarrow> store_at (me_flows e) (unat idx) (init_flow ev sub dir key);
       Some (upd_stats (\<lambda>s. s\<lparr>st_flow_inserts := st_flow_inserts s + 1, st_flows_active := st_flows_active s + 1\<rparr>)
               (e\<lparr>me_flows := fs\<rparr>))
     }
     else if fl_last_seen_ns f < oldest then
       update_flow_loop left ev sub dir key ((idx + 1) AND me_flow_mask e) (Some (unat idx)) (fl_last_seen_ns f) e
     else
       update_flow_loop left ev sub dir key ((idx + 1) AND me_flow_mask e) victim oldest e
   }"

definition update_flow :: "MeterEvent \<Rightarrow> u32 \<Rightarrow> u8 \<Rightarrow> MeterEngine \<Rightarrow> MeterEngine option" where
  "update_flow ev sub dir e =
    (let key = (if ev_flow_key ev \<noteq> 0 then ev_flow_key ev else 1)
     in update_flow_loop (mc_flow_probe_window (me_cfg e)) ev sub dir key (flow_start e key) None 0xFFFFFFFFFFFFFFFF e)"

fun find_flow_loop :: "nat \<Rightarrow> u64 \<Rightarrow> u64 \<Rightarrow> MeterEngine \<Rightarrow> FlowEntry option option" where
  "find_flow_loop 0 k idx e = Some None"
| "find_flow_loop (Suc left) k idx e = do {
     f \<leftarrow> at_index (me_flows e) (unat idx);
     if fl_key f = k then Some (Some f)
     else if fl_key f = 0 then Some None
     else find_flow_loop left k ((idx + 1) AND me_flow_mask e) e
   }"

definition find_flow :: "MeterEngine \<Rightarrow> u64 \<Rightarrow> FlowEntry option option" where
  "find_flow e key =
    (if me_flows e = [] then Some None
     else let k = (if key \<noteq> 0 then key else 1)
          in find_flow_loop (mc_flow_probe_window (me_cfg e)) k (flow_start e k) e)"

subsection \<open>Records\<close>

definition make_record :: "u64 \<Rightarrow> nat \<Rightarrow> RecordReason \<Rightarrow> u64 \<Rightarrow> SubscriberCounters \<Rightarrow> SubscriberInfo \<Rightarrow> UsageRecord" where
  "make_record wall idx reason now_ns c info = \<lparr>ur_record_wall_ns = wall,
     ur_interval_start_ns = si_interval_start_ns info, ur_interval_end_ns = now_ns, ur_imsi = si_imsi info,
     ur_ul_bytes = sc_ul_bytes c - si_emitted_ul_bytes info, ur_dl_bytes = sc_dl_bytes c - si_emitted_dl_bytes info,
     ur_ul_packets = sc_ul_packets c - si_emitted_ul_packets info,
     ur_dl_packets = sc_dl_packets c - si_emitted_dl_packets info,
     ur_bucket_bytes = List.map (\<lambda>i. sc_bucket_bytes c ! i - si_emitted_bucket_bytes info ! i) [0..<kBucketSlots],
     ur_bucket_ids = List.map (\<lambda>i. si_bucket_ids info ! i) [0..<kBucketSlots],
     ur_subscriber_index = of_nat idx, ur_record_seq = si_record_seq info, ur_reason = reason_code reason,
     ur_bucket_aggregated = si_bucket_aggregated info\<rparr>"

definition mark_emitted :: "u64 \<Rightarrow> SubscriberCounters \<Rightarrow> SubscriberInfo \<Rightarrow> SubscriberInfo" where
  "mark_emitted now_ns c info = info\<lparr>si_record_seq := si_record_seq info + 1,
     si_emitted_ul_bytes := sc_ul_bytes c, si_emitted_dl_bytes := sc_dl_bytes c,
     si_emitted_ul_packets := sc_ul_packets c, si_emitted_dl_packets := sc_dl_packets c,
     si_emitted_bucket_bytes := List.map (\<lambda>i. sc_bucket_bytes c ! i) [0..<kBucketSlots],
     si_interval_start_ns := now_ns\<rparr>"

definition deliver :: "UsageRecord \<Rightarrow> MeterEngine \<Rightarrow> MeterEngine option" where
  "deliver r e = (case me_record_sink e of
     None \<Rightarrow> Some (upd_stats (\<lambda>s. s\<lparr>st_records_emitted := st_records_emitted s + 1\<rparr>) (e\<lparr>me_log := me_log e @ [(r, True)]\<rparr>))
   | Some sink \<Rightarrow> do {
       (ok, sink) \<leftarrow> try_push sink r;
       let e = e\<lparr>me_record_sink := Some sink, me_log := me_log e @ [(r, ok)]\<rparr>;
       Some (if ok then upd_stats (\<lambda>s. s\<lparr>st_records_emitted := st_records_emitted s + 1\<rparr>) e
             else upd_stats (\<lambda>s. s\<lparr>st_records_dropped := st_records_dropped s + 1\<rparr>) e)
     })"

definition emit_record :: "(nat \<Rightarrow> u64) \<Rightarrow> nat \<Rightarrow> RecordReason \<Rightarrow> u64 \<Rightarrow> MeterEngine \<Rightarrow> MeterEngine option" where
  "emit_record wall idx reason now_ns e = do {
     c \<leftarrow> at_index (me_counters e) idx;
     info \<leftarrow> at_index (me_info e) idx;
     let r = make_record (wall (me_wall_reads e)) idx reason now_ns c info;
     let e = e\<lparr>me_wall_reads := me_wall_reads e + 1\<rparr>;
     e \<leftarrow> set_info idx (mark_emitted now_ns c info) e;
     deliver r e
   }"

subsection \<open>Control plane\<close>

definition install_index :: "SessionSpec \<Rightarrow> MeterEngine \<Rightarrow> (nat \<times> MeterEngine) option" where
  "install_index spec e = (case me_imsi_index e (ss_imsi spec) of
     Some idx \<Rightarrow> Some (idx, e)
   | None \<Rightarrow>
       if length (me_counters e) \<le> me_next_sub e then None
       else Some (me_next_sub e,
         upd_stats (\<lambda>s. s\<lparr>st_subscribers_installed := st_subscribers_installed s + 1\<rparr>)
           (e\<lparr>me_next_sub := me_next_sub e + 1, me_imsi_index := (me_imsi_index e)(ss_imsi spec \<mapsto> me_next_sub e)\<rparr>)))"

definition open_session :: "SessionSpec \<Rightarrow> u64 \<Rightarrow> SubscriberInfo \<Rightarrow> SubscriberInfo" where
  "open_session spec now_ns info =
    (let reinstall = si_active info;
         info = (if reinstall then info else SubscriberInfo_init);
         info = info\<lparr>si_imsi := ss_imsi spec, si_active := True\<rparr>;
         info = (if reinstall then info else info\<lparr>si_first_seen_ns := now_ns, si_interval_start_ns := now_ns\<rparr>)
     in info\<lparr>si_default_rating_group := ss_rating_group spec\<rparr>)"

definition unbind_moved :: "SessionSpec \<Rightarrow> SubscriberInfo \<Rightarrow> MeterEngine \<Rightarrow> MeterEngine option" where
  "unbind_moved spec info e = do {
     e \<leftarrow> (if si_ul_teid info \<noteq> 0 \<and> si_ul_teid info \<noteq> ss_ul_teid spec then erase_teid (si_ul_teid info) e else Some e);
     if si_dl_teid info \<noteq> 0 \<and> si_dl_teid info \<noteq> ss_dl_teid spec then erase_teid (si_dl_teid info) e else Some e
   }"

definition bind_session :: "SessionSpec \<Rightarrow> nat \<Rightarrow> u8 \<Rightarrow> MeterEngine \<Rightarrow> (nat option \<times> MeterEngine) option" where
  "bind_session spec idx slot e = do {
     (b1, e) \<leftarrow> (if ss_ul_teid spec \<noteq> 0 then bind_teid (ss_ul_teid spec) idx (direction_code kUplink) slot e
                 else Some (True, e));
     (b2, e) \<leftarrow> (if ss_dl_teid spec \<noteq> 0 then bind_teid (ss_dl_teid spec) idx (direction_code kDownlink) slot e
                 else Some (True, e));
     Some (if b1 \<and> b2 then Some idx else None, e)
   }"

definition install_session :: "SessionSpec \<Rightarrow> u64 \<Rightarrow> MeterEngine \<Rightarrow> (nat option \<times> MeterEngine) option" where
  "install_session spec now_ns e =
    (if \<not> session_valid spec then Some (None, e)
     else case install_index spec e of
       None \<Rightarrow> Some (None, e)
     | Some (idx, e) \<Rightarrow> do {
         info \<leftarrow> at_index (me_info e) idx;
         e \<leftarrow> (if si_active info then Some e else set_counters idx SubscriberCounters_init e);
         let info = open_session spec now_ns info;
         e \<leftarrow> unbind_moved spec info e;
         let info = info\<lparr>si_ul_teid := ss_ul_teid spec, si_dl_teid := ss_dl_teid spec\<rparr>;
         let (slot, info) = assign_slot info (ss_rating_group spec);
         e \<leftarrow> set_info idx info e;
         bind_session spec idx slot e
       })"

fun install_sessions :: "SessionSpec list \<Rightarrow> u64 \<Rightarrow> MeterEngine \<Rightarrow> (nat \<times> MeterEngine) option" where
  "install_sessions [] now_ns e = Some (0, e)"
| "install_sessions (s # ss) now_ns e = do {
     (r, e) \<leftarrow> install_session s now_ns e;
     (n, e) \<leftarrow> install_sessions ss now_ns e;
     Some ((if r \<noteq> None then 1 else 0) + n, e)
   }"

definition release_session :: "(nat \<Rightarrow> u64) \<Rightarrow> u64 \<Rightarrow> u64 \<Rightarrow> MeterEngine \<Rightarrow> (bool \<times> MeterEngine) option" where
  "release_session wall imsi now_ns e = (case me_imsi_index e imsi of
     None \<Rightarrow> Some (False, e)
   | Some idx \<Rightarrow> do {
       info \<leftarrow> at_index (me_info e) idx;
       if \<not> si_active info then Some (False, e)
       else do {
         e \<leftarrow> emit_record wall idx kRelease now_ns e;
         info \<leftarrow> at_index (me_info e) idx;
         e \<leftarrow> (if si_ul_teid info \<noteq> 0 then erase_teid (si_ul_teid info) e else Some e);
         e \<leftarrow> (if si_dl_teid info \<noteq> 0 then erase_teid (si_dl_teid info) e else Some e);
         e \<leftarrow> set_info idx (info\<lparr>si_active := False\<rparr>) e;
         Some (True, upd_stats (\<lambda>s. s\<lparr>st_sessions_released := st_sessions_released s + 1\<rparr>) e)
       }
     })"

subsection \<open>Data plane\<close>

definition count_event :: "MeterEvent \<Rightarrow> MeterEngine \<Rightarrow> MeterEngine" where
  "count_event ev = upd_stats (\<lambda>s. s\<lparr>st_events := st_events s + 1, st_bytes := st_bytes s + ucast (ev_bytes ev),
     st_last_event_ns := ev_ts_ns ev\<rparr>)"

definition count_unknown :: "MeterEvent \<Rightarrow> MeterEngine \<Rightarrow> MeterEngine" where
  "count_unknown ev = upd_stats (\<lambda>s. s\<lparr>st_unknown_teid_events := st_unknown_teid_events s + 1,
     st_unknown_teid_bytes := st_unknown_teid_bytes s + ucast (ev_bytes ev)\<rparr>)"

definition charge_direction :: "u8 \<Rightarrow> MeterEvent \<Rightarrow> SubscriberCounters \<Rightarrow> SubscriberCounters" where
  "charge_direction dir ev c =
    (if dir = direction_code kDownlink
     then c\<lparr>sc_dl_bytes := sc_dl_bytes c + ucast (ev_bytes ev), sc_dl_packets := sc_dl_packets c + 1\<rparr>
     else c\<lparr>sc_ul_bytes := sc_ul_bytes c + ucast (ev_bytes ev), sc_ul_packets := sc_ul_packets c + 1\<rparr>)"

definition count_direction :: "u8 \<Rightarrow> MeterEvent \<Rightarrow> PipelineStats \<Rightarrow> PipelineStats" where
  "count_direction dir ev s =
    (if dir = direction_code kDownlink
     then s\<lparr>st_dl_bytes := st_dl_bytes s + ucast (ev_bytes ev), st_dl_packets := st_dl_packets s + 1\<rparr>
     else s\<lparr>st_ul_bytes := st_ul_bytes s + ucast (ev_bytes ev), st_ul_packets := st_ul_packets s + 1\<rparr>)"

definition event_dir :: "MeterEvent \<Rightarrow> TeidBinding \<Rightarrow> u8" where
  "event_dir ev b = (if tb_dir b = direction_code kUnknown then ev_dir ev else tb_dir b)"

definition event_slot :: "MeterEvent \<Rightarrow> TeidBinding \<Rightarrow> MeterEngine \<Rightarrow> (u8 \<times> MeterEngine) option" where
  "event_slot ev b e = (if has_qfi ev then do {
       let sub = unat (tb_sub_idx b);
       info \<leftarrow> at_index (me_info e) sub;
       let (slot, info) = resolve_slot info (kQfiBucketTag OR ucast (ev_qfi ev));
       e \<leftarrow> set_info sub info e;
       Some (slot, e)
     } else Some (tb_slot b, e))"

definition charge :: "MeterEvent \<Rightarrow> TeidBinding \<Rightarrow> MeterEngine \<Rightarrow> MeterEngine option" where
  "charge ev binding e = do {
     let sub = unat (tb_sub_idx binding);
     c \<leftarrow> at_index (me_counters e) sub;
     let dir = event_dir ev binding;
     let c = charge_direction dir ev c;
     let e = upd_stats (count_direction dir ev) e;
     let c = c\<lparr>sc_last_seen_ns := ev_ts_ns ev\<rparr>;
     (slot, e) \<leftarrow> event_slot ev binding e;
     old \<leftarrow> at_index (sc_bucket_bytes c) (unat slot);
     let c = c\<lparr>sc_bucket_bytes := (sc_bucket_bytes c)[unat slot := old + ucast (ev_bytes ev)]\<rparr>;
     e \<leftarrow> set_counters sub c e;
     if me_flows e \<noteq> [] then update_flow ev (tb_sub_idx binding) dir e else Some e
   }"

definition apply_event :: "MeterEvent \<Rightarrow> MeterEngine \<Rightarrow> MeterEngine option" where
  "apply_event ev e =
    (let e = count_event ev e in
     if ev_flags ev AND kFlagControlPdu \<noteq> 0 then
       Some (upd_stats (\<lambda>s. s\<lparr>st_control_pdus := st_control_pdus s + 1\<rparr>) e)
     else do {
       (r, t) \<leftarrow> fh_find (me_teid_map e) (ev_teid ev);
       let e = e\<lparr>me_teid_map := t\<rparr>;
       case r of
         Some ref \<Rightarrow> do { b \<leftarrow> fh_get t ref; charge ev b e }
       | None \<Rightarrow>
           if \<not> mc_learn_unknown_teids (me_cfg e) then Some (count_unknown ev e)
           else do {
             (lb, e) \<leftarrow> learn_teid ev e;
             case lb of None \<Rightarrow> Some (count_unknown ev e)
             | Some b \<Rightarrow> charge ev b e
           }
     })"

definition apply_gy :: "GyEvent \<Rightarrow> MeterEngine \<Rightarrow> MeterEngine option" where
  "apply_gy ev e =
    (let e = upd_stats (\<lambda>s. s\<lparr>st_gy_events := st_gy_events s + 1\<rparr>) e in
     if \<not> gy_has_imsi ev \<or> \<not> gy_has_used ev then Some e
     else case me_imsi_index e (gy_imsi ev) of
       None \<Rightarrow> Some e
     | Some idx \<Rightarrow> do {
         info \<leftarrow> at_index (me_info e) idx;
         e \<leftarrow> set_info idx (info\<lparr>si_gy_reported_octets := si_gy_reported_octets info + gy_used_total_octets ev,
                si_gy_last_ns := gy_ts_ns ev, si_gy_reports := si_gy_reports info + 1\<rparr>) e;
         Some (upd_stats (\<lambda>s. s\<lparr>st_gy_reported_octets := st_gy_reported_octets s + gy_used_total_octets ev\<rparr>) e)
       })"

subsection \<open>Reporting timers\<close>

definition pending_bytes :: "SubscriberCounters \<Rightarrow> SubscriberInfo \<Rightarrow> u64" where
  "pending_bytes c info = (sc_ul_bytes c - si_emitted_ul_bytes info) + (sc_dl_bytes c - si_emitted_dl_bytes info)"

definition poll_one :: "(nat \<Rightarrow> u64) \<Rightarrow> u64 \<Rightarrow> nat \<Rightarrow> MeterEngine \<Rightarrow> MeterEngine option" where
  "poll_one wall now_ns idx e = do {
     info \<leftarrow> at_index (me_info e) idx;
     if \<not> si_active info then Some e
     else do {
       c \<leftarrow> at_index (me_counters e) idx;
       let pending = pending_bytes c info;
       if pending = 0 then Some e
       else if mc_volume_threshold_bytes (me_cfg e) \<noteq> 0 \<and> mc_volume_threshold_bytes (me_cfg e) \<le> pending
       then emit_record wall idx kVolume now_ns e
       else if mc_report_interval_ns (me_cfg e) \<noteq> 0 \<and>
               mc_report_interval_ns (me_cfg e) \<le> now_ns - si_interval_start_ns info
       then emit_record wall idx kInterval now_ns e
       else Some e
     }
   }"

fun poll_loop :: "(nat \<Rightarrow> u64) \<Rightarrow> u64 \<Rightarrow> nat \<Rightarrow> nat \<Rightarrow> MeterEngine \<Rightarrow> MeterEngine option" where
  "poll_loop wall now_ns live 0 e = Some e"
| "poll_loop wall now_ns live (Suc n) e = do {
     let idx = (if live \<le> me_sweep_cursor e then 0 else me_sweep_cursor e);
     e \<leftarrow> poll_one wall now_ns idx (e\<lparr>me_sweep_cursor := idx + 1\<rparr>);
     poll_loop wall now_ns live n e
   }"

definition sweep_chunk :: "MeterEngine \<Rightarrow> nat" where
  "sweep_chunk e = max 1 (me_next_sub e div max 1 (mc_sweep_fraction (me_cfg e)))"

definition poll :: "(nat \<Rightarrow> u64) \<Rightarrow> u64 \<Rightarrow> MeterEngine \<Rightarrow> MeterEngine option" where
  "poll wall now_ns e =
    (if now_ns - me_last_sweep_ns e < mc_sweep_period_ns (me_cfg e) then Some e
     else
       let e = e\<lparr>me_last_sweep_ns := now_ns\<rparr> in
       if me_next_sub e = 0 then Some e
       else poll_loop wall now_ns (me_next_sub e) (sweep_chunk e) e)"

fun drain_loop :: "(nat \<Rightarrow> u64) \<Rightarrow> u64 \<Rightarrow> nat list \<Rightarrow> MeterEngine \<Rightarrow> (nat \<times> MeterEngine) option" where
  "drain_loop wall now_ns [] e = Some (0, e)"
| "drain_loop wall now_ns (idx # is) e = do {
     info \<leftarrow> at_index (me_info e) idx;
     c \<leftarrow> at_index (me_counters e) idx;
     if \<not> si_active info \<or> sc_ul_bytes c = si_emitted_ul_bytes info \<and> sc_dl_bytes c = si_emitted_dl_bytes info
     then drain_loop wall now_ns is e
     else do {
       e \<leftarrow> emit_record wall idx kShutdown now_ns e;
       (n, e) \<leftarrow> drain_loop wall now_ns is e;
       Some (Suc n, e)
     }
   }"

definition drain :: "(nat \<Rightarrow> u64) \<Rightarrow> u64 \<Rightarrow> MeterEngine \<Rightarrow> (nat \<times> MeterEngine) option" where
  "drain wall now_ns e = drain_loop wall now_ns [0..<me_next_sub e] e"

subsection \<open>Read side\<close>

definition find_by_imsi :: "MeterEngine \<Rightarrow> u64 \<Rightarrow> nat option" where
  "find_by_imsi e imsi = me_imsi_index e imsi"

fun bubble_up :: "nat \<Rightarrow> FlowEntry list \<Rightarrow> FlowEntry list" where
  "bubble_up 0 out = out"
| "bubble_up (Suc i) out =
    (if fl_bytes (out ! i) < fl_bytes (out ! Suc i)
     then bubble_up i (out[Suc i := out ! i, i := out ! Suc i])
     else out)"

definition top_flow_step :: "(FlowEntry list \<Rightarrow> FlowEntry list) \<Rightarrow> nat \<Rightarrow> FlowEntry \<Rightarrow> FlowEntry list \<Rightarrow> FlowEntry list" where
  "top_flow_step srt n f out =
    (if fl_key f = 0 then out
     else if length out < n then
       (let out = out @ [f] in if length out = n then srt out else out)
     else if fl_bytes (last out) < fl_bytes f then bubble_up (length out - 1) (out[length out - 1 := f])
     else out)"

definition top_flows :: "(FlowEntry list \<Rightarrow> FlowEntry list) \<Rightarrow> MeterEngine \<Rightarrow> nat \<Rightarrow> FlowEntry list" where
  "top_flows srt e n =
    (if me_flows e = [] \<or> n = 0 then []
     else let out = fold (top_flow_step srt n) (me_flows e) []
          in if length out < n then srt out else out)"

record GyDelta =
  gd_imsi :: u64
  gd_metered_octets :: u64
  gd_reported_octets :: u64
  gd_difference :: int
  gd_reports :: u32

definition int64_range :: "int \<Rightarrow> bool" where
  "int64_range x \<longleftrightarrow> - (2 ^ 63) \<le> x \<and> x < 2 ^ 63"

fun gy_crosscheck_loop :: "MeterEngine \<Rightarrow> nat list \<Rightarrow> GyDelta list option" where
  "gy_crosscheck_loop e [] = Some []"
| "gy_crosscheck_loop e (idx # is) = do {
     info \<leftarrow> at_index (me_info e) idx;
     c \<leftarrow> at_index (me_counters e) idx;
     if \<not> si_active info \<or> si_gy_reports info = 0 then gy_crosscheck_loop e is
     else do {
       let metered = sc_total_bytes c;
       let d = sint metered - sint (si_gy_reported_octets info);
       if \<not> int64_range d then None
       else do {
         ds \<leftarrow> gy_crosscheck_loop e is;
         Some (\<lparr>gd_imsi = si_imsi info, gd_metered_octets = metered, gd_reported_octets = si_gy_reported_octets info,
                gd_difference = d, gd_reports = si_gy_reports info\<rparr> # ds)
       }
     }
   }"

definition gy_crosscheck :: "MeterEngine \<Rightarrow> GyDelta list option" where
  "gy_crosscheck e = gy_crosscheck_loop e [0..<me_next_sub e]"

end
