(* ===== verification/Meter_Invariant.thy ===== *)
theory Meter_Invariant
  imports Meter
begin

text \<open>
  The well-formedness invariant of the metering engine and the exact effect of every operation on a
  well-formed engine. On a well-formed engine no operation reads or writes out of range, follows a
  null pointer or fails to return, and the result is well formed again.
\<close>

subsection \<open>The invariant\<close>

definition wf_counters :: "SubscriberCounters \<Rightarrow> bool" where
  "wf_counters c \<longleftrightarrow> length (sc_bucket_bytes c) = kBucketSlots"

definition wf_info :: "SubscriberInfo \<Rightarrow> bool" where
  "wf_info i \<longleftrightarrow> length (si_bucket_ids i) = kBucketSlots \<and> length (si_emitted_bucket_bytes i) = kBucketSlots"

definition wf_sizes :: "MeterEngine \<Rightarrow> bool" where
  "wf_sizes e \<longleftrightarrow> length (me_counters e) = mc_max_subscribers (me_cfg e) \<and>
     length (me_info e) = mc_max_subscribers (me_cfg e) \<and> mc_max_subscribers (me_cfg e) \<le> 2 ^ 32 \<and>
     me_next_sub e \<le> mc_max_subscribers (me_cfg e) \<and>
     list_all wf_counters (me_counters e) \<and> list_all wf_info (me_info e)"

definition wf_index :: "(u64 \<Rightarrow> nat option) \<Rightarrow> nat \<Rightarrow> SubscriberInfo list \<Rightarrow> bool" where
  "wf_index ix next infos \<longleftrightarrow>
     (\<forall>i. next \<le> i \<and> i < length infos \<longrightarrow> \<not> si_active (infos ! i)) \<and>
     (\<forall>imsi i. ix imsi = Some i \<longrightarrow> i < next \<and> si_imsi (infos ! i) = imsi \<and> \<not> si_learned (infos ! i))"

definition binding_ok :: "nat \<Rightarrow> SubscriberInfo list \<Rightarrow> u32 \<Rightarrow> TeidBinding \<Rightarrow> bool" where
  "binding_ok next infos teid b \<longleftrightarrow> unat (tb_sub_idx b) < next \<and> unat (tb_slot b) < kBucketSlots \<and>
     (let i = infos ! unat (tb_sub_idx b) in
        si_active i \<and> (teid = si_ul_teid i \<or> teid = si_dl_teid i) \<and> (teid = 0 \<longrightarrow> si_learned i))"

definition wf_bindings :: "(u32 \<Rightarrow> TeidBinding option) \<Rightarrow> nat \<Rightarrow> SubscriberInfo list \<Rightarrow> bool" where
  "wf_bindings m next infos \<longleftrightarrow> (\<forall>teid b. m teid = Some b \<longrightarrow> binding_ok next infos teid b)"

definition wf_table :: "nat \<Rightarrow> TeidBinding flat \<Rightarrow> bool" where
  "wf_table n t \<longleftrightarrow> fh_inv t \<and> 2 * n + 1 < fh_cap t"

definition flow_shape :: "nat \<Rightarrow> FlowEntry list \<Rightarrow> u64 \<Rightarrow> bool" where
  "flow_shape k fs m \<longleftrightarrow> k \<in> {1..63} \<and> length fs = 2 ^ k \<and> m = 2 ^ k - 1"

definition wf_flows :: "MeterEngine \<Rightarrow> bool" where
  "wf_flows e \<longleftrightarrow> me_flows e = [] \<or>
     (\<exists>k. flow_shape k (me_flows e) (me_flow_mask e)) \<and> 0 < mc_flow_probe_window (me_cfg e) \<and>
     list_all (\<lambda>f. fl_last_seen_ns f \<noteq> 0xFFFFFFFFFFFFFFFF) (me_flows e)"

definition wf_sink :: "UsageRecord ring option \<Rightarrow> bool" where
  "wf_sink s \<longleftrightarrow> (case s of None \<Rightarrow> True | Some r \<Rightarrow> ring_inv r)"

definition me_wf :: "MeterEngine \<Rightarrow> bool" where
  "me_wf e \<longleftrightarrow> wf_sizes e \<and> wf_index (me_imsi_index e) (me_next_sub e) (me_info e) \<and>
     wf_table (mc_max_subscribers (me_cfg e)) (me_teid_map e) \<and>
     wf_bindings (fh_map (me_teid_map e)) (me_next_sub e) (me_info e) \<and>
     wf_flows e \<and> wf_sink (me_record_sink e)"

lemmas wf_defs = me_wf_def wf_sizes_def wf_flows_def

lemma me_wf_ghost [simp]:
  "me_wf (upd_stats f e) = me_wf e"
  "me_wf (e\<lparr>me_log := l\<rparr>) = me_wf e"
  "me_wf (e\<lparr>me_wall_reads := n\<rparr>) = me_wf e"
  "me_wf (e\<lparr>me_sweep_cursor := n\<rparr>) = me_wf e"
  "me_wf (e\<lparr>me_last_sweep_ns := w\<rparr>) = me_wf e"
  "me_wf (e\<lparr>me_stats := s\<rparr>) = me_wf e"
  by (simp_all add: wf_defs upd_stats_def)

lemma upd_stats_simps [simp]:
  "me_cfg (upd_stats f e) = me_cfg e" "me_counters (upd_stats f e) = me_counters e"
  "me_info (upd_stats f e) = me_info e" "me_teid_map (upd_stats f e) = me_teid_map e"
  "me_flows (upd_stats f e) = me_flows e" "me_flow_mask (upd_stats f e) = me_flow_mask e"
  "me_imsi_index (upd_stats f e) = me_imsi_index e" "me_record_sink (upd_stats f e) = me_record_sink e"
  "me_stats (upd_stats f e) = f (me_stats e)" "me_next_sub (upd_stats f e) = me_next_sub e"
  "me_sweep_cursor (upd_stats f e) = me_sweep_cursor e" "me_last_sweep_ns (upd_stats f e) = me_last_sweep_ns e"
  "me_wall_reads (upd_stats f e) = me_wall_reads e" "me_log (upd_stats f e) = me_log e"
  by (simp_all add: upd_stats_def)

lemma wf_sizesD:
  assumes "wf_sizes e"
  shows "length (me_info e) = length (me_counters e)" "length (me_counters e) = mc_max_subscribers (me_cfg e)"
    "me_next_sub e \<le> length (me_counters e)" "length (me_counters e) \<le> 2 ^ 32"
    "i < length (me_counters e) \<Longrightarrow> wf_counters (me_counters e ! i)"
    "i < length (me_counters e) \<Longrightarrow> wf_info (me_info e ! i)"
  using assms by (simp_all add: wf_sizes_def list_all_length)

lemma wf_indexD:
  assumes "wf_index ix next infos"
  shows "next \<le> i \<Longrightarrow> i < length infos \<Longrightarrow> \<not> si_active (infos ! i)"
    "ix imsi = Some i \<Longrightarrow> i < next" "ix imsi = Some i \<Longrightarrow> si_imsi (infos ! i) = imsi"
    "ix imsi = Some i \<Longrightarrow> \<not> si_learned (infos ! i)"
  using assms by (simp_all add: wf_index_def)

lemma wf_indexI:
  assumes "\<And>i. next \<le> i \<Longrightarrow> i < length infos \<Longrightarrow> \<not> si_active (infos ! i)"
    "\<And>imsi i. ix imsi = Some i \<Longrightarrow> i < next \<and> si_imsi (infos ! i) = imsi \<and> \<not> si_learned (infos ! i)"
  shows "wf_index ix next infos"
  using assms unfolding wf_index_def by blast

lemma wf_bindings_card:
  assumes "wf_bindings m next infos"
  shows "card (dom m) \<le> 2 * next" "finite (dom m)"
proof -
  let ?U = "(\<lambda>i. si_ul_teid (infos ! i)) ` {..<next}" and ?D = "(\<lambda>i. si_dl_teid (infos ! i)) ` {..<next}"
  have "teid \<in> ?U \<union> ?D" if "m teid = Some b" for teid b
  proof -
    have "binding_ok next infos teid b" using assms that by (auto simp: wf_bindings_def)
    then have "unat (tb_sub_idx b) \<in> {..<next}"
      "teid = si_ul_teid (infos ! unat (tb_sub_idx b)) \<or> teid = si_dl_teid (infos ! unat (tb_sub_idx b))"
      by (auto simp: binding_ok_def Let_def)
    then show ?thesis by blast
  qed
  then have sub: "dom m \<subseteq> ?U \<union> ?D" by blast
  show "finite (dom m)" by (rule finite_subset [OF sub]) simp
  have "card (dom m) \<le> card (?U \<union> ?D)" by (rule card_mono [OF _ sub]) simp
  also have "\<dots> \<le> card ?U + card ?D" by (rule card_Un_le)
  also have "\<dots> \<le> next + next" using card_image_le [of "{..<next}"] by (intro add_mono) simp_all
  finally show "card (dom m) \<le> 2 * next" by simp
qed

lemma wf_bindings_slack:
  assumes "me_wf e"
  shows "card (dom (fh_map (me_teid_map e))) + 1 < fh_cap (me_teid_map e)" "finite (dom (fh_map (me_teid_map e)))"
  using assms wf_bindings_card [of "fh_map (me_teid_map e)" "me_next_sub e" "me_info e"]
  by (simp_all add: me_wf_def wf_sizes_def wf_table_def)

subsection \<open>Primitive steps\<close>

lemma set_info_in: "i < length (me_info e) \<Longrightarrow> set_info i x e = Some (e\<lparr>me_info := (me_info e)[i := x]\<rparr>)"
  by (simp add: set_info_def store_at_def)

lemma set_counters_in: "i < length (me_counters e) \<Longrightarrow> set_counters i x e = Some (e\<lparr>me_counters := (me_counters e)[i := x]\<rparr>)"
  by (simp add: set_counters_def store_at_def)

lemma bind_teid_spec:
  assumes "fh_inv (me_teid_map e)" "card (dom (fh_map (me_teid_map e))) < fh_cap (me_teid_map e)"
  shows "\<exists>t. bind_teid teid idx dir slot e = Some (True, e\<lparr>me_teid_map := t\<rparr>) \<and> fh_inv t \<and>
    fh_cap t = fh_cap (me_teid_map e) \<and>
    fh_map t = (fh_map (me_teid_map e))(teid \<mapsto> \<lparr>tb_sub_idx = of_nat idx, tb_dir = dir, tb_slot = slot\<rparr>)"
  using teid_map.ins_law [OF assms, of teid "\<lparr>tb_sub_idx = of_nat idx, tb_dir = dir, tb_slot = slot\<rparr>"]
  by (auto simp: bind_teid_def)

lemma erase_teid_spec:
  assumes "fh_inv (me_teid_map e)" "card (dom (fh_map (me_teid_map e))) < fh_cap (me_teid_map e)"
  shows "\<exists>t. erase_teid teid e = Some (e\<lparr>me_teid_map := t\<rparr>) \<and> fh_inv t \<and>
    fh_cap t = fh_cap (me_teid_map e) \<and> fh_map t = (fh_map (me_teid_map e))(teid := None)"
  using teid_map.del_law [OF assms, of teid] by (auto simp: erase_teid_def)

text \<open>A guarded erase, as the control plane uses it.\<close>

lemma erase_teid_if:
  assumes "fh_inv (me_teid_map e)" "finite (dom (fh_map (me_teid_map e)))"
    "card (dom (fh_map (me_teid_map e))) + 1 < fh_cap (me_teid_map e)"
  shows "\<exists>t. (if P then erase_teid teid e else Some e) = Some (e\<lparr>me_teid_map := t\<rparr>) \<and> fh_inv t \<and>
    fh_cap t = fh_cap (me_teid_map e) \<and>
    fh_map t = (if P then (fh_map (me_teid_map e))(teid := None) else fh_map (me_teid_map e)) \<and>
    finite (dom (fh_map t)) \<and> card (dom (fh_map t)) + 1 < fh_cap t"
proof (cases P)
  case True
  obtain t where t: "erase_teid teid e = Some (e\<lparr>me_teid_map := t\<rparr>)" "fh_inv t"
    "fh_cap t = fh_cap (me_teid_map e)" "fh_map t = (fh_map (me_teid_map e))(teid := None)"
    using erase_teid_spec [OF assms(1)] assms(3) by auto
  have "card (dom (fh_map t)) \<le> card (dom (fh_map (me_teid_map e)))"
    using assms(2) by (intro card_mono) (auto simp: t(4))
  then show ?thesis using True t assms(2,3) by (intro exI [of _ t]) simp
next
  case False
  then show ?thesis using assms by (intro exI [of _ "me_teid_map e"]) simp
qed

subsection \<open>Accounting slots\<close>

lemma find_slot_Some: "find_slot ids bid is = Some i \<Longrightarrow> i \<in> set is \<and> ids ! i = bid"
  by (induction "is") (auto split: if_splits)

lemma find_slot_None: "find_slot ids bid is = None \<Longrightarrow> \<forall>i\<in>set is. ids ! i \<noteq> bid"
  by (induction "is") (auto split: if_splits)

lemma assign_slot_cases:
  assumes "assign_slot info bid = (slot, info')"
  obtains ids agg where "unat slot < kBucketSlots"
    "info' = info\<lparr>si_bucket_ids := ids, si_bucket_aggregated := agg\<rparr>" "length ids = length (si_bucket_ids info)"
proof -
  have u: "i < 3 \<Longrightarrow> unat (of_nat i :: u8) < 3" for i by (simp add: unat_of_nat_less)
  have "find_slot (si_bucket_ids info) bid [0..<kBucketSlots] = Some i \<Longrightarrow> i < 3" for i
    using find_slot_Some by fastforce
  moreover have "find_slot (si_bucket_ids info) kUnsetBucket [0..<kAggregateSlot] = Some i \<Longrightarrow> i < 3" for i
    using find_slot_Some by fastforce
  ultimately show ?thesis
    using assms that [where ids = "si_bucket_ids info'" and agg = "si_bucket_aggregated info'"]
    by (auto simp: assign_slot_def u split: option.splits if_splits)
qed

lemma assign_slot_bound: "assign_slot info bid = (slot, info') \<Longrightarrow> unat slot < kBucketSlots"
  by (erule assign_slot_cases)

lemma assign_slot_info:
  assumes "assign_slot info bid = (slot, info')" "wf_info info"
  shows "wf_info info'" "si_active info' = si_active info" "si_imsi info' = si_imsi info"
    "si_learned info' = si_learned info" "si_ul_teid info' = si_ul_teid info" "si_dl_teid info' = si_dl_teid info"
  using assms by (auto elim!: assign_slot_cases simp: wf_info_def)

subsection \<open>Updates that keep the invariant\<close>

definition same_identity :: "SubscriberInfo \<Rightarrow> SubscriberInfo \<Rightarrow> bool" where
  "same_identity i j \<longleftrightarrow> si_active i = si_active j \<and> si_imsi i = si_imsi j \<and> si_learned i = si_learned j \<and>
     si_ul_teid i = si_ul_teid j \<and> si_dl_teid i = si_dl_teid j"

lemma same_identity_refl [simp]: "same_identity i i"
  by (simp add: same_identity_def)

lemma same_identity_update:
  assumes "same_identity j (infos ! i)"
  shows "same_identity (infos[i := j] ! k) (infos ! k)"
  using assms by (cases "i < length infos"; cases "i = k") (simp_all add: list_update_beyond)

lemma binding_ok_update:
  assumes "same_identity j (infos ! i)"
  shows "binding_ok next (infos[i := j]) teid b = binding_ok next infos teid b"
  using same_identity_update [OF assms, of "unat (tb_sub_idx b)"]
  by (simp add: binding_ok_def same_identity_def Let_def)

lemma wf_index_update:
  assumes "same_identity j (infos ! i)"
  shows "wf_index ix next (infos[i := j]) = wf_index ix next infos"
  using same_identity_update [OF assms] by (simp add: wf_index_def same_identity_def)

lemma me_wf_set_info:
  assumes "me_wf e" "wf_info j" "same_identity j (me_info e ! i)"
  shows "me_wf (e\<lparr>me_info := (me_info e)[i := j]\<rparr>)"
proof -
  have "list_all wf_info ((me_info e)[i := j])"
    using assms(1,2) by (auto simp: wf_defs list_all_iff dest!: set_update_subset_insert [THEN subsetD])
  moreover have "wf_index (me_imsi_index e) (me_next_sub e) ((me_info e)[i := j])"
    using assms(1) by (simp add: me_wf_def wf_index_update [OF assms(3)])
  moreover have "wf_bindings (fh_map (me_teid_map e)) (me_next_sub e) ((me_info e)[i := j])"
    using assms(1) by (simp add: me_wf_def wf_bindings_def binding_ok_update [OF assms(3)])
  ultimately show ?thesis using assms(1) by (simp add: wf_defs)
qed

lemma me_wf_set_counters:
  assumes "me_wf e" "wf_counters c"
  shows "me_wf (e\<lparr>me_counters := (me_counters e)[i := c]\<rparr>)"
proof -
  have "list_all wf_counters ((me_counters e)[i := c])"
    using assms by (auto simp: wf_defs list_all_iff dest!: set_update_subset_insert [THEN subsetD])
  then show ?thesis using assms(1) by (simp add: wf_defs)
qed

lemma me_wf_set_sink: "me_wf e \<Longrightarrow> wf_sink s \<Longrightarrow> me_wf (e\<lparr>me_record_sink := s\<rparr>)"
  by (simp add: wf_defs)

lemma me_wf_set_table:
  assumes "me_wf e" "fh_inv t" "fh_cap t = fh_cap (me_teid_map e)"
    "wf_bindings (fh_map t) (me_next_sub e) (me_info e)"
  shows "me_wf (e\<lparr>me_teid_map := t\<rparr>)"
  using assms by (simp add: wf_defs wf_table_def)

subsection \<open>Emission\<close>

definition sink_step :: "UsageRecord ring option \<Rightarrow> UsageRecord \<Rightarrow> bool \<Rightarrow> UsageRecord ring option \<Rightarrow> bool" where
  "sink_step s r ok s' \<longleftrightarrow> (case s of
     None \<Rightarrow> ok \<and> s' = None
   | Some q \<Rightarrow> ok = (length (ring_contents q) < ring_capacity q) \<and>
       (\<exists>q'. s' = Some q' \<and> ring_inv q' \<and> ring_capacity q' = ring_capacity q \<and>
          ring_contents q' = ring_contents q @ (if ok then [r] else [])))"

definition count_record :: "bool \<Rightarrow> PipelineStats \<Rightarrow> PipelineStats" where
  "count_record ok s = (if ok then s\<lparr>st_records_emitted := st_records_emitted s + 1\<rparr>
     else s\<lparr>st_records_dropped := st_records_dropped s + 1\<rparr>)"

definition next_record :: "(nat \<Rightarrow> u64) \<Rightarrow> nat \<Rightarrow> RecordReason \<Rightarrow> u64 \<Rightarrow> MeterEngine \<Rightarrow> UsageRecord" where
  "next_record wall idx reason now_ns e =
     make_record (wall (me_wall_reads e)) idx reason now_ns (me_counters e ! idx) (me_info e ! idx)"

definition emit_result :: "(nat \<Rightarrow> u64) \<Rightarrow> nat \<Rightarrow> RecordReason \<Rightarrow> u64 \<Rightarrow> bool \<Rightarrow> UsageRecord ring option \<Rightarrow> MeterEngine \<Rightarrow> MeterEngine" where
  "emit_result wall idx reason now_ns ok sink e =
     e\<lparr>me_wall_reads := me_wall_reads e + 1,
       me_info := (me_info e)[idx := mark_emitted now_ns (me_counters e ! idx) (me_info e ! idx)],
       me_record_sink := sink, me_log := me_log e @ [(next_record wall idx reason now_ns e, ok)],
       me_stats := count_record ok (me_stats e)\<rparr>"

lemma sink_step_wf: "sink_step s r ok s' \<Longrightarrow> wf_sink s'"
  by (auto simp: sink_step_def wf_sink_def split: option.splits)

lemma deliver_spec:
  assumes "wf_sink (me_record_sink e)"
  shows "\<exists>ok sink. deliver r e = Some (e\<lparr>me_record_sink := sink, me_log := me_log e @ [(r, ok)], me_stats := count_record ok (me_stats e)\<rparr>) \<and>
    sink_step (me_record_sink e) r ok sink"
proof (cases "me_record_sink e")
  case None
  then show ?thesis by (intro exI [of _ True] exI [of _ None])
    (simp add: deliver_def upd_stats_def sink_step_def count_record_def)
next
  case (Some q)
  then have "ring_inv q" using assms by (simp add: wf_sink_def)
  from try_push_spec [OF this, of r] obtain q' where
    "try_push q r = Some (length (ring_contents q) < ring_capacity q, q')" "ring_inv q'"
    "ring_capacity q' = ring_capacity q"
    "ring_contents q' = ring_contents q @ (if length (ring_contents q) < ring_capacity q then [r] else [])" by blast
  then show ?thesis using Some
    by (intro exI [of _ "length (ring_contents q) < ring_capacity q"] exI [of _ "Some q'"])
      (simp add: deliver_def upd_stats_def sink_step_def count_record_def)
qed

lemma mark_emitted_info:
  "wf_info i \<Longrightarrow> wf_info (mark_emitted now_ns c i)" "same_identity (mark_emitted now_ns c i) i"
  by (simp_all add: mark_emitted_def wf_info_def same_identity_def)

lemma emit_record_spec:
  assumes "me_wf e" "idx < length (me_counters e)"
  shows "\<exists>ok sink. emit_record wall idx reason now_ns e = Some (emit_result wall idx reason now_ns ok sink e) \<and>
    sink_step (me_record_sink e) (next_record wall idx reason now_ns e) ok sink \<and>
    me_wf (emit_result wall idx reason now_ns ok sink e)"
proof -
  let ?i = "mark_emitted now_ns (me_counters e ! idx) (me_info e ! idx)"
  let ?e = "e\<lparr>me_wall_reads := me_wall_reads e + 1, me_info := (me_info e)[idx := ?i]\<rparr>"
  have sizes: "wf_sizes e" "wf_sink (me_record_sink e)" using assms(1) by (simp_all add: me_wf_def)
  then have len: "idx < length (me_info e)" and wi: "wf_info (me_info e ! idx)"
    using assms(2) wf_sizesD [of e] by simp_all
  obtain ok sink where d: "deliver (next_record wall idx reason now_ns e) ?e =
      Some (?e\<lparr>me_record_sink := sink, me_log := me_log ?e @ [(next_record wall idx reason now_ns e, ok)],
        me_stats := count_record ok (me_stats ?e)\<rparr>)"
    "sink_step (me_record_sink e) (next_record wall idx reason now_ns e) ok sink"
    using deliver_spec [of ?e "next_record wall idx reason now_ns e"] sizes(2) by auto
  have "emit_record wall idx reason now_ns e = deliver (next_record wall idx reason now_ns e) ?e"
    using assms(2) len by (simp add: emit_record_def at_index_in set_info_in next_record_def)
  then have res: "emit_record wall idx reason now_ns e = Some (emit_result wall idx reason now_ns ok sink e)"
    using d(1) by (simp add: emit_result_def)
  have "me_wf (e\<lparr>me_info := (me_info e)[idx := ?i]\<rparr>)"
    by (rule me_wf_set_info [OF assms(1)]) (simp_all add: mark_emitted_info wi)
  then have "me_wf (emit_result wall idx reason now_ns ok sink e)"
    using sink_step_wf [OF d(2)] by (simp add: emit_result_def wf_defs)
  then show ?thesis using res d(2) by blast
qed

subsection \<open>Installation\<close>

definition new_binding :: "nat \<Rightarrow> Direction \<Rightarrow> u8 \<Rightarrow> TeidBinding" where
  "new_binding idx dir slot = \<lparr>tb_sub_idx = of_nat idx, tb_dir = direction_code dir, tb_slot = slot\<rparr>"

definition unbind :: "SessionSpec \<Rightarrow> SubscriberInfo \<Rightarrow> (u32 \<Rightarrow> TeidBinding option) \<Rightarrow> u32 \<Rightarrow> TeidBinding option" where
  "unbind spec info m =
    (let m = (if si_ul_teid info \<noteq> 0 \<and> si_ul_teid info \<noteq> ss_ul_teid spec then m(si_ul_teid info := None) else m)
     in if si_dl_teid info \<noteq> 0 \<and> si_dl_teid info \<noteq> ss_dl_teid spec then m(si_dl_teid info := None) else m)"

definition rebind :: "SessionSpec \<Rightarrow> nat \<Rightarrow> u8 \<Rightarrow> (u32 \<Rightarrow> TeidBinding option) \<Rightarrow> u32 \<Rightarrow> TeidBinding option" where
  "rebind spec idx slot m =
    (let m = (if ss_ul_teid spec \<noteq> 0 then m(ss_ul_teid spec \<mapsto> new_binding idx kUplink slot) else m)
     in if ss_dl_teid spec \<noteq> 0 then m(ss_dl_teid spec \<mapsto> new_binding idx kDownlink slot) else m)"

lemma unbind_SomeD:
  assumes "unbind spec info m teid = Some b"
  shows "m teid = Some b"
    and "teid = si_ul_teid info \<Longrightarrow> teid = 0 \<or> teid = ss_ul_teid spec"
    and "teid = si_dl_teid info \<Longrightarrow> teid = 0 \<or> teid = ss_dl_teid spec"
  using assms by (auto simp: unbind_def Let_def split: if_splits)

lemma rebind_SomeD:
  assumes "rebind spec idx slot m teid = Some b"
  obtains dir where "teid \<noteq> 0" "teid = ss_ul_teid spec \<or> teid = ss_dl_teid spec" "b = new_binding idx dir slot"
  | "m teid = Some b" "teid = ss_ul_teid spec \<Longrightarrow> teid = 0" "teid = ss_dl_teid spec \<Longrightarrow> teid = 0"
  using assms by (auto simp: rebind_def Let_def split: if_splits)

lemma unbind_spec:
  assumes "fh_inv (me_teid_map e)" "finite (dom (fh_map (me_teid_map e)))"
    "card (dom (fh_map (me_teid_map e))) + 1 < fh_cap (me_teid_map e)"
  shows "\<exists>t. unbind_moved spec info e = Some (e\<lparr>me_teid_map := t\<rparr>) \<and> fh_inv t \<and> fh_cap t = fh_cap (me_teid_map e) \<and>
    fh_map t = unbind spec info (fh_map (me_teid_map e)) \<and>
    finite (dom (fh_map t)) \<and> card (dom (fh_map t)) + 1 < fh_cap t"
proof -
  obtain t where t: "(if si_ul_teid info \<noteq> 0 \<and> si_ul_teid info \<noteq> ss_ul_teid spec then erase_teid (si_ul_teid info) e else Some e) =
      Some (e\<lparr>me_teid_map := t\<rparr>)" "fh_inv t" "fh_cap t = fh_cap (me_teid_map e)"
    "fh_map t = (if si_ul_teid info \<noteq> 0 \<and> si_ul_teid info \<noteq> ss_ul_teid spec
       then (fh_map (me_teid_map e))(si_ul_teid info := None) else fh_map (me_teid_map e))"
    "finite (dom (fh_map t))" "card (dom (fh_map t)) + 1 < fh_cap t"
    using erase_teid_if [OF assms] by blast
  let ?e = "e\<lparr>me_teid_map := t\<rparr>" and ?D = "si_dl_teid info \<noteq> 0 \<and> si_dl_teid info \<noteq> ss_dl_teid spec"
  have "fh_inv (me_teid_map ?e)" "finite (dom (fh_map (me_teid_map ?e)))"
    "card (dom (fh_map (me_teid_map ?e))) + 1 < fh_cap (me_teid_map ?e)" using t by simp_all
  from erase_teid_if [OF this, of ?D "si_dl_teid info"] obtain u where
    u: "(if ?D then erase_teid (si_dl_teid info) ?e else Some ?e) = Some (?e\<lparr>me_teid_map := u\<rparr>)" "fh_inv u"
      "fh_cap u = fh_cap (me_teid_map ?e)"
      "fh_map u = (if ?D then (fh_map (me_teid_map ?e))(si_dl_teid info := None) else fh_map (me_teid_map ?e))"
      "finite (dom (fh_map u))" "card (dom (fh_map u)) + 1 < fh_cap u" by blast
  have "fh_map u = unbind spec info (fh_map (me_teid_map e))" by (simp only: u(4) unbind_def Let_def t(4)) (simp add: t(4))
  then show ?thesis unfolding unbind_moved_def t(1) using u(1,2,3,5,6) t(3) by (intro exI [of _ u]) simp
qed

lemma bind_if:
  assumes "fh_inv (me_teid_map e)" "card (dom (fh_map (me_teid_map e))) < fh_cap (me_teid_map e)"
  shows "\<exists>t. (if P then bind_teid teid idx (direction_code dir) slot e else Some (True, e)) =
      Some (True, e\<lparr>me_teid_map := t\<rparr>) \<and> fh_inv t \<and> fh_cap t = fh_cap (me_teid_map e) \<and>
    fh_map t = (if P then (fh_map (me_teid_map e))(teid \<mapsto> new_binding idx dir slot) else fh_map (me_teid_map e))"
proof (cases P)
  case False
  then show ?thesis using assms by (intro exI [of _ "me_teid_map e"]) simp
qed (use bind_teid_spec [OF assms] in \<open>simp add: new_binding_def\<close>)

lemma rebind_spec:
  assumes "fh_inv (me_teid_map e)" "finite (dom (fh_map (me_teid_map e)))"
    "card (dom (fh_map (me_teid_map e))) + 1 < fh_cap (me_teid_map e)"
  shows "\<exists>t. bind_session spec idx slot e = Some (Some idx, e\<lparr>me_teid_map := t\<rparr>) \<and> fh_inv t \<and> fh_cap t = fh_cap (me_teid_map e) \<and>
    fh_map t = rebind spec idx slot (fh_map (me_teid_map e))"
proof -
  obtain t where t: "(if ss_ul_teid spec \<noteq> 0 then bind_teid (ss_ul_teid spec) idx (direction_code kUplink) slot e else Some (True, e)) =
      Some (True, e\<lparr>me_teid_map := t\<rparr>)" "fh_inv t" "fh_cap t = fh_cap (me_teid_map e)"
    "fh_map t = (if ss_ul_teid spec \<noteq> 0 then (fh_map (me_teid_map e))(ss_ul_teid spec \<mapsto> new_binding idx kUplink slot)
       else fh_map (me_teid_map e))"
    using bind_if [of e] assms by fastforce
  have "card (dom (fh_map t)) \<le> card (dom (fh_map (me_teid_map e))) + 1"
    using assms(2) by (simp add: t(4) card_insert_if)
  then have "card (dom (fh_map t)) < fh_cap t" using assms(3) t(3) by simp
  then show ?thesis
    unfolding bind_session_def t(1) using bind_if [of "e\<lparr>me_teid_map := t\<rparr>" "ss_dl_teid spec \<noteq> 0" "ss_dl_teid spec" idx kDownlink slot] t(2-)
    by (auto simp: rebind_def Let_def)
qed

text \<open>The engine after a session has been installed at index \<open>idx\<close> of the engine \<open>e1\<close>.\<close>

definition opened_info :: "SessionSpec \<Rightarrow> u64 \<Rightarrow> SubscriberInfo \<Rightarrow> u8 \<times> SubscriberInfo" where
  "opened_info spec now_ns info =
     assign_slot ((open_session spec now_ns info)\<lparr>si_ul_teid := ss_ul_teid spec, si_dl_teid := ss_dl_teid spec\<rparr>) (ss_rating_group spec)"

definition installed :: "SessionSpec \<Rightarrow> u64 \<Rightarrow> nat \<Rightarrow> TeidBinding flat \<Rightarrow> MeterEngine \<Rightarrow> MeterEngine" where
  "installed spec now_ns idx t e1 = e1\<lparr>
     me_counters := (if si_active (me_info e1 ! idx) then me_counters e1 else (me_counters e1)[idx := SubscriberCounters_init]),
     me_info := (me_info e1)[idx := snd (opened_info spec now_ns (me_info e1 ! idx))],
     me_teid_map := t\<rparr>"

lemma install_index_cases:
  assumes "install_index spec e = Some (idx, e1)"
  obtains "me_imsi_index e (ss_imsi spec) = Some idx" "e1 = e"
  | "me_imsi_index e (ss_imsi spec) = None" "idx = me_next_sub e" "idx < length (me_counters e)"
    "e1 = upd_stats (\<lambda>s. s\<lparr>st_subscribers_installed := st_subscribers_installed s + 1\<rparr>)
       (e\<lparr>me_next_sub := idx + 1, me_imsi_index := (me_imsi_index e)(ss_imsi spec \<mapsto> idx)\<rparr>)"
  using assms by (auto simp: install_index_def split: option.splits if_splits)

lemma install_index_frame:
  assumes "install_index spec e = Some (idx, e1)"
  shows "me_info e1 = me_info e" "me_counters e1 = me_counters e" "me_teid_map e1 = me_teid_map e"
    "me_cfg e1 = me_cfg e" "me_flows e1 = me_flows e" "me_flow_mask e1 = me_flow_mask e"
    "me_record_sink e1 = me_record_sink e" "me_log e1 = me_log e"
  using assms by (auto elim!: install_index_cases)

lemma install_index_bound:
  assumes "me_wf e" "install_index spec e = Some (idx, e1)"
  shows "idx < length (me_counters e)"
  using assms(2)
proof (cases rule: install_index_cases)
  case 1
  then show ?thesis using wf_indexD(2) [of _ _ _ "ss_imsi spec" idx] wf_sizesD(3) [of e] assms(1)
    by (fastforce simp: me_wf_def)
qed simp

lemma install_session_spec:
  assumes wf: "me_wf e" and v: "session_valid spec" and ix: "install_index spec e = Some (idx, e1)"
  shows "\<exists>t. install_session spec now_ns e = Some (Some idx, installed spec now_ns idx t e1) \<and> fh_inv t \<and>
    fh_cap t = fh_cap (me_teid_map e) \<and>
    fh_map t = rebind spec idx (fst (opened_info spec now_ns (me_info e ! idx)))
      (unbind spec (open_session spec now_ns (me_info e ! idx)) (fh_map (me_teid_map e)))"
proof -
  let ?info = "me_info e ! idx" and ?o = "opened_info spec now_ns (me_info e ! idx)"
  note fr = install_index_frame [OF ix]
  have idx: "idx < length (me_counters e)" by (rule install_index_bound [OF wf ix])
  have len: "length (me_info e) = length (me_counters e)" using wf by (simp add: me_wf_def wf_sizesD)
  let ?cs = "if si_active ?info then me_counters e else (me_counters e)[idx := SubscriberCounters_init]"
  define e2 where "e2 = e1\<lparr>me_counters := ?cs\<rparr>"
  have c: "(if si_active ?info then Some e1 else set_counters idx SubscriberCounters_init e1) = Some e2"
    using idx fr by (simp add: set_counters_in e2_def)
  have t2: "me_teid_map e2 = me_teid_map e" by (simp add: e2_def fr)
  have inv: "fh_inv (me_teid_map e)" using wf by (simp add: me_wf_def wf_table_def)
  obtain t where t: "unbind_moved spec (open_session spec now_ns ?info) e2 = Some (e2\<lparr>me_teid_map := t\<rparr>)" "fh_inv t"
    "fh_cap t = fh_cap (me_teid_map e)"
    "fh_map t = unbind spec (open_session spec now_ns ?info) (fh_map (me_teid_map e))"
    "finite (dom (fh_map t))" "card (dom (fh_map t)) + 1 < fh_cap t"
    using unbind_spec [of e2 spec "open_session spec now_ns ?info"] inv wf_bindings_slack [OF wf] by (auto simp: t2)
  define e3 where "e3 = e2\<lparr>me_teid_map := t, me_info := (me_info e)[idx := snd ?o]\<rparr>"
  obtain u where u: "bind_session spec idx (fst ?o) e3 = Some (Some idx, e3\<lparr>me_teid_map := u\<rparr>)" "fh_inv u"
    "fh_cap u = fh_cap (me_teid_map e)" "fh_map u = rebind spec idx (fst ?o) (fh_map t)"
    using rebind_spec [of e3 spec idx "fst ?o"] t(2,3,5,6) by (auto simp: e3_def)
  have s: "set_info idx (snd ?o) (e2\<lparr>me_teid_map := t\<rparr>) = Some e3"
    using idx len by (simp add: set_info_in e2_def e3_def fr)
  have "install_session spec now_ns e = bind_session spec idx (fst ?o) e3"
    using v ix idx len c t(1) s by (simp add: install_session_def fr at_index_in opened_info_def split_beta Let_def cong: if_cong split del: if_split)
  then show ?thesis
    using u t(4) by (intro exI [of _ u]) (simp add: installed_def e3_def e2_def fr)
qed

lemma opened_info_simps:
  assumes "wf_info info"
  shows "wf_info (snd (opened_info spec now_ns info))" "si_active (snd (opened_info spec now_ns info))"
    "si_imsi (snd (opened_info spec now_ns info)) = ss_imsi spec"
    "si_ul_teid (snd (opened_info spec now_ns info)) = ss_ul_teid spec"
    "si_dl_teid (snd (opened_info spec now_ns info)) = ss_dl_teid spec"
    "si_learned (snd (opened_info spec now_ns info)) = (si_active info \<and> si_learned info)"
    "unat (fst (opened_info spec now_ns info)) < kBucketSlots"
proof -
  let ?i = "(open_session spec now_ns info)\<lparr>si_ul_teid := ss_ul_teid spec, si_dl_teid := ss_dl_teid spec\<rparr>"
  have "wf_info ?i" using assms by (simp add: open_session_def Let_def wf_info_def SubscriberInfo_init_def)
  moreover obtain slot i where "assign_slot ?i (ss_rating_group spec) = (slot, i)" by fastforce
  ultimately show "wf_info (snd (opened_info spec now_ns info))" "si_active (snd (opened_info spec now_ns info))"
    "si_imsi (snd (opened_info spec now_ns info)) = ss_imsi spec"
    "si_ul_teid (snd (opened_info spec now_ns info)) = ss_ul_teid spec"
    "si_dl_teid (snd (opened_info spec now_ns info)) = ss_dl_teid spec"
    "si_learned (snd (opened_info spec now_ns info)) = (si_active info \<and> si_learned info)"
    "unat (fst (opened_info spec now_ns info)) < kBucketSlots"
    using assign_slot_info [of ?i "ss_rating_group spec" slot i] assign_slot_bound [of ?i "ss_rating_group spec" slot i]
    by (simp_all add: opened_info_def open_session_def Let_def SubscriberInfo_init_def)
qed

lemma new_binding_ok:
  assumes "idx < next" "idx < 2 ^ 32" "unat slot < kBucketSlots" "si_active (infos ! idx)" "teid \<noteq> 0"
    "teid = si_ul_teid (infos ! idx) \<or> teid = si_dl_teid (infos ! idx)"
  shows "binding_ok next infos teid (new_binding idx dir slot)"
proof -
  have "unat (of_nat idx :: u32) = idx" using assms(2) by (simp add: unat_of_nat_less)
  then show ?thesis using assms by (simp add: binding_ok_def new_binding_def Let_def)
qed

lemma rebound_ok:
  assumes b: "wf_bindings m next infos" and idx: "idx < next'" "next \<le> next'" "next' \<le> length infos" "idx < 2 ^ 32"
    and j: "si_active j" "si_ul_teid j = ss_ul_teid spec" "si_dl_teid j = ss_dl_teid spec" "unat slot < kBucketSlots"
    and old: "idx < next \<Longrightarrow> \<not> si_learned (infos ! idx)"
    and o: "si_active (infos ! idx) \<Longrightarrow> si_ul_teid o' = si_ul_teid (infos ! idx) \<and> si_dl_teid o' = si_dl_teid (infos ! idx)"
  shows "wf_bindings (rebind spec idx slot (unbind spec o' m)) next' (infos[idx := j])"
  unfolding wf_bindings_def
proof (intro allI impI)
  fix teid b
  assume "rebind spec idx slot (unbind spec o' m) teid = Some b"
  then show "binding_ok next' (infos[idx := j]) teid b"
  proof (cases rule: rebind_SomeD)
    case (1 dir)
    then show ?thesis using idx j by (auto intro!: new_binding_ok)
  next
    case 2
    note u = unbind_SomeD [OF 2(1)]
    have ok: "binding_ok next infos teid b" using b u(1) by (simp add: wf_bindings_def)
    have "unat (tb_sub_idx b) \<noteq> idx"
    proof
      assume [simp]: "unat (tb_sub_idx b) = idx"
      have "si_active (infos ! idx)" "teid = si_ul_teid (infos ! idx) \<or> teid = si_dl_teid (infos ! idx)"
        "teid = 0 \<longrightarrow> si_learned (infos ! idx)" "idx < next"
        using ok by (auto simp: binding_ok_def Let_def)
      then show False using o u(2,3) 2(2,3) old by metis
    qed
    then show ?thesis using ok idx(2) by (auto simp: binding_ok_def Let_def)
  qed
qed

lemma index_opened:
  assumes wf: "me_wf e" and ix: "install_index spec e = Some (idx, e1)"
    and j: "si_imsi j = ss_imsi spec" "si_learned j = (si_active (me_info e ! idx) \<and> si_learned (me_info e ! idx))"
  shows "wf_index (me_imsi_index e1) (me_next_sub e1) ((me_info e)[idx := j])"
    and "me_next_sub e1 \<le> length (me_counters e)" "idx < me_next_sub e1" "me_next_sub e \<le> me_next_sub e1"
    and "idx < me_next_sub e \<Longrightarrow> \<not> si_learned (me_info e ! idx)"
proof -
  have W: "wf_index (me_imsi_index e) (me_next_sub e) (me_info e)" and len: "length (me_info e) = length (me_counters e)"
    and nx: "me_next_sub e \<le> length (me_counters e)" using wf by (simp_all add: me_wf_def wf_sizes_def)
  note D = wf_indexD [OF W]
  have idx: "idx < length (me_info e)" using install_index_bound [OF wf ix] len by simp
  from ix show "wf_index (me_imsi_index e1) (me_next_sub e1) ((me_info e)[idx := j])"
  proof (cases rule: install_index_cases)
    case 1
    have idx': "idx < me_next_sub e" using D(2) [OF 1(1)] .
    show ?thesis unfolding 1(2)
    proof (rule wf_indexI)
      fix i assume "me_next_sub e \<le> i" "i < length ((me_info e)[idx := j])"
      then show "\<not> si_active ((me_info e)[idx := j] ! i)" using idx' D(1) [of i] by simp
    next
      fix imsi i assume a: "me_imsi_index e imsi = Some i"
      show "i < me_next_sub e \<and> si_imsi ((me_info e)[idx := j] ! i) = imsi \<and> \<not> si_learned ((me_info e)[idx := j] ! i)"
      proof (cases "i = idx")
        case True
        then have "imsi = ss_imsi spec" using D(3) [OF a] D(3) [OF 1(1)] by simp
        then show ?thesis using True idx idx' j D(4) [OF 1(1)] by simp
      qed (use D(2,3,4) [OF a] in simp)
    qed
  next
    case 2
    have na: "\<not> si_active (me_info e ! idx)" using D(1) [of idx] 2(2) idx by simp
    have nx: "me_next_sub e1 = idx + 1" "me_imsi_index e1 = (me_imsi_index e)(ss_imsi spec \<mapsto> idx)"
      using 2(4) by simp_all
    show ?thesis unfolding nx
    proof (rule wf_indexI)
      fix i assume "idx + 1 \<le> i" "i < length ((me_info e)[idx := j])"
      then show "\<not> si_active ((me_info e)[idx := j] ! i)" using 2(2) D(1) [of i] by simp
    next
      fix imsi i assume a: "((me_imsi_index e)(ss_imsi spec \<mapsto> idx)) imsi = Some i"
      show "i < idx + 1 \<and> si_imsi ((me_info e)[idx := j] ! i) = imsi \<and> \<not> si_learned ((me_info e)[idx := j] ! i)"
      proof (cases "imsi = ss_imsi spec")
        case True
        then show ?thesis using a idx j na by simp
      next
        case False
        then have a': "me_imsi_index e imsi = Some i" using a by simp
        then show ?thesis using D(2,3,4) [OF a'] 2(2) by simp
      qed
    qed
  qed
  from ix show "me_next_sub e1 \<le> length (me_counters e)" "idx < me_next_sub e1" "me_next_sub e \<le> me_next_sub e1"
    using nx D(2) by (auto elim!: install_index_cases)
  from ix show "idx < me_next_sub e \<Longrightarrow> \<not> si_learned (me_info e ! idx)"
    using D(4) by (auto elim!: install_index_cases)
qed

lemma installed_wf:
  assumes wf: "me_wf e" and ix: "install_index spec e = Some (idx, e1)"
    and t: "fh_inv t" "fh_cap t = fh_cap (me_teid_map e)"
      "fh_map t = rebind spec idx (fst (opened_info spec now_ns (me_info e ! idx)))
         (unbind spec (open_session spec now_ns (me_info e ! idx)) (fh_map (me_teid_map e)))"
  shows "me_wf (installed spec now_ns idx t e1)"
proof -
  let ?j = "snd (opened_info spec now_ns (me_info e ! idx))"
  note fr = install_index_frame [OF ix] and bd = install_index_bound [OF wf ix]
  note Z = wf_sizesD [of e]
  have sz: "wf_sizes e" using wf by (simp add: me_wf_def)
  have wi: "wf_info (me_info e ! idx)" using Z(6) [OF sz bd] .
  note O = opened_info_simps [OF wi, of spec now_ns]
  note I = index_opened [OF wf ix O(3) O(6)]
  have "list_all wf_info ((me_info e)[idx := ?j])"
    using sz O(1) by (auto simp: wf_sizes_def list_all_iff dest!: set_update_subset_insert [THEN subsetD])
  moreover have "list_all wf_counters ((me_counters e)[idx := SubscriberCounters_init])"
    using sz by (auto simp: wf_sizes_def list_all_iff wf_counters_def SubscriberCounters_init_def
        dest!: set_update_subset_insert [THEN subsetD])
  ultimately have "wf_sizes (installed spec now_ns idx t e1)"
    using sz I(2) by (simp add: wf_sizes_def installed_def fr)
  moreover have "wf_bindings (fh_map t) (me_next_sub e1) ((me_info e)[idx := ?j])"
    unfolding t(3)
  proof (rule rebound_ok)
    show "wf_bindings (fh_map (me_teid_map e)) (me_next_sub e) (me_info e)" using wf by (simp add: me_wf_def)
    show "idx < 2 ^ 32" using bd Z(4) [OF sz] by simp
    show "me_next_sub e1 \<le> length (me_info e)" using I(2) Z(1) [OF sz] by simp
  qed (use I O in \<open>auto simp: open_session_def Let_def\<close>)
  ultimately show ?thesis
    using wf I(1) t(1,2) by (simp add: me_wf_def installed_def fr wf_table_def wf_flows_def)
qed

lemma install_session_wf:
  assumes "me_wf e"
  shows "\<exists>r e'. install_session spec now_ns e = Some (r, e') \<and> me_wf e'"
proof (cases "session_valid spec \<and> install_index spec e \<noteq> None")
  case True
  then obtain idx e1 where "session_valid spec" "install_index spec e = Some (idx, e1)" by auto
  with install_session_spec [OF assms this] installed_wf [OF assms] show ?thesis by blast
next
  case False
  then have "install_session spec now_ns e = Some (None, e)"
    by (cases "session_valid spec") (simp_all add: install_session_def del: not_None_eq)
  then show ?thesis using assms by blast
qed

subsection \<open>Release\<close>

definition released :: "(nat \<Rightarrow> u64) \<Rightarrow> nat \<Rightarrow> u64 \<Rightarrow> bool \<Rightarrow> UsageRecord ring option \<Rightarrow> TeidBinding flat \<Rightarrow> MeterEngine \<Rightarrow> MeterEngine" where
  "released wall idx now_ns ok sink t e =
    (let e1 = emit_result wall idx kRelease now_ns ok sink e
     in upd_stats (\<lambda>s. s\<lparr>st_sessions_released := st_sessions_released s + 1\<rparr>)
          (e1\<lparr>me_teid_map := t, me_info := (me_info e1)[idx := (me_info e1 ! idx)\<lparr>si_active := False\<rparr>]\<rparr>))"

lemma emit_result_simps [simp]:
  "me_cfg (emit_result wall idx reason now_ns ok sink e) = me_cfg e"
  "me_counters (emit_result wall idx reason now_ns ok sink e) = me_counters e"
  "me_teid_map (emit_result wall idx reason now_ns ok sink e) = me_teid_map e"
  "me_next_sub (emit_result wall idx reason now_ns ok sink e) = me_next_sub e"
  "me_imsi_index (emit_result wall idx reason now_ns ok sink e) = me_imsi_index e"
  "me_sweep_cursor (emit_result wall idx reason now_ns ok sink e) = me_sweep_cursor e"
  "me_info (emit_result wall idx reason now_ns ok sink e) =
     (me_info e)[idx := mark_emitted now_ns (me_counters e ! idx) (me_info e ! idx)]"
  "me_log (emit_result wall idx reason now_ns ok sink e) = me_log e @ [(next_record wall idx reason now_ns e, ok)]"
  "me_record_sink (emit_result wall idx reason now_ns ok sink e) = sink"
  "me_stats (emit_result wall idx reason now_ns ok sink e) = count_record ok (me_stats e)"
  "me_flows (emit_result wall idx reason now_ns ok sink e) = me_flows e"
  "me_flow_mask (emit_result wall idx reason now_ns ok sink e) = me_flow_mask e"
  "me_last_sweep_ns (emit_result wall idx reason now_ns ok sink e) = me_last_sweep_ns e"
  by (simp_all add: emit_result_def)

lemma mark_emitted_teids [simp]:
  "si_ul_teid (mark_emitted now_ns c i) = si_ul_teid i" "si_dl_teid (mark_emitted now_ns c i) = si_dl_teid i"
  "si_active (mark_emitted now_ns c i) = si_active i" "si_imsi (mark_emitted now_ns c i) = si_imsi i"
  "si_learned (mark_emitted now_ns c i) = si_learned i"
  by (simp_all add: mark_emitted_def)

lemma unbind_closed:
  assumes "wf_bindings m next infos" "\<not> si_learned (infos ! idx)" "idx < length infos" "i' = infos ! idx"
  shows "wf_bindings (unbind SessionSpec_init i' m) next (infos[idx := j])"
  unfolding wf_bindings_def
proof (intro allI impI)
  fix teid b assume "unbind SessionSpec_init i' m teid = Some b"
  note u = unbind_SomeD [OF this]
  have ok: "binding_ok next infos teid b" using assms(1) u(1) by (simp add: wf_bindings_def)
  have "unat (tb_sub_idx b) \<noteq> idx"
  proof
    assume "unat (tb_sub_idx b) = idx"
    then have "teid = si_ul_teid i' \<or> teid = si_dl_teid i'" "teid \<noteq> 0"
      using ok assms(2,4) by (auto simp: binding_ok_def Let_def)
    then show False using u(2,3) by (auto simp: SessionSpec_init_def)
  qed
  then show "binding_ok next (infos[idx := j]) teid b" using ok by (auto simp: binding_ok_def Let_def)
qed

lemma release_session_spec:
  assumes wf: "me_wf e" and ix: "me_imsi_index e imsi = Some idx" and act: "si_active (me_info e ! idx)"
  shows "\<exists>ok sink t. release_session wall imsi now_ns e = Some (True, released wall idx now_ns ok sink t e) \<and>
    sink_step (me_record_sink e) (next_record wall idx kRelease now_ns e) ok sink \<and>
    fh_inv t \<and> fh_cap t = fh_cap (me_teid_map e) \<and>
    fh_map t = unbind SessionSpec_init (me_info e ! idx) (fh_map (me_teid_map e)) \<and>
    me_wf (released wall idx now_ns ok sink t e)"
proof -
  have W: "wf_index (me_imsi_index e) (me_next_sub e) (me_info e)" and sz: "wf_sizes e"
    using wf by (simp_all add: me_wf_def)
  note D = wf_indexD(2-4) [OF W ix]
  have idx: "idx < length (me_counters e)" "idx < length (me_info e)" using D(1) wf_sizesD [OF sz] by simp_all
  obtain ok sink where em: "emit_record wall idx kRelease now_ns e = Some (emit_result wall idx kRelease now_ns ok sink e)"
    "sink_step (me_record_sink e) (next_record wall idx kRelease now_ns e) ok sink"
    "me_wf (emit_result wall idx kRelease now_ns ok sink e)"
    using emit_record_spec [OF wf idx(1)] by blast
  define e1 where "e1 = emit_result wall idx kRelease now_ns ok sink e"
  define j where "j = me_info e1 ! idx"
  have j: "j = mark_emitted now_ns (me_counters e ! idx) (me_info e ! idx)" using idx by (simp add: j_def e1_def)
  have l1: "idx < length (me_info e1)" using idx by (simp add: e1_def)
  have aj: "at_index (me_info e1) idx = Some j" using idx by (simp add: j_def at_index_def e1_def)
  have inv: "fh_inv (me_teid_map e1)" using wf by (simp add: me_wf_def wf_table_def e1_def)
  obtain t where t: "unbind_moved SessionSpec_init j e1 = Some (e1\<lparr>me_teid_map := t\<rparr>)" "fh_inv t"
    "fh_cap t = fh_cap (me_teid_map e)" "fh_map t = unbind SessionSpec_init j (fh_map (me_teid_map e))"
    using unbind_spec [OF inv, of SessionSpec_init j] wf_bindings_slack [OF wf] by (auto simp: e1_def)
  have "release_session wall imsi now_ns e = do {
      e \<leftarrow> unbind_moved SessionSpec_init j e1; e \<leftarrow> set_info idx (j\<lparr>si_active := False\<rparr>) e;
      Some (True, upd_stats (\<lambda>s. s\<lparr>st_sessions_released := st_sessions_released s + 1\<rparr>) e) }"
    using act em(1) idx aj by (simp add: release_session_def ix at_index_in unbind_moved_def SessionSpec_init_def
        e1_def [symmetric] Option.bind_assoc split del: if_split cong: if_cong)
  also have "\<dots> = Some (True, released wall idx now_ns ok sink t e)"
    using l1 by (simp add: t(1) set_info_in released_def Let_def e1_def [symmetric] j_def [symmetric])
  finally have res: "release_session wall imsi now_ns e = Some (True, released wall idx now_ns ok sink t e)" .
  have un: "unbind SessionSpec_init j = unbind SessionSpec_init (me_info e ! idx)" by (simp add: unbind_def j fun_eq_iff)
  have "wf_bindings (fh_map t) (me_next_sub e) ((me_info e1)[idx := j\<lparr>si_active := False\<rparr>])"
    using wf D(3) idx unbind_closed [of "fh_map (me_teid_map e)" "me_next_sub e" "me_info e" idx _ "j\<lparr>si_active := False\<rparr>"]
    by (simp add: t(4) un me_wf_def e1_def)
  moreover have "wf_index (me_imsi_index e) (me_next_sub e) ((me_info e1)[idx := j\<lparr>si_active := False\<rparr>])"
    using W D idx by (auto simp: wf_index_def nth_list_update e1_def j split: if_splits)
  moreover have "list_all wf_info ((me_info e1)[idx := j\<lparr>si_active := False\<rparr>])"
    using sz mark_emitted_info(1) [of "me_info e ! idx"] wf_sizesD(6) [OF sz idx(1)]
    by (auto simp: wf_sizes_def list_all_iff e1_def j wf_info_def dest!: set_update_subset_insert [THEN subsetD])
  ultimately have "me_wf (released wall idx now_ns ok sink t e)"
    using em(3) t(2,3) by (simp add: released_def Let_def e1_def [symmetric] j_def)
      (simp add: e1_def wf_defs wf_table_def)
  then show ?thesis using res em(2) t un by auto
qed

lemma release_session_wf:
  assumes "me_wf e"
  shows "\<exists>r e'. release_session wall imsi now_ns e = Some (r, e') \<and> me_wf e'"
proof (cases "me_imsi_index e imsi")
  case (Some idx)
  then have "idx < length (me_info e)"
    using assms wf_sizesD [of e] by (fastforce simp: me_wf_def dest: wf_indexD(2))
  then have "\<not> si_active (me_info e ! idx) \<Longrightarrow> ?thesis"
    using Some assms by (auto simp: release_session_def at_index_in)
  moreover have "si_active (me_info e ! idx) \<Longrightarrow> ?thesis"
    using release_session_spec [OF assms Some] by blast
  ultimately show ?thesis by blast
qed (use assms in \<open>auto simp: release_session_def\<close>)

end
