(* ===== verification/Meter_Flow.thy ===== *)
theory Meter_Flow
  imports Meter_Invariant
begin

text \<open>
  The flow table of the metering engine: a bounded probe window per flow key, and eviction of the
  least recently seen entry of a full window. The scans of \<^verbatim>\<open>find_flow\<close> and \<^verbatim>\<open>update_flow\<close> are described by the
  positions of the window, and an update followed by a lookup finds the updated flow.
\<close>

subsection \<open>Windows\<close>

fun window :: "nat \<Rightarrow> nat \<Rightarrow> nat \<Rightarrow> nat list" where
  "window n p 0 = []"
| "window n p (Suc w) = p # window n (cnext n p) w"

lemma window_bound: "p < n \<Longrightarrow> q \<in> set (window n p w) \<Longrightarrow> q < n"
  by (induction w arbitrary: p) (auto dest: cnext_less)

definition stops :: "FlowEntry list \<Rightarrow> u64 \<Rightarrow> nat \<Rightarrow> bool" where
  "stops fs key p \<longleftrightarrow> fl_key (fs ! p) = key \<or> fl_key (fs ! p) = 0"

fun oldest_in :: "FlowEntry list \<Rightarrow> nat list \<Rightarrow> nat option \<Rightarrow> u64 \<Rightarrow> nat option" where
  "oldest_in fs [] v t = v"
| "oldest_in fs (p # ps) v t =
    (if fl_last_seen_ns (fs ! p) < t then oldest_in fs ps (Some p) (fl_last_seen_ns (fs ! p)) else oldest_in fs ps v t)"

lemma u64_less_top: "(x :: u64) \<noteq> 0xFFFFFFFFFFFFFFFF \<Longrightarrow> x < 0xFFFFFFFFFFFFFFFF"
proof -
  have "(0xFFFFFFFFFFFFFFFF :: u64) = -1" by simp
  then show "x \<noteq> 0xFFFFFFFFFFFFFFFF \<Longrightarrow> x < 0xFFFFFFFFFFFFFFFF"
    using word_order.not_eq_extremum [of x] by (simp only:)
qed

lemma oldest_in_known:
  "\<exists>q. oldest_in fs ps (Some v) (fl_last_seen_ns (fs ! v)) = Some q \<and> q \<in> insert v (set ps) \<and>
     (\<forall>p\<in>insert v (set ps). fl_last_seen_ns (fs ! q) \<le> fl_last_seen_ns (fs ! p))"
proof (induction ps arbitrary: v)
  case (Cons p ps)
  show ?case
  proof (cases "fl_last_seen_ns (fs ! p) < fl_last_seen_ns (fs ! v)")
    case True
    with Cons.IH [of p] show ?thesis by fastforce
  next
    case False
    with Cons.IH [of v] show ?thesis by fastforce
  qed
qed simp

lemma oldest_in_window:
  assumes "ps \<noteq> []" "\<forall>p\<in>set ps. fl_last_seen_ns (fs ! p) \<noteq> 0xFFFFFFFFFFFFFFFF"
  shows "\<exists>q\<in>set ps. oldest_in fs ps None 0xFFFFFFFFFFFFFFFF = Some q \<and>
    (\<forall>p\<in>set ps. fl_last_seen_ns (fs ! q) \<le> fl_last_seen_ns (fs ! p))"
proof (cases ps)
  case (Cons p rest)
  have "fl_last_seen_ns (fs ! p) < 0xFFFFFFFFFFFFFFFF"
    using assms(2) Cons by (intro u64_less_top) simp
  then show ?thesis using oldest_in_known [of fs rest p] Cons by auto
qed (use assms in simp)

subsection \<open>The loops as scans of the window\<close>

definition hit_flow :: "MeterEvent \<Rightarrow> FlowEntry \<Rightarrow> FlowEntry" where
  "hit_flow ev f = f\<lparr>fl_bytes := fl_bytes f + ucast (ev_bytes ev), fl_packets := fl_packets f + 1, fl_last_seen_ns := ev_ts_ns ev\<rparr>"

datatype flow_outcome = Flow_Hit | Flow_Insert | Flow_Evict

definition count_flow :: "flow_outcome \<Rightarrow> PipelineStats \<Rightarrow> PipelineStats" where
  "count_flow oc s = (case oc of Flow_Hit \<Rightarrow> s
     | Flow_Insert \<Rightarrow> s\<lparr>st_flow_inserts := st_flow_inserts s + 1, st_flows_active := st_flows_active s + 1\<rparr>
     | Flow_Evict \<Rightarrow> s\<lparr>st_flow_evictions := st_flow_evictions s + 1\<rparr>)"

definition flow_choice :: "FlowEntry list \<Rightarrow> u64 \<Rightarrow> nat list \<Rightarrow> nat option \<Rightarrow> u64 \<Rightarrow> (nat \<times> flow_outcome) option" where
  "flow_choice fs key ps v t = (case List.find (stops fs key) ps of
     Some p \<Rightarrow> Some (p, if fl_key (fs ! p) = key then Flow_Hit else Flow_Insert)
   | None \<Rightarrow> map_option (\<lambda>q. (q, Flow_Evict)) (oldest_in fs ps v t))"

lemma flow_choice_skip:
  "\<not> stops fs key p \<Longrightarrow> flow_choice fs key (p # ps) v t =
    (if fl_last_seen_ns (fs ! p) < t then flow_choice fs key ps (Some p) (fl_last_seen_ns (fs ! p)) else flow_choice fs key ps v t)"
  by (simp add: flow_choice_def split: option.split)

definition flow_value :: "MeterEvent \<Rightarrow> u32 \<Rightarrow> u8 \<Rightarrow> u64 \<Rightarrow> flow_outcome \<Rightarrow> FlowEntry \<Rightarrow> FlowEntry" where
  "flow_value ev sub dir key oc f = (if oc = Flow_Hit then hit_flow ev f else init_flow ev sub dir key)"

definition flow_updated :: "MeterEvent \<Rightarrow> u32 \<Rightarrow> u8 \<Rightarrow> u64 \<Rightarrow> nat \<Rightarrow> flow_outcome \<Rightarrow> MeterEngine \<Rightarrow> MeterEngine" where
  "flow_updated ev sub dir key q oc e = e\<lparr>me_flows := (me_flows e)[q := flow_value ev sub dir key oc (me_flows e ! q)],
     me_stats := count_flow oc (me_stats e)\<rparr>"

lemma flow_step:
  assumes "flow_shape k fs m" "unat idx < 2 ^ k"
  shows "unat ((idx + 1) AND m) = cnext (2 ^ k) (unat idx)"
  using assms by (simp add: flow_shape_def word_cnext)

lemma find_flow_window:
  assumes "flow_shape k (me_flows e) (me_flow_mask e)" "unat idx < 2 ^ k"
  shows "find_flow_loop w key idx e = Some (case List.find (stops (me_flows e) key) (window (2 ^ k) (unat idx) w) of
      None \<Rightarrow> None | Some p \<Rightarrow> if fl_key (me_flows e ! p) = key then Some (me_flows e ! p) else None)"
  using assms(2)
proof (induction w arbitrary: idx)
  case (Suc w)
  note st = flow_step [OF assms(1) Suc.prems]
  have "unat ((idx + 1) AND me_flow_mask e) < 2 ^ k" using Suc.prems by (simp add: st cnext_less)
  from Suc.IH [OF this] show ?case
    using Suc.prems assms(1) by (simp add: at_index_in flow_shape_def st [symmetric] stops_def)
qed simp

lemma update_flow_window:
  assumes "flow_shape k (me_flows e) (me_flow_mask e)" "unat idx < 2 ^ k" "\<And>q. v = Some q \<Longrightarrow> q < 2 ^ k"
  shows "update_flow_loop w ev sub dir key idx v t e =
    map_option (\<lambda>(q, oc). flow_updated ev sub dir key q oc e)
      (flow_choice (me_flows e) key (window (2 ^ k) (unat idx) w) v t)"
  using assms(2,3)
proof (induction w arbitrary: idx v t)
  case 0
  have "length (me_flows e) = 2 ^ k" using assms(1) by (simp add: flow_shape_def)
  then show ?case using "0.prems"(2) by (cases v)
    (simp_all add: flow_choice_def flow_updated_def flow_value_def count_flow_def store_at_def upd_stats_def)
next
  case (Suc w)
  note st = flow_step [OF assms(1) Suc.prems(1)]
  have b: "unat ((idx + 1) AND me_flow_mask e) < 2 ^ k" using Suc.prems(1) by (simp add: st cnext_less)
  have len: "unat idx < length (me_flows e)" using assms(1) Suc.prems(1) by (simp add: flow_shape_def)
  have IH: "update_flow_loop w ev sub dir key ((idx + 1) AND me_flow_mask e) v t e =
      map_option (\<lambda>(q, oc). flow_updated ev sub dir key q oc e)
        (flow_choice (me_flows e) key (window (2 ^ k) (cnext (2 ^ k) (unat idx)) w) v t)"
    if "v = None \<or> v = Some (unat idx) \<or> (\<exists>q < 2 ^ k. v = Some q)" for v t
    using Suc.IH [OF b, of v t] that Suc.prems(1) by (auto simp: st)
  have v: "v = None \<or> v = Some (unat idx) \<or> (\<exists>q < 2 ^ k. v = Some q)" using Suc.prems(2) by (cases v) auto
  show ?case
  proof (cases "stops (me_flows e) key (unat idx)")
    case True
    then show ?thesis using len
      by (auto simp: at_index_in store_at_def flow_choice_def stops_def flow_updated_def flow_value_def hit_flow_def
          count_flow_def upd_stats_def)
  next
    case False
    then have "fl_key (me_flows e ! unat idx) \<noteq> key" "fl_key (me_flows e ! unat idx) \<noteq> 0"
      by (simp_all add: stops_def)
    then show ?thesis using False len IH [OF v] IH [of "Some (unat idx)"]
      by (simp add: at_index_in flow_choice_skip)
  qed
qed

subsection \<open>Update and lookup\<close>

definition norm_key :: "u64 \<Rightarrow> u64" where
  "norm_key k = (if k \<noteq> 0 then k else 1)"

lemma norm_key_nonzero [simp]: "norm_key k \<noteq> 0"
  by (simp add: norm_key_def)

lemma flow_start_bound:
  assumes "flow_shape k (me_flows e) (me_flow_mask e)"
  shows "unat (flow_start e key) < 2 ^ k"
  using assms by (simp add: flow_shape_def flow_start_def unat_and_mask)

definition key_window :: "MeterEngine \<Rightarrow> u64 \<Rightarrow> nat list" where
  "key_window e key = window (length (me_flows e)) (unat (flow_start e key)) (mc_flow_probe_window (me_cfg e))"

lemma find_flow_eq:
  assumes "flow_shape k (me_flows e) (me_flow_mask e)"
  shows "find_flow e key = Some (case List.find (stops (me_flows e) (norm_key key)) (key_window e (norm_key key)) of
      None \<Rightarrow> None | Some p \<Rightarrow> if fl_key (me_flows e ! p) = norm_key key then Some (me_flows e ! p) else None)"
proof -
  have "me_flows e \<noteq> []" using assms by (auto simp: flow_shape_def)
  then have "find_flow e key = find_flow_loop (mc_flow_probe_window (me_cfg e)) (norm_key key) (flow_start e (norm_key key)) e"
    by (simp add: find_flow_def norm_key_def)
  moreover have "length (me_flows e) = 2 ^ k" using assms by (simp add: flow_shape_def)
  ultimately show ?thesis
    using find_flow_window [OF assms flow_start_bound [OF assms]] by (simp add: key_window_def)
qed

lemma update_flow_eq:
  assumes "flow_shape k (me_flows e) (me_flow_mask e)"
  shows "update_flow ev sub dir e = map_option (\<lambda>(q, oc). flow_updated ev sub dir (norm_key (ev_flow_key ev)) q oc e)
    (flow_choice (me_flows e) (norm_key (ev_flow_key ev)) (key_window e (norm_key (ev_flow_key ev))) None 0xFFFFFFFFFFFFFFFF)"
  using update_flow_window [OF assms flow_start_bound [OF assms], of None] assms
  by (simp add: update_flow_def norm_key_def [symmetric] key_window_def flow_shape_def Let_def)

lemma flow_choice_total:
  assumes "ps \<noteq> []" "\<forall>p\<in>set ps. fl_last_seen_ns (fs ! p) \<noteq> 0xFFFFFFFFFFFFFFFF"
  obtains q oc where "flow_choice fs key ps None 0xFFFFFFFFFFFFFFFF = Some (q, oc)" "q \<in> set ps"
    "oc = Flow_Evict \<longleftrightarrow> List.find (stops fs key) ps = None"
    "oc \<noteq> Flow_Evict \<Longrightarrow> List.find (stops fs key) ps = Some q"
    "oc = Flow_Hit \<longleftrightarrow> List.find (stops fs key) ps = Some q \<and> fl_key (fs ! q) = key"
    "oc = Flow_Evict \<Longrightarrow> \<forall>p\<in>set ps. fl_last_seen_ns (fs ! q) \<le> fl_last_seen_ns (fs ! p)"
proof (cases "List.find (stops fs key) ps")
  case None
  obtain q where "q \<in> set ps" "oldest_in fs ps None 0xFFFFFFFFFFFFFFFF = Some q"
    "\<forall>p\<in>set ps. fl_last_seen_ns (fs ! q) \<le> fl_last_seen_ns (fs ! p)"
    using oldest_in_window [OF assms] by blast
  then show ?thesis using None that [of q Flow_Evict] by (simp add: flow_choice_def)
next
  case (Some p)
  then have "p \<in> set ps" using find_Some_iff [of "stops fs key" ps p] by auto
  then show ?thesis using Some that [of p "if fl_key (fs ! p) = key then Flow_Hit else Flow_Insert"]
    by (simp add: flow_choice_def)
qed

lemma flow_value_key: "(oc = Flow_Hit \<Longrightarrow> fl_key f = key) \<Longrightarrow> fl_key (flow_value ev sub dir key oc f) = key"
  by (simp add: flow_value_def hit_flow_def init_flow_def)

lemma flow_value_last: "fl_last_seen_ns (flow_value ev sub dir key oc f) = ev_ts_ns ev"
  by (simp add: flow_value_def hit_flow_def init_flow_def)

text \<open>The scan after an update stops at the updated position.\<close>

lemma find_after_update:
  assumes "List.find P ps = Some q \<or> List.find P ps = None \<and> q \<in> set ps"
    "P' q" "\<And>p. p \<noteq> q \<Longrightarrow> P' p = P p"
  shows "List.find P' ps = Some q"
  using assms by (induction ps) (auto split: if_splits)

lemma find_undisturbed:
  assumes "List.find P ps = Some p" "p \<noteq> q" "\<And>r. r \<noteq> q \<Longrightarrow> P' r = P r" "\<not> P' q"
  shows "List.find P' ps = Some p"
  using assms by (induction ps) (auto split: if_splits, metis)

lemma flow_updated_simps [simp]:
  "me_cfg (flow_updated ev sub dir key q oc e) = me_cfg e"
  "me_counters (flow_updated ev sub dir key q oc e) = me_counters e"
  "me_info (flow_updated ev sub dir key q oc e) = me_info e"
  "me_teid_map (flow_updated ev sub dir key q oc e) = me_teid_map e"
  "me_flow_mask (flow_updated ev sub dir key q oc e) = me_flow_mask e"
  "me_imsi_index (flow_updated ev sub dir key q oc e) = me_imsi_index e"
  "me_record_sink (flow_updated ev sub dir key q oc e) = me_record_sink e"
  "me_next_sub (flow_updated ev sub dir key q oc e) = me_next_sub e"
  "me_log (flow_updated ev sub dir key q oc e) = me_log e"
  "me_stats (flow_updated ev sub dir key q oc e) = count_flow oc (me_stats e)"
  "me_flows (flow_updated ev sub dir key q oc e) = (me_flows e)[q := flow_value ev sub dir key oc (me_flows e ! q)]"
  by (simp_all add: flow_updated_def)

lemma wf_flows_choice:
  assumes "wf_flows e" "me_flows e \<noteq> []"
  obtains k q oc where "flow_shape k (me_flows e) (me_flow_mask e)" "q \<in> set (key_window e key)" "q < length (me_flows e)"
    "flow_choice (me_flows e) key (key_window e key) None 0xFFFFFFFFFFFFFFFF = Some (q, oc)"
    "oc = Flow_Evict \<longleftrightarrow> List.find (stops (me_flows e) key) (key_window e key) = None"
    "oc \<noteq> Flow_Evict \<Longrightarrow> List.find (stops (me_flows e) key) (key_window e key) = Some q"
    "oc = Flow_Hit \<longleftrightarrow> List.find (stops (me_flows e) key) (key_window e key) = Some q \<and> fl_key (me_flows e ! q) = key"
    "oc = Flow_Evict \<Longrightarrow> \<forall>p\<in>set (key_window e key). fl_last_seen_ns (me_flows e ! q) \<le> fl_last_seen_ns (me_flows e ! p)"
proof -
  obtain k where sh: "flow_shape k (me_flows e) (me_flow_mask e)" and w: "0 < mc_flow_probe_window (me_cfg e)"
    and ls: "list_all (\<lambda>f. fl_last_seen_ns f \<noteq> 0xFFFFFFFFFFFFFFFF) (me_flows e)"
    using assms by (auto simp: wf_flows_def)
  have b: "p < length (me_flows e)" if "p \<in> set (key_window e key)" for p
    using flow_start_bound [OF sh, of key] sh
    by (intro window_bound [OF _ that [unfolded key_window_def]]) (simp add: flow_shape_def)
  obtain n where "mc_flow_probe_window (me_cfg e) = Suc n" using w by (cases "mc_flow_probe_window (me_cfg e)") auto
  then have ne: "key_window e key \<noteq> []" by (simp add: key_window_def)
  have ls': "\<forall>p\<in>set (key_window e key). fl_last_seen_ns (me_flows e ! p) \<noteq> 0xFFFFFFFFFFFFFFFF"
    using ls b by (simp add: list_all_length)
  show ?thesis
  proof (rule flow_choice_total [OF ne ls', of key], goal_cases)
    case (1 q oc)
    show ?case by (rule that [OF sh 1(2) b [OF 1(2)] 1(1) 1(3-6)])
  qed
qed

lemma update_flow_wf:
  assumes "wf_flows e" "me_flows e \<noteq> []" "ev_ts_ns ev \<noteq> 0xFFFFFFFFFFFFFFFF"
  shows "\<exists>q oc. update_flow ev sub dir e = Some (flow_updated ev sub dir (norm_key (ev_flow_key ev)) q oc e) \<and>
    wf_flows (flow_updated ev sub dir (norm_key (ev_flow_key ev)) q oc e)"
proof (rule wf_flows_choice [OF assms(1,2), of "norm_key (ev_flow_key ev)"])
  fix k q oc
  let ?key = "norm_key (ev_flow_key ev)"
  assume sh: "flow_shape k (me_flows e) (me_flow_mask e)"
    and c: "flow_choice (me_flows e) ?key (key_window e ?key) None 0xFFFFFFFFFFFFFFFF = Some (q, oc)"
  have "list_all (\<lambda>f. fl_last_seen_ns f \<noteq> 0xFFFFFFFFFFFFFFFF)
      ((me_flows e)[q := flow_value ev sub dir ?key oc (me_flows e ! q)])"
    using assms by (auto simp: wf_flows_def list_all_iff flow_value_last dest!: set_update_subset_insert [THEN subsetD])
  then have "wf_flows (flow_updated ev sub dir ?key q oc e)"
    using assms(1,2) sh by (auto simp: wf_flows_def flow_shape_def)
  then show ?thesis using c by (auto simp: update_flow_eq [OF sh])
qed

text \<open>
  C31: The flow table after an update: looking up the flow of the event finds it, with the event's
  bytes and one packet added to the entry it had, or as a new entry of one packet when it had none.
  Every other flow that could be found before is found unchanged, except that an update which
  evicts may drop one flow, and that flow is the least recently seen one of the window probed.
\<close>

theorem update_flow_lookup:
  assumes "wf_flows e" "me_flows e \<noteq> []"
  shows "\<exists>e' f. update_flow ev sub dir e = Some e' \<and> find_flow e' (ev_flow_key ev) = Some (Some f) \<and>
    f = (case find_flow e (ev_flow_key ev) of
           Some (Some g) \<Rightarrow> g\<lparr>fl_bytes := fl_bytes g + ucast (ev_bytes ev), fl_packets := fl_packets g + 1,
                              fl_last_seen_ns := ev_ts_ns ev\<rparr>
         | _ \<Rightarrow> init_flow ev sub dir (norm_key (ev_flow_key ev))) \<and>
    (\<forall>key g. norm_key key \<noteq> norm_key (ev_flow_key ev) \<longrightarrow> find_flow e key = Some (Some g) \<longrightarrow>
       find_flow e' key = Some (Some g) \<or>
       st_flow_evictions (me_stats e') = st_flow_evictions (me_stats e) + 1 \<and>
       (\<forall>p\<in>set (key_window e (norm_key (ev_flow_key ev))). fl_last_seen_ns g \<le> fl_last_seen_ns (me_flows e ! p)))"
proof (rule wf_flows_choice [OF assms, of "norm_key (ev_flow_key ev)"])
  fix k q oc
  let ?K = "norm_key (ev_flow_key ev)"
  let ?v = "flow_value ev sub dir ?K oc (me_flows e ! q)"
  assume sh: "flow_shape k (me_flows e) (me_flow_mask e)" and q: "q \<in> set (key_window e ?K)" "q < length (me_flows e)"
    and c: "flow_choice (me_flows e) ?K (key_window e ?K) None 0xFFFFFFFFFFFFFFFF = Some (q, oc)"
    and ev: "oc = Flow_Evict \<longleftrightarrow> List.find (stops (me_flows e) ?K) (key_window e ?K) = None"
    and nev: "oc \<noteq> Flow_Evict \<Longrightarrow> List.find (stops (me_flows e) ?K) (key_window e ?K) = Some q"
    and hit: "oc = Flow_Hit \<longleftrightarrow> List.find (stops (me_flows e) ?K) (key_window e ?K) = Some q \<and> fl_key (me_flows e ! q) = ?K"
    and old: "oc = Flow_Evict \<Longrightarrow> \<forall>p\<in>set (key_window e ?K). fl_last_seen_ns (me_flows e ! q) \<le> fl_last_seen_ns (me_flows e ! p)"
  define e' where "e' = flow_updated ev sub dir ?K q oc e"
  have fl: "me_flows e' = (me_flows e)[q := ?v]" by (simp add: e'_def)
  have sh': "flow_shape k (me_flows e') (me_flow_mask e')" using sh by (simp add: flow_shape_def e'_def)
  have kw: "key_window e' key = key_window e key" for key by (simp add: key_window_def flow_start_def e'_def)
  have vk: "fl_key ?v = ?K" using hit by (intro flow_value_key) simp
  have st: "stops (me_flows e') key p = (if p = q then ?K = key else stops (me_flows e) key p)" for key p
    using q(2) vk by (simp add: stops_def fl)
  have "List.find (stops (me_flows e') ?K) (key_window e ?K) = Some q"
    using q(1) ev nev st by (intro find_after_update [of "stops (me_flows e) ?K"]) (cases oc; simp)+
  then have f1: "find_flow e' (ev_flow_key ev) = Some (Some ?v)"
    using q(2) vk by (simp add: find_flow_eq [OF sh'] kw fl)
  have "?v = (case find_flow e (ev_flow_key ev) of Some (Some g) \<Rightarrow> hit_flow ev g | _ \<Rightarrow> init_flow ev sub dir ?K)"
    using ev nev hit by (cases oc) (auto simp: find_flow_eq [OF sh] flow_value_def split: option.splits)
  moreover have "find_flow e' key = Some (Some g) \<or>
      st_flow_evictions (me_stats e') = st_flow_evictions (me_stats e) + 1 \<and>
      (\<forall>p\<in>set (key_window e ?K). fl_last_seen_ns g \<le> fl_last_seen_ns (me_flows e ! p))"
    if key: "norm_key key \<noteq> ?K" and g: "find_flow e key = Some (Some g)" for key g
  proof -
    obtain p where p: "List.find (stops (me_flows e) (norm_key key)) (key_window e (norm_key key)) = Some p"
      "fl_key (me_flows e ! p) = norm_key key" "g = me_flows e ! p"
      using g by (auto simp: find_flow_eq [OF sh] split: option.splits if_splits)
    show ?thesis
    proof (cases "p = q")
      case False
      then have "List.find (stops (me_flows e') (norm_key key)) (key_window e (norm_key key)) = Some p"
        using key by (intro find_undisturbed [OF p(1) False]) (auto simp: st)
      then show ?thesis using p False by (simp add: find_flow_eq [OF sh'] kw fl)
    next
      case True
      then have "oc = Flow_Evict" using p(2) key nev hit find_Some_iff [of "stops (me_flows e) ?K" "key_window e ?K" q]
        by (cases oc) (auto simp: stops_def)
      then show ?thesis using old True p(3) by (simp add: count_flow_def e'_def)
    qed
  qed
  ultimately show ?thesis
    using f1 c by (intro exI [of _ e'] exI [of _ ?v]) (simp add: update_flow_eq [OF sh] e'_def [symmetric] hit_flow_def cong: option.case_cong)
qed

definition empty_table :: "TeidBinding flat" where
  "empty_table = \<lparr>fh_capacity = 8, fh_mask = 7, fh_keys = replicate 8 kEmptyKey, fh_values = replicate 8 TeidBinding_init,
     fh_size = 0, fh_probes = 0, fh_lookups = 0, fh_sentinel_value = TeidBinding_init, fh_sentinel_used = False\<rparr>"

definition small_engine :: MeterEngine where
  "small_engine = \<lparr>me_cfg = \<lparr>mc_max_subscribers = 3, mc_teid_table_capacity = 8, mc_flow_table_capacity = 2,
       mc_flow_probe_window = 2, mc_report_interval_ns = 1000, mc_volume_threshold_bytes = 1000, mc_sweep_period_ns = 10,
       mc_sweep_fraction = 2, mc_track_flows = True, mc_learn_unknown_teids = False\<rparr>,
     me_counters = replicate 3 SubscriberCounters_init, me_info = replicate 3 SubscriberInfo_init,
     me_teid_map = empty_table, me_flows = replicate 2 FlowEntry_init, me_flow_mask = 1,
     me_imsi_index = Map.empty, me_record_sink = None, me_stats = PipelineStats_init, me_next_sub = 0,
     me_sweep_cursor = 0, me_last_sweep_ns = 0, me_wall_reads = 0, me_log = []\<rparr>"

lemma small_engine_flows: "wf_flows small_engine" "me_flows small_engine \<noteq> []"
  by (auto simp: wf_flows_def small_engine_def flow_shape_def FlowEntry_init_def list_all_iff intro!: exI [of _ 1])

theorem update_flow_lookup_witness:
  "\<exists>e' f. update_flow (MeterEvent_init\<lparr>ev_flow_key := 5, ev_bytes := 100\<rparr>) 0 0 small_engine = Some e' \<and>
     find_flow e' 5 = Some (Some f) \<and> fl_bytes f = 100 \<and> fl_packets f = 1"
proof -
  have "find_flow small_engine 5 = Some None" by code_simp
  then show ?thesis
    using update_flow_lookup [OF small_engine_flows, of "MeterEvent_init\<lparr>ev_flow_key := 5, ev_bytes := 100\<rparr>" 0 0]
    by (auto simp: MeterEvent_init_def init_flow_def norm_key_def)
qed

end
