(* ===== verification/Meter_Run.thy ===== *)
theory Meter_Run
  imports Meter_Flow
begin

text \<open>
  The data plane and the reporting timers on a well-formed engine, and runs of the engine: any
  sequence of installs, releases, events, charging reports, polls and drains, applied to a new
  engine, returns and keeps the engine well formed.
\<close>

subsection \<open>Charging an event\<close>

definition charged_counters :: "MeterEvent \<Rightarrow> u8 \<Rightarrow> nat \<Rightarrow> SubscriberCounters \<Rightarrow> SubscriberCounters" where
  "charged_counters ev dir slot c = (charge_direction dir ev c)\<lparr>sc_last_seen_ns := ev_ts_ns ev,
     sc_bucket_bytes := (sc_bucket_bytes c)[slot := sc_bucket_bytes c ! slot + ucast (ev_bytes ev)]\<rparr>"

definition charged :: "MeterEvent \<Rightarrow> nat \<Rightarrow> u8 \<Rightarrow> nat \<Rightarrow> SubscriberInfo \<Rightarrow> flow_outcome \<Rightarrow> FlowEntry list \<Rightarrow> MeterEngine \<Rightarrow> MeterEngine" where
  "charged ev sub dir slot info oc fs e = e\<lparr>
     me_counters := (me_counters e)[sub := charged_counters ev dir slot (me_counters e ! sub)],
     me_info := (me_info e)[sub := info],
     me_stats := count_flow oc (count_direction dir ev (me_stats e)),
     me_flows := fs\<rparr>"

definition same_books :: "SubscriberInfo \<Rightarrow> SubscriberInfo \<Rightarrow> bool" where
  "same_books i j \<longleftrightarrow> (\<exists>ids agg. length ids = length (si_bucket_ids j) \<and> i = j\<lparr>si_bucket_ids := ids, si_bucket_aggregated := agg\<rparr>)"

lemma same_books_refl [simp]: "same_books i i"
  unfolding same_books_def by (rule exI [of _ "si_bucket_ids i"], rule exI [of _ "si_bucket_aggregated i"]) simp

lemma same_books_identity: "same_books i j \<Longrightarrow> same_identity i j \<and> wf_info i = wf_info j"
  by (auto simp: same_books_def same_identity_def wf_info_def)

lemma assign_slot_books: "assign_slot info bid = (slot, info') \<Longrightarrow> same_books info' info \<and> unat slot < kBucketSlots"
  by (erule assign_slot_cases) (auto simp: same_books_def)

lemma charge_direction_buckets [simp]: "sc_bucket_bytes (charge_direction dir ev c) = sc_bucket_bytes c"
  by (simp add: charge_direction_def)

lemma wf_charged_counters: "wf_counters c \<Longrightarrow> wf_counters (charged_counters ev dir slot c)"
  by (simp add: charged_counters_def wf_counters_def)

lemma event_slot_spec:
  assumes "wf_sizes e" "unat (tb_sub_idx b) < length (me_counters e)" "unat (tb_slot b) < kBucketSlots"
  shows "\<exists>slot info. event_slot ev b e = Some (slot, e\<lparr>me_info := (me_info e)[unat (tb_sub_idx b) := info]\<rparr>) \<and>
     same_books info (me_info e ! unat (tb_sub_idx b)) \<and> unat slot < kBucketSlots"
proof (cases "has_qfi ev")
  case True
  let ?sub = "unat (tb_sub_idx b)"
  obtain slot info where a: "assign_slot (me_info e ! ?sub) (kQfiBucketTag OR ucast (ev_qfi ev)) = (slot, info)" by fastforce
  have "?sub < length (me_info e)" using assms wf_sizesD by simp
  then show ?thesis using True a assign_slot_books [OF a]
    by (intro exI [of _ slot] exI [of _ info]) (simp add: event_slot_def at_index_in set_info_in resolve_slot_def)
next
  case False
  then show ?thesis using assms(3)
    by (intro exI [of _ "tb_slot b"] exI [of _ "me_info e ! unat (tb_sub_idx b)"]) (simp add: event_slot_def)
qed

lemma charge_spec:
  assumes wf: "me_wf e" and b: "unat (tb_sub_idx b) < me_next_sub e" "unat (tb_slot b) < kBucketSlots"
    and ts: "ev_ts_ns ev \<noteq> 0xFFFFFFFFFFFFFFFF"
  shows "\<exists>slot info oc fs. charge ev b e = Some (charged ev (unat (tb_sub_idx b)) (event_dir ev b) slot info oc fs e) \<and>
    slot < kBucketSlots \<and> same_books info (me_info e ! unat (tb_sub_idx b)) \<and>
    me_wf (charged ev (unat (tb_sub_idx b)) (event_dir ev b) slot info oc fs e)"
proof -
  let ?sub = "unat (tb_sub_idx b)" and ?dir = "event_dir ev b"
  have sz: "wf_sizes e" using wf by (simp add: me_wf_def)
  have sub: "?sub < length (me_counters e)" using b(1) wf_sizesD(3) [OF sz] by simp
  let ?e1 = "upd_stats (count_direction ?dir ev) e"
  have sz1: "wf_sizes ?e1" "?sub < length (me_counters ?e1)" using sz sub by (simp_all add: wf_sizes_def)
  obtain slot info where s: "event_slot ev b ?e1 = Some (slot, ?e1\<lparr>me_info := (me_info e)[?sub := info]\<rparr>)"
    "same_books info (me_info e ! ?sub)" "unat slot < kBucketSlots"
    using event_slot_spec [OF sz1 b(2), of ev] by auto
  have wc: "wf_counters (me_counters e ! ?sub)" by (rule wf_sizesD(5) [OF sz sub])
  define e2 where "e2 = ?e1\<lparr>me_info := (me_info e)[?sub := info],
     me_counters := (me_counters e)[?sub := charged_counters ev ?dir (unat slot) (me_counters e ! ?sub)]\<rparr>"
  have c: "charge ev b e = (if me_flows e2 \<noteq> [] then update_flow ev (tb_sub_idx b) ?dir e2 else Some e2)"
    using sub s(3) wc
    by (simp add: charge_def at_index_in s(1) wf_counters_def set_counters_in charged_counters_def e2_def Let_def)
  have wi: "wf_info info" "same_identity info (me_info e ! ?sub)"
    using same_books_identity [OF s(2)] wf_sizesD(6) [OF sz sub] by simp_all
  have "me_wf (e\<lparr>me_info := (me_info e)[?sub := info]\<rparr>)" by (rule me_wf_set_info [OF wf wi])
  from me_wf_set_counters [OF this wf_charged_counters [OF wc], of ?sub ev ?dir "unat slot"]
  have wf2: "me_wf e2" by (simp add: e2_def wf_defs)
  have e2: "e2 = charged ev ?sub ?dir (unat slot) info Flow_Hit (me_flows e) e"
    by (simp add: e2_def charged_def upd_stats_def count_flow_def)
  show ?thesis
  proof (cases "me_flows e2 = []")
    case True
    then show ?thesis using c s(2,3) wf2 unfolding e2 by auto
  next
    case False
    obtain q oc where u: "update_flow ev (tb_sub_idx b) ?dir e2 =
        Some (flow_updated ev (tb_sub_idx b) ?dir (norm_key (ev_flow_key ev)) q oc e2)"
      "wf_flows (flow_updated ev (tb_sub_idx b) ?dir (norm_key (ev_flow_key ev)) q oc e2)"
      using update_flow_wf [OF _ False ts, of "tb_sub_idx b" ?dir] wf2 unfolding me_wf_def by blast
    define fs where "fs = me_flows (flow_updated ev (tb_sub_idx b) ?dir (norm_key (ev_flow_key ev)) q oc e2)"
    have eq: "flow_updated ev (tb_sub_idx b) ?dir (norm_key (ev_flow_key ev)) q oc e2 =
        charged ev ?sub ?dir (unat slot) info oc fs e"
      by (simp add: fs_def flow_updated_def e2_def charged_def upd_stats_def)
    have "me_wf (flow_updated ev (tb_sub_idx b) ?dir (norm_key (ev_flow_key ev)) q oc e2)"
      using wf2 u(2) by (simp add: me_wf_def wf_sizes_def)
    then show ?thesis using c u(1) False s(2,3) unfolding eq by auto
  qed
qed

subsection \<open>Learning a tunnel\<close>

definition learned_binding :: "MeterEvent \<Rightarrow> nat \<Rightarrow> TeidBinding" where
  "learned_binding ev idx = \<lparr>tb_sub_idx = of_nat idx, tb_dir = ev_dir ev, tb_slot = fst (learned_info ev)\<rparr>"

definition learned :: "MeterEvent \<Rightarrow> TeidBinding flat \<Rightarrow> MeterEngine \<Rightarrow> MeterEngine" where
  "learned ev t e = e\<lparr>me_next_sub := me_next_sub e + 1,
     me_counters := (me_counters e)[me_next_sub e := SubscriberCounters_init],
     me_info := (me_info e)[me_next_sub e := snd (learned_info ev)],
     me_stats := (me_stats e)\<lparr>st_subscribers_learned := st_subscribers_learned (me_stats e) + 1\<rparr>,
     me_teid_map := t\<rparr>"

lemma learned_info_simps:
  "wf_info (snd (learned_info ev))" "si_active (snd (learned_info ev))" "si_learned (snd (learned_info ev))"
  "ev_teid ev = si_ul_teid (snd (learned_info ev)) \<or> ev_teid ev = si_dl_teid (snd (learned_info ev))"
  "unat (fst (learned_info ev)) < kBucketSlots"
  "si_emitted_ul_bytes (snd (learned_info ev)) = 0" "si_emitted_dl_bytes (snd (learned_info ev)) = 0"
  "si_emitted_ul_packets (snd (learned_info ev)) = 0" "si_emitted_dl_packets (snd (learned_info ev)) = 0"
  "si_emitted_bucket_bytes (snd (learned_info ev)) = [0, 0, 0]" "si_record_seq (snd (learned_info ev)) = 0"
proof -
  let ?i = "SubscriberInfo_init\<lparr>si_active := True, si_learned := True, si_imsi := 0,
           si_first_seen_ns := ev_ts_ns ev, si_interval_start_ns := ev_ts_ns ev\<rparr>"
  obtain slot info where a: "assign_slot ?i 0 = (slot, info)" by fastforce
  have l: "learned_info ev = (slot, if ev_dir ev = direction_code kDownlink then info\<lparr>si_dl_teid := ev_teid ev\<rparr>
      else info\<lparr>si_ul_teid := ev_teid ev\<rparr>)" by (simp only: learned_info_def a Let_def prod.case)
  obtain ids agg where i: "length ids = 3" "unat slot < 3" "info = ?i\<lparr>si_bucket_ids := ids, si_bucket_aggregated := agg\<rparr>"
    using assign_slot_books [OF a] by (auto simp: same_books_def SubscriberInfo_init_def numeral_3_eq_3)
  show "wf_info (snd (learned_info ev))" "si_active (snd (learned_info ev))" "si_learned (snd (learned_info ev))"
    "ev_teid ev = si_ul_teid (snd (learned_info ev)) \<or> ev_teid ev = si_dl_teid (snd (learned_info ev))"
    "unat (fst (learned_info ev)) < kBucketSlots"
    "si_emitted_ul_bytes (snd (learned_info ev)) = 0" "si_emitted_dl_bytes (snd (learned_info ev)) = 0"
    "si_emitted_ul_packets (snd (learned_info ev)) = 0" "si_emitted_dl_packets (snd (learned_info ev)) = 0"
    "si_emitted_bucket_bytes (snd (learned_info ev)) = [0, 0, 0]" "si_record_seq (snd (learned_info ev)) = 0"
    unfolding l i(3) using i(1,2) by (simp_all add: wf_info_def SubscriberInfo_init_def)
qed

lemma learned_wf:
  assumes wf: "me_wf e" and n: "me_next_sub e < length (me_counters e)"
    and t: "fh_inv t" "fh_cap t = fh_cap (me_teid_map e)"
      "fh_map t = (fh_map (me_teid_map e))(ev_teid ev \<mapsto> learned_binding ev (me_next_sub e))"
  shows "me_wf (learned ev t e)" "binding_ok (me_next_sub (learned ev t e)) (me_info (learned ev t e)) (ev_teid ev) (learned_binding ev (me_next_sub e))"
proof -
  let ?n = "me_next_sub e" and ?j = "snd (learned_info ev)"
  have sz: "wf_sizes e" and W: "wf_index (me_imsi_index e) ?n (me_info e)"
    and B: "wf_bindings (fh_map (me_teid_map e)) ?n (me_info e)" using wf by (simp_all add: me_wf_def)
  note L = learned_info_simps [of ev]
  have len: "?n < length (me_info e)" using n wf_sizesD(1) [OF sz] by simp
  have "unat (of_nat ?n :: u32) = ?n" using n wf_sizesD(4) [OF sz] by (simp add: unat_of_nat_less)
  then have nb: "binding_ok (?n + 1) ((me_info e)[?n := ?j]) (ev_teid ev) (learned_binding ev ?n)"
    using L len by (simp add: binding_ok_def learned_binding_def Let_def)
  then show "binding_ok (me_next_sub (learned ev t e)) (me_info (learned ev t e)) (ev_teid ev) (learned_binding ev ?n)"
    by (simp add: learned_def)
  have old: "binding_ok (?n + 1) ((me_info e)[?n := ?j]) teid b" if "fh_map (me_teid_map e) teid = Some b" for teid b
  proof -
    have "binding_ok ?n (me_info e) teid b" using B that by (simp add: wf_bindings_def)
    then show ?thesis by (auto simp: binding_ok_def Let_def)
  qed
  have "wf_bindings (fh_map t) (?n + 1) ((me_info e)[?n := ?j])"
    using nb old by (auto simp: wf_bindings_def t(3))
  moreover have "wf_index (me_imsi_index e) (?n + 1) ((me_info e)[?n := ?j])"
  proof (rule wf_indexI)
    fix i assume "?n + 1 \<le> i" "i < length ((me_info e)[?n := ?j])"
    then show "\<not> si_active ((me_info e)[?n := ?j] ! i)" using wf_indexD(1) [OF W, of i] by simp
  next
    fix imsi i assume a: "me_imsi_index e imsi = Some i"
    then show "i < ?n + 1 \<and> si_imsi ((me_info e)[?n := ?j] ! i) = imsi \<and> \<not> si_learned ((me_info e)[?n := ?j] ! i)"
      using wf_indexD(2-4) [OF W a] by simp
  qed
  moreover have "wf_sizes (learned ev t e)"
    using sz n L(1) by (auto simp: wf_sizes_def learned_def list_all_iff wf_counters_def SubscriberCounters_init_def
        dest!: set_update_subset_insert [THEN subsetD])
  ultimately show "me_wf (learned ev t e)"
    using wf t(1,2) by (simp add: me_wf_def learned_def wf_table_def wf_flows_def)
qed

lemma learn_teid_spec:
  assumes wf: "me_wf e" and n: "me_next_sub e < length (me_counters e)"
  shows "\<exists>t. learn_teid ev e = Some (Some (learned_binding ev (me_next_sub e)), learned ev t e) \<and>
    fh_inv t \<and> fh_cap t = fh_cap (me_teid_map e) \<and>
    fh_map t = (fh_map (me_teid_map e))(ev_teid ev \<mapsto> learned_binding ev (me_next_sub e))"
proof -
  let ?idx = "me_next_sub e"
  have sz: "wf_sizes e" using wf by (simp add: me_wf_def)
  have len: "?idx < length (me_info e)" using n wf_sizesD(1) [OF sz] by simp
  define e1 where "e1 = e\<lparr>me_next_sub := ?idx + 1, me_counters := (me_counters e)[?idx := SubscriberCounters_init],
     me_stats := (me_stats e)\<lparr>st_subscribers_learned := st_subscribers_learned (me_stats e) + 1\<rparr>,
     me_info := (me_info e)[?idx := snd (learned_info ev)]\<rparr>"
  have t1: "me_teid_map e1 = me_teid_map e" by (simp add: e1_def)
  have "fh_inv (me_teid_map e1)" "card (dom (fh_map (me_teid_map e1))) < fh_cap (me_teid_map e1)"
    using wf wf_bindings_slack [OF wf] by (simp_all add: t1 me_wf_def wf_table_def)
  from bind_teid_spec [OF this, of "ev_teid ev" ?idx "ev_dir ev" "fst (learned_info ev)"] obtain t where
    t: "bind_teid (ev_teid ev) ?idx (ev_dir ev) (fst (learned_info ev)) e1 = Some (True, e1\<lparr>me_teid_map := t\<rparr>)" "fh_inv t"
      "fh_cap t = fh_cap (me_teid_map e)"
      "fh_map t = (fh_map (me_teid_map e))(ev_teid ev \<mapsto> learned_binding ev ?idx)"
    by (auto simp: t1 learned_binding_def)
  from teid_map.find_law [OF t(2), of "ev_teid ev"] obtain ref u where
    u: "fh_find t (ev_teid ev) = Some (Some ref, u)" "fh_inv u" "fh_map u = fh_map t" "fh_cap u = fh_cap t"
      "fh_get u ref = Some (learned_binding ev ?idx)" by (auto simp: t(4))
  have "learn_teid ev e = Some (Some (learned_binding ev ?idx), e1\<lparr>me_teid_map := u\<rparr>)"
    using n len t(1) u(1,5) unfolding e1_def
    by (simp add: learn_teid_def set_counters_in set_info_in upd_stats_def split_beta Let_def)
  then show ?thesis using u t by (intro exI [of _ u]) (simp add: learned_def e1_def)
qed

subsection \<open>Applying an event\<close>

definition same_table :: "TeidBinding flat \<Rightarrow> TeidBinding flat \<Rightarrow> bool" where
  "same_table t u \<longleftrightarrow> fh_inv t \<and> fh_map t = fh_map u \<and> fh_cap t = fh_cap u"

definition looked_up :: "MeterEvent \<Rightarrow> TeidBinding flat \<Rightarrow> MeterEngine \<Rightarrow> MeterEngine" where
  "looked_up ev t e = (count_event ev e)\<lparr>me_teid_map := t\<rparr>"

text \<open>The four things an event can be: a control PDU, unattributable, charged, or charged to a new subscriber.\<close>

inductive event_effect :: "MeterEvent \<Rightarrow> MeterEngine \<Rightarrow> MeterEngine \<Rightarrow> bool" where
  event_control: "ev_flags ev AND kFlagControlPdu \<noteq> 0 \<Longrightarrow>
    event_effect ev e (upd_stats (\<lambda>s. s\<lparr>st_control_pdus := st_control_pdus s + 1\<rparr>) (count_event ev e))"
| event_unknown: "ev_flags ev AND kFlagControlPdu = 0 \<Longrightarrow> fh_map (me_teid_map e) (ev_teid ev) = None \<Longrightarrow>
    \<not> mc_learn_unknown_teids (me_cfg e) \<or> me_next_sub e = mc_max_subscribers (me_cfg e) \<Longrightarrow>
    same_table t (me_teid_map e) \<Longrightarrow> event_effect ev e (count_unknown ev (looked_up ev t e))"
| event_bound: "ev_flags ev AND kFlagControlPdu = 0 \<Longrightarrow> fh_map (me_teid_map e) (ev_teid ev) = Some b \<Longrightarrow>
    same_table t (me_teid_map e) \<Longrightarrow> slot < kBucketSlots \<Longrightarrow> same_books info (me_info e ! unat (tb_sub_idx b)) \<Longrightarrow>
    event_effect ev e (charged ev (unat (tb_sub_idx b)) (event_dir ev b) slot info oc fs (looked_up ev t e))"
| event_learned: "ev_flags ev AND kFlagControlPdu = 0 \<Longrightarrow> fh_map (me_teid_map e) (ev_teid ev) = None \<Longrightarrow>
    mc_learn_unknown_teids (me_cfg e) \<Longrightarrow> me_next_sub e < mc_max_subscribers (me_cfg e) \<Longrightarrow>
    slot < kBucketSlots \<Longrightarrow> same_books info (snd (learned_info ev)) \<Longrightarrow>
    event_effect ev e (charged ev (me_next_sub e) (ev_dir ev) slot info oc fs (learned ev t (looked_up ev u e)))"

inductive_cases event_effectE: "event_effect ev e e'"

lemma looked_up_simps [simp]:
  "me_cfg (looked_up ev t e) = me_cfg e" "me_counters (looked_up ev t e) = me_counters e"
  "me_info (looked_up ev t e) = me_info e" "me_teid_map (looked_up ev t e) = t"
  "me_next_sub (looked_up ev t e) = me_next_sub e" "me_log (looked_up ev t e) = me_log e"
  "me_record_sink (looked_up ev t e) = me_record_sink e" "me_imsi_index (looked_up ev t e) = me_imsi_index e"
  by (simp_all add: looked_up_def count_event_def)

lemma looked_up_wf: "me_wf e \<Longrightarrow> same_table t (me_teid_map e) \<Longrightarrow> me_wf (looked_up ev t e)"
  by (simp add: looked_up_def count_event_def same_table_def wf_defs wf_table_def)

lemma event_dir_learned: "event_dir ev (learned_binding ev idx) = ev_dir ev"
  by (simp add: event_dir_def learned_binding_def)

lemma apply_event_effect:
  assumes wf: "me_wf e" and ts: "ev_ts_ns ev \<noteq> 0xFFFFFFFFFFFFFFFF"
  shows "\<exists>e'. apply_event ev e = Some e' \<and> event_effect ev e e' \<and> me_wf e'"
proof (cases "ev_flags ev AND kFlagControlPdu = 0")
  case False
  then have "apply_event ev e = Some (upd_stats (\<lambda>s. s\<lparr>st_control_pdus := st_control_pdus s + 1\<rparr>) (count_event ev e))"
    by (simp add: apply_event_def)
  then show ?thesis using event_control [OF False, of e] wf by (auto simp: count_event_def)
next
  case True
  have inv: "fh_inv (me_teid_map e)" and sz: "wf_sizes e" using wf by (simp_all add: me_wf_def wf_table_def)
  from teid_map.find_law [OF inv, of "ev_teid ev"] obtain r t where
    f: "fh_find (me_teid_map e) (ev_teid ev) = Some (r, t)" and t: "same_table t (me_teid_map e)"
    and r: "case fh_map (me_teid_map e) (ev_teid ev) of None \<Rightarrow> r = None | Some v \<Rightarrow> \<exists>p. r = Some p \<and> fh_get t p = Some v"
    by (auto simp: same_table_def)
  note wl = looked_up_wf [OF wf t, of ev]
  have a: "apply_event ev e = (case r of
         Some ref \<Rightarrow> do { b \<leftarrow> fh_get t ref; charge ev b (looked_up ev t e) }
       | None \<Rightarrow>
           if \<not> mc_learn_unknown_teids (me_cfg e) then Some (count_unknown ev (looked_up ev t e))
           else do {
             (lb, e) \<leftarrow> learn_teid ev (looked_up ev t e);
             case lb of None \<Rightarrow> Some (count_unknown ev e) | Some b \<Rightarrow> charge ev b e })"
    using True f by (cases r) (simp_all add: apply_event_def looked_up_def count_event_def Let_def)
  show ?thesis
  proof (cases "fh_map (me_teid_map e) (ev_teid ev)")
    case (Some b)
    then have "binding_ok (me_next_sub e) (me_info e) (ev_teid ev) b" using wf by (simp add: me_wf_def wf_bindings_def)
    then have "unat (tb_sub_idx b) < me_next_sub (looked_up ev t e)" "unat (tb_slot b) < kBucketSlots"
      by (simp_all add: binding_ok_def)
    from charge_spec [OF wl this ts] obtain slot info oc fs where
      "charge ev b (looked_up ev t e) = Some (charged ev (unat (tb_sub_idx b)) (event_dir ev b) slot info oc fs (looked_up ev t e))"
      "slot < kBucketSlots" "same_books info (me_info e ! unat (tb_sub_idx b))"
      "me_wf (charged ev (unat (tb_sub_idx b)) (event_dir ev b) slot info oc fs (looked_up ev t e))" by auto
    then show ?thesis using a r Some event_bound [OF True Some t] by auto
  next
    case None
    show ?thesis
    proof (cases "mc_learn_unknown_teids (me_cfg e) \<and> me_next_sub e < mc_max_subscribers (me_cfg e)")
      case False
      then have "learn_teid ev (looked_up ev t e) = Some (None, looked_up ev t e)" if "mc_learn_unknown_teids (me_cfg e)"
        using that sz by (simp add: learn_teid_def wf_sizes_def)
      then have "apply_event ev e = Some (count_unknown ev (looked_up ev t e))" using a r None by auto
      moreover have "event_effect ev e (count_unknown ev (looked_up ev t e))"
        using False sz by (intro event_unknown [OF True None _ t]) (auto simp: wf_sizes_def)
      ultimately show ?thesis using wl by (auto simp: count_unknown_def)
    next
      case L: True
      then have n: "me_next_sub (looked_up ev t e) < length (me_counters (looked_up ev t e))" using sz by (simp add: wf_sizes_def)
      from learn_teid_spec [OF wl n, of ev] obtain u where
        u: "learn_teid ev (looked_up ev t e) = Some (Some (learned_binding ev (me_next_sub e)), learned ev u (looked_up ev t e))"
          "fh_inv u" "fh_cap u = fh_cap t" "fh_map u = (fh_map t)(ev_teid ev \<mapsto> learned_binding ev (me_next_sub e))"
        by auto
      let ?e = "learned ev u (looked_up ev t e)" and ?b = "learned_binding ev (me_next_sub e)"
      have lw: "me_wf ?e" "binding_ok (me_next_sub ?e) (me_info ?e) (ev_teid ev) ?b"
        using learned_wf [OF wl n u(2)] u(3,4) by simp_all
      have sub: "unat (tb_sub_idx ?b) = me_next_sub e"
        using L sz by (simp add: learned_binding_def unat_of_nat_less wf_sizes_def)
      from charge_spec [OF lw(1) _ _ ts, of ?b] lw(2) obtain slot info oc fs where
        "charge ev ?b ?e = Some (charged ev (me_next_sub e) (ev_dir ev) slot info oc fs ?e)"
        "slot < kBucketSlots" "same_books info (me_info ?e ! me_next_sub e)"
        "me_wf (charged ev (me_next_sub e) (ev_dir ev) slot info oc fs ?e)"
        unfolding sub event_dir_learned by (auto simp: binding_ok_def sub)
      moreover have "me_info ?e ! me_next_sub e = snd (learned_info ev)"
        using n wf_sizesD(1) [OF sz] by (simp add: learned_def)
      ultimately show ?thesis using a r None L u(1) event_learned [OF True None] by auto
    qed
  qed
qed

subsection \<open>Charging reports, timers and drain\<close>

lemma apply_gy_cases:
  assumes "me_wf e"
  obtains "apply_gy ev e = Some (upd_stats (\<lambda>s. s\<lparr>st_gy_events := st_gy_events s + 1\<rparr>) e)"
  | idx info f where "idx < length (me_counters e)"
    "info = (me_info e ! idx)\<lparr>si_gy_reported_octets := si_gy_reported_octets (me_info e ! idx) + gy_used_total_octets ev,
       si_gy_last_ns := gy_ts_ns ev, si_gy_reports := si_gy_reports (me_info e ! idx) + 1\<rparr>"
    "apply_gy ev e = Some (upd_stats (\<lambda>s. s\<lparr>st_gy_events := st_gy_events s + 1,
       st_gy_reported_octets := st_gy_reported_octets s + gy_used_total_octets ev\<rparr>) (e\<lparr>me_info := (me_info e)[idx := info]\<rparr>))"
proof (cases "gy_has_imsi ev \<and> gy_has_used ev \<and> me_imsi_index e (gy_imsi ev) \<noteq> None")
  case False
  then show ?thesis using that(1) by (auto simp: apply_gy_def Let_def)
next
  case True
  then obtain idx where ix: "me_imsi_index e (gy_imsi ev) = Some idx" by blast
  have W: "wf_index (me_imsi_index e) (me_next_sub e) (me_info e)" and sz: "wf_sizes e"
    using assms by (simp_all add: me_wf_def)
  have idx: "idx < length (me_counters e)" "idx < length (me_info e)" using wf_indexD(2) [OF W ix] wf_sizesD [OF sz] by simp_all
  show ?thesis using True ix idx
    by (intro that(2) [OF idx(1) refl]) (simp add: apply_gy_def at_index_in set_info_in upd_stats_def)
qed

lemma apply_gy_wf:
  assumes "me_wf e"
  shows "\<exists>e'. apply_gy ev e = Some e' \<and> me_wf e'"
proof (rule apply_gy_cases [OF assms, of ev])
  fix idx info
  assume idx: "idx < length (me_counters e)" and i: "info = (me_info e ! idx)\<lparr>si_gy_reported_octets := si_gy_reported_octets (me_info e ! idx) + gy_used_total_octets ev,
       si_gy_last_ns := gy_ts_ns ev, si_gy_reports := si_gy_reports (me_info e ! idx) + 1\<rparr>"
    and a: "apply_gy ev e = Some (upd_stats (\<lambda>s. s\<lparr>st_gy_events := st_gy_events s + 1,
       st_gy_reported_octets := st_gy_reported_octets s + gy_used_total_octets ev\<rparr>) (e\<lparr>me_info := (me_info e)[idx := info]\<rparr>))"
  have "wf_info info" "same_identity info (me_info e ! idx)"
    using wf_sizesD(6) [of e idx] assms idx by (simp_all add: i wf_info_def same_identity_def me_wf_def)
  then show ?thesis using a me_wf_set_info [OF assms] by auto
qed (use assms in auto)

text \<open>A sequence of emissions for active subscribers, with movements of the sweep cursor between them.\<close>

inductive emissions :: "(nat \<Rightarrow> u64) \<Rightarrow> MeterEngine \<Rightarrow> MeterEngine \<Rightarrow> bool" for wall where
  emissions_refl: "emissions wall e e"
| emissions_cursor: "emissions wall (e\<lparr>me_sweep_cursor := n, me_last_sweep_ns := w\<rparr>) e' \<Longrightarrow> emissions wall e e'"
| emissions_emit: "idx < me_next_sub e \<Longrightarrow> si_active (me_info e ! idx) \<Longrightarrow>
    sink_step (me_record_sink e) (next_record wall idx reason now_ns e) ok sink \<Longrightarrow> reason \<noteq> kRelease \<Longrightarrow>
    emissions wall (emit_result wall idx reason now_ns ok sink e) e' \<Longrightarrow> emissions wall e e'"

lemma emissions_trans: "emissions wall e e' \<Longrightarrow> emissions wall e' e'' \<Longrightarrow> emissions wall e e''"
  by (induction rule: emissions.induct) (auto intro: emissions.intros)

lemma emit_record_emissions:
  assumes "me_wf e" "idx < me_next_sub e" "si_active (me_info e ! idx)" "reason \<noteq> kRelease"
  shows "\<exists>ok sink. emit_record wall idx reason now_ns e = Some (emit_result wall idx reason now_ns ok sink e) \<and>
    emissions wall e (emit_result wall idx reason now_ns ok sink e) \<and> me_wf (emit_result wall idx reason now_ns ok sink e)"
proof -
  have "idx < length (me_counters e)" using assms(1,2) wf_sizesD(3) [of e] by (simp add: me_wf_def)
  from emit_record_spec [OF assms(1) this, of wall reason now_ns] show ?thesis
    using emissions_emit [OF assms(2,3) _ assms(4) emissions_refl] by blast
qed

lemma poll_one_emissions:
  assumes "me_wf e" "idx < me_next_sub e"
  shows "\<exists>e'. poll_one wall now_ns idx e = Some e' \<and> emissions wall e e' \<and> me_wf e' \<and>
    me_next_sub e' = me_next_sub e \<and> me_cfg e' = me_cfg e \<and> me_sweep_cursor e' = me_sweep_cursor e"
proof -
  have sz: "wf_sizes e" using assms(1) by (simp add: me_wf_def)
  have idx: "idx < length (me_counters e)" "idx < length (me_info e)" using assms(2) wf_sizesD [OF sz] by simp_all
  show ?thesis
  proof (cases "si_active (me_info e ! idx)")
    case False
    then show ?thesis using idx assms(1) by (auto simp: poll_one_def at_index_in intro: emissions_refl)
  next
    case True
    note em = emit_record_emissions [OF assms True]
    have "\<exists>e'. emit_record wall idx reason now_ns e = Some e' \<and> emissions wall e e' \<and> me_wf e' \<and>
        me_next_sub e' = me_next_sub e \<and> me_cfg e' = me_cfg e \<and> me_sweep_cursor e' = me_sweep_cursor e" if "reason \<noteq> kRelease" for reason
      using em [OF that, of wall now_ns] by auto
    then show ?thesis using True idx assms(1) by (auto simp: poll_one_def at_index_in Let_def intro: emissions_refl)
  qed
qed

lemma poll_loop_emissions:
  assumes "me_wf e" "me_next_sub e = live" "0 < live"
  shows "\<exists>e'. poll_loop wall now_ns live n e = Some e' \<and> emissions wall e e' \<and> me_wf e'"
  using assms
proof (induction n arbitrary: e)
  case 0
  then show ?case by (auto intro: emissions_refl)
next
  case (Suc n)
  let ?idx = "if live \<le> me_sweep_cursor e then 0 else me_sweep_cursor e"
  let ?e = "e\<lparr>me_sweep_cursor := ?idx + 1\<rparr>"
  have "me_wf ?e" "?idx < me_next_sub ?e" using Suc.prems by simp_all
  from poll_one_emissions [OF this, of wall now_ns] obtain e1 where
    e1: "poll_one wall now_ns ?idx ?e = Some e1" "emissions wall ?e e1" "me_wf e1" "me_next_sub e1 = live"
    using Suc.prems by auto
  from Suc.IH [OF e1(3,4) Suc.prems(3)] obtain e2 where
    e2: "poll_loop wall now_ns live n e1 = Some e2" "emissions wall e1 e2" "me_wf e2" by blast
  have "emissions wall e e2"
    using emissions_trans [OF e1(2) e2(2)]
    by (intro emissions_cursor [where e = e and n = "?idx + 1" and w = "me_last_sweep_ns e"]) simp
  then show ?case using e1(1) e2 by (simp add: Let_def)
qed

lemma poll_emissions:
  assumes "me_wf e"
  shows "\<exists>e'. poll wall now_ns e = Some e' \<and> emissions wall e e' \<and> me_wf e'"
proof -
  let ?e = "e\<lparr>me_last_sweep_ns := now_ns\<rparr>"
  have em: "emissions wall ?e e' \<Longrightarrow> emissions wall e e'" for e'
    using emissions_cursor [where e = e and n = "me_sweep_cursor e" and w = now_ns and wall = wall] by simp
  have "\<exists>e'. poll_loop wall now_ns (me_next_sub ?e) n ?e = Some e' \<and> emissions wall e e' \<and> me_wf e'" if "0 < me_next_sub e" for n
    using poll_loop_emissions [of ?e "me_next_sub ?e" wall now_ns n] that assms em by auto
  then show ?thesis
    using assms em [OF emissions_refl] by (auto simp: poll_def Let_def intro: emissions_refl)
qed

lemma drain_loop_emissions:
  assumes "me_wf e" "\<forall>i\<in>set is. i < me_next_sub e"
  shows "\<exists>n e'. drain_loop wall now_ns is e = Some (n, e') \<and> emissions wall e e' \<and> me_wf e'"
  using assms
proof (induction "is" arbitrary: e)
  case Nil
  then show ?case by (auto intro: emissions_refl)
next
  case (Cons idx "is")
  have idx: "idx < length (me_counters e)" "idx < length (me_info e)" "idx < me_next_sub e"
    using Cons.prems wf_sizesD [of e] by (auto simp: me_wf_def)
  show ?case
  proof (cases "si_active (me_info e ! idx) \<and> \<not> (sc_ul_bytes (me_counters e ! idx) = si_emitted_ul_bytes (me_info e ! idx) \<and>
      sc_dl_bytes (me_counters e ! idx) = si_emitted_dl_bytes (me_info e ! idx))")
    case False
    then show ?thesis using idx Cons.IH [of e] Cons.prems by (auto simp: at_index_in)
  next
    case True
    from emit_record_emissions [OF Cons.prems(1) idx(3), of kShutdown wall now_ns] True obtain ok sink where
      e1: "emit_record wall idx kShutdown now_ns e = Some (emit_result wall idx kShutdown now_ns ok sink e)"
      "emissions wall e (emit_result wall idx kShutdown now_ns ok sink e)"
      "me_wf (emit_result wall idx kShutdown now_ns ok sink e)" by blast
    from Cons.IH [OF e1(3)] Cons.prems obtain n e2 where
      e2: "drain_loop wall now_ns is (emit_result wall idx kShutdown now_ns ok sink e) = Some (n, e2)"
      "emissions wall (emit_result wall idx kShutdown now_ns ok sink e) e2" "me_wf e2" by auto
    have "drain_loop wall now_ns (idx # is) e = Some (Suc n, e2)"
      using True idx e1(1) e2(1) by (auto simp: at_index_in)
    then show ?thesis using emissions_trans [OF e1(2) e2(2)] e2(3) by blast
  qed
qed

lemma drain_emissions:
  assumes "me_wf e"
  shows "\<exists>n e'. drain wall now_ns e = Some (n, e') \<and> emissions wall e e' \<and> me_wf e'"
  unfolding drain_def by (rule drain_loop_emissions [OF assms]) simp

subsection \<open>Runs\<close>

text \<open>
  What the threads around the engine ask of it: the control plane installs and releases, the
  metering thread applies events, polls and drains, the reporter takes records off the sink.
\<close>

datatype meter_op =
  Op_Install SessionSpec u64
| Op_Release u64 u64
| Op_Event MeterEvent
| Op_Gy GyEvent
| Op_Poll u64
| Op_Drain u64
| Op_Take

definition take_record :: "MeterEngine \<Rightarrow> MeterEngine option" where
  "take_record e = (case me_record_sink e of None \<Rightarrow> Some e
   | Some q \<Rightarrow> do { (_, q) \<leftarrow> try_pop q; Some (e\<lparr>me_record_sink := Some q\<rparr>) })"

fun meter_step :: "(nat \<Rightarrow> u64) \<Rightarrow> meter_op \<Rightarrow> MeterEngine \<Rightarrow> MeterEngine option" where
  "meter_step wall (Op_Install spec now_ns) e = map_option snd (install_session spec now_ns e)"
| "meter_step wall (Op_Release imsi now_ns) e = map_option snd (release_session wall imsi now_ns e)"
| "meter_step wall (Op_Event ev) e = apply_event ev e"
| "meter_step wall (Op_Gy ev) e = apply_gy ev e"
| "meter_step wall (Op_Poll now_ns) e = poll wall now_ns e"
| "meter_step wall (Op_Drain now_ns) e = map_option snd (drain wall now_ns e)"
| "meter_step wall Op_Take e = take_record e"

fun meter_run :: "(nat \<Rightarrow> u64) \<Rightarrow> meter_op list \<Rightarrow> MeterEngine \<Rightarrow> MeterEngine option" where
  "meter_run wall [] e = Some e"
| "meter_run wall (op # ops) e = do { e \<leftarrow> meter_step wall op e; meter_run wall ops e }"

text \<open>Time stamps come from a monotonic clock and never reach the largest 64-bit value.\<close>

fun op_time_ok :: "meter_op \<Rightarrow> bool" where
  "op_time_ok (Op_Event ev) = (ev_ts_ns ev \<noteq> 0xFFFFFFFFFFFFFFFF)"
| "op_time_ok _ = True"

lemma take_record_wf:
  assumes "me_wf e"
  shows "\<exists>q. take_record e = Some (e\<lparr>me_record_sink := q\<rparr>) \<and> wf_sink q"
proof (cases "me_record_sink e")
  case None
  then show ?thesis by (intro exI [of _ None]) (simp add: take_record_def wf_sink_def)
next
  case (Some q)
  then have "ring_inv q" using assms by (simp add: me_wf_def wf_sink_def)
  from try_pop_spec [OF this] obtain v q' where "try_pop q = Some (v, q')" "ring_inv q'" by blast
  then show ?thesis using Some by (intro exI [of _ "Some q'"]) (simp add: take_record_def wf_sink_def)
qed

lemma meter_step_wf:
  assumes "me_wf e" "op_time_ok op"
  shows "\<exists>e'. meter_step wall op e = Some e' \<and> me_wf e'"
proof (cases op)
  case (Op_Install spec now_ns)
  then show ?thesis using install_session_wf [OF assms(1), of spec now_ns] by auto
next
  case (Op_Release imsi now_ns)
  then show ?thesis using release_session_wf [OF assms(1), of wall imsi now_ns] by auto
next
  case (Op_Event ev)
  then show ?thesis using apply_event_effect [OF assms(1)] assms(2) by fastforce
next
  case (Op_Gy ev)
  then show ?thesis using apply_gy_wf [OF assms(1), of ev] by auto
next
  case (Op_Poll now_ns)
  then show ?thesis using poll_emissions [OF assms(1), of wall now_ns] by auto
next
  case (Op_Drain now_ns)
  then show ?thesis using drain_emissions [OF assms(1), of wall now_ns] by auto
next
  case Op_Take
  then show ?thesis using take_record_wf [OF assms(1)] me_wf_set_sink [OF assms(1)] by auto
qed

text \<open>A property every step keeps holds after every run.\<close>

lemma meter_run_induct:
  assumes "me_wf e" "list_all op_time_ok ops" "P e"
    and "\<And>e op e'. me_wf e \<Longrightarrow> op_time_ok op \<Longrightarrow> P e \<Longrightarrow> meter_step wall op e = Some e' \<Longrightarrow> P e'"
  shows "\<exists>e'. meter_run wall ops e = Some e' \<and> me_wf e' \<and> P e'"
  using assms(1-3)
proof (induction ops arbitrary: e)
  case (Cons op ops)
  obtain e1 where e1: "meter_step wall op e = Some e1" "me_wf e1" using meter_step_wf Cons.prems by fastforce
  have "P e1" using assms(4) Cons.prems e1 by auto
  then show ?case using Cons.IH [OF e1(2)] Cons.prems e1 by auto
qed simp

subsection \<open>New engines\<close>

definition cfg_ok :: "MeterConfig \<Rightarrow> bool" where
  "cfg_ok cfg \<longleftrightarrow> mc_max_subscribers cfg \<le> 2 ^ 32 \<and> 2 * mc_max_subscribers cfg < mc_teid_table_capacity cfg \<and>
     mc_teid_table_capacity cfg \<le> 2 ^ 63 \<and>
     (mc_track_flows cfg \<longrightarrow> mc_flow_table_capacity cfg \<le> 2 ^ 63 \<and> 0 < mc_flow_probe_window cfg)"

lemma round_pow2_power:
  assumes "v \<le> 2 ^ 63"
  shows "\<exists>k\<in>{1..63}. round_pow2 v = 2 ^ k"
proof (cases "v < 2")
  case True
  then show ?thesis by (intro bexI [of _ 1]) (simp_all add: round_pow2_def)
next
  case False
  have "\<exists>k. round_pow2 v = 2 ^ k"
    using False has_single_bit_power [of v] bit_ceil_power [of v] by (auto simp: round_pow2_def)
  then obtain k where k: "round_pow2 v = 2 ^ k" by blast
  have b: "v \<le> round_pow2 v" "round_pow2 v < 2 * v" using False bit_ceil_bounds [of v] by (auto simp: round_pow2_def)
  have "(2 :: nat) ^ k < 2 ^ 64" using assms b(2) k by simp
  then have "k < 64" by (rule power_less_imp_less_exp [rotated]) simp
  moreover have "k \<noteq> 0" using False b(1) k by (cases k) auto
  ultimately show ?thesis using k by (intro bexI [of _ k]) auto
qed

lemma fh_cap_even: "fh_inv t \<Longrightarrow> 8 \<le> fh_cap t \<Longrightarrow> even (fh_cap t)"
proof -
  assume "fh_inv t" "8 \<le> fh_cap t"
  then obtain m where "fh_cap t = 2 ^ m" "m \<noteq> 0" using fh_rep_cap by (fastforce simp: fh_inv_def)
  then show ?thesis by simp
qed

lemma MeterEngine_new_wf:
  assumes "cfg_ok cfg"
  shows "\<exists>e. MeterEngine_new cfg = Some e \<and> me_wf e \<and> me_next_sub e = 0 \<and> me_log e = [] \<and> me_stats e = PipelineStats_init \<and>
    me_counters e = replicate (mc_max_subscribers cfg) SubscriberCounters_init \<and>
    me_info e = replicate (mc_max_subscribers cfg) SubscriberInfo_init \<and> me_cfg e = cfg"
proof -
  let ?nf = "if mc_track_flows cfg then round_pow2 (mc_flow_table_capacity cfg) else 0"
  obtain t where t: "FlatHash_new (mc_teid_table_capacity cfg) TeidBinding_init = Some t" "fh_inv t"
    "fh_map t = Map.empty" "mc_teid_table_capacity cfg \<le> fh_cap t" "8 \<le> fh_cap t"
    using FlatHash_new_spec [of "mc_teid_table_capacity cfg" TeidBinding_init] assms by (auto simp: cfg_ok_def)
  have slack: "2 * mc_max_subscribers cfg + 1 < fh_cap t"
  proof -
    obtain c where "fh_cap t = 2 * c" using fh_cap_even [OF t(2,5)] by blast
    moreover have "2 * mc_max_subscribers cfg < fh_cap t" using assms t(4) by (simp add: cfg_ok_def)
    ultimately show ?thesis by simp
  qed
  have fl: "?nf = 0 \<or> (\<exists>k\<in>{1..63}. ?nf = 2 ^ k) \<and> mc_track_flows cfg"
    using round_pow2_power [of "mc_flow_table_capacity cfg"] assms by (simp add: cfg_ok_def)
  then have nf: "?nf < 2 ^ 64"
  proof
    assume "(\<exists>k\<in>{1..63}. ?nf = 2 ^ k) \<and> mc_track_flows cfg"
    then obtain k where "k \<le> 63" "?nf = 2 ^ k" by auto
    then show ?thesis using power_strict_increasing [of k 64 "2 :: nat"] by simp
  qed simp
  define e where "e = \<lparr>me_cfg = cfg, me_counters = replicate (mc_max_subscribers cfg) SubscriberCounters_init,
       me_info = replicate (mc_max_subscribers cfg) SubscriberInfo_init, me_teid_map = t,
       me_flows = replicate ?nf FlowEntry_init, me_flow_mask = (if ?nf = 0 then 0 else of_nat ?nf - 1),
       me_imsi_index = Map.empty, me_record_sink = None, me_stats = PipelineStats_init, me_next_sub = 0,
       me_sweep_cursor = 0, me_last_sweep_ns = 0, me_wall_reads = 0, me_log = []\<rparr>"
  have "MeterEngine_new cfg = Some e" using t(1) nf by (simp add: MeterEngine_new_def e_def Let_def)
  moreover have "wf_flows e"
    using fl
  proof
    assume "(\<exists>k\<in>{1..63}. ?nf = 2 ^ k) \<and> mc_track_flows cfg"
    then obtain k where k: "k \<in> {1..63}" "?nf = 2 ^ k" "mc_track_flows cfg" by blast
    have "flow_shape k (me_flows e) (me_flow_mask e)" unfolding e_def k(2) using k(1) by (simp add: flow_shape_def)
    moreover have "list_all (\<lambda>f. fl_last_seen_ns f \<noteq> 0xFFFFFFFFFFFFFFFF) (me_flows e)"
      by (simp add: e_def list_all_iff FlowEntry_init_def)
    ultimately show ?thesis using assms k(3) by (auto simp: wf_flows_def cfg_ok_def e_def)
  qed (simp add: wf_flows_def e_def)
  moreover have "wf_sizes e" using assms
    by (simp add: wf_sizes_def e_def cfg_ok_def list_all_iff wf_counters_def wf_info_def SubscriberCounters_init_def SubscriberInfo_init_def)
  ultimately show ?thesis using t(2,3) slack
    by (intro exI [of _ e]) (simp add: me_wf_def e_def wf_index_def wf_table_def wf_bindings_def wf_sink_def SubscriberInfo_init_def)
qed

text \<open>
  C3: The metering engine never fails: with a configuration whose TEID table has room for two
  tunnels per subscriber (which the default configuration has), the constructor succeeds, and every
  sequence of installs, releases, events, charging reports, polls, drains and takes from the record
  sink returns, with no access out of range, no null pointer and no endless loop on the way, and
  leaves the engine well formed.
\<close>

theorem meter_run_safe:
  assumes "cfg_ok cfg" "wf_sink sink" "list_all op_time_ok ops"
  shows "\<exists>e0 e. MeterEngine_new cfg = Some e0 \<and> meter_run wall ops (set_record_sink e0 sink) = Some e \<and> me_wf e"
proof -
  obtain e0 where "MeterEngine_new cfg = Some e0" "me_wf e0" using MeterEngine_new_wf [OF assms(1)] by blast
  then show ?thesis
    using meter_run_induct [of "set_record_sink e0 sink" ops "\<lambda>_. True"] me_wf_set_sink [OF _ assms(2)] assms(3)
    by (auto simp: set_record_sink_def)
qed

theorem meter_run_safe_witness:
  "\<exists>e0 e. MeterEngine_new MeterConfig_init = Some e0 \<and>
     meter_run (\<lambda>_. 0) [Op_Install session_sample 1, Op_Event (MeterEvent_init\<lparr>ev_teid := 4096, ev_bytes := 1400\<rparr>),
       Op_Poll 20000000000, Op_Release 310150123456789 30000000000] (set_record_sink e0 None) = Some e \<and> me_wf e"
  by (rule meter_run_safe) (simp_all add: cfg_ok_def MeterConfig_init_def wf_sink_def MeterEvent_init_def)

end
