(* ===== verification/Meter_Accounting.thy ===== *)
theory Meter_Accounting
  imports Meter_Run
begin

text \<open>
  Conservation of usage in the metering engine. Every quantity the engine meters (bytes and packets,
  up and down) is kept in four places: the pipeline total, the counter of each subscriber, what has been
  reported of that counter, and the records emitted. The locale \<open>ledger\<close> states how one quantity is
  read from each and proves that the total is always the sum of what the records say and what is not
  yet reported; it is interpreted for each of the four quantities. Counters are 64-bit words, and the
  equations hold modulo \<^verbatim>\<open>2^64\<close>.
\<close>

subsection \<open>Sums over the subscriber table\<close>

lemma sum_change_one:
  fixes G G' :: "nat \<Rightarrow> 'a::ab_group_add"
  assumes "k < n" "\<And>i. i < n \<Longrightarrow> i \<noteq> k \<Longrightarrow> G' i = G i"
  shows "(\<Sum>i<n. G' i) = (\<Sum>i<n. G i) - G k + G' k"
proof -
  have "(\<Sum>i<n. G' i) = G' k + (\<Sum>i\<in>{..<n} - {k}. G' i)" using assms(1) by (intro sum.remove) auto
  moreover have "(\<Sum>i<n. G i) = G k + (\<Sum>i\<in>{..<n} - {k}. G i)" using assms(1) by (intro sum.remove) auto
  moreover have "(\<Sum>i\<in>{..<n} - {k}. G' i) = (\<Sum>i\<in>{..<n} - {k}. G i)" using assms(2) by (intro sum.cong) auto
  ultimately show ?thesis by simp
qed

definition same_ledger :: "SubscriberInfo \<Rightarrow> SubscriberInfo \<Rightarrow> bool" where
  "same_ledger i j \<longleftrightarrow> si_emitted_ul_bytes i = si_emitted_ul_bytes j \<and> si_emitted_dl_bytes i = si_emitted_dl_bytes j \<and>
     si_emitted_ul_packets i = si_emitted_ul_packets j \<and> si_emitted_dl_packets i = si_emitted_dl_packets j \<and>
     si_emitted_bucket_bytes i = si_emitted_bucket_bytes j"

definition same_totals :: "PipelineStats \<Rightarrow> PipelineStats \<Rightarrow> bool" where
  "same_totals s t \<longleftrightarrow> st_ul_bytes s = st_ul_bytes t \<and> st_dl_bytes s = st_dl_bytes t \<and>
     st_ul_packets s = st_ul_packets t \<and> st_dl_packets s = st_dl_packets t"

lemma same_books_ledger: "same_books i j \<Longrightarrow> same_ledger i j"
  by (auto simp: same_books_def same_ledger_def)

definition same_emission :: "SubscriberInfo \<Rightarrow> SubscriberInfo \<Rightarrow> bool" where
  "same_emission i j \<longleftrightarrow> same_ledger i j \<and> si_record_seq i = si_record_seq j \<and> si_interval_start_ns i = si_interval_start_ns j"

definition fresh_info :: "SubscriberInfo \<Rightarrow> bool" where
  "fresh_info i \<longleftrightarrow> same_ledger i SubscriberInfo_init \<and> si_record_seq i = 0"

definition all_emitted :: "SubscriberCounters \<Rightarrow> SubscriberInfo \<Rightarrow> bool" where
  "all_emitted c i \<longleftrightarrow> si_emitted_ul_bytes i = sc_ul_bytes c \<and> si_emitted_dl_bytes i = sc_dl_bytes c \<and>
     si_emitted_ul_packets i = sc_ul_packets c \<and> si_emitted_dl_packets i = sc_dl_packets c"

definition row_ok :: "MeterEngine \<Rightarrow> nat \<Rightarrow> bool" where
  "row_ok e i \<longleftrightarrow> i < length (me_counters e) \<and> length (me_info e) = length (me_counters e) \<and>
     length (me_counters e) \<le> 2 ^ 32 \<and> wf_counters (me_counters e ! i) \<and> wf_info (me_info e ! i)"

lemma same_books_emission: "same_books i j \<Longrightarrow> same_emission i j"
  by (auto simp: same_books_def same_ledger_def same_emission_def)

lemma row_okI: "wf_sizes e \<Longrightarrow> i < length (me_counters e) \<Longrightarrow> row_ok e i"
  using wf_sizesD [of e] by (simp add: row_ok_def)

lemma opened_emission:
  "si_active i \<Longrightarrow> same_emission (snd (opened_info spec now_ns i)) i"
  "\<not> si_active i \<Longrightarrow> fresh_info (snd (opened_info spec now_ns i))"
proof -
  let ?o = "(open_session spec now_ns i)\<lparr>si_ul_teid := ss_ul_teid spec, si_dl_teid := ss_dl_teid spec\<rparr>"
  have "same_emission (snd (assign_slot ?o (ss_rating_group spec))) ?o"
    using assign_slot_books [of ?o "ss_rating_group spec"] same_books_emission by (metis prod.collapse)
  then show "si_active i \<Longrightarrow> same_emission (snd (opened_info spec now_ns i)) i"
    "\<not> si_active i \<Longrightarrow> fresh_info (snd (opened_info spec now_ns i))"
    by (simp_all add: opened_info_def same_emission_def same_ledger_def fresh_info_def open_session_def Let_def SubscriberInfo_init_def)
qed

subsection \<open>Invariants of the subscriber table and the records\<close>

text \<open>
  What the operations of the engine do to the subscriber table and the log of records, as seven kinds
  of change: the two of a session that is opened and closed are seen as a whole. A predicate that every
  kind of change keeps holds after every run.
\<close>

locale session_invariant =
  fixes I :: "MeterEngine \<Rightarrow> bool"
  assumes life_new: "me_log e = [] \<Longrightarrow> me_stats e = PipelineStats_init \<Longrightarrow> me_counters e = replicate n SubscriberCounters_init \<Longrightarrow>
      me_info e = replicate n SubscriberInfo_init \<Longrightarrow> I e"
    and life_frame: "I e \<Longrightarrow> me_counters e' = me_counters e \<Longrightarrow> me_info e' = me_info e \<Longrightarrow> me_log e' = me_log e \<Longrightarrow>
      same_totals (me_stats e') (me_stats e) \<Longrightarrow> I e'"
    and life_emit: "I e \<Longrightarrow> row_ok e idx \<Longrightarrow> si_active (me_info e ! idx) \<Longrightarrow> reason \<noteq> kRelease \<Longrightarrow>
      I (emit_result wall idx reason now_ns ok sink e)"
    and life_charge: "I e \<Longrightarrow> row_ok e sub \<Longrightarrow> slot < kBucketSlots \<Longrightarrow> same_books info (me_info e ! sub) \<Longrightarrow> si_active info \<Longrightarrow>
      I (charged ev sub dir slot info oc fs e)"
    and life_open: "I e \<Longrightarrow> row_ok e idx \<Longrightarrow> \<not> si_active (me_info e ! idx) \<Longrightarrow> fresh_info info \<Longrightarrow>
      me_counters e' = (me_counters e)[idx := SubscriberCounters_init] \<Longrightarrow> me_info e' = (me_info e)[idx := info] \<Longrightarrow>
      me_log e' = me_log e \<Longrightarrow> same_totals (me_stats e') (me_stats e) \<Longrightarrow> I e'"
    and life_modify: "I e \<Longrightarrow> row_ok e idx \<Longrightarrow> same_emission info (me_info e ! idx) \<Longrightarrow>
      si_active info = si_active (me_info e ! idx) \<Longrightarrow> me_counters e' = me_counters e \<Longrightarrow>
      me_info e' = (me_info e)[idx := info] \<Longrightarrow> me_log e' = me_log e \<Longrightarrow> same_totals (me_stats e') (me_stats e) \<Longrightarrow> I e'"
    and life_close: "I e \<Longrightarrow> row_ok e idx \<Longrightarrow> si_active (me_info e ! idx) \<Longrightarrow> e1 = emit_result wall idx kRelease now_ns ok sink e \<Longrightarrow>
      me_counters e' = me_counters e1 \<Longrightarrow> me_info e' = (me_info e1)[idx := (me_info e1 ! idx)\<lparr>si_active := False\<rparr>] \<Longrightarrow>
      me_log e' = me_log e1 \<Longrightarrow> same_totals (me_stats e') (me_stats e1) \<Longrightarrow> I e'"
begin

lemma emissions_inv: "emissions wall e e' \<Longrightarrow> I e \<Longrightarrow> me_wf e \<Longrightarrow> I e'"
proof (induction rule: emissions.induct)
  case (emissions_cursor w n e e')
  have "I (e\<lparr>me_sweep_cursor := n, me_last_sweep_ns := w\<rparr>)"
    by (rule life_frame [OF emissions_cursor.prems(1)]) (simp_all add: same_totals_def)
  then show ?case using emissions_cursor by simp
next
  case (emissions_emit idx e reason now_ns ok sink e')
  have sz: "wf_sizes e" using emissions_emit.prems by (simp add: me_wf_def)
  then have row: "row_ok e idx" using emissions_emit.hyps(1) wf_sizesD(3) [OF sz] by (intro row_okI) simp_all
  have "me_wf (emit_result wall idx reason now_ns ok sink e)"
    using emissions_emit.prems(2) row mark_emitted_info sink_step_wf [OF emissions_emit.hyps(3)]
      me_wf_set_info [OF emissions_emit.prems(2), of "mark_emitted now_ns (me_counters e ! idx) (me_info e ! idx)" idx]
    by (simp add: emit_result_def row_ok_def wf_defs)
  then show ?case using emissions_emit life_emit [OF _ row emissions_emit.hyps(2,4)] by simp
qed simp

lemma install_inv:
  assumes wf: "me_wf e" and b: "I e" and st: "install_session spec now_ns e = Some (r, e')"
  shows "I e'"
proof (cases "session_valid spec \<and> install_index spec e \<noteq> None")
  case False
  then have "install_session spec now_ns e = Some (None, e)"
    by (cases "session_valid spec") (simp_all add: install_session_def del: not_None_eq)
  then show ?thesis using st b by simp
next
  case True
  then obtain idx e1 where v: "session_valid spec" "install_index spec e = Some (idx, e1)" by auto
  from install_session_spec [OF wf this, of now_ns] obtain t where e': "e' = installed spec now_ns idx t e1" using st by auto
  note fr = install_index_frame [OF v(2)]
  have st': "same_totals (me_stats e1) (me_stats e)" using v(2) by (auto elim!: install_index_cases simp: same_totals_def)
  have sz: "wf_sizes e" using wf by (simp add: me_wf_def)
  have row: "row_ok e idx" by (rule row_okI [OF sz install_index_bound [OF wf v(2)]])
  note op = opened_emission [of "me_info e ! idx" spec now_ns]
  show ?thesis
  proof (cases "si_active (me_info e ! idx)")
    case True
    have "si_active (snd (opened_info spec now_ns (me_info e ! idx)))" using row opened_info_simps(2) by (simp add: row_ok_def)
    then show ?thesis using True st' life_modify [OF b row op(1) [OF True], of e'] by (simp add: e' installed_def fr)
  next
    case False
    then show ?thesis using st' life_open [OF b row False op(2) [OF False], of e'] by (simp add: e' installed_def fr)
  qed
qed

lemma release_inv:
  assumes wf: "me_wf e" and b: "I e" and st: "release_session wall imsi now_ns e = Some (r, e')"
  shows "I e'"
proof (cases "\<exists>idx. me_imsi_index e imsi = Some idx \<and> si_active (me_info e ! idx)")
  case True
  then obtain idx where ix: "me_imsi_index e imsi = Some idx" "si_active (me_info e ! idx)" by blast
  from release_session_spec [OF wf ix, of wall now_ns] obtain ok sink t where
    e': "e' = released wall idx now_ns ok sink t e" using st by auto
  have W: "wf_index (me_imsi_index e) (me_next_sub e) (me_info e)" and sz: "wf_sizes e" using wf by (simp_all add: me_wf_def)
  have row: "row_ok e idx" using wf_indexD(2) [OF W ix(1)] wf_sizesD [OF sz] by (intro row_okI [OF sz]) simp
  then show ?thesis
    by (intro life_close [OF b row ix(2) refl, of e' wall now_ns ok sink])
      (simp_all add: e' released_def Let_def same_totals_def count_record_def)
next
  case False
  have "e' = e"
  proof (cases "me_imsi_index e imsi")
    case (Some idx)
    then have "\<not> si_active (me_info e ! idx)" using False by blast
    then show ?thesis using st Some by (auto simp: release_session_def at_index_def split: if_splits)
  qed (use st in \<open>simp add: release_session_def\<close>)
  then show ?thesis using b by simp
qed

lemma looked_up_inv: "I e \<Longrightarrow> I (looked_up ev t e)"
  by (erule life_frame) (simp_all add: looked_up_def count_event_def same_totals_def)

lemma event_inv:
  assumes wf: "me_wf e" and b: "I e" and ef: "event_effect ev e e'"
  shows "I e'"
proof -
  have sz: "wf_sizes e" and W: "wf_index (me_imsi_index e) (me_next_sub e) (me_info e)" using wf by (simp_all add: me_wf_def)
  from ef show ?thesis
  proof cases
    case event_control
    then show ?thesis using b by (auto intro!: life_frame [OF b] simp: count_event_def same_totals_def)
  next
    case (event_unknown t)
    then show ?thesis using b
      by (auto intro!: life_frame [OF b] simp: count_unknown_def looked_up_def count_event_def same_totals_def)
  next
    case (event_bound b' t slot info oc fs)
    have "binding_ok (me_next_sub e) (me_info e) (ev_teid ev) b'" using wf event_bound(3) by (simp add: me_wf_def wf_bindings_def)
    then have a: "unat (tb_sub_idx b') < length (me_counters e)" "si_active (me_info e ! unat (tb_sub_idx b'))"
      using wf_sizesD(3) [OF sz] by (simp_all add: binding_ok_def Let_def)
    have "row_ok (looked_up ev t e) (unat (tb_sub_idx b'))" using row_okI [OF sz a(1)] by (simp add: row_ok_def)
    then show ?thesis unfolding event_bound(1)
      using life_charge [OF looked_up_inv [OF b], of ev t] event_bound(5,6) a(2) same_books_identity [OF event_bound(6)]
      by (simp add: same_identity_def)
  next
    case (event_learned slot info oc fs t u)
    let ?n = "me_next_sub e"
    have n: "?n < length (me_counters e)" using event_learned(5) sz by (simp add: wf_sizes_def)
    note row = row_okI [OF sz n]
    have na: "\<not> si_active (me_info e ! ?n)" using wf_indexD(1) [OF W, of ?n] row by (simp add: row_ok_def)
    have fresh: "fresh_info (snd (learned_info ev))"
      using learned_info_simps [of ev] by (simp add: fresh_info_def same_ledger_def SubscriberInfo_init_def)
    have row1: "row_ok (looked_up ev u e) ?n" using row by (simp add: row_ok_def)
    have "I (learned ev t (looked_up ev u e))"
      using life_open [OF looked_up_inv [OF b] row1 _ fresh, of "learned ev t (looked_up ev u e)"] na
      by (simp add: learned_def same_totals_def)
    moreover have "row_ok (learned ev t (looked_up ev u e)) ?n" using row learned_info_simps(1)
      by (simp add: row_ok_def learned_def wf_counters_def SubscriberCounters_init_def)
    moreover have "me_info (learned ev t (looked_up ev u e)) ! ?n = snd (learned_info ev)"
      using row by (simp add: learned_def row_ok_def)
    ultimately show ?thesis unfolding event_learned(1)
      using life_charge event_learned(6,7) same_books_identity [OF event_learned(7)] learned_info_simps(2) [of ev]
      by (simp add: same_identity_def)
  qed
qed

lemma gy_inv:
  assumes wf: "me_wf e" and b: "I e" and st: "apply_gy ev e = Some e'"
  shows "I e'"
proof (rule apply_gy_cases [OF wf, of ev])
  assume "apply_gy ev e = Some (upd_stats (\<lambda>s. s\<lparr>st_gy_events := st_gy_events s + 1\<rparr>) e)"
  then show ?thesis using st by (auto intro!: life_frame [OF b] simp: same_totals_def)
next
  fix idx info
  assume idx: "idx < length (me_counters e)" and i: "info = (me_info e ! idx)\<lparr>si_gy_reported_octets := si_gy_reported_octets (me_info e ! idx) + gy_used_total_octets ev,
       si_gy_last_ns := gy_ts_ns ev, si_gy_reports := si_gy_reports (me_info e ! idx) + 1\<rparr>"
    and a: "apply_gy ev e = Some (upd_stats (\<lambda>s. s\<lparr>st_gy_events := st_gy_events s + 1,
       st_gy_reported_octets := st_gy_reported_octets s + gy_used_total_octets ev\<rparr>) (e\<lparr>me_info := (me_info e)[idx := info]\<rparr>))"
  have row: "row_ok e idx" using wf idx by (intro row_okI) (simp_all add: me_wf_def)
  have l: "same_emission info (me_info e ! idx)" "si_active info = si_active (me_info e ! idx)"
    by (simp_all add: i same_emission_def same_ledger_def)
  have "me_counters e' = me_counters e" "me_info e' = (me_info e)[idx := info]" "me_log e' = me_log e"
    "same_totals (me_stats e') (me_stats e)" using a st by (auto simp: same_totals_def)
  then show ?thesis by (rule life_modify [OF b row l])
qed

lemma step_inv:
  assumes wf: "me_wf e" and ok: "op_time_ok op" and b: "I e" and st: "meter_step wall op e = Some e'"
  shows "I e'"
proof (cases op)
  case (Op_Install spec now_ns)
  then show ?thesis using install_inv [OF wf b] st by auto
next
  case (Op_Release imsi now_ns)
  then show ?thesis using release_inv [OF wf b] st by auto
next
  case (Op_Event ev)
  then show ?thesis using apply_event_effect [OF wf, of ev] event_inv [OF wf b] st ok by auto
next
  case (Op_Gy ev)
  then show ?thesis using gy_inv [OF wf b] st by simp
next
  case (Op_Poll now_ns)
  then show ?thesis using poll_emissions [OF wf, of wall now_ns] emissions_inv [OF _ b wf] st by auto
next
  case (Op_Drain now_ns)
  then show ?thesis using drain_emissions [OF wf, of wall now_ns] emissions_inv [OF _ b wf] st by auto
next
  case Op_Take
  then show ?thesis using take_record_wf [OF wf] st by (auto intro!: life_frame [OF b] simp: same_totals_def)
qed

lemma run_inv:
  assumes "cfg_ok cfg" "wf_sink sink" "list_all op_time_ok ops"
  shows "\<exists>e0 e. MeterEngine_new cfg = Some e0 \<and> meter_run wall ops (set_record_sink e0 sink) = Some e \<and> me_wf e \<and> I e"
proof -
  obtain e0 where e0: "MeterEngine_new cfg = Some e0" "me_wf e0" "me_log e0 = []" "me_stats e0 = PipelineStats_init"
    "me_counters e0 = replicate (mc_max_subscribers cfg) SubscriberCounters_init"
    "me_info e0 = replicate (mc_max_subscribers cfg) SubscriberInfo_init" using MeterEngine_new_wf [OF assms(1)] by blast
  have inv: "I (set_record_sink e0 sink)"
    by (rule life_new [where n = "mc_max_subscribers cfg"]) (simp_all add: set_record_sink_def e0)
  have wf: "me_wf (set_record_sink e0 sink)" using me_wf_set_sink [OF e0(2) assms(2)] by (simp add: set_record_sink_def)
  have "\<exists>e. meter_run wall ops (set_record_sink e0 sink) = Some e \<and> me_wf e \<and> I e"
    by (rule meter_run_induct [where P = I, OF wf assms(3) inv step_inv])
  then show ?thesis using e0(1) by blast
qed

end

text \<open>
  Most predicates do not care why a record is cut or for whom: they are kept by any emission, and by closing
  a subscriber that has nothing left to report.
\<close>

locale engine_invariant =
  fixes I :: "MeterEngine \<Rightarrow> bool"
  assumes new_inv: "me_log e = [] \<Longrightarrow> me_stats e = PipelineStats_init \<Longrightarrow> me_counters e = replicate n SubscriberCounters_init \<Longrightarrow>
      me_info e = replicate n SubscriberInfo_init \<Longrightarrow> I e"
    and frame_inv: "I e \<Longrightarrow> me_counters e' = me_counters e \<Longrightarrow> me_info e' = me_info e \<Longrightarrow> me_log e' = me_log e \<Longrightarrow>
      same_totals (me_stats e') (me_stats e) \<Longrightarrow> I e'"
    and emit_inv: "I e \<Longrightarrow> row_ok e idx \<Longrightarrow> I (emit_result wall idx reason now_ns ok sink e)"
    and charge_inv: "I e \<Longrightarrow> row_ok e sub \<Longrightarrow> slot < kBucketSlots \<Longrightarrow> same_books info (me_info e ! sub) \<Longrightarrow> si_active info \<Longrightarrow>
      I (charged ev sub dir slot info oc fs e)"
    and reset_inv: "I e \<Longrightarrow> row_ok e idx \<Longrightarrow> \<not> si_active (me_info e ! idx) \<Longrightarrow> fresh_info info \<Longrightarrow>
      me_counters e' = (me_counters e)[idx := SubscriberCounters_init] \<Longrightarrow> me_info e' = (me_info e)[idx := info] \<Longrightarrow>
      me_log e' = me_log e \<Longrightarrow> same_totals (me_stats e') (me_stats e) \<Longrightarrow> I e'"
    and modify_inv: "I e \<Longrightarrow> row_ok e idx \<Longrightarrow> same_emission info (me_info e ! idx) \<Longrightarrow>
      si_active info \<or> \<not> si_active (me_info e ! idx) \<Longrightarrow> me_counters e' = me_counters e \<Longrightarrow>
      me_info e' = (me_info e)[idx := info] \<Longrightarrow> me_log e' = me_log e \<Longrightarrow> same_totals (me_stats e') (me_stats e) \<Longrightarrow> I e'"
    and close_inv: "I e \<Longrightarrow> row_ok e idx \<Longrightarrow> all_emitted (me_counters e ! idx) (me_info e ! idx) \<Longrightarrow>
      me_counters e' = me_counters e \<Longrightarrow> me_info e' = (me_info e)[idx := (me_info e ! idx)\<lparr>si_active := False\<rparr>] \<Longrightarrow>
      me_log e' = me_log e \<Longrightarrow> same_totals (me_stats e') (me_stats e) \<Longrightarrow> I e'"

lemma row_ok_emit: "row_ok e idx \<Longrightarrow> row_ok (emit_result wall idx reason now_ns ok sink e) idx"
  using mark_emitted_info by (simp add: row_ok_def)

lemma all_emitted_emit:
  "row_ok e idx \<Longrightarrow> all_emitted (me_counters (emit_result wall idx reason now_ns ok sink e) ! idx)
     (me_info (emit_result wall idx reason now_ns ok sink e) ! idx)"
  by (simp add: row_ok_def all_emitted_def mark_emitted_def)

sublocale engine_invariant \<subseteq> session_invariant I
proof
  show "I e'" if "I e" "row_ok e idx" "e1 = emit_result wall idx kRelease now_ns ok sink e" "me_counters e' = me_counters e1"
    "me_info e' = (me_info e1)[idx := (me_info e1 ! idx)\<lparr>si_active := False\<rparr>]" "me_log e' = me_log e1"
    "same_totals (me_stats e') (me_stats e1)" for e idx e1 wall now_ns ok sink e'
    using close_inv [OF emit_inv [OF that(1,2)] row_ok_emit [OF that(2)] all_emitted_emit [OF that(2)]] that(3-7) by blast
  show "I e'" if "I e" "row_ok e idx" "same_emission info (me_info e ! idx)" "si_active info = si_active (me_info e ! idx)"
    "me_counters e' = me_counters e" "me_info e' = (me_info e)[idx := info]" "me_log e' = me_log e"
    "same_totals (me_stats e') (me_stats e)" for e idx info e'
    using modify_inv [OF that(1-3) _ that(5-8)] that(4) by simp
  show "I (emit_result wall idx reason now_ns ok sink e)" if "I e" "row_ok e idx" for e idx wall reason now_ns ok sink
    using that by (rule emit_inv)
qed (fact new_inv frame_inv charge_inv reset_inv)+

text \<open>What is metered and not yet in a record, and what the records add up to.\<close>

definition unreported :: "(SubscriberCounters \<Rightarrow> u64) \<Rightarrow> (SubscriberInfo \<Rightarrow> u64) \<Rightarrow> MeterEngine \<Rightarrow> u64" where
  "unreported cnt emt e = (\<Sum>i<length (me_counters e). cnt (me_counters e ! i) - emt (me_info e ! i))"

definition reported :: "(UsageRecord \<Rightarrow> u64) \<Rightarrow> MeterEngine \<Rightarrow> u64" where
  "reported rec e = sum_list (List.map (\<lambda>(r, ok). rec r) (me_log e))"

subsection \<open>One quantity\<close>

locale ledger =
  fixes amt :: "u8 \<Rightarrow> MeterEvent \<Rightarrow> u64" and cnt :: "SubscriberCounters \<Rightarrow> u64" and emt :: "SubscriberInfo \<Rightarrow> u64"
    and rec :: "UsageRecord \<Rightarrow> u64" and tot :: "PipelineStats \<Rightarrow> u64"
  assumes cnt_init: "cnt SubscriberCounters_init = 0" and emt_init: "emt SubscriberInfo_init = 0"
    and tot_init: "tot PipelineStats_init = 0"
    and cnt_charge: "cnt (charged_counters ev dir slot c) = cnt c + amt dir ev"
    and tot_charge: "tot (count_direction dir ev s) = tot s + amt dir ev"
    and rec_make: "rec (make_record w idx reason now_ns c i) = cnt c - emt i"
    and emt_all: "all_emitted c i \<Longrightarrow> emt i = cnt c"
    and emt_same: "same_ledger i j \<Longrightarrow> emt i = emt j"
    and tot_same: "same_totals s t \<Longrightarrow> tot s = tot t"
begin


lemma emt_mark: "emt (mark_emitted now_ns c i) = cnt c"
  by (rule emt_all) (simp add: all_emitted_def mark_emitted_def)

definition balanced :: "MeterEngine \<Rightarrow> bool" where
  "balanced e \<longleftrightarrow> tot (me_stats e) = reported rec e + unreported cnt emt e \<and>
     (\<forall>i<length (me_counters e). \<not> si_active (me_info e ! i) \<longrightarrow> cnt (me_counters e ! i) = emt (me_info e ! i))"

lemma balancedD:
  "balanced e \<Longrightarrow> tot (me_stats e) = reported rec e + unreported cnt emt e"
  "balanced e \<Longrightarrow> i < length (me_counters e) \<Longrightarrow> \<not> si_active (me_info e ! i) \<Longrightarrow> cnt (me_counters e ! i) = emt (me_info e ! i)"
  by (simp_all add: balanced_def)

text \<open>A change of one subscriber, with what it adds to the total and to the log.\<close>

lemma balanced_update:
  assumes b: "balanced e" and k: "k < length (me_counters e)" "length (me_info e) = length (me_counters e)"
    and c: "me_counters e' = (me_counters e)[k := c]" and i: "me_info e' = (me_info e)[k := j]"
    and s: "tot (me_stats e') = tot (me_stats e) + a" and l: "me_log e' = me_log e @ rs"
    and bal: "cnt c - emt j + sum_list (List.map (\<lambda>(r, ok). rec r) rs) = cnt (me_counters e ! k) - emt (me_info e ! k) + a"
    and cl: "\<not> si_active j \<Longrightarrow> cnt c = emt j"
  shows "balanced e'"
proof -
  have "unreported cnt emt e' = unreported cnt emt e - (cnt (me_counters e ! k) - emt (me_info e ! k)) + (cnt c - emt j)"
    unfolding unreported_def c i using k
      sum_change_one [of k "length (me_counters e)" "\<lambda>n. cnt ((me_counters e)[k := c] ! n) - emt ((me_info e)[k := j] ! n)"
        "\<lambda>n. cnt (me_counters e ! n) - emt (me_info e ! n)"] by simp
  moreover have "reported rec e' = reported rec e + sum_list (List.map (\<lambda>(r, ok). rec r) rs)" by (simp add: reported_def l)
  ultimately have "reported rec e' + unreported cnt emt e' = reported rec e + unreported cnt emt e +
      ((cnt c - emt j + sum_list (List.map (\<lambda>(r, ok). rec r) rs)) - (cnt (me_counters e ! k) - emt (me_info e ! k)))"
    by (simp add: algebra_simps)
  also have "\<dots> = tot (me_stats e')" unfolding bal s balancedD(1) [OF b] by simp
  finally have "tot (me_stats e') = reported rec e' + unreported cnt emt e'" by (rule sym)
  moreover have "cnt (me_counters e' ! n) = emt (me_info e' ! n)"
    if "n < length (me_counters e')" "\<not> si_active (me_info e' ! n)" for n
    using that balancedD(2) [OF b, of n] cl k by (cases "n = k") (simp_all add: c i)
  ultimately show ?thesis by (simp add: balanced_def)
qed

lemma balanced_frame:
  assumes "balanced e" "me_counters e' = me_counters e" "me_info e' = me_info e" "me_log e' = me_log e"
    "same_totals (me_stats e') (me_stats e)"
  shows "balanced e'"
  using assms tot_same [OF assms(5)] by (simp add: balanced_def unreported_def reported_def)

lemma emit_balanced:
  assumes "balanced e" "idx < length (me_counters e)" "length (me_info e) = length (me_counters e)"
  shows "balanced (emit_result wall idx reason now_ns ok sink e)"
proof (rule balanced_update [OF assms, where c = "me_counters e ! idx" and a = 0])
  show "me_info (emit_result wall idx reason now_ns ok sink e) =
      (me_info e)[idx := mark_emitted now_ns (me_counters e ! idx) (me_info e ! idx)]" by simp
  have "same_totals (count_record ok (me_stats e)) (me_stats e)" by (simp add: same_totals_def count_record_def)
  then show "tot (me_stats (emit_result wall idx reason now_ns ok sink e)) = tot (me_stats e) + 0" by (simp add: tot_same)
  show "me_log (emit_result wall idx reason now_ns ok sink e) = me_log e @ [(next_record wall idx reason now_ns e, ok)]" by simp
qed (simp_all add: emt_mark rec_make next_record_def)

lemma charge_balanced:
  assumes "balanced e" "sub < length (me_counters e)" "length (me_info e) = length (me_counters e)"
    "same_ledger info (me_info e ! sub)" "si_active info"
  shows "balanced (charged ev sub dir slot info oc fs e)"
proof (rule balanced_update [OF assms(1-3), where a = "amt dir ev" and rs = "[]" and j = info and
      c = "charged_counters ev dir slot (me_counters e ! sub)"])
  have "same_totals (count_flow oc (count_direction dir ev (me_stats e))) (count_direction dir ev (me_stats e))"
    by (simp add: same_totals_def count_flow_def split: flow_outcome.split)
  then show "tot (me_stats (charged ev sub dir slot info oc fs e)) = tot (me_stats e) + amt dir ev"
    by (simp add: charged_def tot_same tot_charge)
qed (simp_all add: charged_def cnt_charge emt_same [OF assms(4)] assms(5) algebra_simps)

lemma reset_balanced:
  assumes "balanced e" "idx < length (me_counters e)" "length (me_info e) = length (me_counters e)"
    "\<not> si_active (me_info e ! idx)" "same_ledger info SubscriberInfo_init"
    "me_counters e' = (me_counters e)[idx := SubscriberCounters_init]" "me_info e' = (me_info e)[idx := info]"
    "me_log e' = me_log e" "same_totals (me_stats e') (me_stats e)"
  shows "balanced e'"
proof (rule balanced_update [OF assms(1-3,6,7), where a = 0 and rs = "[]"])
  show "cnt SubscriberCounters_init - emt info + sum_list (List.map (\<lambda>(r, ok). rec r) []) =
      cnt (me_counters e ! idx) - emt (me_info e ! idx) + 0"
    using balancedD(2) [OF assms(1,2,4)] by (simp add: cnt_init emt_same [OF assms(5)] emt_init)
qed (simp_all add: assms(8) tot_same [OF assms(9)] cnt_init emt_same [OF assms(5)] emt_init)

lemma info_balanced:
  assumes "balanced e" "idx < length (me_counters e)" "length (me_info e) = length (me_counters e)"
    "same_ledger info (me_info e ! idx)" "si_active info \<or> \<not> si_active (me_info e ! idx)"
    "me_counters e' = me_counters e" "me_info e' = (me_info e)[idx := info]"
    "me_log e' = me_log e" "same_totals (me_stats e') (me_stats e)"
  shows "balanced e'"
proof (rule balanced_update [OF assms(1-3) _ assms(7), where a = 0 and rs = "[]" and c = "me_counters e ! idx"])
  show "\<not> si_active info \<Longrightarrow> cnt (me_counters e ! idx) = emt info"
    using assms(4,5) balancedD(2) [OF assms(1,2)] emt_same by auto
qed (simp_all add: assms(6,8) tot_same [OF assms(9)] emt_same [OF assms(4)])

lemma close_balanced:
  assumes "balanced e" "idx < length (me_counters e)" "length (me_info e) = length (me_counters e)"
    "all_emitted (me_counters e ! idx) (me_info e ! idx)" "me_counters e' = me_counters e"
    "me_info e' = (me_info e)[idx := (me_info e ! idx)\<lparr>si_active := False\<rparr>]"
    "me_log e' = me_log e" "same_totals (me_stats e') (me_stats e)"
  shows "balanced e'"
proof -
  let ?j = "(me_info e ! idx)\<lparr>si_active := False\<rparr>"
  have "emt ?j = cnt (me_counters e ! idx)" "emt (me_info e ! idx) = cnt (me_counters e ! idx)"
    using assms(4) by (auto intro!: emt_all simp: all_emitted_def)
  then show ?thesis
    by (intro balanced_update [OF assms(1-3) _ assms(6), where a = 0 and rs = "[]" and c = "me_counters e ! idx"])
      (simp_all add: assms(5,7) tot_same [OF assms(8)])
qed

end

sublocale ledger \<subseteq> books: engine_invariant balanced
proof
  show "balanced e" if "me_log e = []" "me_stats e = PipelineStats_init" "me_counters e = replicate n SubscriberCounters_init"
    "me_info e = replicate n SubscriberInfo_init" for e n
    using that by (simp add: balanced_def unreported_def reported_def tot_init cnt_init emt_init)
  show "balanced e'" if "balanced e" "row_ok e idx" "all_emitted (me_counters e ! idx) (me_info e ! idx)"
    "me_counters e' = me_counters e" "me_info e' = (me_info e)[idx := (me_info e ! idx)\<lparr>si_active := False\<rparr>]"
    "me_log e' = me_log e" "same_totals (me_stats e') (me_stats e)" for e idx e'
    using that close_balanced [of e idx e'] by (simp add: row_ok_def)
  show "balanced (emit_result wall idx reason now_ns ok sink e)" if "balanced e" "row_ok e idx" for e idx wall reason now_ns ok sink
    using that emit_balanced by (simp add: row_ok_def)
  show "balanced (charged ev sub dir slot info oc fs e)"
    if "balanced e" "row_ok e sub" "slot < kBucketSlots" "same_books info (me_info e ! sub)" "si_active info"
    for e sub slot info ev dir oc fs
    using that charge_balanced same_books_ledger by (simp add: row_ok_def)
  show "balanced e'" if "balanced e" "row_ok e idx" "\<not> si_active (me_info e ! idx)" "fresh_info info"
    "me_counters e' = (me_counters e)[idx := SubscriberCounters_init]" "me_info e' = (me_info e)[idx := info]"
    "me_log e' = me_log e" "same_totals (me_stats e') (me_stats e)" for e idx info e'
    using that reset_balanced [of e idx info e'] by (simp add: row_ok_def fresh_info_def)
  show "balanced e'" if "balanced e" "row_ok e idx" "same_emission info (me_info e ! idx)"
    "si_active info \<or> \<not> si_active (me_info e ! idx)" "me_counters e' = me_counters e"
    "me_info e' = (me_info e)[idx := info]" "me_log e' = me_log e" "same_totals (me_stats e') (me_stats e)" for e idx info e'
    using that info_balanced [of e idx info e'] by (simp add: row_ok_def same_emission_def)
qed (rule balanced_frame)

subsection \<open>The four quantities\<close>

lemmas ledger_simps = SubscriberCounters_init_def SubscriberInfo_init_def PipelineStats_init_def charged_counters_def
  charge_direction_def count_direction_def make_record_def all_emitted_def same_ledger_def same_totals_def

interpretation ul_bytes: ledger "\<lambda>dir ev. if dir = direction_code kDownlink then 0 else ucast (ev_bytes ev)"
    sc_ul_bytes si_emitted_ul_bytes ur_ul_bytes st_ul_bytes
  by unfold_locales (simp_all add: ledger_simps)

interpretation dl_bytes: ledger "\<lambda>dir ev. if dir = direction_code kDownlink then ucast (ev_bytes ev) else 0"
    sc_dl_bytes si_emitted_dl_bytes ur_dl_bytes st_dl_bytes
  by unfold_locales (simp_all add: ledger_simps)

interpretation ul_packets: ledger "\<lambda>dir ev. if dir = direction_code kDownlink then 0 else 1"
    sc_ul_packets si_emitted_ul_packets ur_ul_packets st_ul_packets
  by unfold_locales (simp_all add: ledger_simps)

interpretation dl_packets: ledger "\<lambda>dir ev. if dir = direction_code kDownlink then 1 else 0"
    sc_dl_packets si_emitted_dl_packets ur_dl_packets st_dl_packets
  by unfold_locales (simp_all add: ledger_simps)

text \<open>
  C1: No metered usage is lost or reported twice. After any run of the engine, for bytes and for
  packets, up and down, the total the pipeline has metered is the sum over all records emitted so
  far (delivered to the sink or not) plus the sum over subscribers of what has been counted and not
  yet put in a record, across releases, re-installs, learned subscribers and evicted flows.
\<close>

theorem meter_conservation:
  assumes "cfg_ok cfg" "wf_sink sink" "list_all op_time_ok ops"
  shows "\<exists>e0 e. MeterEngine_new cfg = Some e0 \<and> meter_run wall ops (set_record_sink e0 sink) = Some e \<and>
    st_ul_bytes (me_stats e) = reported ur_ul_bytes e + unreported sc_ul_bytes si_emitted_ul_bytes e \<and>
    st_dl_bytes (me_stats e) = reported ur_dl_bytes e + unreported sc_dl_bytes si_emitted_dl_bytes e \<and>
    st_ul_packets (me_stats e) = reported ur_ul_packets e + unreported sc_ul_packets si_emitted_ul_packets e \<and>
    st_dl_packets (me_stats e) = reported ur_dl_packets e + unreported sc_dl_packets si_emitted_dl_packets e"
proof -
  note B = ul_bytes.books.run_inv [OF assms, of wall] dl_bytes.books.run_inv [OF assms, of wall]
    ul_packets.books.run_inv [OF assms, of wall] dl_packets.books.run_inv [OF assms, of wall]
  from B(1) obtain e0 e where e: "MeterEngine_new cfg = Some e0" "meter_run wall ops (set_record_sink e0 sink) = Some e"
    "ul_bytes.balanced e" by blast
  moreover have "dl_bytes.balanced e" "ul_packets.balanced e" "dl_packets.balanced e" using B(2-4) e(1,2) by auto
  ultimately show ?thesis
    using ul_bytes.balancedD(1) dl_bytes.balancedD(1) ul_packets.balancedD(1) dl_packets.balancedD(1) by blast
qed

definition sample_ops :: "meter_op list" where
  "sample_ops = [Op_Install session_sample 1, Op_Event (MeterEvent_init\<lparr>ev_teid := 4096, ev_bytes := 1400\<rparr>),
     Op_Poll 20000000000, Op_Event (MeterEvent_init\<lparr>ev_teid := 8192, ev_bytes := 60\<rparr>), Op_Release 310150123456789 30000000000]"

lemma sample_ops_ok: "list_all op_time_ok sample_ops" "cfg_ok MeterConfig_init" "wf_sink None"
  by (simp_all add: sample_ops_def MeterEvent_init_def cfg_ok_def MeterConfig_init_def wf_sink_def)

theorem meter_conservation_witness:
  "\<exists>e0 e. MeterEngine_new MeterConfig_init = Some e0 \<and> meter_run (\<lambda>_. 0) sample_ops (set_record_sink e0 None) = Some e \<and>
    st_ul_bytes (me_stats e) = reported ur_ul_bytes e + unreported sc_ul_bytes si_emitted_ul_bytes e"
  using meter_conservation [OF sample_ops_ok(2,3,1), of "\<lambda>_. 0"] by blast

subsection \<open>Buckets\<close>

text \<open>The bytes of a subscriber and of a record are split over its buckets without remainder.\<close>

definition split_ok :: "SubscriberCounters \<Rightarrow> SubscriberInfo \<Rightarrow> bool" where
  "split_ok c i \<longleftrightarrow> sum_list (sc_bucket_bytes c) = sc_ul_bytes c + sc_dl_bytes c \<and>
     sum_list (si_emitted_bucket_bytes i) = si_emitted_ul_bytes i + si_emitted_dl_bytes i"

definition record_split_ok :: "UsageRecord \<Rightarrow> bool" where
  "record_split_ok r \<longleftrightarrow> sum_list (ur_bucket_bytes r) = ur_ul_bytes r + ur_dl_bytes r"

definition buckets_ok :: "MeterEngine \<Rightarrow> bool" where
  "buckets_ok e \<longleftrightarrow> (\<forall>i<length (me_counters e). split_ok (me_counters e ! i) (me_info e ! i)) \<and>
     (\<forall>(r, ok)\<in>set (me_log e). record_split_ok r)"

lemma three_slots: "length xs = 3 \<Longrightarrow> \<exists>a b c. xs = [a, b, c]"
  by (auto simp: numeral_3_eq_3 length_Suc_conv)

lemma buckets_update:
  assumes "buckets_ok e" "length (me_info e) = length (me_counters e)"
    "me_counters e' = (me_counters e)[k := c]" "me_info e' = (me_info e)[k := j]" "split_ok c j"
    "me_log e' = me_log e @ rs" "\<forall>(r, ok)\<in>set rs. record_split_ok r"
  shows "buckets_ok e'"
proof -
  have "split_ok ((me_counters e)[k := c] ! n) ((me_info e)[k := j] ! n)" if "n < length (me_counters e)" for n
    using assms(1,2,5) that by (cases "n = k") (simp_all add: buckets_ok_def)
  then show ?thesis using assms by (auto simp: buckets_ok_def)
qed

lemma buckets_frame:
  assumes "buckets_ok e" "me_counters e' = me_counters e" "me_info e' = me_info e" "me_log e' = me_log e"
  shows "buckets_ok e'"
  using assms by (simp add: buckets_ok_def)

lemma split_charge:
  assumes "split_ok c i" "wf_counters c" "slot < kBucketSlots" "same_ledger j i"
  shows "split_ok (charged_counters ev dir slot c) j"
proof -
  obtain x y z where b: "sc_bucket_bytes c = [x, y, z]" using three_slots [of "sc_bucket_bytes c"] assms(2) by (auto simp: wf_counters_def)
  have "slot = 0 \<or> slot = 1 \<or> slot = 2" using assms(3) by auto
  then have "sum_list (sc_bucket_bytes (charged_counters ev dir slot c)) = sum_list (sc_bucket_bytes c) + ucast (ev_bytes ev)"
    by (auto simp: charged_counters_def b)
  then show ?thesis using assms(1,4)
    by (simp add: split_ok_def same_ledger_def charged_counters_def charge_direction_def algebra_simps)
qed

lemma split_emit:
  assumes "split_ok c i" "wf_counters c" "wf_info i"
  shows "split_ok c (mark_emitted now_ns c i)" "record_split_ok (make_record w idx reason now_ns c i)"
proof -
  obtain x y z where b: "sc_bucket_bytes c = [x, y, z]" using three_slots [of "sc_bucket_bytes c"] assms(2) by (auto simp: wf_counters_def)
  obtain p q r where e: "si_emitted_bucket_bytes i = [p, q, r]" using three_slots [of "si_emitted_bucket_bytes i"] assms(3) by (auto simp: wf_info_def)
  show "split_ok c (mark_emitted now_ns c i)" using assms(1)
    by (simp add: split_ok_def mark_emitted_def b numeral_3_eq_3)
  have "x + y + z = sc_ul_bytes c + sc_dl_bytes c" "p + q + r = si_emitted_ul_bytes i + si_emitted_dl_bytes i"
    using assms(1) by (simp_all add: split_ok_def b e add.assoc)
  then have "(x + y + z) - (p + q + r) = (sc_ul_bytes c + sc_dl_bytes c) - (si_emitted_ul_bytes i + si_emitted_dl_bytes i)" by simp
  then show "record_split_ok (make_record w idx reason now_ns c i)"
    by (simp add: record_split_ok_def make_record_def b e numeral_3_eq_3 algebra_simps)
qed

lemma split_init: "same_ledger j SubscriberInfo_init \<Longrightarrow> split_ok SubscriberCounters_init j"
  by (simp add: split_ok_def same_ledger_def SubscriberInfo_init_def SubscriberCounters_init_def)

lemma split_same: "split_ok c i \<Longrightarrow> same_ledger j i \<Longrightarrow> split_ok c j"
  by (simp add: split_ok_def same_ledger_def)

lemma buckets_emit:
  assumes "buckets_ok e" "row_ok e idx"
  shows "buckets_ok (emit_result wall idx reason now_ns ok sink e)"
proof (rule buckets_update [OF assms(1), where k = idx and c = "me_counters e ! idx"])
  have "split_ok (me_counters e ! idx) (me_info e ! idx)" "wf_counters (me_counters e ! idx)" "wf_info (me_info e ! idx)"
    using assms by (simp_all add: buckets_ok_def row_ok_def)
  note se = split_emit [OF this]
  show "split_ok (me_counters e ! idx) (mark_emitted now_ns (me_counters e ! idx) (me_info e ! idx))" by (rule se(1))
  show "\<forall>(r, ok)\<in>set [(next_record wall idx reason now_ns e, ok)]. record_split_ok r" by (simp add: next_record_def se(2))
qed (use assms(2) in \<open>simp_all add: row_ok_def\<close>)

interpretation buckets: engine_invariant buckets_ok
proof
  show "buckets_ok e" if "me_log e = []" "me_counters e = replicate n SubscriberCounters_init"
    "me_info e = replicate n SubscriberInfo_init" for e n
    using that split_init [of SubscriberInfo_init] by (simp add: buckets_ok_def same_ledger_def)
  show "buckets_ok (emit_result wall idx reason now_ns ok sink e)" if "buckets_ok e" "row_ok e idx" for e idx wall reason now_ns ok sink
    using that by (rule buckets_emit)
  show "buckets_ok (charged ev sub dir slot info oc fs e)"
    if "buckets_ok e" "row_ok e sub" "slot < kBucketSlots" "same_books info (me_info e ! sub)" for e sub slot info ev dir oc fs
  proof (rule buckets_update [OF that(1), where k = sub and rs = "[]"])
    show "split_ok (charged_counters ev dir slot (me_counters e ! sub)) info"
      using that same_books_ledger by (intro split_charge) (auto simp: buckets_ok_def row_ok_def)
  qed (use that in \<open>simp_all add: charged_def row_ok_def\<close>)
  show "buckets_ok e'" if "buckets_ok e" "row_ok e idx" "fresh_info info"
    "me_counters e' = (me_counters e)[idx := SubscriberCounters_init]" "me_info e' = (me_info e)[idx := info]"
    "me_log e' = me_log e" for e idx info e'
    using that split_init by (intro buckets_update [OF that(1) _ that(4,5), where rs = "[]"]) (auto simp: row_ok_def fresh_info_def)
  show "buckets_ok e'" if "buckets_ok e" "row_ok e idx" "same_emission info (me_info e ! idx)" "me_counters e' = me_counters e"
    "me_info e' = (me_info e)[idx := info]" "me_log e' = me_log e" for e idx info e'
    using that split_same by (intro buckets_update [OF that(1) _ _ that(5), where rs = "[]" and c = "me_counters e ! idx"])
      (auto simp: row_ok_def same_emission_def buckets_ok_def)
  show "buckets_ok e'" if "buckets_ok e" "row_ok e idx" "me_counters e' = me_counters e"
    "me_info e' = (me_info e)[idx := (me_info e ! idx)\<lparr>si_active := False\<rparr>]" "me_log e' = me_log e" for e idx e'
    using that split_same by (intro buckets_update [OF that(1) _ _ that(4), where rs = "[]" and c = "me_counters e ! idx"])
      (auto simp: row_ok_def buckets_ok_def split_ok_def)
qed (use buckets_frame in blast)

text \<open>
  C19: The split into accounting buckets is exact. After any run of the engine, the three buckets of
  every subscriber add up to its uplink and downlink bytes, and the three buckets of every record
  emitted add up to the bytes of the record, whichever slots rating groups and QFIs were assigned.
\<close>

theorem bucket_split_exact:
  assumes "cfg_ok cfg" "wf_sink sink" "list_all op_time_ok ops"
  shows "\<exists>e0 e. MeterEngine_new cfg = Some e0 \<and> meter_run wall ops (set_record_sink e0 sink) = Some e \<and>
    (\<forall>i<length (me_counters e). sum_list (sc_bucket_bytes (me_counters e ! i)) = sc_total_bytes (me_counters e ! i)) \<and>
    (\<forall>(r, ok)\<in>set (me_log e). sum_list (ur_bucket_bytes r) = ur_total_bytes r)"
  using buckets.run_inv [OF assms, of wall]
  by (auto simp: buckets_ok_def split_ok_def record_split_ok_def sc_total_bytes_def ur_total_bytes_def)

theorem bucket_split_exact_witness:
  "\<exists>e0 e. MeterEngine_new MeterConfig_init = Some e0 \<and> meter_run (\<lambda>_. 0) sample_ops (set_record_sink e0 None) = Some e \<and>
    (\<forall>(r, ok)\<in>set (me_log e). sum_list (ur_bucket_bytes r) = ur_total_bytes r)"
  using bucket_split_exact [OF sample_ops_ok(2,3,1), of "\<lambda>_. 0"] by blast

end
