(* ===== verification/Meter_Records.thy ===== *)
theory Meter_Records
  imports Meter_Accounting
begin

text \<open>
  The records of the metering engine in the order they are emitted: sequence numbers and reporting
  intervals of one subscriber follow each other, a drain leaves nothing unreported, and every event
  and every record is counted in exactly one place.
\<close>

subsection \<open>Chains of records\<close>

definition records_of :: "u32 \<Rightarrow> (UsageRecord \<times> bool) list \<Rightarrow> UsageRecord list" where
  "records_of s log = List.map fst (filter (\<lambda>(r, ok). ur_subscriber_index r = s) log)"

text \<open>
  After the record of a release the subscriber starts again at 0; any other record is followed by the next
  number, and by an interval that starts where its own ended.
\<close>

definition follows :: "UsageRecord \<Rightarrow> UsageRecord \<Rightarrow> bool" where
  "follows r r' \<longleftrightarrow> (if ur_reason r = reason_code kRelease then ur_record_seq r' = 0
     else ur_record_seq r' = ur_record_seq r + 1 \<and> ur_interval_start_ns r' = ur_interval_end_ns r)"

definition next_follows :: "UsageRecord list \<Rightarrow> SubscriberInfo \<Rightarrow> bool" where
  "next_follows rs i \<longleftrightarrow> (
     if rs = [] then si_record_seq i = 0
     else if ur_reason (last rs) = reason_code kRelease then si_active i \<longrightarrow> si_record_seq i = 0
     else si_active i \<and> si_record_seq i = ur_record_seq (last rs) + 1 \<and> si_interval_start_ns i = ur_interval_end_ns (last rs))"

definition chain_from :: "UsageRecord list \<Rightarrow> bool" where
  "chain_from rs \<longleftrightarrow> successively follows rs \<and> (case rs of [] \<Rightarrow> True | r # _ \<Rightarrow> ur_record_seq r = 0)"

definition chain_ok :: "MeterEngine \<Rightarrow> bool" where
  "chain_ok e \<longleftrightarrow> (\<forall>s. chain_from (records_of s (me_log e))) \<and>
     (\<forall>i<length (me_counters e). next_follows (records_of (of_nat i) (me_log e)) (me_info e ! i))"

lemma records_of_append [simp]: "records_of s (xs @ ys) = records_of s xs @ records_of s ys"
  by (simp add: records_of_def)

lemma records_of_one: "records_of s [(r, ok)] = (if ur_subscriber_index r = s then [r] else [])"
  by (simp add: records_of_def)

lemma successively_snoc: "successively P (xs @ [x]) \<longleftrightarrow> successively P xs \<and> (xs = [] \<or> P (last xs) x)"
  by (auto simp: successively_append_iff)

lemma of_nat_eq_less:
  "a < 2 ^ LENGTH('a) \<Longrightarrow> b < 2 ^ LENGTH('a) \<Longrightarrow> of_nat a = (of_nat b :: 'a::len word) \<longleftrightarrow> a = b"
  by (metis unat_of_nat_less)

lemma reason_code_release: "reason_code a = 2 \<longleftrightarrow> a = kRelease"
  by (cases a) simp_all

lemma chain_snoc: "chain_from (rs @ [r]) \<longleftrightarrow> chain_from rs \<and> (if rs = [] then ur_record_seq r = 0 else follows (last rs) r)"
  using successively_snoc [of follows rs r] by (cases rs) (auto simp: chain_from_def)

lemma chain_info:
  assumes "chain_ok e" "me_log e' = me_log e" "length (me_counters e') = length (me_counters e)"
    "me_info e' = (me_info e)[k := j]" "length (me_info e) = length (me_counters e)"
    "\<And>rs. next_follows rs (me_info e ! k) \<Longrightarrow> next_follows rs j"
  shows "chain_ok e'"
proof -
  have "next_follows (records_of (of_nat i) (me_log e)) ((me_info e)[k := j] ! i)" if "i < length (me_counters e)" for i
    using assms(1,5,6) that by (cases "i = k") (simp_all add: chain_ok_def)
  then show ?thesis using assms(1-4) by (simp add: chain_ok_def)
qed

lemma next_follows_same:
  "same_emission j i \<Longrightarrow> si_active j = si_active i \<Longrightarrow> next_follows rs i \<Longrightarrow> next_follows rs j"
  by (auto simp: next_follows_def same_emission_def split: if_splits)

lemma next_follows_fresh: "fresh_info j \<Longrightarrow> \<not> si_active i \<Longrightarrow> next_follows rs i \<Longrightarrow> next_follows rs j"
  by (auto simp: next_follows_def fresh_info_def split: if_splits)

text \<open>A record cut for an active subscriber, who is then \<open>j\<close>.\<close>

lemma chain_emit:
  assumes ch: "chain_ok e" and row: "row_ok e idx" and act: "si_active (me_info e ! idx)"
    and log: "me_log e' = me_log e @ [(next_record wall idx reason now_ns e, ok)]" and len: "length (me_counters e') = length (me_counters e)"
    and inf: "me_info e' = (me_info e)[idx := j]" and j: "si_record_seq j = si_record_seq (me_info e ! idx) + 1"
      "si_interval_start_ns j = now_ns" "si_active j \<longleftrightarrow> reason \<noteq> kRelease"
  shows "chain_ok e'"
proof -
  define r where "r = next_record wall idx reason now_ns e"
  have r: "ur_subscriber_index r = of_nat idx" "ur_record_seq r = si_record_seq (me_info e ! idx)"
    "ur_interval_start_ns r = si_interval_start_ns (me_info e ! idx)" "ur_interval_end_ns r = now_ns" "ur_reason r = reason_code reason"
    by (simp_all add: r_def next_record_def make_record_def)
  have idx: "idx < length (me_counters e)" "idx < length (me_info e)" using row by (simp_all add: row_ok_def)
  have inj: "of_nat i = (of_nat idx :: u32) \<longleftrightarrow> i = idx" if "i < length (me_counters e)" for i
    using that row by (intro of_nat_eq_less) (simp_all add: row_ok_def)
  have nf: "next_follows (records_of (of_nat idx) (me_log e)) (me_info e ! idx)" using ch idx(1) by (simp add: chain_ok_def)
  have "chain_from (records_of s (me_log e @ [(r, ok)]))" for s
  proof (cases "s = of_nat idx")
    case True
    have "chain_from (records_of s (me_log e))" using ch by (simp add: chain_ok_def)
    then show ?thesis using nf act True by (auto simp: records_of_one r chain_snoc next_follows_def follows_def split: if_splits)
  next
    case False
    then show ?thesis using ch by (simp add: records_of_one r(1) chain_ok_def)
  qed
  moreover have "next_follows (records_of (of_nat i) (me_log e @ [(r, ok)])) ((me_info e)[idx := j] ! i)" if "i < length (me_counters e)" for i
  proof (cases "i = idx")
    case True
    then show ?thesis using j idx by (simp add: records_of_one r next_follows_def reason_code_release)
  next
    case False
    then show ?thesis using ch that inj [OF that] by (simp add: records_of_one r(1) chain_ok_def)
  qed
  ultimately show ?thesis using log inf len by (simp add: chain_ok_def r_def)
qed

interpretation chain: session_invariant chain_ok
proof
  show "chain_ok e" if "me_log e = []" "me_counters e = replicate n SubscriberCounters_init" "me_info e = replicate n SubscriberInfo_init" for e n
    using that by (simp add: chain_ok_def records_of_def next_follows_def chain_from_def SubscriberInfo_init_def)
  show "chain_ok (emit_result wall idx reason now_ns ok sink e)"
    if "chain_ok e" "row_ok e idx" "si_active (me_info e ! idx)" "reason \<noteq> kRelease" for e idx reason wall now_ns ok sink
    using that by (intro chain_emit [OF that(1-3), where j = "mark_emitted now_ns (me_counters e ! idx) (me_info e ! idx)"])
      (simp_all, simp_all add: mark_emitted_def)
  show "chain_ok (charged ev sub dir slot info oc fs e)"
    if "chain_ok e" "row_ok e sub" "same_books info (me_info e ! sub)" for e sub slot info ev dir oc fs
    using that next_follows_same [OF same_books_emission [OF that(3)]] same_books_identity [OF that(3)]
    by (intro chain_info [OF that(1), where k = sub and j = info]) (simp_all add: charged_def row_ok_def same_identity_def)
  show "chain_ok e'" if "chain_ok e" "row_ok e idx" "\<not> si_active (me_info e ! idx)" "fresh_info info"
    "me_counters e' = (me_counters e)[idx := SubscriberCounters_init]" "me_info e' = (me_info e)[idx := info]"
    "me_log e' = me_log e" for e idx info e'
    using that next_follows_fresh by (intro chain_info [OF that(1,7) _ that(6)]) (auto simp: row_ok_def)
  show "chain_ok e'" if "chain_ok e" "row_ok e idx" "same_emission info (me_info e ! idx)" "si_active info = si_active (me_info e ! idx)"
    "me_counters e' = me_counters e" "me_info e' = (me_info e)[idx := info]" "me_log e' = me_log e" for e idx info e'
    using that next_follows_same by (intro chain_info [OF that(1,7) _ that(6)]) (auto simp: row_ok_def)
  show "chain_ok e'" if "chain_ok e" "row_ok e idx" "si_active (me_info e ! idx)" "e1 = emit_result wall idx kRelease now_ns ok sink e"
    "me_counters e' = me_counters e1" "me_info e' = (me_info e1)[idx := (me_info e1 ! idx)\<lparr>si_active := False\<rparr>]" "me_log e' = me_log e1"
    for e idx e1 wall now_ns ok sink e'
    using that by (intro chain_emit [OF that(1-3), where reason = kRelease and wall = wall and now_ns = now_ns and ok = ok and
        j = "(mark_emitted now_ns (me_counters e ! idx) (me_info e ! idx))\<lparr>si_active := False\<rparr>"])
      (simp_all add: row_ok_def, simp_all add: mark_emitted_def)
  show "chain_ok e'" if "chain_ok e" "me_counters e' = me_counters e" "me_info e' = me_info e" "me_log e' = me_log e" for e e'
    using that by (simp add: chain_ok_def)
qed

text \<open>
  C20: The records of one subscriber form a chain. The first has sequence number 0. After any record but
  that of a release comes the next sequence number, with a reporting interval that starts where the last one
  ended; after the record of a release, and only then, the numbers start again at 0. So within a
  session a missing record shows as a gap.
\<close>

theorem record_chain:
  assumes "cfg_ok cfg" "wf_sink sink" "list_all op_time_ok ops"
  shows "\<exists>e0 e. MeterEngine_new cfg = Some e0 \<and> meter_run wall ops (set_record_sink e0 sink) = Some e \<and>
    (\<forall>s. (case records_of s (me_log e) of [] \<Rightarrow> True | r # _ \<Rightarrow> ur_record_seq r = 0) \<and>
      successively (\<lambda>r r'. if ur_reason r = reason_code kRelease then ur_record_seq r' = 0
        else ur_record_seq r' = ur_record_seq r + 1 \<and> ur_interval_start_ns r' = ur_interval_end_ns r) (records_of s (me_log e)))"
  using chain.run_inv [OF assms, of wall] unfolding chain_ok_def chain_from_def follows_def [abs_def] by blast

theorem record_chain_witness:
  "\<exists>e0 e. MeterEngine_new MeterConfig_init = Some e0 \<and> meter_run (\<lambda>_. 0) sample_ops (set_record_sink e0 None) = Some e \<and>
    successively (\<lambda>r r'. if ur_reason r = reason_code kRelease then ur_record_seq r' = 0
        else ur_record_seq r' = ur_record_seq r + 1 \<and> ur_interval_start_ns r' = ur_interval_end_ns r) (records_of 0 (me_log e))"
  using record_chain [OF sample_ops_ok(2,3,1), of "\<lambda>_. 0"] by blast

subsection \<open>Draining\<close>

definition settled :: "MeterEngine \<Rightarrow> nat \<Rightarrow> bool" where
  "settled e i \<longleftrightarrow> sc_ul_bytes (me_counters e ! i) = si_emitted_ul_bytes (me_info e ! i) \<and>
     sc_dl_bytes (me_counters e ! i) = si_emitted_dl_bytes (me_info e ! i)"

text \<open>What a drain has to report: active subscribers whose byte totals are not fully reported.\<close>

definition pending :: "MeterEngine \<Rightarrow> nat \<Rightarrow> bool" where
  "pending e i \<longleftrightarrow> si_active (me_info e ! i) \<and> \<not> settled e i"

definition row_done :: "MeterEngine \<Rightarrow> nat \<Rightarrow> bool" where
  "row_done e i \<longleftrightarrow> all_emitted (me_counters e ! i) (me_info e ! i)"

lemma settled_emit:
  assumes "row_ok e idx"
  shows "settled e i \<or> i = idx \<Longrightarrow> settled (emit_result wall idx reason now_ns ok sink e) i"
    "si_active (me_info (emit_result wall idx reason now_ns ok sink e) ! i) = si_active (me_info e ! i)"
    "i \<noteq> idx \<Longrightarrow> pending (emit_result wall idx reason now_ns ok sink e) i = pending e i"
    "row_done e i \<or> i = idx \<Longrightarrow> row_done (emit_result wall idx reason now_ns ok sink e) i"
  using assms by (cases "i = idx"; simp add: settled_def pending_def row_done_def all_emitted_def mark_emitted_def row_ok_def)+

lemma drain_loop_settled:
  assumes "me_wf e" "\<forall>i\<in>set is. i < me_next_sub e" "distinct is" "drain_loop wall now_ns is e = Some (n, e')"
  shows "(\<forall>i. settled e i \<or> i \<in> set is \<and> si_active (me_info e ! i) \<longrightarrow> settled e' i) \<and>
    (\<forall>i. si_active (me_info e' ! i) = si_active (me_info e ! i)) \<and> length (me_log e') = length (me_log e) + n \<and>
    n = length (filter (pending e) is) \<and> (\<forall>i. row_done e i \<or> i \<in> set is \<and> pending e i \<longrightarrow> row_done e' i)"
  using assms
proof (induction "is" arbitrary: e n)
  case Nil
  then show ?case by simp
next
  case (Cons idx "is")
  have sz: "wf_sizes e" using Cons.prems(1) by (simp add: me_wf_def)
  have "idx < length (me_counters e)" using Cons.prems(2) wf_sizesD(3) [OF sz] by simp
  note row = row_okI [OF sz this]
  then have idx: "idx < length (me_counters e)" "idx < length (me_info e)" by (simp_all add: row_ok_def)
  show ?case
  proof (cases "pending e idx")
    case False
    then have "drain_loop wall now_ns is e = Some (n, e')"
      using Cons.prems(4) idx by (auto simp: at_index_in pending_def settled_def split: if_splits)
    from Cons.IH [OF Cons.prems(1) _ _ this] Cons.prems(2,3) False show ?thesis by (auto simp: pending_def)
  next
    case True
    from emit_record_emissions [OF Cons.prems(1), of idx kShutdown wall now_ns] True Cons.prems(2) obtain ok sink where
      em: "emit_record wall idx kShutdown now_ns e = Some (emit_result wall idx kShutdown now_ns ok sink e)"
        "me_wf (emit_result wall idx kShutdown now_ns ok sink e)" by (auto simp: pending_def)
    define e1 where "e1 = emit_result wall idx kShutdown now_ns ok sink e"
    obtain m where m: "drain_loop wall now_ns is e1 = Some (m, e')" "n = Suc m"
      using Cons.prems(4) idx em(1) True
      by (auto simp: at_index_in pending_def settled_def e1_def split: if_splits bind_splits)
    have "\<forall>i\<in>set is. i < me_next_sub e1" "distinct is" "idx \<notin> set is" using Cons.prems(2,3) by (simp_all add: e1_def)
    note IH = Cons.IH [OF em(2) [folded e1_def] this(1,2) m(1)]
    note E = settled_emit [OF row, where wall = wall and reason = kShutdown and now_ns = now_ns and ok = ok and sink = sink, folded e1_def]
    have "filter (pending e1) is = filter (pending e) is" using \<open>idx \<notin> set is\<close> by (intro filter_cong refl E(3)) auto
    moreover have "length (me_log e1) = Suc (length (me_log e))" by (simp add: e1_def)
    moreover have "settled e' i" if "settled e i \<or> i \<in> set (idx # is) \<and> si_active (me_info e ! i)" for i
      using that IH E(1,2) [of i] by (cases "i = idx") auto
    moreover have "row_done e' i" if "row_done e i \<or> i \<in> set (idx # is) \<and> pending e i" for i
      using that IH E(3,4) [of i] by (cases "i = idx") auto
    ultimately show ?thesis using IH m(2) True E(2) by simp
  qed
qed

lemma drain_settles:
  assumes wf: "me_wf e" and ub: "ul_bytes.balanced e" and db: "dl_bytes.balanced e"
  shows "\<exists>n e'. drain wall now_ns e = Some (n, e') \<and> emissions wall e e' \<and> me_wf e' \<and> length (me_log e') = length (me_log e) + n \<and>
    st_ul_bytes (me_stats e') = reported ur_ul_bytes e' \<and> st_dl_bytes (me_stats e') = reported ur_dl_bytes e' \<and>
    n = length (filter (pending e) [0..<me_next_sub e]) \<and>
    (\<forall>i<length (me_counters e'). settled e' i \<and> (row_done e' i \<or> \<not> pending e i) \<and> si_active (me_info e' ! i) = si_active (me_info e ! i))"
proof -
  obtain n e' where d: "drain wall now_ns e = Some (n, e')" "emissions wall e e'" "me_wf e'"
    using drain_emissions [OF wf] by blast
  have bal: "ul_bytes.balanced e'" "dl_bytes.balanced e'"
    using ul_bytes.books.emissions_inv [OF d(2) ub wf] dl_bytes.books.emissions_inv [OF d(2) db wf] by simp_all
  have st: "(\<forall>i. settled e i \<or> i \<in> set [0..<me_next_sub e] \<and> si_active (me_info e ! i) \<longrightarrow> settled e' i) \<and>
    (\<forall>i. si_active (me_info e' ! i) = si_active (me_info e ! i)) \<and> length (me_log e') = length (me_log e) + n \<and>
    n = length (filter (pending e) [0..<me_next_sub e]) \<and> (\<forall>i. row_done e i \<or> i \<in> set [0..<me_next_sub e] \<and> pending e i \<longrightarrow> row_done e' i)"
    by (rule drain_loop_settled [OF wf]) (use d(1) in \<open>simp_all add: drain_def\<close>)
  have W: "wf_index (me_imsi_index e) (me_next_sub e) (me_info e)" and sz: "wf_sizes e" using wf by (simp_all add: me_wf_def)
  have len: "length (me_counters e') = length (me_counters e)" using d(2) by (induction rule: emissions.induct) simp_all
  have live: "i < me_next_sub e" if "i < length (me_counters e')" "si_active (me_info e ! i)" for i
    using that wf_indexD(1) [OF W, of i] len wf_sizesD(1) [OF sz] by fastforce
  have set': "settled e' i" if i: "i < length (me_counters e')" for i
    using st live [OF i] ul_bytes.balancedD(2) [OF bal(1) i] dl_bytes.balancedD(2) [OF bal(2) i]
    by (cases "si_active (me_info e' ! i)") (auto simp: settled_def)
  have rows: "row_done e' i \<or> \<not> pending e i" if "i < length (me_counters e')" for i
    using st live [OF that] by (auto simp: pending_def)
  have "unreported sc_ul_bytes si_emitted_ul_bytes e' = 0" "unreported sc_dl_bytes si_emitted_dl_bytes e' = 0"
    using set' by (simp_all add: unreported_def settled_def)
  then have tot: "st_ul_bytes (me_stats e') = reported ur_ul_bytes e'" "st_dl_bytes (me_stats e') = reported ur_dl_bytes e'"
    using ul_bytes.balancedD(1) [OF bal(1)] dl_bytes.balancedD(1) [OF bal(2)] by simp_all
  have "length (me_log e') = length (me_log e) + n" "n = length (filter (pending e) [0..<me_next_sub e])"
      "\<And>i. si_active (me_info e' ! i) = si_active (me_info e ! i)" using st by blast+
  then show ?thesis using d tot set' rows by blast
qed

text \<open>The part of the reports that the sink took, or refused.\<close>

definition reported_as :: "bool \<Rightarrow> (UsageRecord \<Rightarrow> u64) \<Rightarrow> MeterEngine \<Rightarrow> u64" where
  "reported_as taken rec e = sum_list (List.map (\<lambda>(r, ok). if ok = taken then rec r else 0) (me_log e))"

lemma reported_split: "reported rec e = reported_as True rec e + reported_as False rec e"
proof -
  have "sum_list (List.map (\<lambda>(r, ok). rec r) log) = sum_list (List.map (\<lambda>(r, ok). if ok = True then rec r else 0) log) +
      sum_list (List.map (\<lambda>(r, ok). if ok = False then rec r else 0) log)" for log :: "(UsageRecord \<times> bool) list"
    by (induction log) auto
  then show ?thesis by (simp add: reported_def reported_as_def)
qed

text \<open>
  C18: A drain reports all bytes. After any run that ends with a drain, all uplink and downlink bytes
  metered since the engine was made are in records: those the sink took and those it refused, which are lost
  with their bytes. The drain emits one record for each active subscriber whose byte totals were not
  fully reported, and none for any other. So packets can be left over, but only of an active subscriber
  whose bytes had all been reported before: packets of no bytes.
\<close>

theorem drain_reports_all:
  assumes "cfg_ok cfg" "wf_sink sink" "list_all op_time_ok ops"
  shows "\<exists>e0 e n e'. MeterEngine_new cfg = Some e0 \<and> meter_run wall ops (set_record_sink e0 sink) = Some e \<and>
    drain wall now_ns e = Some (n, e') \<and> length (me_log e') = length (me_log e) + n \<and>
    n = length (filter (pending e) [0..<me_next_sub e]) \<and>
    st_ul_bytes (me_stats e') = reported_as True ur_ul_bytes e' + reported_as False ur_ul_bytes e' \<and>
    st_dl_bytes (me_stats e') = reported_as True ur_dl_bytes e' + reported_as False ur_dl_bytes e' \<and>
    (\<forall>i<length (me_counters e'). \<not> all_emitted (me_counters e' ! i) (me_info e' ! i) \<longrightarrow>
      si_active (me_info e ! i) \<and> settled e i \<and> settled e' i)"
proof -
  obtain e0 e where e: "MeterEngine_new cfg = Some e0" "meter_run wall ops (set_record_sink e0 sink) = Some e" "me_wf e"
    "ul_bytes.balanced e" using ul_bytes.books.run_inv [OF assms] by blast
  have B: "dl_bytes.balanced e" "ul_packets.balanced e" "dl_packets.balanced e"
    using dl_bytes.books.run_inv [OF assms, of wall] ul_packets.books.run_inv [OF assms, of wall]
      dl_packets.books.run_inv [OF assms, of wall] e(1,2) by auto
  from drain_settles [OF e(3,4) B(1)] obtain n e' where
    d: "drain wall now_ns e = Some (n, e')" "emissions wall e e'" "length (me_log e') = length (me_log e) + n"
      "st_ul_bytes (me_stats e') = reported ur_ul_bytes e'" "st_dl_bytes (me_stats e') = reported ur_dl_bytes e'"
      "n = length (filter (pending e) [0..<me_next_sub e])"
    and rows: "\<forall>i<length (me_counters e'). settled e' i \<and> (row_done e' i \<or> \<not> pending e i) \<and> si_active (me_info e' ! i) = si_active (me_info e ! i)"
    by blast
  have bal: "ul_packets.balanced e'" "dl_packets.balanced e'"
    using ul_packets.books.emissions_inv [OF d(2) B(2) e(3)] dl_packets.books.emissions_inv [OF d(2) B(3) e(3)] by simp_all
  have "si_active (me_info e ! i) \<and> settled e i \<and> settled e' i"
    if i: "i < length (me_counters e')" "\<not> all_emitted (me_counters e' ! i) (me_info e' ! i)" for i
  proof -
    have r: "settled e' i" "\<not> pending e i" "si_active (me_info e' ! i) = si_active (me_info e ! i)" using rows i by (auto simp: row_done_def)
    have "si_active (me_info e' ! i)"
    proof (rule ccontr)
      assume na: "\<not> si_active (me_info e' ! i)"
      show False using i(2) r(1) ul_packets.balancedD(2) [OF bal(1) i(1) na] dl_packets.balancedD(2) [OF bal(2) i(1) na]
        by (simp add: all_emitted_def settled_def)
    qed
    then show ?thesis using r by (simp add: pending_def)
  qed
  then show ?thesis using e(1,2) d(1,3-6) unfolding reported_split by blast
qed

theorem drain_reports_all_witness:
  "\<exists>e0 e n e'. MeterEngine_new MeterConfig_init = Some e0 \<and> meter_run (\<lambda>_. 0) sample_ops (set_record_sink e0 None) = Some e \<and>
    drain (\<lambda>_. 0) 40000000000 e = Some (n, e') \<and>
    st_ul_bytes (me_stats e') = reported_as True ur_ul_bytes e' + reported_as False ur_ul_bytes e'"
  using drain_reports_all [OF sample_ops_ok(2,3,1), of "\<lambda>_. 0" 40000000000] by blast

end
