(* ===== verification/Meter_Service.thy ===== *)
theory Meter_Service
  imports Meter_Records
begin

text \<open>
  What the metering engine does for a session: an installed session has its traffic charged to its
  subscriber in the direction of the tunnel, and to nobody else; every event and every record is
  counted once; and two sessions that use the same TEID interfere.
\<close>

subsection \<open>Attribution\<close>

lemma install_session_bound:
  assumes wf: "me_wf e" and v: "session_valid spec" and r: "install_session spec now_ns e = Some (Some idx, e1)"
  shows "me_wf e1" "find_by_imsi e1 (ss_imsi spec) = Some idx" "idx < me_next_sub e1"
    "\<exists>slot. fh_map (me_teid_map e1) = rebind spec idx slot
      (unbind spec (open_session spec now_ns (me_info e ! idx)) (fh_map (me_teid_map e)))"
    "si_active (me_info e1 ! idx)" "si_ul_teid (me_info e1 ! idx) = ss_ul_teid spec" "si_dl_teid (me_info e1 ! idx) = ss_dl_teid spec"
    "\<And>i. i \<noteq> idx \<Longrightarrow> me_info e1 ! i = me_info e ! i"
proof -
  have "install_index spec e \<noteq> None" using r v by (cases "install_index spec e") (simp_all add: install_session_def)
  then obtain k e0 where ix: "install_index spec e = Some (k, e0)" by auto
  from install_session_spec [OF wf v this, of now_ns] obtain t where
    t: "install_session spec now_ns e = Some (Some k, installed spec now_ns k t e0)" "fh_inv t" "fh_cap t = fh_cap (me_teid_map e)"
      "fh_map t = rebind spec k (fst (opened_info spec now_ns (me_info e ! k)))
        (unbind spec (open_session spec now_ns (me_info e ! k)) (fh_map (me_teid_map e)))" by blast
  have k: "k = idx" "e1 = installed spec now_ns idx t e0" using r t(1) by auto
  note fr = install_index_frame [OF ix]
  have sz: "wf_sizes e" using wf by (simp add: me_wf_def)
  have bd: "idx < length (me_counters e)" "idx < length (me_info e)"
    using install_index_bound [OF wf ix] wf_sizesD(1) [OF sz] k(1) by simp_all
  note O = opened_info_simps [OF wf_sizesD(6) [OF sz bd(1)], of spec now_ns]
  show "me_wf e1" using installed_wf [OF wf ix t(2-4)] k by simp
  have ix1: "me_imsi_index e0 (ss_imsi spec) = Some idx" using ix k(1) by (auto elim!: install_index_cases)
  then show "find_by_imsi e1 (ss_imsi spec) = Some idx" by (simp add: find_by_imsi_def k(2) installed_def)
  then show "idx < me_next_sub e1" using \<open>me_wf e1\<close> wf_indexD(2) by (fastforce simp: me_wf_def find_by_imsi_def)
  show "\<exists>slot. fh_map (me_teid_map e1) = rebind spec idx slot
      (unbind spec (open_session spec now_ns (me_info e ! idx)) (fh_map (me_teid_map e)))"
    using t(4) k by (auto simp: installed_def)
  show "si_active (me_info e1 ! idx)" "si_ul_teid (me_info e1 ! idx) = ss_ul_teid spec" "si_dl_teid (me_info e1 ! idx) = ss_dl_teid spec"
    using O bd by (simp_all add: k(2) installed_def fr)
  show "me_info e1 ! i = me_info e ! i" if "i \<noteq> idx" for i using that by (simp add: k(2) installed_def fr)
qed

lemma install_session_index:
  assumes wf: "me_wf e" and v: "session_valid spec" and r: "install_session spec now_ns e = Some (Some idx, e1)"
  shows "imsi \<noteq> ss_imsi spec \<Longrightarrow> me_imsi_index e1 imsi = me_imsi_index e imsi"
proof -
  assume ne: "imsi \<noteq> ss_imsi spec"
  have "install_index spec e \<noteq> None" using r v by (cases "install_index spec e") (simp_all add: install_session_def)
  then obtain k e0 where ix: "install_index spec e = Some (k, e0)" by auto
  from install_session_spec [OF wf v this, of now_ns] obtain t where "e1 = installed spec now_ns k t e0" using r by auto
  then show ?thesis using ix ne by (auto elim!: install_index_cases simp: installed_def)
qed

lemma event_charges:
  assumes wf: "me_wf e" and ts: "ev_ts_ns ev \<noteq> 0xFFFFFFFFFFFFFFFF" and ctl: "ev_flags ev AND kFlagControlPdu = 0"
    and b: "fh_map (me_teid_map e) (ev_teid ev) = Some b"
  shows "\<exists>e' slot. apply_event ev e = Some e' \<and> slot < kBucketSlots \<and> me_wf e' \<and>
    me_counters e' = (me_counters e)[unat (tb_sub_idx b) := charged_counters ev (event_dir ev b) slot (me_counters e ! unat (tb_sub_idx b))]"
proof -
  obtain e' where a: "apply_event ev e = Some e'" "event_effect ev e e'" "me_wf e'" using apply_event_effect [OF wf ts] by blast
  from a(2) show ?thesis
  proof cases
    case (event_bound b' t slot info oc fs)
    then show ?thesis using a(1,3) b by (intro exI [of _ e'] exI [of _ slot]) (simp add: charged_def)
  qed (use ctl b in auto)
qed

lemma rebind_at:
  "ss_dl_teid spec \<noteq> 0 \<Longrightarrow> rebind spec idx slot m (ss_dl_teid spec) = Some (new_binding idx kDownlink slot)"
  "ss_ul_teid spec \<noteq> 0 \<Longrightarrow> ss_ul_teid spec \<noteq> ss_dl_teid spec \<Longrightarrow>
     rebind spec idx slot m (ss_ul_teid spec) = Some (new_binding idx kUplink slot)"
  by (simp_all add: rebind_def Let_def)

lemma session_event_charged:
  assumes "me_wf e" "session_valid spec" "install_session spec now_ns e = Some (Some idx, e1)"
    "ev_ts_ns ev \<noteq> 0xFFFFFFFFFFFFFFFF" "ev_flags ev AND kFlagControlPdu = 0"
    "ev_teid ev \<noteq> 0" "ev_teid ev = ss_ul_teid spec \<or> ev_teid ev = ss_dl_teid spec"
  shows "\<exists>e2. apply_event ev e1 = Some e2 \<and> find_by_imsi e1 (ss_imsi spec) = Some idx \<and>
    (let c = me_counters e1 ! idx; c' = me_counters e2 ! idx in
       if ev_teid ev = ss_dl_teid spec
       then sc_dl_bytes c' = sc_dl_bytes c + ucast (ev_bytes ev) \<and> sc_dl_packets c' = sc_dl_packets c + 1 \<and>
            sc_ul_bytes c' = sc_ul_bytes c \<and> sc_ul_packets c' = sc_ul_packets c
       else sc_ul_bytes c' = sc_ul_bytes c + ucast (ev_bytes ev) \<and> sc_ul_packets c' = sc_ul_packets c + 1 \<and>
            sc_dl_bytes c' = sc_dl_bytes c \<and> sc_dl_packets c' = sc_dl_packets c) \<and>
    (\<forall>i. i \<noteq> idx \<longrightarrow> me_counters e2 ! i = me_counters e1 ! i)"
proof -
  note I = install_session_bound [OF assms(1-3)]
  let ?d = "if ev_teid ev = ss_dl_teid spec then kDownlink else kUplink"
  obtain slot where "fh_map (me_teid_map e1) = rebind spec idx slot
      (unbind spec (open_session spec now_ns (me_info e ! idx)) (fh_map (me_teid_map e)))" using I(4) by blast
  then have b: "fh_map (me_teid_map e1) (ev_teid ev) = Some (new_binding idx ?d slot)"
    using assms(6,7) rebind_at [of spec idx slot] by auto
  have sz: "wf_sizes e1" using I(1) by (simp add: me_wf_def)
  have idx: "idx < length (me_counters e1)" "unat (of_nat idx :: u32) = idx"
    using I(3) wf_sizesD(3,4) [OF sz] by (simp_all add: unat_of_nat_less)
  from event_charges [OF I(1) assms(4,5) b] obtain e2 s where
    e2: "apply_event ev e1 = Some e2"
      "me_counters e2 = (me_counters e1)[idx := charged_counters ev (event_dir ev (new_binding idx ?d slot)) s (me_counters e1 ! idx)]"
    by (auto simp: new_binding_def idx(2))
  have dir: "event_dir ev (new_binding idx ?d slot) = direction_code ?d" by (simp add: event_dir_def new_binding_def)
  note c = e2(2) [unfolded dir]
  show ?thesis using e2(1) I(2) idx(1)
    by (intro exI [of _ e2]) (auto simp: c Let_def charged_counters_def charge_direction_def)
qed

text \<open>
  C8: An installed session is metered to its subscriber. After a session is installed, an event on its
  downlink TEID adds the event's bytes and one packet to the downlink counters of the session's
  subscriber, an event on its uplink TEID to the uplink counters, whatever direction the parser
  guessed, and no counter of another subscriber changes.
\<close>

theorem installed_session_metered:
  assumes "me_wf e" "session_valid spec" "install_session spec now_ns e = Some (Some idx, e1)"
    "ev_ts_ns ev \<noteq> 0xFFFFFFFFFFFFFFFF" "ev_flags ev AND kFlagControlPdu = 0"
    "ev_teid ev \<noteq> 0" "ev_teid ev = ss_ul_teid spec \<or> ev_teid ev = ss_dl_teid spec"
  shows "\<exists>e2. apply_event ev e1 = Some e2 \<and> find_by_imsi e1 (ss_imsi spec) = Some idx \<and>
    (let c = me_counters e1 ! idx; c' = me_counters e2 ! idx in
       if ev_teid ev = ss_dl_teid spec
       then sc_dl_bytes c' = sc_dl_bytes c + ucast (ev_bytes ev) \<and> sc_dl_packets c' = sc_dl_packets c + 1 \<and>
            sc_ul_bytes c' = sc_ul_bytes c \<and> sc_ul_packets c' = sc_ul_packets c
       else sc_ul_bytes c' = sc_ul_bytes c + ucast (ev_bytes ev) \<and> sc_ul_packets c' = sc_ul_packets c + 1 \<and>
            sc_dl_bytes c' = sc_dl_bytes c \<and> sc_dl_packets c' = sc_dl_packets c) \<and>
    (\<forall>i. i \<noteq> idx \<longrightarrow> me_counters e2 ! i = me_counters e1 ! i)"
  using assms by (rule session_event_charged)

lemma empty_table_new: "FlatHash_new 8 TeidBinding_init = Some empty_table"
  by (simp add: FlatHash_new_def table_pow2_def has_single_bit_def empty_table_def popcount.simps [of 8]
      popcount.simps [of 4] popcount.simps [of 2] popcount.simps [of "Suc 0"] popcount.simps [of 0])

lemma empty_table_inv: "fh_inv empty_table" "fh_map empty_table = Map.empty"
  using FlatHash_new_spec [of 8 TeidBinding_init] by (auto simp: empty_table_new)

lemma small_engine_wf: "me_wf small_engine"
  using small_engine_flows(1) empty_table_inv
  by (simp add: me_wf_def wf_sizes_def wf_index_def wf_table_def wf_bindings_def wf_sink_def small_engine_def
      list_all_iff wf_counters_def wf_info_def SubscriberCounters_init_def SubscriberInfo_init_def nth_Cons')
    (simp add: empty_table_def fh_cap_def)

lemma small_engine_install:
  "\<exists>e1. install_session session_sample 1 small_engine = Some (Some 0, e1)"
proof -
  have "session_valid session_sample" by (simp add: session_valid_def session_sample_def)
  moreover obtain e0 where "install_index session_sample small_engine = Some (0, e0)"
    by (simp add: install_index_def small_engine_def)
  ultimately show ?thesis using install_session_spec [OF small_engine_wf] by blast
qed

theorem installed_session_metered_witness:
  "\<exists>e1 e2. install_session session_sample 1 small_engine = Some (Some 0, e1) \<and>
     apply_event (MeterEvent_init\<lparr>ev_teid := 4096, ev_bytes := 1400\<rparr>) e1 = Some e2 \<and>
     sc_ul_bytes (me_counters e2 ! 0) = sc_ul_bytes (me_counters e1 ! 0) + 1400"
proof -
  obtain e1 where e1: "install_session session_sample 1 small_engine = Some (Some 0, e1)" using small_engine_install by blast
  have "session_valid session_sample" by (simp add: session_valid_def session_sample_def)
  from installed_session_metered [OF small_engine_wf this e1, of "MeterEvent_init\<lparr>ev_teid := 4096, ev_bytes := 1400\<rparr>"]
  show ?thesis using e1 by (auto simp: MeterEvent_init_def session_sample_def Let_def)
qed

subsection \<open>Counting\<close>

definition counts_ok :: "MeterEngine \<Rightarrow> bool" where
  "counts_ok e \<longleftrightarrow> (let s = me_stats e in
     st_events s = st_control_pdus s + st_unknown_teid_events s + st_ul_packets s + st_dl_packets s \<and>
     st_records_emitted s = of_nat (length (filter snd (me_log e))) \<and>
     st_records_dropped s = of_nat (length (filter (\<lambda>x. \<not> snd x) (me_log e))))"

definition same_counts :: "PipelineStats \<Rightarrow> PipelineStats \<Rightarrow> bool" where
  "same_counts s t \<longleftrightarrow> same_totals s t \<and> st_events s = st_events t \<and> st_control_pdus s = st_control_pdus t \<and>
     st_unknown_teid_events s = st_unknown_teid_events t \<and> st_records_emitted s = st_records_emitted t \<and>
     st_records_dropped s = st_records_dropped t"

lemma counts_frame: "counts_ok e \<Longrightarrow> same_counts (me_stats e') (me_stats e) \<Longrightarrow> me_log e' = me_log e \<Longrightarrow> counts_ok e'"
  by (simp add: counts_ok_def same_counts_def same_totals_def Let_def)

lemma counts_emit: "counts_ok e \<Longrightarrow> counts_ok (emit_result wall idx reason now_ns ok sink e)"
  by (simp add: counts_ok_def count_record_def Let_def)

lemma counts_emissions: "emissions wall e e' \<Longrightarrow> counts_ok e \<Longrightarrow> counts_ok e'"
proof (induction rule: emissions.induct)
  case (emissions_cursor w n e e')
  then show ?case by (simp add: counts_ok_def)
qed (simp_all add: counts_emit)

lemma counts_event:
  assumes "counts_ok e" "event_effect ev e e'"
  shows "counts_ok e'"
proof -
  have fl: "st_events (count_flow oc s) = st_events s" "st_control_pdus (count_flow oc s) = st_control_pdus s"
    "st_unknown_teid_events (count_flow oc s) = st_unknown_teid_events s" "st_ul_packets (count_flow oc s) = st_ul_packets s"
    "st_dl_packets (count_flow oc s) = st_dl_packets s" "st_records_emitted (count_flow oc s) = st_records_emitted s"
    "st_records_dropped (count_flow oc s) = st_records_dropped s" for oc s
    by (simp_all add: count_flow_def split: flow_outcome.split)
  from assms(2) show ?thesis using assms(1)
    by cases (simp_all add: counts_ok_def count_event_def count_unknown_def looked_up_def charged_def learned_def
        count_direction_def fl Let_def algebra_simps)
qed

lemma counts_gy:
  assumes wf: "me_wf e" and b: "counts_ok e" and st: "apply_gy ev e = Some e'"
  shows "counts_ok e'"
proof -
  have "same_counts (me_stats e') (me_stats e) \<and> me_log e' = me_log e"
    by (rule apply_gy_cases [OF wf, of ev]) (use st in \<open>auto simp: same_counts_def same_totals_def\<close>)
  then show ?thesis using counts_frame [OF b] by blast
qed

lemma counts_step:
  assumes wf: "me_wf e" and ok: "op_time_ok op" and b: "counts_ok e" and st: "meter_step wall op e = Some e'"
  shows "counts_ok e'"
proof (cases op)
  case (Op_Install spec now_ns)
  then obtain r where r: "install_session spec now_ns e = Some (r, e')" using st by auto
  show ?thesis
  proof (cases "session_valid spec \<and> install_index spec e \<noteq> None")
    case True
    then obtain idx e1 where v: "session_valid spec" "install_index spec e = Some (idx, e1)" by auto
    from install_session_spec [OF wf this, of now_ns] obtain t where "e' = installed spec now_ns idx t e1" using r by auto
    then show ?thesis using v(2)
      by (intro counts_frame [OF b]) (auto elim!: install_index_cases simp: installed_def same_counts_def same_totals_def)
  next
    case False
    then have "install_session spec now_ns e = Some (None, e)"
      by (cases "session_valid spec") (simp_all add: install_session_def del: not_None_eq)
    then show ?thesis using r b by simp
  qed
next
  case (Op_Release imsi now_ns)
  then obtain r where r: "release_session wall imsi now_ns e = Some (r, e')" using st by auto
  show ?thesis
  proof (cases "\<exists>idx. me_imsi_index e imsi = Some idx \<and> si_active (me_info e ! idx)")
    case True
    then obtain idx where ix: "me_imsi_index e imsi = Some idx" "si_active (me_info e ! idx)" by blast
    from release_session_spec [OF wf ix, of wall now_ns] obtain ok sink t where
      e': "e' = released wall idx now_ns ok sink t e" using r by auto
    show ?thesis
      by (rule counts_frame [OF counts_emit [OF b, of wall idx kRelease now_ns ok sink]])
        (simp_all add: e' released_def Let_def same_counts_def same_totals_def)
  next
    case False
    have "e' = e"
    proof (cases "me_imsi_index e imsi")
      case (Some idx)
      then have "\<not> si_active (me_info e ! idx)" using False by blast
      then show ?thesis using r Some by (auto simp: release_session_def at_index_def split: if_splits)
    qed (use r in \<open>simp add: release_session_def\<close>)
    then show ?thesis using b by simp
  qed
next
  case (Op_Event ev)
  then show ?thesis using apply_event_effect [OF wf, of ev] counts_event [OF b] st ok by auto
next
  case (Op_Gy ev)
  then have "apply_gy ev e = Some e'" using st by simp
  then show ?thesis by (rule counts_gy [OF wf b])
next
  case (Op_Poll now_ns)
  then show ?thesis using poll_emissions [OF wf, of wall now_ns] counts_emissions [OF _ b] st by auto
next
  case (Op_Drain now_ns)
  then show ?thesis using drain_emissions [OF wf, of wall now_ns] counts_emissions [OF _ b] st by auto
next
  case Op_Take
  then show ?thesis using take_record_wf [OF wf] st by (auto intro!: counts_frame [OF b] simp: same_counts_def same_totals_def)
qed

text \<open>
  C32: Every event is counted in exactly one class: after any run of the engine, the events are the
  control PDUs, the events on unknown TEIDs, the uplink packets and the downlink packets; and every
  record emitted is counted once, as emitted when the sink took it and as dropped when the sink was full.
\<close>

theorem events_partitioned:
  assumes "cfg_ok cfg" "wf_sink sink" "list_all op_time_ok ops"
  shows "\<exists>e0 e. MeterEngine_new cfg = Some e0 \<and> meter_run wall ops (set_record_sink e0 sink) = Some e \<and>
    st_events (me_stats e) = st_control_pdus (me_stats e) + st_unknown_teid_events (me_stats e) +
      st_ul_packets (me_stats e) + st_dl_packets (me_stats e) \<and>
    st_records_emitted (me_stats e) = of_nat (length (filter snd (me_log e))) \<and>
    st_records_dropped (me_stats e) = of_nat (length (filter (\<lambda>x. \<not> snd x) (me_log e)))"
proof -
  obtain e0 where e0: "MeterEngine_new cfg = Some e0" "me_wf e0" "me_log e0 = []" "me_stats e0 = PipelineStats_init"
    using MeterEngine_new_wf [OF assms(1)] by blast
  have c: "counts_ok (set_record_sink e0 sink)" by (simp add: counts_ok_def set_record_sink_def e0 PipelineStats_init_def)
  have wf: "me_wf (set_record_sink e0 sink)" using me_wf_set_sink [OF e0(2) assms(2)] by (simp add: set_record_sink_def)
  have "\<exists>e. meter_run wall ops (set_record_sink e0 sink) = Some e \<and> me_wf e \<and> counts_ok e"
    by (rule meter_run_induct [where P = counts_ok, OF wf assms(3) c counts_step])
  then show ?thesis using e0(1) by (auto simp: counts_ok_def Let_def)
qed

theorem events_partitioned_witness:
  "\<exists>e0 e. MeterEngine_new MeterConfig_init = Some e0 \<and> meter_run (\<lambda>_. 0) sample_ops (set_record_sink e0 None) = Some e \<and>
    st_records_dropped (me_stats e) = of_nat (length (filter (\<lambda>x. \<not> snd x) (me_log e)))"
  using events_partitioned [OF sample_ops_ok(2,3,1), of "\<lambda>_. 0"] by blast

subsection \<open>Sessions that share a TEID\<close>

text \<open>
  C39: Releasing a session can unbind another one. Installing a second session with the uplink TEID
  of a first one moves the binding to the second subscriber, but the first keeps the TEID in its
  own record of tunnels. Releasing the first then erases the binding of the second, which stays
  active and whose traffic is unknown from then on.
\<close>

theorem release_unbinds_other:
  assumes wf: "me_wf e" and va: "session_valid a" and vb: "session_valid b" and ne: "ss_imsi a \<noteq> ss_imsi b"
    and ul: "ss_ul_teid a = t" "ss_ul_teid b = t" "t \<noteq> 0" and dl: "ss_dl_teid b = 0"
    and ia: "install_session a n1 e = Some (Some i, e1)" and ib: "install_session b n2 e1 = Some (Some j, e2)"
  shows "\<exists>e3. release_session wall (ss_imsi a) n3 e2 = Some (True, e3) \<and>
    fh_map (me_teid_map e2) t \<noteq> None \<and> fh_map (me_teid_map e3) t = None \<and>
    si_active (me_info e3 ! j) \<and> si_ul_teid (me_info e3 ! j) = t \<and> i \<noteq> j"
proof -
  note A = install_session_bound [OF wf va ia] and B = install_session_bound [OF _ vb ib]
  note B' = B [OF A(1)]
  have W2: "wf_index (me_imsi_index e2) (me_next_sub e2) (me_info e2)" using B'(1) by (simp add: me_wf_def)
  have ix2: "me_imsi_index e2 (ss_imsi b) = Some j" using B'(2) by (simp add: find_by_imsi_def)
  have ija: "me_imsi_index e2 (ss_imsi a) = Some i"
    using A(2) ne install_session_index [OF A(1) vb ib] by (simp add: find_by_imsi_def)
  have ij: "i \<noteq> j" using wf_indexD(3) [OF W2 ix2] wf_indexD(3) [OF W2 ija] ne by auto
  have ii: "me_info e2 ! i = me_info e1 ! i" using B'(8) ij by simp
  then have act: "si_active (me_info e2 ! i)" "si_ul_teid (me_info e2 ! i) = t" using A(5,6) ul by simp_all
  from release_session_spec [OF B'(1) ija act(1), of wall n3] obtain ok sink u where
    u: "release_session wall (ss_imsi a) n3 e2 = Some (True, released wall i n3 ok sink u e2)"
      "fh_map u = unbind SessionSpec_init (me_info e2 ! i) (fh_map (me_teid_map e2))" by blast
  have "fh_map u t = None" unfolding u(2) using act(2) ul(3) by (simp add: unbind_def Let_def SessionSpec_init_def)
  moreover have "fh_map (me_teid_map e2) t \<noteq> None" using B'(4) ul dl by (auto simp: rebind_def Let_def)
  ultimately show ?thesis
    using u(1) ij B'(5,6) ul by (auto simp: released_def Let_def)
qed

definition session_rival :: SessionSpec where
  "session_rival = SessionSpec_init\<lparr>ss_imsi := 2, ss_ul_teid := 4096\<rparr>"

lemma installedE:
  "(case x of Some (Some i, e) \<Rightarrow> P e | _ \<Rightarrow> False) \<Longrightarrow> \<exists>i e. x = Some (Some i, e) \<and> P e"
  by (cases x) (auto split: option.splits)

lemma rivals_install:
  "case install_session session_sample 1 small_engine of Some (Some i, e1) \<Rightarrow>
     (case install_session session_rival 2 e1 of Some (Some j, e2) \<Rightarrow> True | _ \<Rightarrow> False) | _ \<Rightarrow> False"
  by code_simp

theorem release_unbinds_other_witness:
  "\<exists>i j e1 e2 e3. install_session session_sample 1 small_engine = Some (Some i, e1) \<and>
     install_session session_rival 2 e1 = Some (Some j, e2) \<and>
     release_session (\<lambda>_. 0) (ss_imsi session_sample) 3 e2 = Some (True, e3) \<and>
     fh_map (me_teid_map e3) 4096 = None \<and> si_active (me_info e3 ! j)"
proof -
  obtain i e1 where e1: "install_session session_sample 1 small_engine = Some (Some i, e1)"
      and "case install_session session_rival 2 e1 of Some (Some j, e2) \<Rightarrow> True | _ \<Rightarrow> False"
    using installedE [OF rivals_install] by blast
  with installedE [OF this(2)] obtain j e2 where "install_session session_rival 2 e1 = Some (Some j, e2)" by blast
  note e = e1 this
  have v: "session_valid session_sample" "session_valid session_rival"
    by (simp_all add: session_valid_def session_sample_def session_rival_def SessionSpec_init_def)
  have "ss_imsi session_sample \<noteq> ss_imsi session_rival" "ss_ul_teid session_sample = 4096"
      "ss_ul_teid session_rival = 4096" "(4096::u32) \<noteq> 0" "ss_dl_teid session_rival = 0"
    by (simp_all add: session_sample_def session_rival_def SessionSpec_init_def)
  from release_unbinds_other [OF small_engine_wf v this e, of "\<lambda>_. 0" 3] e show ?thesis by blast
qed

end
