(* ===== verification/Meter_Report.thy ===== *)
theory Meter_Report
  imports Meter_Invariant "HOL-Library.Multiset"
begin

text \<open>
  The read side of the metering engine: the busiest flows, and the comparison of metered usage with
  what the charging plane reported. \<^verbatim>\<open>std::sort\<close> is a parameter: any function that returns a
  permutation of its argument in the order of the comparison.
\<close>

subsection \<open>Busiest flows\<close>

definition busier :: "FlowEntry \<Rightarrow> FlowEntry \<Rightarrow> bool" where
  "busier a b \<longleftrightarrow> fl_bytes b \<le> fl_bytes a"

definition sorts_flows :: "(FlowEntry list \<Rightarrow> FlowEntry list) \<Rightarrow> bool" where
  "sorts_flows srt \<longleftrightarrow> (\<forall>xs. mset (srt xs) = mset xs \<and> sorted_wrt busier (srt xs))"

lemma sorts_flowsD: "sorts_flows srt \<Longrightarrow> mset (srt xs) = mset xs" "sorts_flows srt \<Longrightarrow> sorted_wrt busier (srt xs)"
  by (simp_all add: sorts_flows_def)

lemma busier_trans: "busier a b \<Longrightarrow> busier b c \<Longrightarrow> busier a c"
  by (simp add: busier_def)

lemma mset_swap_adjacent: "Suc i < length xs \<Longrightarrow> mset (xs[Suc i := xs ! i, i := xs ! Suc i]) = mset xs"
  using mset_swap [of i xs "Suc i"] list_update_swap [of i "Suc i" xs] by simp

lemma split_at: "i < length xs \<Longrightarrow> xs = take i xs @ xs ! i # drop (Suc i) xs"
  by (rule id_take_nth_drop)

lemma bubble_up_sorts:
  assumes "i < length xs" "sorted_wrt busier (take i xs @ drop (Suc i) xs)" "\<forall>y\<in>set (drop (Suc i) xs). busier (xs ! i) y"
  shows "sorted_wrt busier (bubble_up i xs) \<and> mset (bubble_up i xs) = mset xs"
  using assms
proof (induction i arbitrary: xs)
  case 0
  have "sorted_wrt busier (xs ! 0 # drop 1 xs)" using 0 by simp
  moreover have "xs ! 0 # drop 1 xs = xs" using 0 by (cases xs) auto
  ultimately have "sorted_wrt busier xs" by (simp only:)
  then show ?case by simp
next
  case (Suc i)
  let ?ys = "xs[Suc i := xs ! i, i := xs ! Suc i]"
  have tk: "take (Suc i) xs = take i xs @ [xs ! i]" using Suc.prems(1) by (simp add: take_Suc_conv_app_nth)
  show ?case
  proof (cases "fl_bytes (xs ! i) < fl_bytes (xs ! Suc i)")
    case True
    have dr: "drop (Suc i) ?ys = xs ! i # drop (Suc (Suc i)) xs" using Suc.prems(1)
      by (subst Cons_nth_drop_Suc [symmetric]) simp_all
    have "take i ?ys @ drop (Suc i) ?ys = take (Suc i) xs @ drop (Suc (Suc i)) xs" by (simp add: dr tk)
    moreover have "\<forall>y\<in>set (drop (Suc i) ?ys). busier (?ys ! i) y"
      unfolding dr using Suc.prems(1,3) True by (auto simp: busier_def)
    ultimately have "sorted_wrt busier (bubble_up i ?ys) \<and> mset (bubble_up i ?ys) = mset ?ys"
      using Suc.IH [of ?ys] Suc.prems(1,2) by simp
    then show ?thesis using True mset_swap_adjacent Suc.prems(1) by simp
  next
    case False
    have b: "busier (xs ! i) (xs ! Suc i)" using False by (simp add: busier_def)
    have "\<forall>y\<in>set (take (Suc i) xs). busier y (xs ! Suc i)"
      using Suc.prems(2) b busier_trans unfolding tk by (auto simp: sorted_wrt_append)
    then have "sorted_wrt busier (take (Suc i) xs @ xs ! Suc i # drop (Suc (Suc i)) xs)"
      using Suc.prems(2,3) by (auto simp: sorted_wrt_append)
    then show ?thesis using False split_at [OF Suc.prems(1)] by simp
  qed
qed

definition live_flows :: "FlowEntry list \<Rightarrow> FlowEntry list" where
  "live_flows fs = filter (\<lambda>f. fl_key f \<noteq> 0) fs"

text \<open>\<open>out\<close> holds the \<open>n\<close> busiest of the flows \<open>fs\<close>: all of them, or \<open>n\<close> that none of the rest beats.\<close>

definition busiest :: "nat \<Rightarrow> FlowEntry list \<Rightarrow> FlowEntry list \<Rightarrow> bool" where
  "busiest n fs out \<longleftrightarrow> length out = min n (length fs) \<and>
     (\<exists>rest. mset fs = mset out + mset rest \<and> (\<forall>r\<in>set rest. \<forall>f\<in>set out. busier f r))"

definition scan_ok :: "nat \<Rightarrow> FlowEntry list \<Rightarrow> FlowEntry list \<Rightarrow> bool" where
  "scan_ok n fs out \<longleftrightarrow> busiest n fs out \<and> (length out = n \<longrightarrow> sorted_wrt busier out)"

lemma busiest_all: "length out \<le> n \<Longrightarrow> mset fs = mset out \<Longrightarrow> busiest n fs out"
  using mset_eq_length [of fs out] by (auto simp: busiest_def intro!: exI [of _ "[]"])

lemma top_flow_step_ok:
  assumes srt: "sorts_flows srt" and n: "0 < n" and ok: "scan_ok n fs out" and f: "fl_key f \<noteq> 0"
  shows "scan_ok n (fs @ [f]) (top_flow_step srt n f out)"
proof -
  obtain rest where r: "mset fs = mset out + mset rest" "\<forall>r\<in>set rest. \<forall>g\<in>set out. busier g r"
    and len: "length out = min n (length fs)" using ok by (auto simp: scan_ok_def busiest_def)
  show ?thesis
  proof (cases "length out < n")
    case True
    have "length fs = length out + length rest" using r(1) by (metis size_mset size_union)
    then have "rest = []" using True len by simp
    then have "mset (fs @ [f]) = mset (out @ [f])" using r(1) by simp
    moreover have "mset (srt (out @ [f])) = mset (out @ [f])" "length (srt (out @ [f])) = Suc (length out)"
      using sorts_flowsD(1) [OF srt, of "out @ [f]"] mset_eq_length [of "srt (out @ [f])" "out @ [f]"] by simp_all
    ultimately show ?thesis
      using True f sorts_flowsD(2) [OF srt, of "out @ [f]"]
      by (auto simp: top_flow_step_def scan_ok_def Let_def intro!: busiest_all)
  next
    case False
    then have n': "length out = n" and ne: "out \<noteq> []" using len n by auto
    have so: "sorted_wrt busier out" using ok n' by (simp add: scan_ok_def)
    have le: "length fs \<ge> n" using len n' by simp
    have last: "busier g (last out)" if "g \<in> set out" for g
    proof -
      have "out = butlast out @ [last out]" using ne by simp
      then have "sorted_wrt busier (butlast out @ [last out])" "g \<in> set (butlast out @ [last out])" using so that by simp_all
      then show ?thesis by (auto simp: sorted_wrt_append busier_def)
    qed
    show ?thesis
    proof (cases "fl_bytes (last out) < fl_bytes f")
      case False
      have "mset (fs @ [f]) = mset out + mset (rest @ [f])" using r(1) by simp
      moreover have "\<forall>x\<in>set (rest @ [f]). \<forall>g\<in>set out. busier g x"
        using r(2) last False by (auto simp: busier_def not_less dest!: last intro: order_trans)
      ultimately show ?thesis using f False n' so le ne
        by (auto simp: top_flow_step_def scan_ok_def busiest_def intro!: exI [of _ "rest @ [f]"])
    next
      case True
      let ?ys = "out[length out - 1 := f]"
      define res where "res = bubble_up (length out - 1) ?ys"
      have ys: "?ys = butlast out @ [f]" using ne by (simp add: list_update_append1 butlast_conv_take upd_conv_take_nth_drop)
      have "sorted_wrt busier res \<and> mset res = mset ?ys"
        unfolding res_def using ne so
        by (intro bubble_up_sorts) (simp_all add: butlast_conv_take [symmetric] sorted_wrt_take butlast_conv_take)
      then have "sorted_wrt busier res" "mset res = mset (butlast out @ [f])" unfolding ys by blast+
      then have res: "sorted_wrt busier res" "mset res = mset (butlast out) + {#f#}" by simp_all
      have out: "mset out = mset (butlast out) + {#last out#}"
        using append_butlast_last_id [OF ne] by (metis mset.simps(1) mset.simps(2) mset_append)
      have ms: "mset (fs @ [f]) = mset res + mset (last out # rest)" using r(1) res(2) out by simp
      have "set_mset (mset res) = set_mset (mset (butlast out) + {#f#})" by (simp only: res(2))
      then have set: "set res = insert f (set (butlast out))" by simp
      have fr: "busier f x" if "x \<in> set rest" for x
      proof -
        have "fl_bytes x \<le> fl_bytes (last out)" using r(2) that last_in_set [OF ne] by (simp add: busier_def)
        then show ?thesis using True by (simp add: busier_def)
      qed
      have dom: "\<forall>x\<in>set (last out # rest). \<forall>g\<in>set res. busier g x"
        unfolding set using r(2) last True fr by (auto simp: busier_def dest: in_set_butlastD)
      have "size (mset res) = size (mset out)" unfolding res(2) out by simp
      then have lr: "length res = n" using n' by simp
      have "top_flow_step srt n f out = res" using f True n' by (simp add: top_flow_step_def res_def)
      moreover have "busiest n (fs @ [f]) res"
        unfolding busiest_def using ms dom lr le by (intro conjI exI [of _ "last out # rest"]) simp_all
      ultimately show ?thesis using res(1) by (simp add: scan_ok_def)
    qed
  qed
qed

lemma top_flow_scan:
  assumes "sorts_flows srt" "0 < n" "scan_ok n gs out"
  shows "scan_ok n (gs @ live_flows fs) (fold (top_flow_step srt n) fs out)"
  using assms(3)
proof (induction fs arbitrary: gs out)
  case (Cons f fs)
  show ?case
  proof (cases "fl_key f = 0")
    case True
    then show ?thesis using Cons by (simp add: live_flows_def top_flow_step_def)
  next
    case False
    then show ?thesis
      using Cons.IH [OF top_flow_step_ok [OF assms(1,2) Cons.prems False]] by (simp add: live_flows_def)
  qed
qed (simp add: live_flows_def)

text \<open>
  C37: The busiest flows: \<^verbatim>\<open>top_flows\<close> returns the requested number of flows, or all live flows if there
  are fewer, in descending order of bytes, and no live flow that was left out has more bytes than one
  that was returned. The flows returned are exactly a sub-multiset of the live entries of the table.
\<close>

theorem top_flows_busiest:
  assumes "sorts_flows srt"
  shows "sorted_wrt busier (top_flows srt e n) \<and> busiest n (live_flows (me_flows e)) (top_flows srt e n)"
proof (cases "me_flows e = [] \<or> n = 0")
  case True
  then show ?thesis by (auto simp: top_flows_def busiest_def live_flows_def intro!: exI [of _ "live_flows (me_flows e)"])
next
  case False
  let ?out = "fold (top_flow_step srt n) (me_flows e) []"
  have "scan_ok n [] []" using False by (simp add: scan_ok_def busiest_def)
  then have ok: "scan_ok n (live_flows (me_flows e)) ?out"
    using top_flow_scan [OF assms, of n "[]" "[]" "me_flows e"] False by simp
  show ?thesis
  proof (cases "length ?out < n")
    case True
    obtain rest where "mset (live_flows (me_flows e)) = mset ?out + mset rest" and len: "length ?out = min n (length (live_flows (me_flows e)))"
      using ok by (auto simp: scan_ok_def busiest_def)
    moreover from this have "rest = []" using True by (metis add_left_cancel length_0_conv min_def nless_le size_mset size_union add.right_neutral)
    ultimately have "mset (live_flows (me_flows e)) = mset (srt ?out)" using sorts_flowsD(1) [OF assms, of ?out] by simp
    moreover have "length (srt ?out) \<le> n" using mset_eq_length [OF sorts_flowsD(1) [OF assms, of ?out]] True by simp
    ultimately show ?thesis using False True sorts_flowsD(2) [OF assms, of ?out] by (simp add: top_flows_def busiest_all)
  next
    case False
    then have "length ?out = n" using ok by (simp add: scan_ok_def busiest_def)
    then show ?thesis using ok \<open>\<not> (me_flows e = [] \<or> n = 0)\<close> by (simp add: top_flows_def scan_ok_def)
  qed
qed

theorem top_flows_busiest_witness:
  "sorted_wrt busier (top_flows (\<lambda>xs. rev (sort_key fl_bytes xs)) \<lparr>me_cfg = MeterConfig_init, me_counters = [], me_info = [],
     me_teid_map = undefined, me_flows = [FlowEntry_init\<lparr>fl_key := 1, fl_bytes := 5\<rparr>, FlowEntry_init\<lparr>fl_key := 2, fl_bytes := 7\<rparr>],
     me_flow_mask = 1, me_imsi_index = Map.empty, me_record_sink = None, me_stats = PipelineStats_init, me_next_sub = 0,
     me_sweep_cursor = 0, me_last_sweep_ns = 0, me_wall_reads = 0, me_log = []\<rparr> 1)"
proof -
  have "sorted_wrt busier (rev ys)" if "sorted (List.map fl_bytes ys)" for ys
    using that by (simp add: busier_def [abs_def] sorted_wrt_rev sorted_wrt_map)
  then have "sorts_flows (\<lambda>xs. rev (sort_key fl_bytes xs))" by (simp add: sorts_flows_def)
  from top_flows_busiest [OF this] show ?thesis by blast
qed

subsection \<open>Comparison with the charging plane\<close>

lemma sint_small: "unat (x :: u64) < 2 ^ 63 \<Longrightarrow> sint x = int (unat x)"
proof -
  assume "unat x < 2 ^ 63"
  then have "uint x < 2 ^ 63" unfolding unat_eq_nat_uint by (simp only: nat_less_numeral_power_cancel_iff)
  then have "signed_take_bit 63 (uint x) = uint x"
    by (intro signed_take_bit_int_eq_self) (use uint_ge_0 [of x] in linarith)+
  moreover have "sint x = signed_take_bit 63 (uint x)" by (subst sint_uint) simp
  ultimately show ?thesis by simp
qed

lemma int64_range_diff: "a < 2 ^ 63 \<Longrightarrow> b < 2 ^ 63 \<Longrightarrow> int64_range (int a - int b)"
proof -
  assume "a < 2 ^ 63" "b < 2 ^ 63"
  then have "int a < 2 ^ 63" "int b < 2 ^ 63" by (simp_all only: of_nat_less_numeral_power_cancel_iff)
  then show ?thesis unfolding int64_range_def by linarith
qed

text \<open>
  The cross-check lists exactly the active subscribers the charging plane has reported on, in table
  order, each with its metered total, the reported total and their signed difference. The difference
  is exact, and no signed overflow occurs, as long as both totals are below \<^verbatim>\<open>2^63\<close>.
\<close>

theorem gy_crosscheck_exact:
  assumes "wf_sizes e"
    and "\<forall>i<me_next_sub e. unat (sc_total_bytes (me_counters e ! i)) < 2 ^ 63 \<and> unat (si_gy_reported_octets (me_info e ! i)) < 2 ^ 63"
  shows "gy_crosscheck e = Some (List.map (\<lambda>i.
      \<lparr>gd_imsi = si_imsi (me_info e ! i), gd_metered_octets = sc_total_bytes (me_counters e ! i),
       gd_reported_octets = si_gy_reported_octets (me_info e ! i),
       gd_difference = int (unat (sc_total_bytes (me_counters e ! i))) - int (unat (si_gy_reported_octets (me_info e ! i))),
       gd_reports = si_gy_reports (me_info e ! i)\<rparr>)
    (filter (\<lambda>i. si_active (me_info e ! i) \<and> si_gy_reports (me_info e ! i) \<noteq> 0) [0..<me_next_sub e]))"
proof -
  have "gy_crosscheck_loop e is = Some (List.map (\<lambda>i.
      \<lparr>gd_imsi = si_imsi (me_info e ! i), gd_metered_octets = sc_total_bytes (me_counters e ! i),
       gd_reported_octets = si_gy_reported_octets (me_info e ! i),
       gd_difference = int (unat (sc_total_bytes (me_counters e ! i))) - int (unat (si_gy_reported_octets (me_info e ! i))),
       gd_reports = si_gy_reports (me_info e ! i)\<rparr>)
    (filter (\<lambda>i. si_active (me_info e ! i) \<and> si_gy_reports (me_info e ! i) \<noteq> 0) is))"
    if "\<forall>i\<in>set is. i < me_next_sub e" for "is"
    using that
  proof (induction "is")
    case (Cons i "is")
    have i: "i < length (me_counters e)" "i < length (me_info e)" using Cons.prems wf_sizesD(1,3) [OF assms(1)] by auto
    have b: "unat (sc_total_bytes (me_counters e ! i)) < 2 ^ 63" "unat (si_gy_reported_octets (me_info e ! i)) < 2 ^ 63"
      using Cons.prems assms(2) by auto
    then have "int64_range (int (unat (sc_total_bytes (me_counters e ! i))) - int (unat (si_gy_reported_octets (me_info e ! i))))"
      by (rule int64_range_diff)
    then show ?case using Cons i sint_small [OF b(1)] sint_small [OF b(2)] by (simp add: at_index_in Let_def del: of_nat_unat int_nat_eq)
  qed simp
  then show ?thesis by (simp add: gy_crosscheck_def)
qed

theorem gy_crosscheck_exact_witness:
  "gy_crosscheck \<lparr>me_cfg = MeterConfig_init\<lparr>mc_max_subscribers := 1\<rparr>,
     me_counters = [SubscriberCounters_init\<lparr>sc_ul_bytes := 100\<rparr>],
     me_info = [SubscriberInfo_init\<lparr>si_active := True, si_gy_reports := 1, si_gy_reported_octets := 130\<rparr>],
     me_teid_map = undefined, me_flows = [], me_flow_mask = 0, me_imsi_index = Map.empty, me_record_sink = None,
     me_stats = PipelineStats_init, me_next_sub = 1, me_sweep_cursor = 0, me_last_sweep_ns = 0, me_wall_reads = 0, me_log = []\<rparr> =
   Some [\<lparr>gd_imsi = 0, gd_metered_octets = 100, gd_reported_octets = 130, gd_difference = - 30, gd_reports = 1\<rparr>]"
  by (subst gy_crosscheck_exact)
    (simp_all add: wf_sizes_def wf_counters_def wf_info_def SubscriberCounters_init_def SubscriberInfo_init_def sc_total_bytes_def)

end
