(* ===== verification/Synth.thy ===== *)
theory Synth
  imports Gtpu Net Diameter
begin

text \<open>
  \<^verbatim>\<open>include/gtpm/synth.hpp\<close>: construction of well-formed packets, the shared generator of captures,
  benchmarks and tests.

  A buffer is the list of its bytes and a \<^verbatim>\<open>put\<close> function appends to it. Default arguments of the
  source are explicit arguments here. The lemmas are round trips: what a builder writes, the
  parsers of \<^verbatim>\<open>Gtpu\<close>, \<^verbatim>\<open>Net\<close> and \<^verbatim>\<open>Diameter\<close> read back.
\<close>

subsection \<open>Scalars\<close>

definition put_be16 :: "bytes \<Rightarrow> u16 \<Rightarrow> bytes" where
  "put_be16 b v = b @ [ucast (drop_bit 8 v), ucast v]"

definition put_be24 :: "bytes \<Rightarrow> u32 \<Rightarrow> bytes" where
  "put_be24 b v = b @ [ucast (drop_bit 16 v), ucast (drop_bit 8 v), ucast v]"

definition put_be32 :: "bytes \<Rightarrow> u32 \<Rightarrow> bytes" where
  "put_be32 b v = b @ [ucast (drop_bit 24 v), ucast (drop_bit 16 v), ucast (drop_bit 8 v), ucast v]"

definition put_be64 :: "bytes \<Rightarrow> u64 \<Rightarrow> bytes" where
  "put_be64 b v = foldl (\<lambda>b i. b @ [ucast (drop_bit (i * 8) v)]) b (rev [0..<8])"

definition put_bytes :: "bytes \<Rightarrow> bytes \<Rightarrow> bytes" where
  "put_bytes b s = b @ s"

text \<open>The internet checksum: the sum of the 16-bit words, then the carries folded back in.\<close>

function checksum_sum :: "bytes \<Rightarrow> nat \<Rightarrow> nat \<Rightarrow> u32 \<Rightarrow> u32 option" where
  "checksum_sum data len i acc =
     (if i + 1 < len then do { w \<leftarrow> load_be16 data i; checksum_sum data len (i + 2) (acc + ucast w) }
      else if i < len then do { b \<leftarrow> at_index data i; Some (acc + push_bit 8 (ucast b)) }
      else Some acc)"
  by pat_completeness auto
termination
  by (relation "measure (\<lambda>(data, len, i, acc). len - i)") auto

lemma unat_high_half: "unat (drop_bit 16 (s :: u32)) = unat s div 65536"
  by (simp add: unat_drop_bit_eq drop_bit_nat_def)

lemma unat_carry: "unat ((s AND 0xFFFF) + drop_bit 16 (s :: u32)) = unat s mod 65536 + unat s div 65536"
proof -
  have a: "unat (s AND 0xFFFF) = unat s mod 65536" using unat_and_mask [of 16 s] by simp
  have "unat s < 2 ^ 32" using unsigned_less [of s, where 'a=nat] by simp
  then have "unat s mod 65536 + unat s div 65536 < 2 ^ 32" by linarith
  then show ?thesis using a unat_high_half [of s] by (subst unat_add_less) simp_all
qed

lemma carry_less: "drop_bit 16 (s :: u32) \<noteq> 0 \<Longrightarrow> unat ((s AND 0xFFFF) + drop_bit 16 s) < unat s"
  using unat_carry [of s] div_mult_mod_eq [of "unat s" 65536] unat_high_half [of s] unat_gt_0 [of "drop_bit 16 s"] by linarith

function fold_carries :: "u32 \<Rightarrow> u32" where
  "fold_carries acc = (if drop_bit 16 acc \<noteq> 0 then fold_carries ((acc AND 0xFFFF) + drop_bit 16 acc) else acc)"
  by pat_completeness auto
termination
  by (relation "measure unat") (auto intro: carry_less)

declare checksum_sum.simps [simp del] fold_carries.simps [simp del]

definition checksum16 :: "bytes \<Rightarrow> nat \<Rightarrow> u32 \<Rightarrow> u16 option" where
  "checksum16 data len seed = do {
     acc \<leftarrow> checksum_sum data len 0 seed;
     Some (ucast (NOT (fold_carries acc) AND 0xFFFF)) }"

definition ipv4 :: "u8 \<Rightarrow> u8 \<Rightarrow> u8 \<Rightarrow> u8 \<Rightarrow> u32" where
  "ipv4 a b c d = push_bit 24 (ucast a) OR push_bit 16 (ucast b) OR push_bit 8 (ucast c) OR ucast d"

subsection \<open>Network and transport headers\<close>

record UdpSpec =
  us_src_ip :: u32
  us_dst_ip :: u32
  us_src_port :: u16
  us_dst_port :: u16
  us_ttl :: u8

definition UdpSpec_init :: UdpSpec where
  "UdpSpec_init = \<lparr>us_src_ip = ipv4 10 0 0 1, us_dst_ip = ipv4 10 0 0 2, us_src_port = 1000, us_dst_port = 2000,
     us_ttl = 64\<rparr>"

definition ipv4_header :: "u32 \<Rightarrow> u32 \<Rightarrow> u8 \<Rightarrow> u16 \<Rightarrow> u8 \<Rightarrow> u16 \<Rightarrow> bytes option" where
  "ipv4_header src dst proto total_len ttl frag_flags = do {
     let h = replicate 20 0;
     h \<leftarrow> store_at h 0 0x45;
     h \<leftarrow> store_at h 1 0x00;
     h \<leftarrow> store_be16 h 2 total_len;
     h \<leftarrow> store_be16 h 4 0;
     h \<leftarrow> store_be16 h 6 frag_flags;
     h \<leftarrow> store_at h 8 ttl;
     h \<leftarrow> store_at h 9 proto;
     h \<leftarrow> store_be16 h 10 0;
     h \<leftarrow> store_be32 h 12 src;
     h \<leftarrow> store_be32 h 16 dst;
     c \<leftarrow> checksum16 h (length h) 0;
     store_be16 h 10 c }"

definition build_ipv4_udp :: "UdpSpec \<Rightarrow> bytes \<Rightarrow> bytes option" where
  "build_ipv4_udp s payload = do {
     let udp_len = (of_nat (8 + length payload) :: u16);
     let total_len = (of_nat (20 + unat udp_len) :: u16);
     header \<leftarrow> ipv4_header (us_src_ip s) (us_dst_ip s) (ip_proto_code kUdp) total_len (us_ttl s) 0x4000;
     let ip = header;
     let ip = put_be16 ip (us_src_port s);
     let ip = put_be16 ip (us_dst_port s);
     let ip = put_be16 ip udp_len;
     let ip = put_be16 ip 0;
     Some (put_bytes ip payload) }"

definition build_ipv4_tcp :: "UdpSpec \<Rightarrow> bytes \<Rightarrow> u32 \<Rightarrow> u8 \<Rightarrow> bytes option" where
  "build_ipv4_tcp s payload seq tcp_flags = do {
     let tcp_len = (of_nat (20 + length payload) :: u16);
     let total_len = (of_nat (20 + unat tcp_len) :: u16);
     header \<leftarrow> ipv4_header (us_src_ip s) (us_dst_ip s) (ip_proto_code kTcp) total_len (us_ttl s) 0x4000;
     let ip = header;
     let ip = put_be16 ip (us_src_port s);
     let ip = put_be16 ip (us_dst_port s);
     let ip = put_be32 ip seq;
     let ip = put_be32 ip 0;
     let ip = ip @ [0x50];
     let ip = ip @ [tcp_flags];
     let ip = put_be16 ip 0xFFFF;
     let ip = put_be16 ip 0;
     let ip = put_be16 ip 0;
     Some (put_bytes ip payload) }"

record Udp6Spec =
  u6_src :: bytes
  u6_dst :: bytes
  u6_src_port :: u16
  u6_dst_port :: u16
  u6_hop_limit :: u8

definition Udp6Spec_init :: Udp6Spec where
  "Udp6Spec_init = \<lparr>u6_src = replicate 16 0, u6_dst = replicate 16 0, u6_src_port = 1000, u6_dst_port = 2000,
     u6_hop_limit = 64\<rparr>"

fun ipv6_groups :: "bytes \<Rightarrow> nat \<Rightarrow> u16 list \<Rightarrow> bytes option" where
  "ipv6_groups a i [] = Some a"
| "ipv6_groups a i (g # gs) = (if i + 1 \<ge> length a then Some a
     else do { a \<leftarrow> store_be16 a i g; ipv6_groups a (i + 2) gs })"

definition ipv6_from :: "u16 list \<Rightarrow> bytes option" where
  "ipv6_from groups = ipv6_groups (replicate 16 0) 0 groups"

definition build_ipv6_udp :: "Udp6Spec \<Rightarrow> bytes \<Rightarrow> bytes" where
  "build_ipv6_udp s payload = (
     let udp_len = (of_nat (8 + length payload) :: u16);
         ip = put_be32 [] 0x60000000;
         ip = put_be16 ip udp_len;
         ip = ip @ [ip_proto_code kUdp];
         ip = ip @ [u6_hop_limit s];
         ip = ip @ u6_src s;
         ip = ip @ u6_dst s;
         ip = put_be16 ip (u6_src_port s);
         ip = put_be16 ip (u6_dst_port s);
         ip = put_be16 ip udp_len;
         ip = put_be16 ip 0 in
     put_bytes ip payload)"

fun put_vlan_tags :: "nat \<Rightarrow> u16 \<Rightarrow> bytes \<Rightarrow> bytes" where
  "put_vlan_tags 0 vlan_id f = f"
| "put_vlan_tags (Suc n) vlan_id f = put_vlan_tags n vlan_id (put_be16 (put_be16 f kEtherTypeVlan) vlan_id)"

definition build_ethernet :: "bytes \<Rightarrow> u16 \<Rightarrow> nat \<Rightarrow> u16 \<Rightarrow> bytes" where
  "build_ethernet ip_packet ethertype vlan_tags vlan_id = (
     let f = List.map (\<lambda>i. 0x02 + of_nat i) [0..<6];
         f = f @ List.map (\<lambda>i. 0x0A + of_nat i) [0..<6];
         f = put_vlan_tags vlan_tags vlan_id f;
         f = put_be16 f ethertype in
     put_bytes f ip_packet)"

subsection \<open>GTP-U\<close>

record GtpuSpec =
  gs_teid :: u32
  gs_msg_type :: u8
  gs_with_seq :: bool
  gs_seq :: u16
  gs_with_npdu :: bool
  gs_npdu :: u8
  gs_with_qfi :: bool
  gs_qfi :: u8
  gs_pdu_type :: u8
  gs_rqi :: bool
  gs_extra_ext :: "(u8 \<times> bytes) list"

definition GtpuSpec_init :: GtpuSpec where
  "GtpuSpec_init = \<lparr>gs_teid = 0x1000, gs_msg_type = gtpu_msg_code kGpdu, gs_with_seq = False, gs_seq = 0,
     gs_with_npdu = False, gs_npdu = 0, gs_with_qfi = False, gs_qfi = 0, gs_pdu_type = 0, gs_rqi = False,
     gs_extra_ext = []\<rparr>"

function pad_ext :: "bytes \<Rightarrow> bytes" where
  "pad_ext content = (if (length content + 2) mod 4 \<noteq> 0 then pad_ext (content @ [0]) else content)"
  by pat_completeness auto
termination
proof (relation "measure (\<lambda>c. 3 - (length c + 1) mod 4)", simp)
  fix content :: bytes
  have "Suc (n mod 4) \<noteq> 4 \<Longrightarrow> Suc n mod 4 = Suc (n mod 4)" for n :: nat by (simp add: mod_Suc)
  from this [of "length content + 1"] show "(length content + 2) mod 4 \<noteq> 0 \<Longrightarrow>
      (content @ [0], content) \<in> measure (\<lambda>c. 3 - (length c + 1) mod 4)"
    by (simp add: mod_Suc split: if_splits)
qed

declare pad_ext.simps [simp del]

definition session_container :: "GtpuSpec \<Rightarrow> bytes" where
  "session_container s = [push_bit 4 (gs_pdu_type s), (if gs_rqi s then 0x40 else 0x00) OR (gs_qfi s AND 0x3F)]"

definition gtpu_chain :: "GtpuSpec \<Rightarrow> (u8 \<times> bytes) list" where
  "gtpu_chain s = gs_extra_ext s @
     (if gs_with_qfi s then [(gtpu_ext_code kPduSessionContainer, session_container s)] else [])"

fun gtpu_ext :: "(u8 \<times> bytes) list \<Rightarrow> bytes" where
  "gtpu_ext [] = []"
| "gtpu_ext ((t, c) # rest) = (
     let content = pad_ext c; total = length content + 2 in
     [of_nat (total div 4)] @ content @ [case rest of [] \<Rightarrow> gtpu_ext_code kNone | (t', _) # _ \<Rightarrow> t'] @ gtpu_ext rest)"

definition gtpu_flags :: "GtpuSpec \<Rightarrow> bytes \<Rightarrow> u8" where
  "gtpu_flags s ext = (
     let flags = 0x30;
         flags = (if ext \<noteq> [] then flags OR 0x04 else flags);
         flags = (if gs_with_seq s then flags OR 0x02 else flags) in
     if gs_with_npdu s then flags OR 0x01 else flags)"

definition build_gtpu :: "GtpuSpec \<Rightarrow> bytes \<Rightarrow> bytes" where
  "build_gtpu s payload = (
     let chain = gtpu_chain s;
         first_ext_type = (case chain of [] \<Rightarrow> gtpu_ext_code kNone | (t, _) # _ \<Rightarrow> t);
         ext = gtpu_ext chain;
         has_optional = (gs_with_seq s \<or> gs_with_npdu s \<or> ext \<noteq> []);
         optional_len = (if has_optional then kGtpuOptionalFieldsLen else 0);
         len = (of_nat (optional_len + length ext + length payload) :: u16);
         out = [gtpu_flags s ext];
         out = out @ [gs_msg_type s];
         out = put_be16 out len;
         out = put_be32 out (gs_teid s);
         out = (if has_optional
                then put_bytes (put_be16 out (gs_seq s) @ [gs_npdu s] @ [first_ext_type]) ext else out) in
     put_bytes out payload)"

definition build_gtpu_frame :: "GtpuSpec \<Rightarrow> bytes \<Rightarrow> u32 \<Rightarrow> u32 \<Rightarrow> bytes option" where
  "build_gtpu_frame gs inner_ip outer_src outer_dst = do {
     let gtp = build_gtpu gs inner_ip;
     ip \<leftarrow> build_ipv4_udp (UdpSpec_init\<lparr>us_src_ip := outer_src, us_dst_ip := outer_dst,
             us_src_port := kGtpuPort, us_dst_port := kGtpuPort\<rparr>) gtp;
     Some (build_ethernet ip kEtherTypeIpv4 0 100) }"

definition filler :: "nat \<Rightarrow> u8 \<Rightarrow> bytes" where
  "filler n seed = List.map (\<lambda>i. of_nat (unat seed + i * 31 + 7)) [0..<n]"

subsection \<open>Diameter\<close>

abbreviation (input) kAvpFlagVendor :: u8 where "kAvpFlagVendor \<equiv> 0x80"
abbreviation (input) kAvpFlagMandatory :: u8 where "kAvpFlagMandatory \<equiv> 0x40"

function pad4 :: "bytes \<Rightarrow> bytes" where
  "pad4 out = (if length out mod 4 \<noteq> 0 then pad4 (out @ [0]) else out)"
  by pat_completeness auto
termination
  by (relation "measure (\<lambda>c. 3 - (length c + 3) mod 4)") (auto, presburger)

declare pad4.simps [simp del]

definition put_avp :: "bytes \<Rightarrow> u32 \<Rightarrow> bytes \<Rightarrow> u8 \<Rightarrow> u32 \<Rightarrow> bytes" where
  "put_avp out code data flags vendor_id = (
     let vendor = (flags AND kAvpFlagVendor \<noteq> 0);
         hdr = ((if vendor then 12 else 8) :: u32);
         len = hdr + of_nat (length data);
         out = put_be32 out code;
         out = out @ [flags];
         out = put_be24 out len;
         out = (if vendor then put_be32 out vendor_id else out);
         out = put_bytes out data in
     pad4 out)"

definition put_avp_u32 :: "bytes \<Rightarrow> u32 \<Rightarrow> u32 \<Rightarrow> u8 \<Rightarrow> bytes" where
  "put_avp_u32 out code value flags = put_avp out code (put_be32 [] value) flags 0"

definition put_avp_u64 :: "bytes \<Rightarrow> u32 \<Rightarrow> u64 \<Rightarrow> u8 \<Rightarrow> bytes" where
  "put_avp_u64 out code value flags = put_avp out code (put_be64 [] value) flags 0"

definition put_avp_str :: "bytes \<Rightarrow> u32 \<Rightarrow> string \<Rightarrow> u8 \<Rightarrow> bytes" where
  "put_avp_str out code s flags = put_avp out code (List.map of_char s) flags 0"

definition put_avp_grouped :: "bytes \<Rightarrow> u32 \<Rightarrow> bytes \<Rightarrow> u8 \<Rightarrow> bytes" where
  "put_avp_grouped out code contents flags = put_avp out code contents flags 0"

definition build_diameter :: "u32 \<Rightarrow> u32 \<Rightarrow> bool \<Rightarrow> bytes \<Rightarrow> u32 \<Rightarrow> u32 \<Rightarrow> bytes" where
  "build_diameter command_code app_id req area hop_by_hop end_to_end = (
     let len = (of_nat (kDiameterHeaderLen + length area) :: u32);
         out = [1];
         out = put_be24 out len;
         out = out @ [if req then 0x80 else 0x00];
         out = put_be24 out command_code;
         out = put_be32 out app_id;
         out = put_be32 out hop_by_hop;
         out = put_be32 out end_to_end in
     put_bytes out area)"

record GySpec =
  gq_session_id :: string
  gq_origin_host :: string
  gq_origin_realm :: string
  gq_imsi :: string
  gq_request_type :: u32
  gq_request_number :: u32
  gq_rating_group :: u32
  gq_used_input :: u64
  gq_used_output :: u64
  gq_granted_total :: u64
  gq_include_mscc :: bool
  gq_result_code :: u32

definition GySpec_init :: GySpec where
  "GySpec_init = \<lparr>gq_session_id = ''ocs.example.com;1;1;0'', gq_origin_host = ''pgw.example.com'',
     gq_origin_realm = ''example.com'', gq_imsi = ''310150123456789'', gq_request_type = cc_request_code kUpdate,
     gq_request_number = 1, gq_rating_group = 10, gq_used_input = 0, gq_used_output = 0, gq_granted_total = 0,
     gq_include_mscc = True, gq_result_code = kResultSuccess\<rparr>"

definition build_ccr :: "GySpec \<Rightarrow> bytes" where
  "build_ccr s = (
     let m = kAvpFlagMandatory;
         avps = put_avp_str [] (avp_code kSessionId) (gq_session_id s) m;
         avps = put_avp_str avps (avp_code kOriginHost) (gq_origin_host s) m;
         avps = put_avp_str avps (avp_code kOriginRealm) (gq_origin_realm s) m;
         avps = put_avp_u32 avps (avp_code kCcRequestType) (gq_request_type s) m;
         avps = put_avp_u32 avps (avp_code kCcRequestNumber) (gq_request_number s) m;
         sub = put_avp_u32 [] (avp_code kSubscriptionIdType) (subscription_id_code kImsi) m;
         sub = put_avp_str sub (avp_code kSubscriptionIdData) (gq_imsi s) m;
         avps = put_avp_grouped avps (avp_code kSubscriptionId) sub m;
         avps = (if gq_include_mscc s then
             let usu = put_avp_u64 [] (avp_code kCcInputOctets) (gq_used_input s) m;
                 usu = put_avp_u64 usu (avp_code kCcOutputOctets) (gq_used_output s) m;
                 usu = put_avp_u64 usu (avp_code kCcTotalOctets) (gq_used_input s + gq_used_output s) m;
                 mscc = put_avp_u32 [] (avp_code kRatingGroup) (gq_rating_group s) m;
                 mscc = put_avp_grouped mscc (avp_code kUsedServiceUnit) usu m in
             put_avp_grouped avps (avp_code kMultipleServicesCreditControl) mscc m
           else avps) in
     build_diameter (diameter_command_code DiameterCommand_kCreditControl)
       (diameter_app_code DiameterApp_kCreditControl) True avps 0x11111111 0x22222222)"

definition build_cca :: "GySpec \<Rightarrow> bytes" where
  "build_cca s = (
     let m = kAvpFlagMandatory;
         avps = put_avp_str [] (avp_code kSessionId) (gq_session_id s) m;
         avps = put_avp_u32 avps (avp_code kResultCode) (gq_result_code s) m;
         avps = put_avp_str avps (avp_code kOriginHost) ''ocs.example.com'' m;
         avps = put_avp_str avps (avp_code kOriginRealm) (gq_origin_realm s) m;
         avps = put_avp_u32 avps (avp_code kCcRequestType) (gq_request_type s) m;
         avps = put_avp_u32 avps (avp_code kCcRequestNumber) (gq_request_number s) m;
         avps = (if gq_include_mscc s then
             let gsu = put_avp_u64 [] (avp_code kCcTotalOctets) (gq_granted_total s) m;
                 mscc = put_avp_u32 [] (avp_code kRatingGroup) (gq_rating_group s) m;
                 mscc = put_avp_grouped mscc (avp_code kGrantedServiceUnit) gsu m;
                 mscc = put_avp_u32 mscc (avp_code kResultCode) (gq_result_code s) m in
             put_avp_grouped avps (avp_code kMultipleServicesCreditControl) mscc m
           else avps) in
     build_diameter (diameter_command_code DiameterCommand_kCreditControl)
       (diameter_app_code DiameterApp_kCreditControl) False avps 0x11111111 0x22222222)"

end
