(* ===== verification/Synth_Gy.thy ===== *)
theory Synth_Gy
  imports Synth
begin

text \<open>
  The Diameter builders of \<^verbatim>\<open>synth.hpp\<close> against the decoder of \<^verbatim>\<open>diameter.hpp\<close>: the AVPs a builder
  appends are the AVPs the walk visits, and a generated Gy request decodes to the fields it was
  made from.
\<close>

subsection \<open>Scalars written and read\<close>

lemma put_scalars:
  "put_be16 b v16 = b @ rev (word_bytes 2 v16)" "put_be24 b v24 = b @ rev (word_bytes 3 v24)"
  "put_be32 b v32 = b @ rev (word_bytes 4 v32)" "put_be64 b v64 = b @ rev (word_bytes 8 v64)"
  by (simp_all add: put_be16_def put_be24_def put_be32_def put_be64_def word_bytes_small word_bytes_def upt_rec)

lemma be_val_put:
  "be_val (rev (word_bytes 2 v16)) = (v16 :: u16)" "be_val (rev (word_bytes 4 v32)) = (v32 :: u32)"
  "be_val (rev (word_bytes 8 v64)) = (v64 :: u64)"
  "unat v24 < 2 ^ 24 \<Longrightarrow> be_val (rev (word_bytes 3 v24)) = (v24 :: u32)"
  by (simp_all add: be_val_rev_word_bytes take_bit_word_eq_self)
    (rule word_unat_eq_iff [THEN iffD2], simp add: unsigned_take_bit_eq take_bit_nat_eq_self)

lemma pad4_eq: "pad4 x = x @ replicate (padded (length x) - length x) 0"
proof (induction x rule: pad4.induct)
  case (1 x)
  show ?case
  proof (cases "length x mod 4 = 0")
    case True
    then have "padded (length x) = length x" by (auto simp: padded_def)
    then show ?thesis using True by (simp add: pad4.simps [of x])
  next
    case False
    then have "padded (length (x @ [0])) = padded (length x)" "length x < padded (length x)"
      by (simp_all add: padded_def) presburger+
    then show ?thesis using False 1 by (simp add: pad4.simps [of x] Suc_diff_Suc flip: replicate_Suc)
  qed
qed

lemma length_pad4: "length (pad4 x) = padded (length x)"
  using padded_bounds(1) [of "length x"] by (simp add: pad4_eq)

lemma padded_add: "4 dvd m \<Longrightarrow> padded (m + n) = m + padded n"
  unfolding padded_def by presburger

subsection \<open>AVPs written and read\<close>

definition avp_hdr_len :: "u8 \<Rightarrow> nat" where
  "avp_hdr_len flags = (if flags AND 0x80 \<noteq> 0 then 12 else 8)"

definition avp_fields :: "u32 \<Rightarrow> bytes \<Rightarrow> u8 \<Rightarrow> u32 \<Rightarrow> bytes" where
  "avp_fields code data flags vendor_id = rev (word_bytes 4 code) @ [flags] @
     rev (word_bytes 3 (of_nat (avp_hdr_len flags + length data) :: u32)) @
     (if flags AND 0x80 \<noteq> 0 then rev (word_bytes 4 vendor_id) else []) @ data"

lemma length_avp_fields: "length (avp_fields code data flags vid) = avp_hdr_len flags + length data"
  by (simp add: avp_fields_def avp_hdr_len_def)

lemma put_avp_eq:
  assumes "4 dvd length out"
  shows "put_avp out code data flags vid = out @ pad4 (avp_fields code data flags vid)"
proof -
  have "put_avp out code data flags vid = pad4 (out @ avp_fields code data flags vid)"
    by (simp add: put_avp_def avp_fields_def avp_hdr_len_def put_scalars put_bytes_def Let_def)
  then show ?thesis using padded_add [OF assms] by (simp add: pad4_eq)
qed

lemma avps_put_avp:
  assumes n: "avp_hdr_len flags + length data < 2 ^ 24"
  shows "avps (pad4 (avp_fields code data flags vid) @ rest) =
    (\<lparr>av_data = data, av_code = code, av_vendor_id = (if flags AND 0x80 \<noteq> 0 then vid else 0),
       av_length = of_nat (avp_hdr_len flags + length data), av_flags = flags\<rparr> # fst (avps rest), snd (avps rest))"
proof -
  let ?n = "avp_hdr_len flags + length data"
  define pad :: bytes where "pad = replicate (padded ?n - ?n) 0"
  define a where "a = avp_fields code data flags vid @ pad @ rest"
  have u: "unat (of_nat ?n :: u32) = ?n" using n by (intro unat_of_nat_less) simp
  have f: "a ! 4 = flags" by (simp add: a_def avp_fields_def nth_append)
  have c: "take 4 a = rev (word_bytes 4 code)" by (simp add: a_def avp_fields_def)
  have l: "be_val (take 3 (drop 5 a)) = (of_nat ?n :: u32)"
    using be_val_put(4) [of "of_nat ?n"] u n by (simp add: a_def avp_fields_def del: of_nat_add)
  have h: "avp_hdr a = avp_hdr_len flags" by (simp add: avp_hdr_def f avp_hdr_len_def)
  have len: "avp_len a = ?n" unfolding avp_len_def l u ..
  have d: "drop (avp_hdr_len flags) a = data @ pad @ rest"
    by (simp add: a_def avp_fields_def avp_hdr_len_def)
  have v: "flags AND 0x80 \<noteq> 0 \<Longrightarrow> take 4 (drop 8 a) = rev (word_bytes 4 vid)"
    by (simp add: a_def avp_fields_def)
  have "first_avp a = \<lparr>av_data = data, av_code = code, av_vendor_id = (if flags AND 0x80 \<noteq> 0 then vid else 0),
       av_length = of_nat ?n, av_flags = flags\<rparr>"
    unfolding first_avp_def h len l f c d using v by (simp add: be_val_put)
  moreover have "avp_sound a"
    using padded_bounds(1) [of ?n] avp_hdr_ge [of a] unfolding avp_sound_def h len by (simp add: a_def length_avp_fields)
  moreover have "padded (avp_len a) = length (avp_fields code data flags vid @ pad)"
    unfolding len using padded_bounds(1) [of ?n] by (simp add: length_avp_fields pad_def)
  then have "drop (padded (avp_len a)) a = rest" "padded (avp_len a) \<le> length a" by (simp_all add: a_def)
  moreover have "a \<noteq> []" by (simp add: a_def avp_fields_def)
  moreover have "pad4 (avp_fields code data flags vid) @ rest = a" by (simp add: pad4_eq length_avp_fields pad_def a_def)
  ultimately show ?thesis by (subst avps.simps) (simp add: split_beta)
qed

text \<open>Areas of mandatory AVPs, which is all the Gy builders write.\<close>

definition avp_m :: "u32 \<times> bytes \<Rightarrow> Avp" where
  "avp_m x = \<lparr>av_data = snd x, av_code = fst x, av_vendor_id = 0, av_length = of_nat (8 + length (snd x)), av_flags = 0x40\<rparr>"

definition area :: "(u32 \<times> bytes) list \<Rightarrow> bytes" where
  "area xs = concat (List.map (\<lambda>x. pad4 (avp_fields (fst x) (snd x) 0x40 0)) xs)"

definition area_size :: "(u32 \<times> bytes) list \<Rightarrow> nat" where
  "area_size xs = sum_list (List.map (\<lambda>x. padded (8 + length (snd x))) xs)"

lemma area_size_simps [simp]:
  "area_size [] = 0" "area_size (x # xs) = padded (8 + length (snd x)) + area_size xs"
  by (simp_all add: area_size_def)

lemma length_area: "length (area xs) = area_size xs"
  by (induction xs) (simp_all add: area_def length_pad4 length_avp_fields avp_hdr_len_def)

lemma area_size_aligned: "4 dvd area_size xs"
  by (induction xs) (simp_all add: padded_bounds(3))

lemma area_Nil: "area [] = []"
  by (simp add: area_def)

lemma put_avp_area: "put_avp (area xs) code data 0x40 0 = area (xs @ [(code, data)])"
proof -
  have "4 dvd length (area xs)" by (simp add: length_area area_size_aligned)
  then show ?thesis by (simp add: put_avp_eq area_def)
qed

lemma avps_area: "list_all (\<lambda>x. length (snd x) < 2 ^ 24 - 8) xs \<Longrightarrow> avps (area xs) = (List.map avp_m xs, DiameterStatus_kOk)"
proof (induction xs)
  case (Cons x xs)
  then show ?case
    using avps_put_avp [of "0x40" "snd x" "fst x" 0 "area xs"] by (simp add: area_def avp_m_def avp_hdr_len_def)
qed (simp add: area_def)

subsection \<open>Messages written and read\<close>

lemma build_diameter_eq:
  "build_diameter cmd app req body hbh ete = [1] @ rev (word_bytes 3 (of_nat (20 + length body) :: u32)) @
     [if req then 0x80 else 0] @ rev (word_bytes 3 cmd) @ rev (word_bytes 4 app) @ rev (word_bytes 4 hbh) @
     rev (word_bytes 4 ete) @ body"
  by (simp add: build_diameter_def put_scalars put_bytes_def Let_def)

lemma parse_build_diameter:
  assumes "length body \<le> 2 ^ 20 - 20" "4 dvd length body" "unat cmd < 2 ^ 24"
  shows "parse_diameter_header (build_diameter cmd app req body hbh ete) =
    Some (DiameterStatus_kOk, \<lparr>dh_avps = body, dh_msg_length = of_nat (20 + length body), dh_command_code = cmd,
      dh_application_id = app, dh_hop_by_hop = hbh, dh_end_to_end = ete, dh_flags = (if req then 0x80 else 0)\<rparr>)"
proof -
  define n where "n = 20 + length body"
  define b where "b = build_diameter cmd app req body hbh ete"
  have b: "b = [1] @ rev (word_bytes 3 (of_nat n :: u32)) @ [if req then 0x80 else 0] @ rev (word_bytes 3 cmd) @
      rev (word_bytes 4 app) @ rev (word_bytes 4 hbh) @ rev (word_bytes 4 ete) @ body"
    by (simp add: b_def n_def build_diameter_eq)
  have n: "n \<le> 2 ^ 20" "20 \<le> n" "4 dvd n" using assms by (simp_all add: n_def)
  have u: "unat (of_nat n :: u32) = n" using n by (intro unat_of_nat_less) simp
  have lenb: "length b = n" by (simp add: b n_def)
  have l: "be_val (take 3 (drop 1 b)) = (of_nat n :: u32)" using be_val_put(4) [of "of_nat n"] u n by (simp add: b)
  have w: "wire_length b = n" unfolding wire_length_def l u ..
  have "b ! 0 = 1" "b ! 4 = (if req then 0x80 else 0)" "take 3 (drop 5 b) = rev (word_bytes 3 cmd)"
      "take 4 (drop 8 b) = rev (word_bytes 4 app)" "take 4 (drop 12 b) = rev (word_bytes 4 hbh)"
      "take 4 (drop 16 b) = rev (word_bytes 4 ete)" "drop 20 b = body"
    by (simp_all add: b nth_append)
  then have "wire_header b = \<lparr>dh_avps = body, dh_msg_length = of_nat n, dh_command_code = cmd,
      dh_application_id = app, dh_hop_by_hop = hbh, dh_end_to_end = ete, dh_flags = (if req then 0x80 else 0)\<rparr>"
    unfolding wire_header_def w l using assms(3) by (simp add: be_val_put n_def)
  then show ?thesis
    unfolding b_def [symmetric] n_def [symmetric] parse_diameter_header_cascade w lenb using n \<open>b ! 0 = 1\<close> by simp
qed

text \<open>The AVPs of a generated request, outermost first.\<close>

definition used_items :: "GySpec \<Rightarrow> (u32 \<times> bytes) list" where
  "used_items s = [(412, rev (word_bytes 8 (gq_used_input s))), (414, rev (word_bytes 8 (gq_used_output s))),
     (421, rev (word_bytes 8 (gq_used_input s + gq_used_output s)))]"

definition mscc_items :: "GySpec \<Rightarrow> (u32 \<times> bytes) list" where
  "mscc_items s = [(432, rev (word_bytes 4 (gq_rating_group s))), (446, area (used_items s))]"

definition subscription_items :: "GySpec \<Rightarrow> (u32 \<times> bytes) list" where
  "subscription_items s = [(450, rev (word_bytes 4 (1 :: u32))), (444, List.map of_char (gq_imsi s))]"

definition ccr_items :: "GySpec \<Rightarrow> (u32 \<times> bytes) list" where
  "ccr_items s = [(263, List.map of_char (gq_session_id s)), (264, List.map of_char (gq_origin_host s)),
     (296, List.map of_char (gq_origin_realm s)), (416, rev (word_bytes 4 (gq_request_type s))),
     (415, rev (word_bytes 4 (gq_request_number s))), (443, area (subscription_items s))] @
     (if gq_include_mscc s then [(456, area (mscc_items s))] else [])"

lemma put_avp_area_first: "put_avp [] code data 0x40 0 = area [(code, data)]"
  using put_avp_area [of "[]" code data] by (simp add: area_Nil)

lemma build_ccr_eq: "build_ccr s = build_diameter 272 4 True (area (ccr_items s)) 0x11111111 0x22222222"
  by (simp add: build_ccr_def ccr_items_def mscc_items_def used_items_def subscription_items_def put_avp_str_def
      put_avp_u32_def put_avp_u64_def put_avp_grouped_def put_avp_area_first put_avp_area put_scalars Let_def)

definition digits_text :: "string \<Rightarrow> bool" where
  "digits_text t \<longleftrightarrow> t \<noteq> [] \<and> length t \<le> 19 \<and> list_all (\<lambda>c. is_digit (of_char c)) t"

definition ccr_ok :: "GySpec \<Rightarrow> bool" where
  "ccr_ok s \<longleftrightarrow> digits_text (gq_imsi s) \<and>
     length (gq_session_id s) + length (gq_origin_host s) + length (gq_origin_realm s) \<le> 1000000"

lemma area_sizes:
  "area_size (used_items s) = 48" "area_size (mscc_items s) = 68"
  "ccr_ok s \<Longrightarrow> area_size (subscription_items s) \<le> 40" "ccr_ok s \<Longrightarrow> area_size (ccr_items s) \<le> 2 ^ 20 - 20"
proof -
  show u: "area_size (used_items s) = 48" by (simp add: used_items_def padded_def)
  show m: "area_size (mscc_items s) = 68" by (simp add: mscc_items_def padded_def length_area u)
  assume ok: "ccr_ok s"
  then have "length (gq_imsi s) \<le> 19" by (simp add: ccr_ok_def digits_text_def)
  then have "padded (8 + length (gq_imsi s)) \<le> 28" unfolding padded_def by presburger
  then show sub: "area_size (subscription_items s) \<le> 40" by (simp add: subscription_items_def padded_def)
  have "padded (8 + length t) \<le> 11 + length t" for t :: string using padded_bounds(2) [of "8 + length t"] by linarith
  from this [of "gq_session_id s"] this [of "gq_origin_host s"] this [of "gq_origin_realm s"]
  have "area_size (ccr_items s) \<le> length (gq_session_id s) + length (gq_origin_host s) + length (gq_origin_realm s) + 200"
    using sub padded_bounds(2) [of "8 + area_size (subscription_items s)"]
    by (simp add: ccr_items_def length_area m padded_def [of 12] padded_def [of 76])
  then show "area_size (ccr_items s) \<le> 2 ^ 20 - 20" using ok by (simp add: ccr_ok_def)
qed

lemma ccr_avps:
  assumes "ccr_ok s"
  shows "avps (area (used_items s)) = (List.map avp_m (used_items s), DiameterStatus_kOk)"
    "avps (area (mscc_items s)) = (List.map avp_m (mscc_items s), DiameterStatus_kOk)"
    "avps (area (subscription_items s)) = (List.map avp_m (subscription_items s), DiameterStatus_kOk)"
    "avps (area (ccr_items s)) = (List.map avp_m (ccr_items s), DiameterStatus_kOk)"
proof -
  note sizes = area_sizes [of s]
  have imsi: "length (gq_imsi s) \<le> 19" "length (gq_session_id s) \<le> 1000000" "length (gq_origin_host s) \<le> 1000000"
      "length (gq_origin_realm s) \<le> 1000000"
    using assms by (auto simp: ccr_ok_def digits_text_def)
  show "avps (area (used_items s)) = (List.map avp_m (used_items s), DiameterStatus_kOk)"
    by (rule avps_area) (simp add: used_items_def)
  show "avps (area (mscc_items s)) = (List.map avp_m (mscc_items s), DiameterStatus_kOk)"
    using sizes(1) by (intro avps_area) (simp add: mscc_items_def length_area)
  show "avps (area (subscription_items s)) = (List.map avp_m (subscription_items s), DiameterStatus_kOk)"
    using imsi by (intro avps_area) (simp add: subscription_items_def)
  show "avps (area (ccr_items s)) = (List.map avp_m (ccr_items s), DiameterStatus_kOk)"
    using sizes(2) sizes(3) [OF assms] imsi by (intro avps_area) (simp add: ccr_items_def length_area)
qed

text \<open>Reading a number back from the AVP it was put in.\<close>

lemma avp_m_values:
  "u32_of (avp_m (c, rev (word_bytes 4 v32))) d32 = v32" "u64_of (avp_m (c, rev (word_bytes 8 v64))) d64 = v64"
  "av_code (avp_m x) = fst x" "av_data (avp_m x) = snd x"
  by (simp_all add: u32_of_def u64_of_def avp_m_def be_val_put)

definition ccr_mscc :: "GySpec \<Rightarrow> MsccInfo" where
  "ccr_mscc s = MsccInfo_init\<lparr>ms_rating_group := gq_rating_group s, ms_has_rating_group := True, ms_has_used := True,
     ms_used_input_octets := gq_used_input s, ms_used_output_octets := gq_used_output s,
     ms_used_total_octets := gq_used_input s + gq_used_output s\<rparr>"

lemma fold_mscc_items:
  assumes "ccr_ok s"
  shows "fold mscc_upd (List.map avp_m (mscc_items s)) MsccInfo_init = ccr_mscc s"
proof -
  have "sub_avps (avp_m (446, area (used_items s))) = List.map avp_m (used_items s)"
    using ccr_avps(1) [OF assms] by (simp add: sub_avps_def avp_m_values)
  then show ?thesis
    by (simp add: mscc_items_def used_items_def mscc_upd_def used_unit_upd_def total_used_def avp_m_values ccr_mscc_def MsccInfo_init_def)
qed

definition imsi_value :: "string \<Rightarrow> nat" where
  "imsi_value t = dec_value (List.map of_char t)"

lemma subscription_folds:
  assumes "ccr_ok s"
  shows "subscribe (fold subscription_upd (List.map avp_m (subscription_items s)) (0xFFFFFFFF, [])) out =
    out\<lparr>gm_imsi := of_nat (imsi_value (gq_imsi s)), gm_has_imsi := True\<rparr>"
proof -
  let ?t = "List.map of_char (gq_imsi s) :: bytes"
  have "?t \<noteq> [] \<and> length ?t \<le> 19 \<and> list_all is_digit ?t"
    using assms by (simp add: ccr_ok_def digits_text_def list_all_iff)
  then obtain v where "pack_imsi ?t (gm_imsi out) = (True, v)" "unat v = dec_value ?t"
    using pack_imsi_result [of ?t "gm_imsi out"] by auto
  moreover from this(2) have "v = of_nat (dec_value ?t)" by (metis of_nat_unat ucast_id)
  ultimately show ?thesis
    by (simp add: subscription_items_def subscription_upd_def subscribe_def avp_m_values imsi_value_def)
qed

definition ccr_message :: "GySpec \<Rightarrow> GyMessage" where
  "ccr_message s = (let m = GyMessage_init\<lparr>gm_is_request := True, gm_session_id := List.map of_char (gq_session_id s),
       gm_origin_host := List.map of_char (gq_origin_host s), gm_origin_realm := List.map of_char (gq_origin_realm s),
       gm_cc_request_type := gq_request_type s, gm_cc_request_number := gq_request_number s,
       gm_imsi := of_nat (imsi_value (gq_imsi s)), gm_has_imsi := True\<rparr> in
     if gq_include_mscc s then m\<lparr>gm_mscc := (gm_mscc m)[0 := ccr_mscc s], gm_mscc_count := 1\<rparr> else m)"

lemma parse_ccr:
  assumes "ccr_ok s"
  shows "\<exists>hdr. parse_diameter_gy (build_ccr s) gy = Some (DiameterStatus_kOk, hdr, ccr_message s) \<and>
    is_credit_control hdr \<and> unat (dh_msg_length hdr) = length (build_ccr s)"
proof -
  have size: "length (area (ccr_items s)) \<le> 2 ^ 20 - 20" "4 dvd length (area (ccr_items s))"
    using area_sizes(4) [OF assms] area_size_aligned by (simp_all add: length_area)
  obtain hdr where h: "parse_diameter_header (build_ccr s) = Some (DiameterStatus_kOk, hdr)"
      "dh_avps hdr = area (ccr_items s)" "dh_command_code hdr = 272" "request hdr"
      "dh_msg_length hdr = of_nat (20 + length (area (ccr_items s)))"
    using parse_build_diameter [OF size, of 272 4 True "0x11111111" "0x22222222"] by (simp add: build_ccr_eq request_def)
  have n: "unat (dh_msg_length hdr) = length (build_ccr s)"
    using size(1) unfolding h(5) by (subst unat_of_nat_less) (simp_all add: build_ccr_eq build_diameter_eq)
  have sub: "sub_avps (avp_m (443, area (subscription_items s))) = List.map avp_m (subscription_items s)"
      "sub_avps (avp_m (456, area (mscc_items s))) = List.map avp_m (mscc_items s)"
    using ccr_avps(2,3) [OF assms] by (simp_all add: sub_avps_def avp_m_values)
  have "fold gy_upd (List.map avp_m (ccr_items s)) (GyMessage_init\<lparr>gm_is_request := True\<rparr>) = ccr_message s"
    using fold_mscc_items [OF assms] subscription_folds [OF assms]
    by (simp add: ccr_items_def gy_upd_def avp_m_values sub ccr_message_def GyMessage_init_def Let_def)
  then have "parse_gy hdr = Some (DiameterStatus_kOk, ccr_message s)"
    using ccr_avps(4) [OF assms] h(2,4) by (simp add: parse_gy_eq)
  then show ?thesis using h(1,3) n by (simp add: parse_diameter_gy_def is_credit_control_def)
qed

text \<open>
  C25: A generated Gy request decodes to what it was made from. For every request whose IMSI is one to
  nineteen digits and whose strings fit a message, decoding the built bytes succeeds and returns
  the session, origin, request type and number, the IMSI as a number, and, when the request has
  a credit-control block, its rating group and the octets used, with their total; no other field
  is set. The declared length is the length of the message.
\<close>

theorem ccr_roundtrip:
  assumes "ccr_ok s"
  shows "\<exists>hdr. parse_diameter_gy (build_ccr s) gy = Some (DiameterStatus_kOk, hdr, ccr_message s) \<and>
    is_credit_control hdr \<and> unat (dh_msg_length hdr) = length (build_ccr s)"
  using assms by (rule parse_ccr)

theorem ccr_roundtrip_witness:
  "\<exists>hdr g. parse_diameter_gy (build_ccr (GySpec_init\<lparr>gq_imsi := ''42'', gq_used_input := 700\<rparr>)) GyMessage_init = Some (DiameterStatus_kOk, hdr, g) \<and>
     gm_imsi g = 42 \<and> ms_used_total_octets (gm_mscc g ! 0) = 700"
proof -
  let ?s = "GySpec_init\<lparr>gq_imsi := ''42'', gq_used_input := 700\<rparr>"
  have "digits_text (gq_imsi ?s)" by code_simp
  then have "ccr_ok ?s" by (simp add: ccr_ok_def GySpec_init_def)
  moreover have "gm_imsi (ccr_message ?s) = 42" "ms_used_total_octets (gm_mscc (ccr_message ?s) ! 0) = 700"
    by code_simp+
  ultimately show ?thesis using ccr_roundtrip [of ?s GyMessage_init] by blast
qed

end
