(* ===== verification/Synth_Frames.thy ===== *)
theory Synth_Frames
  imports Synth_Gy
begin

text \<open>
  The packet builders of \<^verbatim>\<open>synth.hpp\<close> against the parsers: the IPv4 header carries a valid checksum,
  and Ethernet, IP, UDP, TCP and GTP-U layers read back what the builders put in.
\<close>

subsection \<open>The internet checksum\<close>

fun words16 :: "bytes \<Rightarrow> nat list" where
  "words16 [] = []"
| "words16 [a] = [unat a * 256]"
| "words16 (a # b # r) = (unat a * 256 + unat b) # words16 r"

lemma unat_be_val_2: "unat (be_val [a, b] :: u16) = unat a * 256 + unat b"
  by (simp add: unat_be_val)

lemma checksum_sum_eq:
  assumes "len = length data"
  shows "checksum_sum data len i acc = Some (acc + of_nat (sum_list (words16 (drop i data))))"
proof (induction "len - i" arbitrary: i acc rule: less_induct)
  case less
  consider "i + 1 < len" | "i + 1 = len" | "len \<le> i" by linarith
  then show ?case
  proof cases
    case 1
    then have d: "drop i data = data ! i # data ! (i + 1) # drop (i + 2) data"
      using assms by (simp add: Cons_nth_drop_Suc)
    then have "load_be16 data i = Some (be_val [data ! i, data ! (i + 1)])"
      using 1 assms by (simp add: load_in numeral_2_eq_2)
    moreover have "ucast (be_val [data ! i, data ! (i + 1)] :: u16) = (of_nat (unat (data ! i) * 256 + unat (data ! (i + 1))) :: u32)"
      by (metis of_nat_unat unat_be_val_2)
    ultimately show ?thesis
      using 1 less [of "i + 2" "acc + of_nat (unat (data ! i) * 256 + unat (data ! (i + 1)))"] d
      by (subst checksum_sum.simps) (simp add: add.assoc del: of_nat_add of_nat_mult, simp add: add.assoc)
  next
    case 2
    then have d: "drop i data = [data ! i]" using assms by (simp add: Cons_nth_drop_Suc [symmetric])
    have "push_bit 8 (ucast (data ! i) :: u32) = of_nat (unat (data ! i) * 256)"
      by (simp add: push_bit_eq_mult)
    then show ?thesis using 2 assms d by (subst checksum_sum.simps) (simp add: at_index_in)
  next
    case 3
    then show ?thesis using assms by (subst checksum_sum.simps) simp
  qed
qed

lemma fold_carries_spec:
  "unat (fold_carries s) < 65536 \<and> unat (fold_carries s) mod 65535 = unat s mod 65535 \<and> (fold_carries s = 0 \<longleftrightarrow> s = 0)"
proof (induction s rule: fold_carries.induct)
  case (1 s)
  note b = unat_high_half [of s]
  show ?case
  proof (cases "drop_bit 16 s = 0")
    case True
    then have "unat s div 65536 = 0" using b by simp
    then show ?thesis using True by (simp add: fold_carries.simps [of s])
  next
    case False
    let ?t = "(s AND 0xFFFF) + drop_bit 16 s"
    have t: "unat ?t = unat s mod 65536 + unat s div 65536" by (rule unat_carry)
    have e: "unat s = unat s div 65536 * 65535 + unat ?t" using t div_mult_mod_eq [of "unat s" 65536] by linarith
    have "(unat s div 65536 * 65535 + unat ?t) mod 65535 = unat ?t mod 65535" by simp
    then have m: "unat ?t mod 65535 = unat s mod 65535" using e by metis
    have "unat s div 65536 \<noteq> 0" using False unfolding b [symmetric] unat_eq_0 .
    then have "?t \<noteq> 0" "s \<noteq> 0" using t by (auto simp flip: unat_eq_0)
    then show ?thesis using 1 [OF False] m False by (simp add: fold_carries.simps [of s])
  qed
qed

lemma unat_checksum:
  assumes "unat f < 65536"
  shows "unat (ucast (NOT f AND 0xFFFF) :: u16) = 65535 - unat (f :: u32)"
proof -
  have "NOT f = - 1 - f" by (simp add: not_eq_complement)
  moreover have "unat (- 1 - f :: u32) = 4294967295 - unat f" by (simp add: unat_sub unsigned_minus_1_eq_mask mask_eq_exp_minus_1)
  ultimately have "unat (NOT f AND 0xFFFF) = (4294967295 - unat f) mod 65536" using unat_and_mask [of 16 "NOT f"] by simp
  also have "4294967295 - unat f = 65535 - unat f + 65535 * 65536" using assms by simp
  also have "(65535 - unat f + 65535 * 65536) mod 65536 = 65535 - unat f" by (subst mod_mult_self1) simp
  finally have "unat (NOT f AND 0xFFFF) = 65535 - unat f" .
  then show ?thesis by (simp add: unsigned_ucast_eq take_bit_nat_eq_self)
qed

lemma checksum16_value:
  assumes "sum_list (words16 data) < 2 ^ 32"
  shows "\<exists>c f. checksum16 data (length data) 0 = Some c \<and> unat c = 65535 - f \<and> f < 65536 \<and>
    f mod 65535 = sum_list (words16 data) mod 65535 \<and> (f = 0 \<longleftrightarrow> sum_list (words16 data) = 0)"
proof -
  let ?s = "of_nat (sum_list (words16 data)) :: u32"
  have u: "unat ?s = sum_list (words16 data)" using assms by (intro unat_of_nat_less) simp
  note f = fold_carries_spec [of ?s]
  have "checksum16 data (length data) 0 = Some (ucast (NOT (fold_carries ?s) AND 0xFFFF))"
    by (simp add: checksum16_def checksum_sum_eq)
  moreover have "unat (ucast (NOT (fold_carries ?s) AND 0xFFFF) :: u16) = 65535 - unat (fold_carries ?s)"
    using f by (intro unat_checksum) simp
  moreover have "fold_carries ?s = 0 \<longleftrightarrow> sum_list (words16 data) = 0" using f u by (metis unat_eq_0)
  ultimately show ?thesis using f unfolding u by (metis unat_eq_0)
qed

subsection \<open>The IPv4 header\<close>

definition header_bytes :: "u32 \<Rightarrow> u32 \<Rightarrow> u8 \<Rightarrow> u16 \<Rightarrow> u8 \<Rightarrow> u16 \<Rightarrow> u16 \<Rightarrow> bytes" where
  "header_bytes src dst proto total_len ttl frag c = [0x45, 0] @ rev (word_bytes 2 total_len) @ [0, 0] @
     rev (word_bytes 2 frag) @ [ttl, proto] @ rev (word_bytes 2 c) @ rev (word_bytes 4 src) @ rev (word_bytes 4 dst)"

lemma length_header_bytes [simp]: "length (header_bytes src dst proto total_len ttl frag c) = 20"
  by (simp add: header_bytes_def)

lemma store_at_run: "store_at p i v = (if i < length p then Some (put_run p i [v]) else None)"
  by (simp add: store_at_def put_run_def upd_conv_take_nth_drop)

lemma ipv4_header_eq:
  "ipv4_header src dst proto total_len ttl frag = do {
     c \<leftarrow> checksum16 (header_bytes src dst proto total_len ttl frag 0) 20 0;
     Some (header_bytes src dst proto total_len ttl frag c) }"
proof -
  have z: "rev (word_bytes 2 (0 :: u16)) = [0, 0]" by (simp add: word_bytes_small)
  show ?thesis
    by (simp add: ipv4_header_def store_be16_eq store_be32_eq store_at_run put_run_def header_bytes_def z Let_def)
qed

lemma words16_header:
  "\<exists>rest. \<forall>c. sum_list (words16 (header_bytes src dst proto total_len ttl frag c)) = rest + unat c \<and>
     0 < rest \<and> rest < 10 * 65536"
proof -
  have w: "words16 (rev (word_bytes 2 c) @ r) = unat c # words16 r" for c :: u16 and r
    using unat_be_val_2 [of "ucast (drop_bit 8 c)" "ucast c"] be_val_put(1) [of c] by (simp add: word_bytes_small)
  have w4: "\<exists>a b. \<forall>r. words16 (rev (word_bytes 4 v) @ r) = a # b # words16 r \<and> a < 65536 \<and> b < 65536" for v :: u32
    using unat_u8_less [of "ucast (drop_bit 24 v)"] unat_u8_less [of "ucast (drop_bit 16 v)"]
      unat_u8_less [of "ucast (drop_bit 8 v)"] unat_u8_less [of "ucast v"]
    by (simp add: word_bytes_small)
  obtain a b where s: "\<And>r. words16 (rev (word_bytes 4 src) @ r) = a # b # words16 r" "a < 65536" "b < 65536" using w4 by blast
  obtain a' b' where d: "\<And>r. words16 (rev (word_bytes 4 dst) @ r) = a' # b' # words16 r" "a' < 65536" "b' < 65536" using w4 by blast
  have "words16 (rev (word_bytes 4 dst)) = [a', b']" using d(1) [of "[]"] by simp
  moreover have "unat total_len < 65536" "unat frag < 65536"
    using unsigned_less [of total_len, where 'a=nat] unsigned_less [of frag, where 'a=nat] by simp_all
  ultimately show ?thesis
    using s d unat_u8_less [of ttl] unat_u8_less [of proto]
    by (intro exI [of _ "17664 + unat total_len + unat frag + (unat ttl * 256 + unat proto) + a + b + a' + b'"])
      (simp add: header_bytes_def w)
qed

lemma ipv4_header_result:
  "\<exists>c. ipv4_header src dst proto total_len ttl frag = Some (header_bytes src dst proto total_len ttl frag c) \<and>
     checksum16 (header_bytes src dst proto total_len ttl frag c) 20 0 = Some 0"
proof -
  let ?h = "header_bytes src dst proto total_len ttl frag"
  obtain rest where r: "\<And>c. sum_list (words16 (?h c)) = rest + unat c" "0 < rest" "rest < 10 * 65536"
    using words16_header by blast
  obtain c f where c: "checksum16 (?h 0) 20 0 = Some c" "unat c = 65535 - f" "f < 65536" "f mod 65535 = rest mod 65535"
    using checksum16_value [of "?h 0"] r by auto
  have m: "(rest + unat c) mod 65535 = 0"
  proof -
    have "(rest + (65535 - f)) mod 65535 = (rest mod 65535 + (65535 - f)) mod 65535" by (simp add: mod_add_left_eq)
    also have "\<dots> = (f mod 65535 + (65535 - f)) mod 65535" using c(4) by simp
    also have "\<dots> = (f + (65535 - f)) mod 65535" by (simp add: mod_add_left_eq)
    finally show ?thesis using c(2,3) by simp
  qed
  obtain c' f' where c': "checksum16 (?h c) 20 0 = Some c'" "unat c' = 65535 - f'" "f' < 65536" "f' mod 65535 = 0" "f' \<noteq> 0"
  proof -
    have "sum_list (words16 (?h c)) < 2 ^ 32" using r c(2) by simp
    from checksum16_value [OF this] that r(2) m show ?thesis unfolding r(1) by auto
  qed
  from c'(3,4,5) have "f' = 65535" by (auto simp: mod_eq_0_iff_dvd dvd_def) 
  then have "c' = 0" using c'(2) by (simp add: unat_eq_0)
  then show ?thesis using c(1) c'(1) by (auto simp: ipv4_header_eq)
qed

text \<open>
  The IPv4 header the builder writes is 20 bytes long and carries a valid checksum: the internet
  checksum over the finished header, the checksum field included, is zero, for every address,
  protocol, length, time to live and fragment field.
\<close>

theorem ipv4_header_checksum:
  "\<exists>h. ipv4_header src dst proto total_len ttl frag = Some h \<and> length h = 20 \<and> checksum16 h 20 0 = Some 0"
  using ipv4_header_result [of src dst proto total_len ttl frag] by auto

subsection \<open>IP packets\<close>

definition built_ip :: "u32 \<Rightarrow> u32 \<Rightarrow> u8 \<Rightarrow> nat \<Rightarrow> IpPacket" where
  "built_ip src dst proto n = IpPacket_init\<lparr>
     ip_tuple := FiveTuple_init\<lparr>ft_ip_version := 4, ft_proto := proto, ft_fragmented := False,
       ft_src := rev (word_bytes 4 src) @ replicate 12 0, ft_dst := rev (word_bytes 4 dst) @ replicate 12 0\<rparr>,
     ip_l3_header_len := 20, ip_total_len := of_nat n, ip_valid := True\<rparr>"

lemma parse_ip_header:
  assumes "20 + length l4 < 65536"
  shows "parse_ip (header_bytes src dst proto (of_nat (20 + length l4)) ttl 0x4000 c @ l4) =
    parse_l4 l4 (built_ip src dst proto (20 + length l4))"
proof -
  define n where "n = 20 + length l4"
  define p where "p = header_bytes src dst proto (of_nat n) ttl 0x4000 c @ l4"
  have u: "unat (of_nat n :: u16) = n" using assms by (intro unat_of_nat_less) (simp add: n_def)
  have len: "length p = n" by (simp add: p_def n_def)
  have "take 2 (drop 2 p) = rev (word_bytes 2 (of_nat n :: u16))" "take 2 (drop 6 p) = rev (word_bytes 2 (0x4000 :: u16))"
      "p ! 0 = 0x45" "p ! 9 = proto"
    by (simp_all add: p_def header_bytes_def nth_append)
  then have r: "at_index p 0 = Some 0x45" "load_be16 p 2 = Some (of_nat n)" "load_be16 p 6 = Some 0x4000" "at_index p 9 = Some proto"
    using len by (simp_all add: n_def load_in be_val_put at_index_def)
  have a: "copy_addr p 12 4 = Some (rev (word_bytes 4 src) @ replicate 12 0)"
      "copy_addr p 16 4 = Some (rev (word_bytes 4 dst) @ replicate 12 0)" "subspan p 20 (n - 20) = Some l4"
    by (simp_all add: p_def header_bytes_def copy_addr_def subspan_def n_def)
  have uc: "ucast (of_nat n :: u16) = (of_nat n :: u32)"
    by (metis of_nat_unat u)
  have nb: "20 \<le> n" "n - 20 = length l4" by (simp_all add: n_def)
  have "parse_ip p = parse_ipv4 p" using r(1) len nb by (auto simp: parse_ip_def Let_def)
  also have "\<dots> = parse_l4 l4 (built_ip src dst proto n)"
    using nb(1) a(3) by (simp add: parse_ipv4_def len r a u uc built_ip_def IpPacket_init_def FiveTuple_init_def Let_def)
  finally show ?thesis by (simp add: p_def n_def)
qed

definition udp_view :: "UdpSpec \<Rightarrow> bytes \<Rightarrow> IpPacket" where
  "udp_view s payload = (set_ports (us_src_port s) (us_dst_port s)
     (built_ip (us_src_ip s) (us_dst_ip s) (ip_proto_code kUdp) (28 + length payload)))\<lparr>
       ip_l4_header_len := 8, ip_l4_payload := payload\<rparr>"

lemma parse_build_ipv4_udp:
  assumes "length payload \<le> 65507"
  shows "\<exists>ip. build_ipv4_udp s payload = Some ip \<and> length ip = 28 + length payload \<and> parse_ip ip = Some (udp_view s payload)"
proof -
  define n where "n = 8 + length payload"
  have u: "unat (of_nat n :: u16) = n" using assms by (intro unat_of_nat_less) (simp add: n_def)
  define l4 where "l4 = rev (word_bytes 2 (us_src_port s)) @ rev (word_bytes 2 (us_dst_port s)) @
    rev (word_bytes 2 (of_nat n :: u16)) @ rev (word_bytes 2 (0 :: u16)) @ payload"
  have l: "length l4 = n" by (simp add: l4_def n_def)
  obtain c where "ipv4_header (us_src_ip s) (us_dst_ip s) (ip_proto_code kUdp) (of_nat (20 + n)) (us_ttl s) 0x4000 =
      Some (header_bytes (us_src_ip s) (us_dst_ip s) (ip_proto_code kUdp) (of_nat (20 + n)) (us_ttl s) 0x4000 c)"
    using ipv4_header_result by blast
  then have b: "build_ipv4_udp s payload =
      Some (header_bytes (us_src_ip s) (us_dst_ip s) (ip_proto_code kUdp) (of_nat (20 + length l4)) (us_ttl s) 0x4000 c @ l4)"
    unfolding build_ipv4_udp_def n_def [symmetric] Let_def u l by (simp add: put_scalars put_bytes_def l4_def)
  have "load_be16 l4 0 = Some (us_src_port s)" "load_be16 l4 2 = Some (us_dst_port s)" "subspan_from l4 8 = Some payload"
    by (simp_all add: load_in l4_def be_val_put subspan_from_def)
  then have "parse_l4 l4 (built_ip (us_src_ip s) (us_dst_ip s) (ip_proto_code kUdp) (20 + n)) = Some (udp_view s payload)"
    using l by (simp add: parse_l4_def built_ip_def udp_view_def set_ports_def n_def)
  moreover have "20 + length l4 < 65536" using assms by (simp add: l n_def)
  ultimately show ?thesis using b parse_ip_header [of l4] l by (simp add: n_def)
qed

definition tcp_view :: "UdpSpec \<Rightarrow> bytes \<Rightarrow> IpPacket" where
  "tcp_view s payload = (set_ports (us_src_port s) (us_dst_port s)
     (built_ip (us_src_ip s) (us_dst_ip s) (ip_proto_code kTcp) (40 + length payload)))\<lparr>
       ip_l4_header_len := 20, ip_l4_payload := payload\<rparr>"

lemma parse_build_ipv4_tcp:
  assumes "length payload \<le> 65495"
  shows "\<exists>ip. build_ipv4_tcp s payload seq flags = Some ip \<and> length ip = 40 + length payload \<and> parse_ip ip = Some (tcp_view s payload)"
proof -
  define n where "n = 20 + length payload"
  have u: "unat (of_nat n :: u16) = n" using assms by (intro unat_of_nat_less) (simp add: n_def)
  define l4 where "l4 = rev (word_bytes 2 (us_src_port s)) @ rev (word_bytes 2 (us_dst_port s)) @ rev (word_bytes 4 seq) @
    rev (word_bytes 4 (0 :: u32)) @ [0x50, flags] @ rev (word_bytes 2 (0xFFFF :: u16)) @ rev (word_bytes 2 (0 :: u16)) @
    rev (word_bytes 2 (0 :: u16)) @ payload"
  have l: "length l4 = n" by (simp add: l4_def n_def)
  obtain c where "ipv4_header (us_src_ip s) (us_dst_ip s) (ip_proto_code kTcp) (of_nat (20 + n)) (us_ttl s) 0x4000 =
      Some (header_bytes (us_src_ip s) (us_dst_ip s) (ip_proto_code kTcp) (of_nat (20 + n)) (us_ttl s) 0x4000 c)"
    using ipv4_header_result by blast
  then have b: "build_ipv4_tcp s payload seq flags =
      Some (header_bytes (us_src_ip s) (us_dst_ip s) (ip_proto_code kTcp) (of_nat (20 + length l4)) (us_ttl s) 0x4000 c @ l4)"
    unfolding build_ipv4_tcp_def n_def [symmetric] Let_def u l by (simp add: put_scalars put_bytes_def l4_def)
  have "load_be16 l4 0 = Some (us_src_port s)" "load_be16 l4 2 = Some (us_dst_port s)" "subspan_from l4 20 = Some payload"
      "at_index l4 12 = Some 0x50"
    by (simp_all add: load_in l4_def be_val_put subspan_from_def at_index_def nth_append)
  then have "parse_l4 l4 (built_ip (us_src_ip s) (us_dst_ip s) (ip_proto_code kTcp) (20 + n)) = Some (tcp_view s payload)"
    using l by (simp add: parse_l4_def built_ip_def tcp_view_def set_ports_def n_def Let_def)
  moreover have "20 + length l4 < 65536" using assms by (simp add: l n_def)
  ultimately show ?thesis using b parse_ip_header [of l4] l by (simp add: n_def)
qed

subsection \<open>Ethernet frames\<close>

lemma build_ethernet_eq:
  "build_ethernet pkt et n vid = [2, 3, 4, 5, 6, 7, 10, 11, 12, 13, 14, 15] @
     concat (replicate n (rev (word_bytes 2 kEtherTypeVlan) @ rev (word_bytes 2 vid))) @ rev (word_bytes 2 et) @ pkt"
proof -
  have "put_vlan_tags n vid f = f @ concat (replicate n (rev (word_bytes 2 kEtherTypeVlan) @ rev (word_bytes 2 vid)))" for f
    by (induction n arbitrary: f) (simp_all add: put_scalars)
  then show ?thesis by (simp add: build_ethernet_def put_scalars put_bytes_def upt_rec Let_def)
qed

lemma parse_build_ethernet:
  assumes "et \<noteq> kEtherTypeVlan" "et \<noteq> kEtherTypeQinQ" "n \<le> 2"
  shows "parse_ethernet (build_ethernet pkt et n vid) =
    Some \<lparr>eth_payload = pkt, eth_ethertype = et, eth_vlan_tags = of_nat n, eth_valid = True\<rparr>"
proof -
  have two: "vlan_loop 2 = vlan_loop (Suc (Suc 0))" by (simp add: numeral_2_eq_2)
  have tags: "concat (replicate 2 x) = x @ x" for x :: bytes by (simp add: numeral_2_eq_2)
  consider "n = 0" | "n = 1" | "n = 2" using assms(3) by linarith
  then show ?thesis
    using assms(1,2)
    by cases (simp_all add: build_ethernet_eq parse_ethernet_def load_in be_val_put two tags
        finish_ethernet_def subspan_from_def EthFrame_init_def)
qed

subsection \<open>GTP-U PDUs\<close>

lemma pad_ext_eq: "pad_ext c = c @ replicate (padded (length c + 2) - (length c + 2)) 0"
proof (induction c rule: pad_ext.induct)
  case (1 c)
  show ?case
  proof (cases "(length c + 2) mod 4 = 0")
    case True
    then have "padded (length c + 2) = length c + 2" by (auto simp: padded_def)
    then show ?thesis using True by (simp add: pad_ext.simps [of c])
  next
    case False
    then have "padded (length (c @ [0]) + 2) = padded (length c + 2)" "length c + 2 < padded (length c + 2)"
      by (simp_all add: padded_def) presburger+
    then show ?thesis using False 1 by (simp add: pad_ext.simps [of c] Suc_diff_Suc flip: replicate_Suc)
  qed
qed

lemma length_pad_ext: "length (pad_ext c) + 2 = padded (length c + 2)"
  using padded_bounds(1) [of "length c + 2"] by (simp add: pad_ext_eq)

definition link_ok :: "u8 \<times> bytes \<Rightarrow> bool" where
  "link_ok x \<longleftrightarrow> fst x \<noteq> 0 \<and> length (snd x) \<le> 1018"

definition first_type :: "(u8 \<times> bytes) list \<Rightarrow> u8" where
  "first_type chain = (case chain of [] \<Rightarrow> gtpu_ext_code kNone | (t, _) # _ \<Rightarrow> t)"

lemma first_type_Cons [simp]: "first_type ((t, c) # rest) = t"
  by (simp add: first_type_def)

definition chain_upd :: "u8 \<times> bytes \<Rightarrow> GtpuHeader \<Rightarrow> GtpuHeader" where
  "chain_upd x out = (if fst x = 0x85 then container_upd (pad_ext (snd x) ! 0) (pad_ext (snd x) ! 1) out else out)"

lemma link_units:
  assumes "length c \<le> 1018"
  shows "unat (of_nat ((length (pad_ext c) + 2) div 4) :: u8) * 4 = length (pad_ext c) + 2" "2 \<le> length (pad_ext c)"
proof -
  have b: "padded (length c + 2) \<le> 1020" "4 dvd padded (length c + 2)" "length c + 2 \<le> padded (length c + 2)"
    using assms padded_bounds [of "length c + 2"] by (auto simp: padded_def)
  have "padded (length c + 2) div 4 < 2 ^ 8" using b(1) by simp
  then have "unat (of_nat (padded (length c + 2) div 4) :: u8) = padded (length c + 2) div 4"
    by (intro unat_of_nat_less) simp
  then show "unat (of_nat ((length (pad_ext c) + 2) div 4) :: u8) * 4 = length (pad_ext c) + 2"
    unfolding length_pad_ext using b(2) by simp
  have "4 \<le> padded (length c + 2)" using b(2,3) by (auto simp: dvd_def)
  then show "2 \<le> length (pad_ext c)" using length_pad_ext [of c] by linarith
qed

lemma ext_loop_chain:
  assumes "list_all link_ok chain" "links + length chain \<le> 16"
  shows "ext_loop (pre @ gtpu_ext chain @ post) (first_type chain) links out (length pre) =
    Some (GtpuStatus_kOk, (fold chain_upd chain out)\<lparr>gh_ext_count := of_nat (links + length chain)\<rparr>,
      length pre + length (gtpu_ext chain))"
  using assms
proof (induction chain arbitrary: pre links out)
  case Nil
  then show ?case by (subst ext_loop_step) (simp add: first_type_def)
next
  case (Cons x rest)
  obtain t c where x: "x = (t, c)" by (cases x)
  define content where "content = pad_ext c"
  define n where "n = length content + 2"
  define units :: u8 where "units = of_nat (n div 4)"
  have ok: "t \<noteq> 0" "length c \<le> 1018" using Cons.prems x by (auto simp: link_ok_def)
  have u: "unat units * 4 = n" "2 \<le> length content" using link_units [OF ok(2)] by (simp_all add: units_def n_def content_def)
  then have u0: "units \<noteq> 0" by (auto simp: n_def)
  define buf where "buf = pre @ gtpu_ext (x # rest) @ post"
  let ?pre = "pre @ [units] @ content @ [first_type rest]"
  have buf: "buf = ?pre @ gtpu_ext rest @ post"
    by (simp add: buf_def x content_def n_def units_def first_type_def Let_def split: list.splits)
  have i: "buf ! length pre = units" "buf ! (length pre + n - 1) = first_type rest"
      "buf ! (length pre + 1) = content ! 0" "buf ! (length pre + 2) = content ! 1" "length pre + n \<le> length buf"
    using u(2) unfolding buf by (auto simp: n_def nth_append)
  have c: "chain_upd x out = (if t = 0x85 then container_upd (content ! 0) (content ! 1) out else out)"
    by (simp add: chain_upd_def x content_def)
  have "ext_loop buf t links out (length pre) = ext_loop buf (first_type rest) (Suc links) (chain_upd x out) (length pre + n)"
    using ok(1) u u0 i Cons.prems(2) c by (subst ext_loop_step) (simp add: Let_def n_def)
  also have "\<dots> = ext_loop (?pre @ gtpu_ext rest @ post) (first_type rest) (Suc links) (chain_upd x out) (length ?pre)"
    unfolding buf by (simp add: n_def)
  also have "\<dots> = Some (GtpuStatus_kOk, (fold chain_upd rest (chain_upd x out))\<lparr>gh_ext_count := of_nat (Suc links + length rest)\<rparr>,
      length ?pre + length (gtpu_ext rest))"
    using Cons.prems by (intro Cons.IH) simp_all
  finally show ?case unfolding buf_def [symmetric] by (simp add: x content_def n_def Let_def add.assoc)
qed

definition gtpu_ok :: "GtpuSpec \<Rightarrow> bytes \<Rightarrow> bool" where
  "gtpu_ok s payload \<longleftrightarrow> list_all link_ok (gs_extra_ext s) \<and> length (gtpu_chain s) \<le> 16 \<and>
     4 + length (gtpu_ext (gtpu_chain s)) + length payload < 65536"

definition gtpu_view :: "GtpuSpec \<Rightarrow> bytes \<Rightarrow> GtpuHeader \<Rightarrow> bool" where
  "gtpu_view s payload h \<longleftrightarrow> gh_payload h = payload \<and> gh_teid h = gs_teid s \<and> gh_msg_type h = gs_msg_type s \<and>
     gh_has_seq h = gs_with_seq s \<and> gh_has_npdu h = gs_with_npdu s \<and>
     (gs_with_seq s \<longrightarrow> gh_seq h = gs_seq s) \<and> (gs_with_npdu s \<longrightarrow> gh_npdu h = gs_npdu s) \<and>
     unat (gh_ext_count h) = length (gtpu_chain s) \<and>
     (if gs_with_qfi s then gh_has_qfi h \<and> gh_qfi h = gs_qfi s AND 0x3F \<and> gh_pdu_type h = gs_pdu_type s AND 0x0F \<and>
        gh_rqi h = (gs_rqi s \<and> gs_pdu_type s AND 0x0F = 0)
      else list_all (\<lambda>x. fst x \<noteq> 0x85) (gs_extra_ext s) \<longrightarrow> \<not> gh_has_qfi h)"

lemma fold_chain_upd_same: "same_mandatory out (fold chain_upd chain out)"
  by (induction chain arbitrary: out)
    (auto simp: same_mandatory_def chain_upd_def container_upd_def)

lemma fold_chain_upd_no_qfi:
  "list_all (\<lambda>x. fst x \<noteq> 0x85) chain \<Longrightarrow> fold chain_upd chain out = out"
  by (induction chain arbitrary: out) (simp_all add: chain_upd_def)

lemma pdu_type_nibble: "drop_bit 4 (push_bit 4 t) = t AND 0x0F" for t :: u8
proof -
  have "(0x0F :: u8) = mask 4" by (simp add: mask_eq_exp_minus_1)
  moreover have "drop_bit 4 (push_bit 4 t) = t AND mask 4"
    by (rule bit_word_eqI) (auto simp: bit_simps)
  ultimately show ?thesis by metis
qed

lemma chain_view:
  fixes s out
  defines "h \<equiv> fold chain_upd (gtpu_chain s) out"
  assumes "\<not> gh_has_qfi out"
  shows "if gs_with_qfi s then gh_has_qfi h \<and> gh_qfi h = gs_qfi s AND 0x3F \<and> gh_pdu_type h = gs_pdu_type s AND 0x0F \<and>
      gh_rqi h = (gs_rqi s \<and> gs_pdu_type s AND 0x0F = 0)
    else list_all (\<lambda>x. fst x \<noteq> 0x85) (gs_extra_ext s) \<longrightarrow> \<not> gh_has_qfi h"
proof (cases "gs_with_qfi s")
  case True
  have p: "pad_ext [a, b] = [a, b]" for a b by (simp add: pad_ext_eq padded_def)
  have q: "((if gs_rqi s then 0x40 else 0) OR (gs_qfi s AND 0x3F)) AND 0x3F = gs_qfi s AND 0x3F"
      "((if gs_rqi s then 0x40 else 0) OR (gs_qfi s AND 0x3F)) AND 0x40 \<noteq> 0 \<longleftrightarrow> gs_rqi s"
    by (simp_all add: bit.conj_disj_distrib2 and.assoc)
  show ?thesis
    using True q by (auto simp: h_def gtpu_chain_def chain_upd_def p container_upd_def session_container_def pdu_type_nibble)
next
  case False
  then show ?thesis using assms(2) by (simp add: h_def gtpu_chain_def fold_chain_upd_no_qfi)
qed

lemma gtpu_ext_Nil_iff: "gtpu_ext chain = [] \<longleftrightarrow> chain = []"
  by (cases chain) (auto simp: Let_def split: prod.splits)

lemma gtpu_flags_bits:
  "drop_bit 5 (gtpu_flags s e) = 1" "gtpu_flags s e AND 0x10 \<noteq> 0" "gtpu_flags s e AND 0x04 \<noteq> 0 \<longleftrightarrow> e \<noteq> []"
  "gtpu_flags s e AND 0x02 \<noteq> 0 \<longleftrightarrow> gs_with_seq s" "gtpu_flags s e AND 0x01 \<noteq> 0 \<longleftrightarrow> gs_with_npdu s"
  by (simp_all add: gtpu_flags_def Let_def)

lemma parse_build_gtpu:
  assumes "gtpu_ok s payload"
  shows "\<exists>h. parse_gtpu (build_gtpu s payload) = Some (GtpuStatus_kOk, h) \<and> gtpu_view s payload h"
proof -
  define chain where "chain = gtpu_chain s"
  define ext where "ext = gtpu_ext chain"
  define opt where "opt = (gs_with_seq s \<or> gs_with_npdu s \<or> ext \<noteq> [])"
  define n where "n = (if opt then 4 else 0) + length ext + length payload"
  define b where "b = build_gtpu s payload"
  have e0: "\<not> opt \<Longrightarrow> ext = []" by (simp add: opt_def)
  have b: "b = [gtpu_flags s ext, gs_msg_type s] @ rev (word_bytes 2 (of_nat n :: u16)) @ rev (word_bytes 4 (gs_teid s)) @
      (if opt then rev (word_bytes 2 (gs_seq s)) @ [gs_npdu s, first_type chain] @ ext else []) @ payload"
    by (simp add: b_def build_gtpu_def chain_def ext_def opt_def n_def put_scalars put_bytes_def first_type_def Let_def)
  have ok: "list_all link_ok chain" "length chain \<le> 16" "n < 65536"
    using assms by (auto simp: gtpu_ok_def chain_def ext_def n_def gtpu_chain_def link_ok_def session_container_def)
  have len: "length b = 8 + n" using e0 by (simp add: b n_def)
  have w: "wire_declared b = n"
    using ok(3) by (simp add: wire_declared_def b be_val_put unat_of_nat_less)
  have f: "b ! 0 = gtpu_flags s ext" "b ! 1 = gs_msg_type s" "take 4 (drop 4 b) = rev (word_bytes 4 (gs_teid s))"
      "opt \<Longrightarrow> take 2 (drop 8 b) = rev (word_bytes 2 (gs_seq s))" "opt \<Longrightarrow> b ! 10 = gs_npdu s"
      "opt \<Longrightarrow> b ! 11 = first_type chain" "opt \<Longrightarrow> drop 12 b = ext @ payload" "\<not> opt \<Longrightarrow> drop 8 b = payload"
    by (simp_all add: b nth_append)
  have m: "gh_teid (wire_mandatory b) = gs_teid s" "gh_msg_type (wire_mandatory b) = gs_msg_type s"
      "gh_teid (wire_optional b) = gs_teid s" "gh_msg_type (wire_optional b) = gs_msg_type s"
      "gh_has_seq (wire_optional b) = gs_with_seq s" "gh_has_npdu (wire_optional b) = gs_with_npdu s"
      "opt \<Longrightarrow> gh_seq (wire_optional b) = gs_seq s" "opt \<Longrightarrow> gh_npdu (wire_optional b) = gs_npdu s"
    using f by (simp_all add: wire_optional_def wire_mandatory_def be_val_put gtpu_flags_bits GtpuHeader_init_def)
  have ho: "has_optional b \<longleftrightarrow> opt" using f(1) by (auto simp: has_optional_def gtpu_flags_bits opt_def)
  have ft: "chain \<noteq> [] \<Longrightarrow> first_type chain \<noteq> 0" using ok(1) by (cases chain) (auto simp: link_ok_def first_type_def)
  have hc: "opt \<Longrightarrow> has_chain b \<longleftrightarrow> chain \<noteq> []"
    using f(1,6) ft by (auto simp: has_chain_def gtpu_flags_bits ext_def gtpu_ext_Nil_iff)
  have seqs: "\<not> opt \<Longrightarrow> \<not> gs_with_seq s \<and> \<not> gs_with_npdu s \<and> chain = []" by (auto simp: opt_def ext_def gtpu_ext_Nil_iff)
  have nq: "gs_with_qfi s \<Longrightarrow> chain \<noteq> []" by (simp add: chain_def gtpu_chain_def)
  consider "\<not> opt" | "opt" "chain = []" | "opt" "chain \<noteq> []" by blast
  then show ?thesis
  proof cases
    case 1
    then have "parse_gtpu b = Some (GtpuStatus_kOk, accept b (wire_mandatory b) 8 n)"
      using len f(1) by (simp add: parse_gtpu_cascade w ho gtpu_flags_bits)
    moreover have "gtpu_view s payload (accept b (wire_mandatory b) 8 n)"
      using 1 seqs nq f(8) m e0 by (auto simp: gtpu_view_def n_def accept_def chain_def [symmetric] wire_mandatory_def GtpuHeader_init_def)
    ultimately show ?thesis by (auto simp: b_def)
  next
    case 2
    then have "parse_gtpu b = Some (GtpuStatus_kOk, accept b (wire_optional b) 12 (n - 4))"
      using len f(1) hc by (simp add: parse_gtpu_cascade w ho gtpu_flags_bits n_def)
    moreover have "gtpu_view s payload (accept b (wire_optional b) 12 (n - 4))"
      using 2 nq f(7) m by (auto simp: gtpu_view_def n_def ext_def accept_def chain_def [symmetric])
    ultimately show ?thesis by (auto simp: b_def)
  next
    case 3
    let ?out = "(wire_optional b)\<lparr>gh_has_ext := True\<rparr>"
    define r where "r = (fold chain_upd chain ?out)\<lparr>gh_ext_count := of_nat (length chain)\<rparr>"
    have "take (n - 4) (drop 12 b) = [] @ ext @ payload" using 3 f(7) by (simp add: n_def)
    then have "ext_loop (take (n - 4) (drop 12 b)) (b ! 11) 0 ?out 0 = Some (GtpuStatus_kOk, r, length ext)"
      using ext_loop_chain [of chain 0 "[]" payload ?out] ok 3 f(6) by (simp add: ext_def r_def)
    then have "parse_gtpu b = Some (GtpuStatus_kOk, accept b r (12 + length ext) (n - 4 - length ext))"
      using 3 len f(1) hc by (simp add: parse_gtpu_cascade w ho gtpu_flags_bits n_def)
    moreover have "gtpu_view s payload (accept b r (12 + length ext) (n - 4 - length ext))"
    proof -
      have p: "take (n - 4 - length ext) (drop (12 + length ext) b) = payload"
        using 3 f(7) by (simp add: n_def add.commute flip: drop_drop)
      have c: "unat (of_nat (length chain) :: u8) = length chain" using ok(2) by (intro unat_of_nat_less) simp
      show ?thesis
        using 3 p c m fold_chain_upd_same [of ?out chain] chain_view [of ?out s]
        by (auto simp: gtpu_view_def r_def accept_def same_mandatory_def chain_def [symmetric])
    qed
    ultimately show ?thesis by (auto simp: b_def)
  qed
qed

lemma length_build_gtpu:
  "length (build_gtpu s payload) \<le> 12 + length (gtpu_ext (gtpu_chain s)) + length payload"
  by (simp add: build_gtpu_def put_scalars put_bytes_def Let_def)

text \<open>
  C24: GTP-U PDUs read back as they were built. For every specification with at most sixteen extension
  headers of at most 1018 bytes, each with a nonzero type, that fits a PDU, parsing the built bytes is accepted and
  returns the payload, the TEID, the message type, the sequence and N-PDU numbers that were asked for,
  the number of extension headers, and the QFI, PDU type and reflective bit of the session container
  when there is one.
\<close>

theorem gtpu_roundtrip:
  assumes "gtpu_ok s payload"
  shows "\<exists>h. parse_gtpu (build_gtpu s payload) = Some (GtpuStatus_kOk, h) \<and> gtpu_view s payload h"
  using assms by (rule parse_build_gtpu)

definition gtpu_spec_sample :: GtpuSpec where
  "gtpu_spec_sample = GtpuSpec_init\<lparr>gs_with_seq := True, gs_seq := 7, gs_with_qfi := True, gs_qfi := 9,
     gs_pdu_type := 1, gs_extra_ext := [(0x40, [1, 2, 3])]\<rparr>"

theorem gtpu_roundtrip_witness:
  "\<exists>h. parse_gtpu (build_gtpu gtpu_spec_sample [1, 2, 3]) = Some (GtpuStatus_kOk, h) \<and>
     gh_payload h = [1, 2, 3] \<and> gh_qfi h = 9 \<and> unat (gh_ext_count h) = 2"
proof -
  have "gtpu_chain gtpu_spec_sample = [(0x40, [1, 2, 3]), (0x85, [0x10, 9])]"
    by (simp add: gtpu_spec_sample_def gtpu_chain_def session_container_def GtpuSpec_init_def)
  moreover have "list_all link_ok (gs_extra_ext gtpu_spec_sample)" by (simp add: gtpu_spec_sample_def link_ok_def)
  ultimately have "gtpu_ok gtpu_spec_sample [1, 2, 3]"
    by (simp add: gtpu_ok_def pad_ext_eq padded_def Let_def)
  from gtpu_roundtrip [OF this] \<open>gtpu_chain gtpu_spec_sample = _\<close> show ?thesis
    by (auto simp: gtpu_view_def) (auto simp: gtpu_spec_sample_def GtpuSpec_init_def)
qed

end
