(* ===== verification/End_To_End.thy ===== *)
theory End_To_End
  imports Synth_Frames Pipeline Meter_Service
begin

text \<open>
  The components together: a frame built by the generator goes through the ingest path and the ring
  to the metering engine, and what is charged is what the subscriber sent.
\<close>

definition frame_ok :: "GtpuSpec \<Rightarrow> bytes \<Rightarrow> bool" where
  "frame_ok gs data \<longleftrightarrow> gs_msg_type gs = gtpu_msg_code kGpdu \<and> list_all link_ok (gs_extra_ext gs) \<and>
     length (gtpu_chain gs) \<le> 16 \<and> length (gtpu_ext (gtpu_chain gs)) + length data \<le> 65000"

text \<open>A tunnelled UDP datagram: Ethernet, IPv4, UDP and GTP-U around IPv4, UDP and the data.\<close>

definition tunnel_frame :: "GtpuSpec \<Rightarrow> UdpSpec \<Rightarrow> bytes \<Rightarrow> u32 \<Rightarrow> u32 \<Rightarrow> bytes option" where
  "tunnel_frame gs us data outer_src outer_dst = do {
     inner \<leftarrow> build_ipv4_udp us data;
     build_gtpu_frame gs inner outer_src outer_dst }"

lemma build_tunnel_frame:
  assumes "frame_ok gs data"
  shows "\<exists>frame ip inner pdu h. tunnel_frame gs us data osrc odst = Some frame \<and>
    parse_ethernet frame = Some \<lparr>eth_payload = ip, eth_ethertype = kEtherTypeIpv4, eth_vlan_tags = 0, eth_valid = True\<rparr> \<and>
    parse_ip ip = Some (udp_view (UdpSpec_init\<lparr>us_src_ip := osrc, us_dst_ip := odst, us_src_port := kGtpuPort,
      us_dst_port := kGtpuPort\<rparr>) pdu) \<and>
    parse_gtpu pdu = Some (GtpuStatus_kOk, h) \<and> gtpu_view gs inner h \<and> parse_ip inner = Some (udp_view us data)"
proof -
  have "length data \<le> 65507" using assms by (simp add: frame_ok_def)
  from parse_build_ipv4_udp [OF this] obtain inner where
    i: "build_ipv4_udp us data = Some inner" "length inner = 28 + length data" "parse_ip inner = Some (udp_view us data)" by blast
  have "gtpu_ok gs inner" using assms i(2) by (simp add: frame_ok_def gtpu_ok_def)
  from parse_build_gtpu [OF this] obtain h where
    h: "parse_gtpu (build_gtpu gs inner) = Some (GtpuStatus_kOk, h)" "gtpu_view gs inner h" by blast
  have "length (build_gtpu gs inner) \<le> 65507"
    using length_build_gtpu [of gs inner] assms i(2) by (simp add: frame_ok_def)
  from parse_build_ipv4_udp [OF this] obtain ip where
    o: "build_ipv4_udp (UdpSpec_init\<lparr>us_src_ip := osrc, us_dst_ip := odst, us_src_port := kGtpuPort, us_dst_port := kGtpuPort\<rparr>)
      (build_gtpu gs inner) = Some ip"
      "parse_ip ip = Some (udp_view (UdpSpec_init\<lparr>us_src_ip := osrc, us_dst_ip := odst, us_src_port := kGtpuPort,
        us_dst_port := kGtpuPort\<rparr>) (build_gtpu gs inner))" by blast
  have "parse_ethernet (build_ethernet ip kEtherTypeIpv4 0 100) =
      Some \<lparr>eth_payload = ip, eth_ethertype = kEtherTypeIpv4, eth_vlan_tags = 0, eth_valid = True\<rparr>"
    using parse_build_ethernet [of kEtherTypeIpv4 0 ip 100] by simp
  then show ?thesis using i h o by (auto simp: tunnel_frame_def build_gtpu_frame_def)
qed

text \<open>The event the ingest path makes of such a frame.\<close>

definition tunnel_event :: "GtpuSpec \<Rightarrow> UdpSpec \<Rightarrow> bytes \<Rightarrow> MeterEvent \<Rightarrow> bool" where
  "tunnel_event gs us data ev \<longleftrightarrow> ev_teid ev = gs_teid gs \<and> ev_bytes ev = of_nat (28 + length data) \<and>
     ev_flags ev AND kFlagControlPdu = 0 \<and> ev_proto ev = ip_proto_code kUdp \<and> ev_ip_version ev = 4 \<and>
     ev_src_port ev = us_src_port us \<and> ev_dst_port ev = us_dst_port us \<and>
     ev_src_ip ev = us_src_ip us \<and> ev_dst_ip ev = us_dst_ip us \<and>
     ev_flow_key ev = flow_key (ip_tuple (udp_view us data))"

lemma udp_view_fields:
  "ip_valid (udp_view s p)" "ip_l4_payload (udp_view s p) = p" "ip_total_len (udp_view s p) = of_nat (28 + length p)"
  "ft_proto (ip_tuple (udp_view s p)) = ip_proto_code kUdp" "ft_ip_version (ip_tuple (udp_view s p)) = 4"
  "ft_src_port (ip_tuple (udp_view s p)) = us_src_port s" "ft_dst_port (ip_tuple (udp_view s p)) = us_dst_port s"
  "\<not> ft_fragmented (ip_tuple (udp_view s p))"
  "src_v4 (ip_tuple (udp_view s p)) = Some (us_src_ip s)" "dst_v4 (ip_tuple (udp_view s p)) = Some (us_dst_ip s)"
  by (simp_all add: udp_view_def built_ip_def set_ports_def src_v4_def dst_v4_def load_in be_val_put)

lemma inner_tunnel_event:
  assumes "ic_meter_inner_ip_length cfg" "ev_flags ev \<in> {0, 1}" "ev_teid ev = gs_teid gs"
  shows "\<exists>ev'. inner_event cfg h (udp_view us data) ev = Some ev' \<and> tunnel_event gs us data ev' \<and> ev_ts_ns ev' = ev_ts_ns ev"
  using assms by (auto simp: inner_event_def udp_view_fields tunnel_event_def Let_def)

lemma process_tunnel_frame:
  assumes ok: "frame_ok gs data" and ring: "ring_ok (in_meter_ring g)" and room: "room (in_meter_ring g)"
    and cfg: "ic_gtpu_port (in_cfg g) = kGtpuPort" "ic_meter_inner_ip_length (in_cfg g)"
  shows "\<exists>frame ev g'. tunnel_frame gs us data osrc odst = Some frame \<and> process_frame frame ts g = Some (kMetered, g') \<and>
    tunnel_event gs us data ev \<and> ev_ts_ns ev = ts \<and> ring_grows (in_meter_ring g) [ev] (in_meter_ring g')"
proof -
  obtain frame ip inner pdu h where f: "tunnel_frame gs us data osrc odst = Some frame"
    "parse_ethernet frame = Some \<lparr>eth_payload = ip, eth_ethertype = kEtherTypeIpv4, eth_vlan_tags = 0, eth_valid = True\<rparr>"
    "parse_ip ip = Some (udp_view (UdpSpec_init\<lparr>us_src_ip := osrc, us_dst_ip := odst, us_src_port := kGtpuPort, us_dst_port := kGtpuPort\<rparr>) pdu)"
    "parse_gtpu pdu = Some (GtpuStatus_kOk, h)" "gtpu_view gs inner h" "parse_ip inner = Some (udp_view us data)"
    using build_tunnel_frame [OF ok] by blast
  let ?w = "of_nat (length frame) :: u16"
  let ?ev = "gtpu_event (in_cfg g) h ts ?w"
  have h: "is_gpdu h" "gh_payload h = inner" "gh_teid h = gs_teid gs"
    using f(5) ok by (simp_all add: gtpu_view_def is_gpdu_def frame_ok_def)
  have "ev_flags ?ev \<in> {0, 1}" "ev_teid ?ev = gs_teid gs" "ev_ts_ns ?ev = ts"
    using h(3) by (simp_all add: gtpu_event_def MeterEvent_init_def Let_def)
  with inner_tunnel_event [OF cfg(2) this(1,2), of h us data] obtain ev where
    ev: "inner_event (in_cfg g) h (udp_view us data) ?ev = Some ev" "tunnel_event gs us data ev" "ev_ts_ns ev = ts" by auto
  define g1 where "g1 = count_ig (\<lambda>s. s\<lparr>ig_gtpu_gpdus := ig_gtpu_gpdus s + 1\<rparr>)
    (count_ig (\<lambda>s. s\<lparr>ig_frames := ig_frames s + 1, ig_frames_bytes := ig_frames_bytes s + of_nat (length frame)\<rparr>) g)"
  have g1: "in_meter_ring g1 = in_meter_ring g" "in_cfg g1 = in_cfg g" by (simp_all add: g1_def count_ig_def)
  have gp: "gpdu_event h ?ev g1 = Some (ev, g1)" using ev(1) f(6) h(2) g1(2) by (simp add: gpdu_event_def udp_view_fields)
  obtain g2 where p: "push_event ev g1 = Some (True, g2)" "ring_grows (in_meter_ring g) [ev] (in_meter_ring g2)"
    using push_event_spec [of g1 ev] ring room g1(1) by (auto simp: count_ig_def)
  have "process_frame frame ts g = Some (kMetered, g2)"
    using f h cfg(1) gp p(1)
    by (simp add: process_frame_def process_ip_def process_gtpu_def udp_view_fields UdpSpec_init_def count_ig_def g1_def Let_def)
  then show ?thesis using f(1) ev p(2) by blast
qed

text \<open>
  C9: A packet of an installed session is charged to its subscriber, through the whole pipeline. Take
  a UDP datagram tunnelled in GTP-U with any extension headers that fit, on a TEID of a session that is
  installed. The ingest path accepts the frame and puts one event into the empty ring; the metering
  thread takes that event off the ring; and applying it adds the length of the inner IP packet,
  28 bytes of headers and the data, and one packet to the counters of that subscriber in the
  direction of the TEID, and changes no counter of another subscriber.
\<close>

theorem packet_charged:
  assumes "me_wf e" "session_valid spec" "install_session spec now_ns e = Some (Some idx, e1)"
    and "gs_teid gs \<noteq> 0" "gs_teid gs = ss_ul_teid spec \<or> gs_teid gs = ss_dl_teid spec" "frame_ok gs data"
    and "ts \<noteq> 0xFFFFFFFFFFFFFFFF" "in_meter_ring g = Some r" "ring_inv r" "ring_contents r = []"
    and "ic_gtpu_port (in_cfg g) = kGtpuPort" "ic_meter_inner_ip_length (in_cfg g)"
  shows "\<exists>frame g' r' ev r'' e2. tunnel_frame gs us data osrc odst = Some frame \<and>
    process_frame frame ts g = Some (kMetered, g') \<and> in_meter_ring g' = Some r' \<and>
    try_pop r' = Some (Some ev, r'') \<and> ring_contents r'' = [] \<and> apply_event ev e1 = Some e2 \<and>
    (let c = me_counters e1 ! idx; c' = me_counters e2 ! idx; n = of_nat (28 + length data) in
       if gs_teid gs = ss_dl_teid spec
       then sc_dl_bytes c' = sc_dl_bytes c + n \<and> sc_dl_packets c' = sc_dl_packets c + 1 \<and>
            sc_ul_bytes c' = sc_ul_bytes c \<and> sc_ul_packets c' = sc_ul_packets c
       else sc_ul_bytes c' = sc_ul_bytes c + n \<and> sc_ul_packets c' = sc_ul_packets c + 1 \<and>
            sc_dl_bytes c' = sc_dl_bytes c \<and> sc_dl_packets c' = sc_dl_packets c) \<and>
    (\<forall>i. i \<noteq> idx \<longrightarrow> me_counters e2 ! i = me_counters e1 ! i)"
proof -
  obtain m hist c ct ch where "ring_rep m r hist c ct ch" by (rule ring_inv_rep [OF assms(9)])
  then have "0 < ring_capacity r" by (simp add: ring_rep_inv(3))
  then have "ring_ok (in_meter_ring g)" "room (in_meter_ring g)" using assms(8-10) by (simp_all add: ring_ok_def room_def)
  from process_tunnel_frame [OF assms(6) this assms(11,12)] obtain frame ev g' where
    f: "tunnel_frame gs us data osrc odst = Some frame" "process_frame frame ts g = Some (kMetered, g')"
      "tunnel_event gs us data ev" "ev_ts_ns ev = ts" "ring_grows (in_meter_ring g) [ev] (in_meter_ring g')" by blast
  obtain r' where r': "in_meter_ring g' = Some r'" "ring_inv r'" "ring_contents r' = [ev]"
    using f(5) assms(8,10) by (auto simp: ring_grows_def ring_ok_def)
  obtain r'' where r'': "try_pop r' = Some (Some ev, r'')" "ring_contents r'' = []"
    using try_pop_spec [OF r'(2)] r'(3) by auto
  have n: "ucast (of_nat (28 + length data) :: u32) = (of_nat (28 + length data) :: u64)"
  proof -
    have "unat (of_nat (28 + length data) :: u32) = 28 + length data"
      using assms(6) by (intro unat_of_nat_less) (simp add: frame_ok_def)
    then show ?thesis by (metis of_nat_unat)
  qed
  have t: "ev_teid ev = gs_teid gs" "ev_bytes ev = of_nat (28 + length data)" "ev_flags ev AND kFlagControlPdu = 0"
    using f(3) by (simp_all add: tunnel_event_def)
  have "ev_ts_ns ev \<noteq> 0xFFFFFFFFFFFFFFFF" "ev_teid ev \<noteq> 0" "ev_teid ev = ss_ul_teid spec \<or> ev_teid ev = ss_dl_teid spec"
    using f(4) t assms(4,5,7) by simp_all
  from session_event_charged [OF assms(1-3) this(1) t(3) this(2,3)]
  show ?thesis unfolding t(1,2) n Let_def using f(1,2) r'(1) r'' by blast
qed

theorem packet_charged_witness:
  "\<exists>e1 r frame g' r' ev r'' e2. install_session session_sample 1 small_engine = Some (Some 0, e1) \<and>
     SpscRing_new 4 MeterEvent_init = Some r \<and>
     tunnel_frame (GtpuSpec_init\<lparr>gs_teid := 4096\<rparr>) UdpSpec_init [1, 2, 3] 1 2 = Some frame \<and>
     process_frame frame 7 (Ingest_new (Some r) None IngestConfig_init) = Some (kMetered, g') \<and>
     in_meter_ring g' = Some r' \<and> try_pop r' = Some (Some ev, r'') \<and> apply_event ev e1 = Some e2 \<and>
     sc_ul_bytes (me_counters e2 ! 0) = sc_ul_bytes (me_counters e1 ! 0) + 31"
proof -
  obtain e1 where e1: "install_session session_sample 1 small_engine = Some (Some 0, e1)" using small_engine_install by blast
  obtain r where r: "SpscRing_new 4 MeterEvent_init = Some r" "ring_inv r" "ring_contents r = []"
    using SpscRing_new_spec [of 4 MeterEvent_init] by auto
  let ?gs = "GtpuSpec_init\<lparr>gs_teid := 4096\<rparr>" and ?g = "Ingest_new (Some r) None IngestConfig_init"
  have v: "session_valid session_sample" by (simp add: session_valid_def session_sample_def)
  have t: "gs_teid ?gs \<noteq> 0" "gs_teid ?gs = ss_ul_teid session_sample \<or> gs_teid ?gs = ss_dl_teid session_sample"
    "frame_ok ?gs [1, 2, 3]" "(7 :: u64) \<noteq> 0xFFFFFFFFFFFFFFFF"
    by (simp_all add: session_sample_def frame_ok_def GtpuSpec_init_def gtpu_chain_def)
  have g: "in_meter_ring ?g = Some r" "ic_gtpu_port (in_cfg ?g) = kGtpuPort" "ic_meter_inner_ip_length (in_cfg ?g)"
    by (simp_all add: Ingest_new_def IngestConfig_init_def)
  have "gs_teid ?gs \<noteq> ss_dl_teid session_sample" by (simp add: session_sample_def)
  with packet_charged [OF small_engine_wf v e1 t g(1) r(2,3) g(2,3), of UdpSpec_init 1 2] e1 r(1)
  show ?thesis by (simp add: Let_def) blast
qed

end
