(* ===== verification/Latency_Histogram.thy ===== *)
theory Latency_Histogram
  imports Prelude "HOL-Library.Multiset"
begin

text \<open>
  The latency histogram of \<^verbatim>\<open>include/gtpm/histogram.hpp\<close>: 40 buckets of 256 counters, the bucket
  chosen by the leading bit of the value and the counter by the eight bits from there on. A histogram
  is its vector of counters and the running total, sum, minimum and maximum, all 64-bit and wrapping.

  The rank that \<^verbatim>\<open>quantile\<close> looks for is computed in floating point in the source,
  \<^verbatim>\<open>q * total + 0.5\<close> truncated; it is the argument \<open>rank_of\<close> here, and the lemmas hold for every rank
  that is at most the total. \<^verbatim>\<open>mean\<close> and \<^verbatim>\<open>summary\<close> only format floating-point numbers
  and are left out.

  The lemmas show that every value has a counter inside the vector, that the edge reported for a value
  below \<open>2\<^sup>4\<^sup>7\<close> is at least the value and less than one part in 128 above it, that \<^verbatim>\<open>quantile\<close> reports
  the edge for the exact order statistic, and that \<^verbatim>\<open>merge\<close> is recording both streams.
\<close>

abbreviation (input) kSubBucketBits :: nat where "kSubBucketBits \<equiv> 8"
abbreviation (input) kSubBucketCount :: nat where "kSubBucketCount \<equiv> 256"
abbreviation (input) kBucketCount :: nat where "kBucketCount \<equiv> 40"

record Histogram =
  hg_counts :: "u64 list"
  hg_total :: u64
  hg_sum :: u64
  hg_min :: u64
  hg_max :: u64

definition Histogram_new :: Histogram where
  "Histogram_new = \<lparr>hg_counts = replicate (kBucketCount * kSubBucketCount) 0, hg_total = 0, hg_sum = 0,
     hg_min = 0xFFFFFFFFFFFFFFFF, hg_max = 0\<rparr>"

text \<open>\<^verbatim>\<open>std::countl_zero\<close> of the standard library.\<close>

definition countl_zero :: "u64 \<Rightarrow> nat" where
  "countl_zero v = length (takeWhile (\<lambda>i. \<not> bit v i) (rev [0..<64]))"

definition index_for :: "u64 \<Rightarrow> nat" where
  "index_for v = (
     if unat v < kSubBucketCount then unat v
     else
       let msb = 63 - countl_zero v;
           bucket = msb - kSubBucketBits + 1;
           clamped = min bucket (kBucketCount - 1);
           sub = (ucast (drop_bit clamped v AND of_nat (kSubBucketCount - 1)) :: u32) in
       clamped * kSubBucketCount + unat sub)"

definition value_at_upper_edge :: "nat \<Rightarrow> u64" where
  "value_at_upper_edge index = (
     let bucket = index div kSubBucketCount; sub = of_nat (index mod kSubBucketCount) in
     if bucket = 0 then sub else push_bit bucket (sub + 1) - 1)"

text \<open>\<^verbatim>\<open>record\<close>, which is a keyword here.\<close>

definition record_value :: "u64 \<Rightarrow> Histogram \<Rightarrow> Histogram option" where
  "record_value v h = do {
     let idx = index_for v;
     c \<leftarrow> at_index (hg_counts h) idx;
     counts \<leftarrow> store_at (hg_counts h) idx (c + 1);
     Some \<lparr>hg_counts = counts, hg_total = hg_total h + 1, hg_sum = hg_sum h + v,
       hg_min = min (hg_min h) v, hg_max = max (hg_max h) v\<rparr> }"

definition hist_reset :: "Histogram \<Rightarrow> Histogram" where
  "hist_reset h = \<lparr>hg_counts = replicate (length (hg_counts h)) 0, hg_total = 0, hg_sum = 0,
     hg_min = 0xFFFFFFFFFFFFFFFF, hg_max = 0\<rparr>"

fun merge_counts :: "nat \<Rightarrow> u64 list \<Rightarrow> u64 list \<Rightarrow> u64 list option" where
  "merge_counts i [] other = Some []"
| "merge_counts i (c # cs) other = do {
     d \<leftarrow> at_index other i;
     cs \<leftarrow> merge_counts (Suc i) cs other;
     Some ((c + d) # cs) }"

definition hist_merge :: "Histogram \<Rightarrow> Histogram \<Rightarrow> Histogram option" where
  "hist_merge other h = do {
     counts \<leftarrow> merge_counts 0 (hg_counts h) (hg_counts other);
     Some \<lparr>hg_counts = counts, hg_total = hg_total h + hg_total other, hg_sum = hg_sum h + hg_sum other,
       hg_min = min (hg_min h) (hg_min other), hg_max = max (hg_max h) (hg_max other)\<rparr> }"

definition hist_count :: "Histogram \<Rightarrow> u64" where
  "hist_count h = hg_total h"

definition hist_min :: "Histogram \<Rightarrow> u64" where
  "hist_min h = (if hg_total h \<noteq> 0 then hg_min h else 0)"

definition hist_max :: "Histogram \<Rightarrow> u64" where
  "hist_max h = hg_max h"

fun quantile_loop :: "u64 \<Rightarrow> u64 \<Rightarrow> u64 \<Rightarrow> nat \<Rightarrow> u64 list \<Rightarrow> u64" where
  "quantile_loop target largest cumulative i [] = largest"
| "quantile_loop target largest cumulative i (c # cs) = (
     let cumulative = cumulative + c in
     if cumulative \<ge> target \<and> c \<noteq> 0 then value_at_upper_edge i
     else quantile_loop target largest cumulative (Suc i) cs)"

definition quantile :: "(u64 \<Rightarrow> u64) \<Rightarrow> Histogram \<Rightarrow> u64" where
  "quantile rank_of h = (
     if hg_total h = 0 then 0
     else quantile_loop (rank_of (hg_total h)) (hg_max h) 0 0 (hg_counts h))"

definition hist_buckets :: "Histogram \<Rightarrow> (u64 \<times> u64) list" where
  "hist_buckets h = List.map (\<lambda>(i, c). (value_at_upper_edge i, c))
     (List.filter (\<lambda>(i, c). c \<noteq> 0) (List.enumerate 0 (hg_counts h)))"

subsection \<open>The counter of a value\<close>

lemma countl_zero_msb:
  assumes "2 ^ m \<le> unat v" "unat v < 2 ^ Suc m"
  shows "63 - countl_zero v = m"
proof -
  have m: "m < 64" 
  proof (rule ccontr)
    assume "\<not> m < 64"
    then have "(2::nat) ^ 64 \<le> 2 ^ m" by (intro power_increasing) auto
    then show False using assms(1) unsigned_less [of v, where 'a=nat] by simp
  qed
  have b: "bit v i \<longleftrightarrow> odd (unat v div 2 ^ i)" for i
    using bit_iff_odd [of "unat v" i] by (simp add: bit_unsigned_iff)
  have hi: "\<not> bit v i" if "m < i" for i
  proof -
    have "(2::nat) ^ Suc m \<le> 2 ^ i" using that by (intro power_increasing) auto
    then show ?thesis using assms(2) b by (simp add: div_less)
  qed
  have at: "bit v m"
  proof -
    have "unat v div 2 ^ m = 1" using assms by (intro div_nat_eqI) (simp_all add: mult.commute)
    then show ?thesis using b by simp
  qed
  have "[0..<64] = [0..<m] @ m # [Suc m..<64]" using m upt_add_eq_append [of 0 m "64 - m"] upt_conv_Cons [of m 64] by simp
  then have "rev [0..<64] = rev [Suc m..<64] @ m # rev [0..<m]" by simp
  moreover have "takeWhile (\<lambda>i. \<not> bit v i) (rev [Suc m..<64] @ m # rev [0..<m]) = rev [Suc m..<64]"
    by (subst takeWhile_append2) (auto simp: hi at)
  ultimately have "countl_zero v = length [Suc m..<64]"
    unfolding countl_zero_def by (simp only: length_rev)
  then show ?thesis using m by simp
qed

text \<open>The values below \<open>2\<^sup>4\<^sup>7\<close> and above 255: the counter is the leading eight bits in their bucket.\<close>

lemma index_for_large:
  assumes "2 ^ (b + 7) \<le> unat v" "unat v < 2 ^ (b + 8)" "0 < b" "b < 40"
  shows "index_for v = b * 256 + unat v div 2 ^ b" "unat v div 2 ^ b < 256"
proof -
  have "(2::nat) ^ 8 \<le> 2 ^ (b + 7)" using assms(3) by (intro power_increasing) auto
  then have ge: "\<not> unat v < 256" using assms(1) by simp
  have "2 ^ (b + 8) = (256::nat) * 2 ^ b" by (simp add: power_add)
  then show sub: "unat v div 2 ^ b < 256" using assms(2) by (simp add: less_mult_imp_div_less)
  have "Suc (b + 7) = b + 8" by simp
  then have msb: "63 - countl_zero v = b + 7" using countl_zero_msb [of "b + 7" v] assms(1,2) by metis
  have "min (b + 7 - 8 + 1) (40 - 1) = b" using assms(3,4) by simp
  then have "index_for v = b * 256 + unat (ucast (drop_bit b v AND of_nat (256 - 1)) :: u32)"
    unfolding index_for_def Let_def msb if_not_P [OF ge] by metis
  moreover have "unat (drop_bit b v AND 255) = unat v div 2 ^ b"
    using unat_and_mask [of 8 "drop_bit b v"] sub by (simp add: unat_drop_bit_eq drop_bit_nat_def)
  ultimately show "index_for v = b * 256 + unat v div 2 ^ b"
    using sub by (simp add: unsigned_ucast_eq take_bit_nat_eq_self)
qed

lemma bucket_of:
  fixes n :: nat
  assumes "256 \<le> n" "n < 2 ^ 47"
  obtains b where "2 ^ (b + 7) \<le> n" "n < 2 ^ (b + 8)" "0 < b" "b < 40"
proof -
  obtain m where m: "2 ^ m \<le> n" "n < 2 ^ Suc m" using ex_power_ivl1 [of 2 n] assms(1) by auto
  have a: "(2::nat) ^ 8 < 2 ^ Suc m" "(2::nat) ^ m < 2 ^ 47" using m assms by simp_all
  have "8 < Suc m" using a(1) by (rule power_less_imp_less_exp [rotated]) simp
  moreover have "m < 47" using a(2) by (rule power_less_imp_less_exp [rotated]) simp
  ultimately have le: "8 \<le> m" "m < 47" by simp_all
  then have "m - 7 + 7 = m" "m - 7 + 8 = Suc m" by auto
  then show thesis using that [of "m - 7"] m le by auto
qed

lemma index_for_small: "unat v < 256 \<Longrightarrow> index_for v = unat v"
  by (simp add: index_for_def)

lemma index_for_bound: "index_for v < 10240"
proof (cases "unat v < 256")
  case False
  define c where "c = min (63 - countl_zero v - 8 + 1) (40 - 1)"
  have "unat (drop_bit c v AND 255) < 256" using unat_and_mask [of 8 "drop_bit c v"] by simp
  then have "unat (ucast (drop_bit c v AND of_nat (256 - 1)) :: u32) < 256"
    by (simp add: unsigned_ucast_eq take_bit_nat_eq_self)
  moreover have "index_for v = c * 256 + unat (ucast (drop_bit c v AND of_nat (256 - 1)) :: u32)"
    unfolding index_for_def Let_def if_not_P [OF False] c_def by (rule refl)
  moreover have "c \<le> 39" by (simp add: c_def)
  ultimately show ?thesis by linarith
qed (simp add: index_for_small)

lemma index_for_mono:
  assumes "unat v \<le> unat w" "unat w < 2 ^ 47"
  shows "index_for v \<le> index_for w"
proof (cases "unat w < 256")
  case True
  then show ?thesis using assms by (simp add: index_for_small)
next
  case False
  then obtain c where c: "2 ^ (c + 7) \<le> unat w" "unat w < 2 ^ (c + 8)" "0 < c" "c < 40"
    using bucket_of [of "unat w"] assms(2) by auto
  note W = index_for_large [OF c]
  show ?thesis
  proof (cases "unat v < 256")
    case True
    then show ?thesis using W c(3) by (simp add: index_for_small)
  next
    case False
    then obtain b where b: "2 ^ (b + 7) \<le> unat v" "unat v < 2 ^ (b + 8)" "0 < b" "b < 40"
      using bucket_of [of "unat v"] assms by auto
    note V = index_for_large [OF b]
    have "(2::nat) ^ (b + 7) < 2 ^ (c + 8)" using b(1) assms(1) c(2) by linarith
    then have "b < Suc c" using power_less_imp_less_exp [of "2::nat" "b + 7" "c + 8"] by simp
    then consider "b = c" | "Suc b \<le> c" by linarith
    then show ?thesis
    proof cases
      case 1
      then show ?thesis using V W div_le_mono [OF assms(1)] by simp
    next
      case 2
      have "index_for v < Suc b * 256" using V by simp
      also have "\<dots> \<le> c * 256" using 2 by (rule mult_le_mono1)
      also have "\<dots> \<le> index_for w" using W(1) by simp
      finally show ?thesis by simp
    qed
  qed
qed

lemma edge_large:
  assumes "0 < b" "b < 40" "s < 256"
  shows "unat (value_at_upper_edge (b * 256 + s)) = (s + 1) * 2 ^ b - 1"
proof -
  have "(s + 1) * 2 ^ b \<le> 256 * 2 ^ 39" using assms by (intro mult_mono power_increasing) auto
  then have less: "(s + 1) * 2 ^ b < 2 ^ 64" by (simp add: power_numeral_even)
  have "push_bit b (of_nat s + 1 :: u64) = of_nat ((s + 1) * 2 ^ b)" by (simp add: push_bit_eq_mult algebra_simps)
  moreover have "unat (of_nat ((s + 1) * 2 ^ b) - 1 :: u64) = (s + 1) * 2 ^ b - 1"
  proof -
    have "1 \<le> (s + 1) * 2 ^ b" by (simp add: Suc_le_eq)
    then show ?thesis using of_nat_diff_word [of 1 "(s + 1) * 2 ^ b", where 'a=64] less
      by (simp only: of_nat_1) simp
  qed
  ultimately show ?thesis using assms by (simp add: value_at_upper_edge_def Let_def)
qed

text \<open>The edge reported for a value is never below it, and less than one part in 128 above.\<close>

lemma edge_tight:
  assumes "unat v < 2 ^ 47"
  shows "v \<le> value_at_upper_edge (index_for v)"
    and "128 * (unat (value_at_upper_edge (index_for v)) - unat v) \<le> unat v"
proof -
  let ?e = "value_at_upper_edge (index_for v)"
  have "unat v \<le> unat ?e \<and> 128 * (unat ?e - unat v) \<le> unat v"
  proof (cases "unat v < 256")
    case True
    then show ?thesis by (simp add: index_for_small value_at_upper_edge_def)
  next
    case False
    then obtain b where b: "2 ^ (b + 7) \<le> unat v" "unat v < 2 ^ (b + 8)" "0 < b" "b < 40"
      using bucket_of [of "unat v"] assms by auto
    note V = index_for_large [OF b]
    have e: "unat ?e = (unat v div 2 ^ b + 1) * 2 ^ b - 1" using edge_large [OF b(3,4) V(2)] V(1) by simp
    define q r where "q = unat v div 2 ^ b" "r = unat v mod 2 ^ b"
    have "q * 2 ^ b + r = unat v" unfolding q_r_def by (rule div_mult_mod_eq)
    moreover have "r < 2 ^ b" by (simp add: q_r_def)
    moreover have "2 ^ (b + 7) = 128 * (2::nat) ^ b" by (simp add: power_add)
    moreover have "unat ?e = q * 2 ^ b + 2 ^ b - 1" using e by (simp add: q_r_def algebra_simps)
    ultimately show ?thesis using b(1) by linarith
  qed
  then show "v \<le> ?e" "128 * (unat ?e - unat v) \<le> unat v" by (simp_all add: word_le_nat_alt)
qed

text \<open>From \<open>2\<^sup>4\<^sup>7\<close> on the last bucket wraps, and the edge falls below the value.\<close>

lemma edge_wraps: "value_at_upper_edge (index_for (2 ^ 47)) = 2 ^ 39 - 1"
proof -
  have "63 - countl_zero (2 ^ 47) = 47" by (rule countl_zero_msb) simp_all
  then have "index_for (2 ^ 47) = 39 * 256" by (simp add: index_for_def Let_def)
  then show ?thesis by (simp add: value_at_upper_edge_def)
qed

subsection \<open>Recording a stream\<close>

fun record_all :: "u64 list \<Rightarrow> Histogram \<Rightarrow> Histogram option" where
  "record_all [] h = Some h"
| "record_all (v # vs) h = do { h \<leftarrow> record_value v h; record_all vs h }"

text \<open>What a histogram holds of the stream it has seen.\<close>

definition hist_of :: "u64 list \<Rightarrow> Histogram" where
  "hist_of vs = \<lparr>hg_counts = List.map (\<lambda>i. of_nat (count (mset (List.map index_for vs)) i)) [0..<10240],
     hg_total = of_nat (length vs), hg_sum = sum_list vs,
     hg_min = Min (insert 0xFFFFFFFFFFFFFFFF (set vs)), hg_max = Max (insert 0 (set vs))\<rparr>"

lemma hist_of_new: "hist_of [] = Histogram_new"
  by (simp add: hist_of_def Histogram_new_def map_replicate_const)

lemma record_hist_of: "record_value v (hist_of vs) = Some (hist_of (vs @ [v]))"
proof -
  let ?c = "\<lambda>vs. List.map (\<lambda>i. of_nat (count (mset (List.map index_for vs)) i) :: u64) [0..<10240]"
  have "(?c vs)[index_for v := ?c vs ! index_for v + 1] = ?c (vs @ [v])"
    using index_for_bound [of v] by (intro nth_equalityI) (auto simp: nth_list_update)
  moreover have "Min (insert x (set (vs @ [v]))) = min (Min (insert x (set vs))) v" for x :: u64
    by (simp add: insert_commute [of x v] min.commute)
  moreover have "Max (insert x (set (vs @ [v]))) = max (Max (insert x (set vs))) v" for x :: u64
    by (simp add: insert_commute [of x v] max.commute)
  ultimately show ?thesis
    using index_for_bound [of v]
    by (simp add: record_value_def hist_of_def span_simps add.commute del: set_append Min_insert Max_insert)
qed

lemma record_all_append: "record_all (xs @ ys) h = do { h \<leftarrow> record_all xs h; record_all ys h }"
  by (induction xs arbitrary: h) (simp_all split: Option.bind_splits)

lemma record_all_hist_of: "record_all vs (hist_of us) = Some (hist_of (us @ vs))"
  by (induction vs arbitrary: us) (simp_all add: record_hist_of)

lemma record_all_new: "record_all vs Histogram_new = Some (hist_of vs)"
  using record_all_hist_of [of vs "[]"] by (simp add: hist_of_new)

lemma merge_counts_eq:
  "i + length cs \<le> length ds \<Longrightarrow> merge_counts i cs ds = Some (map2 (+) cs (drop i ds))"
  by (induction i cs ds rule: merge_counts.induct) (simp_all add: span_simps Cons_nth_drop_Suc [symmetric])

lemma hist_merge_hist_of: "hist_merge (hist_of ys) (hist_of xs) = Some (hist_of (xs @ ys))"
proof -
  let ?c = "\<lambda>vs. List.map (\<lambda>i. of_nat (count (mset (List.map index_for vs)) i) :: u64) [0..<10240]"
  have "map2 (+) (?c xs) (?c ys) = ?c (xs @ ys)" by (intro nth_equalityI) auto
  moreover have "Min (insert x (set (xs @ ys))) = min (Min (insert x (set xs))) (Min (insert x (set ys)))" for x :: u64
    by (metis (no_types) List.finite_set Min.union Un_insert_left Un_insert_right finite.insertI insert_absorb2 insert_not_empty set_append)
  moreover have "Max (insert x (set (xs @ ys))) = max (Max (insert x (set xs))) (Max (insert x (set ys)))" for x :: u64
    by (metis (no_types) List.finite_set Max.union Un_insert_left Un_insert_right finite.insertI insert_absorb2 insert_not_empty set_append)
  ultimately show ?thesis
    using merge_counts_eq [of 0 "?c xs" "?c ys"]
    by (simp add: hist_merge_def hist_of_def del: set_append Min_insert Max_insert)
qed

subsection \<open>Quantiles\<close>

text \<open>The loop stops at the first counter that is not empty and at which the rank is reached.\<close>

lemma quantile_loop_first:
  assumes "j < length cs" "target \<le> acc + sum_list (take (Suc j) cs)" "cs ! j \<noteq> 0"
    "\<And>k. k < j \<Longrightarrow> cs ! k = 0 \<or> acc + sum_list (take (Suc k) cs) < target"
  shows "quantile_loop target largest acc i cs = value_at_upper_edge (i + j)"
  using assms
proof (induction cs arbitrary: i j acc)
  case (Cons c cs)
  show ?case
  proof (cases j)
    case 0
    then show ?thesis using Cons.prems by (simp add: Let_def)
  next
    case (Suc m)
    have "\<not> (target \<le> acc + c \<and> c \<noteq> 0)" using Cons.prems(4) [of 0] Suc by auto
    moreover have "cs ! k = 0 \<or> acc + c + sum_list (take (Suc k) cs) < target" if "k < m" for k
      using Cons.prems(4) [of "Suc k"] that Suc by (simp add: add.assoc)
    then have "quantile_loop target largest (acc + c) (Suc i) cs = value_at_upper_edge (Suc i + m)"
      using Cons.prems Suc by (intro Cons.IH) (simp_all add: add.assoc)
    ultimately show ?thesis using Suc by (auto simp: Let_def)
  qed
qed simp

definition at_most :: "nat \<Rightarrow> u64 list \<Rightarrow> nat" where
  "at_most k vs = length (List.filter (\<lambda>v. index_for v \<le> k) vs)"

lemma cumulative_counts:
  "k < 10240 \<Longrightarrow> sum_list (take (Suc k) (hg_counts (hist_of vs))) = of_nat (at_most k vs)"
proof (induction vs)
  case Nil
  then show ?case by (simp add: hist_of_def at_most_def take_map map_replicate_const sum_list_replicate)
next
  case (Cons v vs)
  have upt: "take (Suc k) [0..<10240] = [0..<Suc k]" using Cons.prems by (simp add: take_upt del: upt_Suc)
  have "sum_list (List.map (\<lambda>i. if i = index_for v then 1 else 0 :: u64) [0..<Suc k]) = (if index_for v \<le> k then 1 else 0)"
    by (induction k) auto
  moreover have "(\<lambda>i. of_nat (count (mset (List.map index_for (v # vs))) i) :: u64) =
      (\<lambda>i. (if i = index_for v then 1 else 0) + of_nat (count (mset (List.map index_for vs)) i))" by auto
  ultimately show ?case using Cons
    by (simp add: hist_of_def at_most_def take_map upt sum_list_addf del: upt_Suc)
qed

lemma count_pos: "i < 10240 \<Longrightarrow> length vs < 2 ^ 64 \<Longrightarrow> hg_counts (hist_of vs) ! i = 0 \<longleftrightarrow> i \<notin> index_for ` set vs"
proof -
  assume i: "i < 10240" "length vs < 2 ^ 64"
  have "count (mset (List.map index_for vs)) i \<le> length vs" by (metis count_le_size size_mset length_map)
  then have "unat (of_nat (count (mset (List.map index_for vs)) i) :: u64) = count (mset (List.map index_for vs)) i"
    using i(2) by (intro unat_of_nat_less) simp
  then have "(of_nat (count (mset (List.map index_for vs)) i) :: u64) = 0 \<longleftrightarrow> count (mset (List.map index_for vs)) i = 0"
    by (metis unat_eq_zero)
  moreover have "count (mset (List.map index_for vs)) i = 0 \<longleftrightarrow> i \<notin> index_for ` set vs"
    by (simp only: count_eq_zero_iff set_mset_mset set_map)
  ultimately show ?thesis using i(1) by (simp add: hist_of_def)
qed

text \<open>The order statistic splits the stream: those before it, and those whose counter is beyond.\<close>

lemma at_most_sort: "at_most k (sort vs) = at_most k vs"
  unfolding at_most_def by (metis mset_filter mset_sort size_mset)

lemma order_statistic_counts:
  assumes "p < length vs" "\<forall>v\<in>set vs. unat v < 2 ^ 47"
  shows "p < at_most (index_for (sort vs ! p)) vs"
    and "k < index_for (sort vs ! p) \<Longrightarrow> at_most k vs \<le> p"
proof -
  let ?s = "sort vs"
  have len: "length ?s = length vs" and below: "\<And>q. q < length vs \<Longrightarrow> unat (?s ! q) < 2 ^ 47"
    using assms(2) by (simp_all, metis length_sort nth_mem set_sort)
  have mono: "index_for (?s ! q) \<le> index_for (?s ! r)" if "q \<le> r" "r < length vs" for q r
    using sorted_nth_mono [of ?s q r] that below by (intro index_for_mono) (simp_all add: word_le_nat_alt)
  have card: "at_most m vs = card {q. q < length vs \<and> index_for (?s ! q) \<le> m}" for m
    using at_most_sort [of m vs] by (simp add: at_most_def length_filter_conv_card)
  have "{..p} \<subseteq> {q. q < length vs \<and> index_for (?s ! q) \<le> index_for (?s ! p)}" using mono assms(1) by auto
  then have "card {..p} \<le> at_most (index_for (?s ! p)) vs" unfolding card by (intro card_mono) auto
  then show "p < at_most (index_for (?s ! p)) vs" by simp
  assume k: "k < index_for (?s ! p)"
  have "{q. q < length vs \<and> index_for (?s ! q) \<le> k} \<subseteq> {..<p}"
    using k mono [of p] by (fastforce simp: not_le [symmetric])
  then have "at_most k vs \<le> card {..<p}" unfolding card by (intro card_mono) auto
  then show "at_most k vs \<le> p" by simp
qed

lemma quantile_order_statistic:
  assumes "vs \<noteq> []" "length vs < 2 ^ 64" "\<forall>v\<in>set vs. unat v < 2 ^ 47" "unat rank \<le> length vs"
  shows "quantile (\<lambda>_. rank) (hist_of vs) = value_at_upper_edge (index_for (sort vs ! (max 1 (unat rank) - 1)))"
proof -
  define p where "p = max 1 (unat rank) - 1"
  have p: "p < length vs" using assms(1,4) by (cases vs) (auto simp: p_def)
  define j where "j = index_for (sort vs ! p)"
  note os = order_statistic_counts [OF p assms(3), folded j_def]
  have j: "j < 10240" "j \<in> index_for ` set vs"
    using index_for_bound p nth_mem [of p "sort vs"] by (auto simp: j_def)
  have small: "unat (of_nat (at_most k vs) :: u64) = at_most k vs" for k
    using assms(2) by (intro unat_of_nat_less) (simp add: at_most_def le_less_trans [OF length_filter_le])
  have "unat (of_nat (length vs) :: u64) = length vs" using assms(2) by (intro unat_of_nat_less) simp
  then have "hg_total (hist_of vs) \<noteq> 0" using assms(1) by (auto simp: hist_of_def)
  moreover have "quantile_loop rank (hg_max (hist_of vs)) 0 0 (hg_counts (hist_of vs)) = value_at_upper_edge (0 + j)"
  proof (rule quantile_loop_first)
    show "j < length (hg_counts (hist_of vs))" using j by (simp add: hist_of_def)
    show "rank \<le> 0 + sum_list (take (Suc j) (hg_counts (hist_of vs)))"
      using os(1) by (simp add: cumulative_counts j word_le_nat_alt small p_def)
    show "hg_counts (hist_of vs) ! j \<noteq> 0" using count_pos [OF j(1) assms(2)] j by simp
    fix k assume k: "k < j"
    then have le: "k < 10240" "at_most k vs \<le> p" using os(2) j by auto
    show "hg_counts (hist_of vs) ! k = 0 \<or> 0 + sum_list (take (Suc k) (hg_counts (hist_of vs))) < rank"
    proof (cases "rank = 0")
      case True
      then have "at_most k vs = 0" using le by (simp add: p_def)
      then have "k \<notin> index_for ` set vs" by (auto simp: at_most_def filter_empty_conv)
      then show ?thesis using count_pos [OF le(1) assms(2)] by simp
    next
      case False
      then have "p < unat rank" using unat_gt_0 [of rank] by (simp add: p_def)
      then show ?thesis using le by (simp add: cumulative_counts word_less_nat_alt small)
    qed
  qed
  ultimately show ?thesis by (simp add: quantile_def j_def p_def)
qed

text \<open>
  C17: The quantiles of a histogram are never optimistic. Record any stream of fewer than \<open>2\<^sup>6\<^sup>4\<close> values,
  each below \<open>2\<^sup>4\<^sup>7\<close>. For every rank up to the length of the stream, \<^verbatim>\<open>quantile\<close> returns a value
  that is at least the exact order statistic of the sorted stream and exceeds it by at most one part in 128.
\<close>

theorem quantile_bounds:
  assumes "vs \<noteq> []" "length vs < 2 ^ 64" "\<forall>v\<in>set vs. unat v < 2 ^ 47" "unat rank \<le> length vs"
  shows "\<exists>h. record_all vs Histogram_new = Some h \<and>
    (let exact = sort vs ! (max 1 (unat rank) - 1); reported = quantile (\<lambda>_. rank) h in
     exact \<le> reported \<and> 128 * (unat reported - unat exact) \<le> unat exact)"
proof -
  let ?p = "max 1 (unat rank) - 1"
  have "?p < length vs" using assms(1,4) by (cases vs) auto
  then have "sort vs ! ?p \<in> set vs" using nth_mem [of ?p "sort vs"] by simp
  then show ?thesis
    using assms(3) edge_tight quantile_order_statistic [OF assms] record_all_new [of vs] by (auto simp: Let_def)
qed

theorem quantile_bounds_witness:
  "\<exists>h. record_all [1000, 3, 700] Histogram_new = Some h \<and> 700 \<le> quantile (\<lambda>_. 2) h \<and>
     128 * (unat (quantile (\<lambda>_. 2) h) - 700) \<le> 700"
  using quantile_bounds [of "[1000, 3, 700]" 2] by (simp add: Let_def)

text \<open>
  Merging histograms loses nothing: merging the histogram of one stream into that of another
  gives, counter for counter and with the same total, sum, minimum and maximum, the histogram of the two
  streams one after the other, wrap-around included.
\<close>

theorem merge_is_append:
  "\<exists>a b. record_all xs Histogram_new = Some a \<and> record_all ys Histogram_new = Some b \<and>
     hist_merge b a = record_all (xs @ ys) Histogram_new"
  by (simp add: record_all_new hist_merge_hist_of)

lemma buckets_of_stream:
  "hist_buckets (hist_of vs) = List.map (\<lambda>i. (value_at_upper_edge i, hg_counts (hist_of vs) ! i))
     (List.filter (\<lambda>i. hg_counts (hist_of vs) ! i \<noteq> 0) [0..<10240])"
proof -
  have "List.enumerate 0 (hg_counts (hist_of vs)) = List.map (\<lambda>i. (i, hg_counts (hist_of vs) ! i)) [0..<10240]"
    by (intro nth_equalityI) (simp_all add: hist_of_def nth_enumerate_eq)
  then show ?thesis by (simp add: hist_buckets_def filter_map o_def)
qed

lemma reset_is_new: "hist_reset (hist_of vs) = Histogram_new"
  by (simp add: hist_reset_def Histogram_new_def hist_of_def)

end
