(* ===== verification/Seqlock.thy ===== *)
theory Seqlock
  imports Byte_Order
begin

text \<open>
  The seqlock of \<^verbatim>\<open>include/gtpm/seqlock.hpp\<close>: one writer, any number of readers, and a payload that is
  copied a machine word at a time.

  A payload of type \<^verbatim>\<open>T\<close> is its byte image, \<open>sz\<close> bytes long. \<^verbatim>\<open>store\<close> and \<^verbatim>\<open>load\<close> are cut at
  their accesses to shared memory: every access of the sequence number and of a payload word is one step,
  and a schedule, a list of actions, says who moves when. Steps are taken one after the other, which is
  what the fences of the source are there to guarantee for the words against the sequence number; weaker
  orders are not modelled. The sequence number is 32 bits wide and wraps.

  The lemmas show that a load that returns true has copied one whole payload, the newest complete one when
  its last attempt began, as long as fewer than \<open>2\<^sup>3\<^sup>1\<close> stores complete during that attempt; that a load
  always returns after a bounded number of its own steps; and that it succeeds when the writer is quiet.
\<close>

subsection \<open>The payload as words\<close>

definition word_count :: "nat \<Rightarrow> nat" where
  "word_count sz = (sz + 8 - 1) div 8"

text \<open>\<^verbatim>\<open>memset\<close> and \<^verbatim>\<open>memcpy\<close> into the staging words, and \<^verbatim>\<open>memcpy\<close> back out of them.\<close>

definition to_staging :: "endian \<Rightarrow> nat \<Rightarrow> bytes \<Rightarrow> u64 list" where
  "to_staging e sz value = (
     let image = value @ replicate (8 * word_count sz - sz) 0 in
     List.map (\<lambda>k. memcpy_word e (take 8 (drop (8 * k) image))) [0..<word_count sz])"

definition word_image :: "endian \<Rightarrow> u64 \<Rightarrow> bytes" where
  "word_image e w = (case e of Little_Endian \<Rightarrow> word_bytes 8 w | Big_Endian \<Rightarrow> rev (word_bytes 8 w))"

definition from_staging :: "endian \<Rightarrow> nat \<Rightarrow> u64 list \<Rightarrow> bytes" where
  "from_staging e sz staging = take sz (concat (List.map (word_image e) staging))"

lemma word_image_memcpy: "length bs = 8 \<Longrightarrow> word_image e (memcpy_word e bs) = bs"
  using word_bytes_le_val [of bs, where 'a=64] word_bytes_le_val [of "rev bs", where 'a=64]
  by (cases e) (simp_all add: word_image_def memcpy_word_def le_val_rev)

lemma length_to_staging [simp]: "length (to_staging e sz value) = word_count sz"
  by (simp add: to_staging_def)

lemma concat_chunks: "length xs = 8 * n \<Longrightarrow> concat (List.map (\<lambda>k. take 8 (drop (8 * k) xs)) [0..<n]) = xs"
proof (induction n arbitrary: xs)
  case (Suc n)
  have "concat (List.map (\<lambda>k. take 8 (drop (8 * k) (take (8 * n) xs))) [0..<n]) = take (8 * n) xs"
    using Suc by (intro Suc.IH) simp
  moreover have "List.map (\<lambda>k. take 8 (drop (8 * k) (take (8 * n) xs))) [0..<n] = List.map (\<lambda>k. take 8 (drop (8 * k) xs)) [0..<n]"
    by (auto simp: drop_take min_def)
  ultimately show ?case using Suc.prems by (simp add: append_take_drop_id)
qed simp

lemma from_to_staging:
  assumes "length value = sz"
  shows "from_staging e sz (to_staging e sz value) = value"
proof -
  let ?image = "value @ replicate (8 * word_count sz - sz) 0"
  have "sz \<le> 8 * word_count sz" unfolding word_count_def by presburger
  then have len: "length ?image = 8 * word_count sz" using assms by simp
  have "List.map (word_image e \<circ> (\<lambda>k. memcpy_word e (take 8 (drop (8 * k) ?image)))) [0..<word_count sz] =
      List.map (\<lambda>k. take 8 (drop (8 * k) ?image)) [0..<word_count sz]"
    using len by (intro map_cong) (auto intro!: word_image_memcpy)
  then have "concat (List.map (word_image e) (to_staging e sz value)) = ?image"
    using concat_chunks [OF len] by (simp only: to_staging_def Let_def map_map)
  then show ?thesis using assms by (simp add: from_staging_def)
qed

subsection \<open>The lock, its writer and its readers\<close>

record seqlock =
  sl_seq :: u32
  sl_words :: "u64 list"

definition Seqlock_new :: "nat \<Rightarrow> seqlock" where
  "Seqlock_new sz = \<lparr>sl_seq = 0, sl_words = replicate (word_count sz) 0\<rparr>"

definition sl_version :: "seqlock \<Rightarrow> u32" where
  "sl_version l = drop_bit 1 (sl_seq l)"

text \<open>
  \<open>WWords value staging seq i\<close>: inside \<^verbatim>\<open>store\<close>, the sequence number loaded and made odd, about to write
  word \<open>i\<close>, or to make the sequence number even when all words are written. \<open>RAttempt limit attempt\<close>: at
  the head of the loop of \<^verbatim>\<open>load\<close>. \<open>RWords limit attempt before staging\<close>: about to read the next word, or
  to load the sequence number again when all words are read.
\<close>

datatype writer_pc = WIdle | WWords bytes "u64 list" u32 nat
datatype reader_pc = RIdle | RAttempt nat nat | RWords nat nat u32 "u64 list" | RReturned "bytes option"

text \<open>
  History, which no step reads: the payloads stored so far, and for each reader how many of them were
  complete when it was called, when its current attempt loaded the sequence number, and when it returned.
\<close>

record seq_sys =
  lk_lock :: seqlock
  lk_writer :: writer_pc
  lk_reader :: "nat \<Rightarrow> reader_pc"
  lk_stored :: "bytes list"
  lk_called :: "nat \<Rightarrow> nat"
  lk_seen :: "nat \<Rightarrow> nat"
  lk_until :: "nat \<Rightarrow> nat"

definition seq_start :: "nat \<Rightarrow> seq_sys" where
  "seq_start sz = \<lparr>lk_lock = Seqlock_new sz, lk_writer = WIdle, lk_reader = (\<lambda>_. RIdle), lk_stored = [],
     lk_called = (\<lambda>_. 0), lk_seen = (\<lambda>_. 0), lk_until = (\<lambda>_. 0)\<rparr>"

definition begin_store :: "endian \<Rightarrow> nat \<Rightarrow> bytes \<Rightarrow> seq_sys \<Rightarrow> seq_sys" where
  "begin_store e sz value s = (case lk_writer s of
       WIdle \<Rightarrow>
         let staging = to_staging e sz value; seq = sl_seq (lk_lock s) in
         s\<lparr>lk_lock := (lk_lock s)\<lparr>sl_seq := seq + 1\<rparr>, lk_writer := WWords value staging seq 0\<rparr>
     | _ \<Rightarrow> s)"

definition writer_step :: "seq_sys \<Rightarrow> seq_sys" where
  "writer_step s = (case lk_writer s of
       WIdle \<Rightarrow> s
     | WWords value staging seq i \<Rightarrow>
         if i < length (sl_words (lk_lock s))
         then s\<lparr>lk_lock := (lk_lock s)\<lparr>sl_words := (sl_words (lk_lock s))[i := staging ! i]\<rparr>,
                lk_writer := WWords value staging seq (Suc i)\<rparr>
         else s\<lparr>lk_lock := (lk_lock s)\<lparr>sl_seq := seq + 2\<rparr>, lk_writer := WIdle, lk_stored := lk_stored s @ [value]\<rparr>)"

definition begin_load :: "nat \<Rightarrow> nat \<Rightarrow> seq_sys \<Rightarrow> seq_sys" where
  "begin_load r max_attempts s =
     s\<lparr>lk_reader := (lk_reader s)(r := RAttempt max_attempts 0), lk_called := (lk_called s)(r := length (lk_stored s))\<rparr>"

definition reader_step :: "endian \<Rightarrow> nat \<Rightarrow> nat \<Rightarrow> seq_sys \<Rightarrow> seq_sys" where
  "reader_step e sz r s = (case lk_reader s r of
       RIdle \<Rightarrow> s
     | RAttempt max_attempts attempt \<Rightarrow>
         if attempt < max_attempts then
           let before = sl_seq (lk_lock s) in
           if before AND 1 \<noteq> 0 then s\<lparr>lk_reader := (lk_reader s)(r := RAttempt max_attempts (attempt + 1))\<rparr>
           else s\<lparr>lk_reader := (lk_reader s)(r := RWords max_attempts attempt before []),
                  lk_seen := (lk_seen s)(r := length (lk_stored s))\<rparr>
         else s\<lparr>lk_reader := (lk_reader s)(r := RReturned None)\<rparr>
     | RWords max_attempts attempt before staging \<Rightarrow>
         if length staging < length (sl_words (lk_lock s)) then
           s\<lparr>lk_reader := (lk_reader s)(r := RWords max_attempts attempt before
                (staging @ [sl_words (lk_lock s) ! length staging]))\<rparr>
         else if sl_seq (lk_lock s) = before then
           s\<lparr>lk_reader := (lk_reader s)(r := RReturned (Some (from_staging e sz staging))),
             lk_until := (lk_until s)(r := length (lk_stored s))\<rparr>
         else s\<lparr>lk_reader := (lk_reader s)(r := RAttempt max_attempts (attempt + 1))\<rparr>
     | RReturned _ \<Rightarrow> s)"

datatype seq_action = Store bytes | WriterStep | Load nat nat | ReaderStep nat

fun seq_step :: "endian \<Rightarrow> nat \<Rightarrow> seq_action \<Rightarrow> seq_sys \<Rightarrow> seq_sys" where
  "seq_step e sz (Store value) s = begin_store e sz value s"
| "seq_step e sz WriterStep s = writer_step s"
| "seq_step e sz (Load r max_attempts) s = begin_load r max_attempts s"
| "seq_step e sz (ReaderStep r) s = reader_step e sz r s"

definition seq_run :: "endian \<Rightarrow> nat \<Rightarrow> seq_action list \<Rightarrow> seq_sys \<Rightarrow> seq_sys" where
  "seq_run e sz acts s = fold (seq_step e sz) acts s"

subsection \<open>The invariant\<close>

definition versions :: "nat \<Rightarrow> seq_sys \<Rightarrow> bytes list" where
  "versions sz s = replicate sz 0 # lk_stored s"

definition writer_ok :: "endian \<Rightarrow> nat \<Rightarrow> seq_sys \<Rightarrow> bool" where
  "writer_ok e sz s = (let c = length (lk_stored s); l = lk_lock s in
     length (sl_words l) = word_count sz \<and>
     (case lk_writer s of
        WIdle \<Rightarrow> sl_seq l = of_nat (2 * c) \<and> sl_words l = to_staging e sz (versions sz s ! c)
      | WWords value staging seq i \<Rightarrow> length value = sz \<and> staging = to_staging e sz value \<and> seq = of_nat (2 * c) \<and>
          sl_seq l = seq + 1 \<and> i \<le> word_count sz \<and> take i (sl_words l) = take i staging))"

definition reader_ok :: "nat \<Rightarrow> seq_sys \<Rightarrow> nat \<Rightarrow> bool" where
  "reader_ok sz s r = (let c = length (lk_stored s); l = lk_lock s in
     case lk_reader s r of
       RIdle \<Rightarrow> True
     | RAttempt _ _ \<Rightarrow> lk_called s r \<le> c
     | RWords _ _ before staging \<Rightarrow> lk_called s r \<le> lk_seen s r \<and> lk_seen s r \<le> c \<and>
         before = of_nat (2 * lk_seen s r) \<and> length staging \<le> word_count sz \<and>
         (lk_writer s = WIdle \<and> lk_seen s r = c \<longrightarrow> staging = take (length staging) (sl_words l))
     | RReturned None \<Rightarrow> True
     | RReturned (Some value) \<Rightarrow> lk_called s r \<le> lk_seen s r \<and> lk_seen s r \<le> lk_until s r \<and> lk_until s r \<le> c \<and>
         (lk_until s r - lk_seen s r < 2 ^ 31 \<longrightarrow> value = versions sz s ! lk_seen s r))"

definition seq_inv :: "endian \<Rightarrow> nat \<Rightarrow> seq_sys \<Rightarrow> bool" where
  "seq_inv e sz s \<longleftrightarrow> writer_ok e sz s \<and> (\<forall>v\<in>set (lk_stored s). length v = sz) \<and> (\<forall>r. reader_ok sz s r)"

lemma to_staging_zero: "to_staging e sz (replicate sz 0) = replicate (word_count sz) 0"
proof -
  have "sz \<le> 8 * word_count sz" unfolding word_count_def by presburger
  then have "replicate sz 0 @ replicate (8 * word_count sz - sz) 0 = replicate (8 * word_count sz) (0 :: u8)"
    by (simp add: replicate_add [symmetric])
  moreover have "memcpy_word e (replicate n 0) = (0 :: u64)" for n
    by (cases e; induction n) (simp_all add: memcpy_word_def le_val_rev be_val_snoc flip: replicate_append_same)
  ultimately show ?thesis
    by (intro nth_equalityI) (simp_all add: to_staging_def)
qed

lemma seq_start_inv: "seq_inv e sz (seq_start sz)"
  by (simp add: seq_inv_def seq_start_def writer_ok_def reader_ok_def Seqlock_new_def versions_def to_staging_zero)

text \<open>The parity and the distance of sequence numbers.\<close>

lemma seq_parity: "unat ((of_nat n :: u32) AND 1) = n mod 2"
  using unat_and_mask [of 1 "of_nat n :: u32"] by (simp add: unat_of_nat mod_mod_cancel)

lemma odd_seq: "(of_nat (2 * c) + 1 :: u32) AND 1 = 1"
  using seq_parity [of "2 * c + 1"] by (simp add: word_unat_eq_iff [where 'a=32] add.commute)

lemma even_seq: "(of_nat (2 * c) :: u32) AND 1 = 0"
  using seq_parity [of "2 * c"] by (simp add: word_unat_eq_iff [where 'a=32])

lemma seq_not_odd: "(of_nat (2 * c) + 1 :: u32) \<noteq> of_nat (2 * d)"
  using odd_seq [of c] even_seq [of d] by force

lemma seq_eq_near:
  assumes "(of_nat (2 * c) :: u32) = of_nat (2 * d)" "d \<le> c" "c - d < 2 ^ 31"
  shows "c = d"
proof -
  have "unat (of_nat (2 * c) - of_nat (2 * d) :: u32) = 2 * c - 2 * d"
    using assms(2,3) by (intro of_nat_diff_word) auto
  then show ?thesis using assms(1,2) by simp
qed

subsection \<open>Every step keeps the invariant\<close>

lemma begin_store_inv:
  assumes "seq_inv e sz s" "length value = sz"
  shows "seq_inv e sz (begin_store e sz value s)"
proof (cases "lk_writer s")
  case WIdle
  have "reader_ok sz (begin_store e sz value s) r" for r
    using assms WIdle unfolding seq_inv_def
    by (auto simp: reader_ok_def begin_store_def versions_def Let_def split: reader_pc.splits option.splits dest: spec [of _ r])
  then show ?thesis using assms WIdle
    by (auto simp: seq_inv_def writer_ok_def begin_store_def Let_def)
qed (use assms in \<open>simp add: begin_store_def\<close>)

lemma writer_step_inv:
  assumes "seq_inv e sz s"
  shows "seq_inv e sz (writer_step s)"
proof (cases "lk_writer s")
  case (WWords v staging seq i)
  then have w: "length v = sz" "staging = to_staging e sz v" "seq = of_nat (2 * length (lk_stored s))"
      "sl_seq (lk_lock s) = seq + 1" "i \<le> word_count sz" "take i (sl_words (lk_lock s)) = take i staging"
      "length (sl_words (lk_lock s)) = word_count sz"
    using assms by (simp_all add: seq_inv_def writer_ok_def Let_def)
  show ?thesis
  proof (cases "i < word_count sz")
    case True
    have "reader_ok sz (writer_step s) r" for r
      using assms WWords w True unfolding seq_inv_def
      by (auto simp: reader_ok_def writer_step_def versions_def Let_def split: reader_pc.splits option.splits dest: spec [of _ r])
    moreover have "take (Suc i) ((sl_words (lk_lock s))[i := staging ! i]) = take (Suc i) staging"
      using True w by (simp add: take_Suc_conv_app_nth)
    ultimately show ?thesis using assms WWords w True
      by (auto simp: seq_inv_def writer_ok_def writer_step_def Let_def)
  next
    case False
    have nth: "(versions sz s @ [v]) ! k = versions sz s ! k" if "k \<le> length (lk_stored s)" for k
      using that by (cases k) (simp_all add: versions_def nth_append)
    have "reader_ok sz (writer_step s) r" for r
      using assms WWords w False nth unfolding seq_inv_def
      by (auto simp: reader_ok_def writer_step_def Let_def versions_def split: reader_pc.splits option.splits dest: spec [of _ r])
    moreover have "sl_words (lk_lock s) = staging" using False w by simp
    ultimately show ?thesis using assms WWords w False
      by (auto simp: seq_inv_def writer_ok_def writer_step_def Let_def versions_def)
  qed
qed (use assms in \<open>simp add: writer_step_def\<close>)

lemma seq_inv_reader:
  assumes "seq_inv e sz s" "lk_lock s' = lk_lock s" "lk_writer s' = lk_writer s" "lk_stored s' = lk_stored s"
    and "\<And>q. q \<noteq> r \<Longrightarrow> lk_reader s' q = lk_reader s q \<and> lk_called s' q = lk_called s q \<and>
      lk_seen s' q = lk_seen s q \<and> lk_until s' q = lk_until s q"
    and "reader_ok sz s' r"
  shows "seq_inv e sz s'"
proof -
  have "reader_ok sz s' q" for q
  proof (cases "q = r")
    case False
    have "reader_ok sz s q" using assms(1) by (simp add: seq_inv_def)
    then show ?thesis using assms(2-4) assms(5) [OF False]
      by (simp add: reader_ok_def versions_def Let_def split: reader_pc.splits option.splits)
  qed (use assms(6) in simp)
  then show ?thesis using assms(1-4) by (simp add: seq_inv_def writer_ok_def versions_def Let_def split: writer_pc.splits)
qed

lemma writer_idleD:
  assumes "writer_ok e sz s"
  shows "length (sl_words (lk_lock s)) = word_count sz"
    and "sl_seq (lk_lock s) = of_nat (2 * d) \<Longrightarrow> lk_writer s = WIdle"
    and "sl_seq (lk_lock s) AND 1 = 0 \<Longrightarrow> lk_writer s = WIdle"
    and "lk_writer s = WIdle \<Longrightarrow> sl_seq (lk_lock s) = of_nat (2 * length (lk_stored s)) \<and>
      sl_words (lk_lock s) = to_staging e sz (versions sz s ! length (lk_stored s))"
  using assms seq_not_odd [of "length (lk_stored s)" d] odd_seq [of "length (lk_stored s)"]
  by (auto simp: writer_ok_def Let_def split: writer_pc.splits)

lemma copied_version:
  assumes "seq_inv e sz s" "lk_reader s r = RWords m a before staging" "length staging = word_count sz"
    "sl_seq (lk_lock s) = before" "length (lk_stored s) - lk_seen s r < 2 ^ 31"
  shows "from_staging e sz staging = versions sz s ! lk_seen s r"
proof -
  have r: "lk_seen s r \<le> length (lk_stored s)" "before = of_nat (2 * lk_seen s r)"
      "lk_writer s = WIdle \<and> lk_seen s r = length (lk_stored s) \<longrightarrow> staging = take (length staging) (sl_words (lk_lock s))"
    and w: "writer_ok e sz s" and sz: "\<forall>v\<in>set (lk_stored s). length v = sz"
    using assms(1,2) by (auto simp: seq_inv_def reader_ok_def Let_def dest: spec [of _ r])
  have idle: "lk_writer s = WIdle" using writer_idleD(2) [OF w] assms(4) r(2) by blast
  note W = writer_idleD(4) [OF w idle]
  have eq: "length (lk_stored s) = lk_seen s r"
    using W r(1,2) assms(4,5) by (intro seq_eq_near) simp_all
  then have "staging = to_staging e sz (versions sz s ! lk_seen s r)"
    using r(3) idle W assms(3) by simp
  moreover have "versions sz s ! lk_seen s r \<in> set (versions sz s)"
    using eq by (intro nth_mem) (simp add: versions_def)
  then have "length (versions sz s ! lk_seen s r) = sz" using sz by (auto simp: versions_def)
  ultimately show ?thesis by (simp add: from_to_staging)
qed

lemma reader_step_inv:
  assumes inv: "seq_inv e sz s"
  shows "seq_inv e sz (reader_step e sz r s)"
proof (rule seq_inv_reader [OF inv])
  have w: "writer_ok e sz s" and r: "reader_ok sz s r" using inv by (simp_all add: seq_inv_def)
  show "reader_ok sz (reader_step e sz r s) r"
  proof (cases "lk_reader s r")
    case (RAttempt m a)
    then show ?thesis using r writer_idleD(3,4) [OF w]
      by (auto simp: reader_ok_def reader_step_def Let_def versions_def)
  next
    case (RWords m a before staging)
    then show ?thesis using r writer_idleD(1) [OF w] copied_version [OF inv RWords]
      by (auto simp: reader_ok_def reader_step_def Let_def versions_def take_Suc_conv_app_nth)
  qed (use r in \<open>simp_all add: reader_step_def\<close>)
qed (auto simp: reader_step_def Let_def split: reader_pc.splits)

lemma begin_load_inv: "seq_inv e sz s \<Longrightarrow> seq_inv e sz (begin_load r m s)"
  by (rule seq_inv_reader [where r=r]) (auto simp: begin_load_def reader_ok_def)

lemma seq_step_inv:
  "seq_inv e sz s \<Longrightarrow> (\<And>v. act = Store v \<Longrightarrow> length v = sz) \<Longrightarrow> seq_inv e sz (seq_step e sz act s)"
  by (cases act) (simp_all add: begin_store_inv writer_step_inv begin_load_inv reader_step_inv)

definition payloads_ok :: "nat \<Rightarrow> seq_action list \<Rightarrow> bool" where
  "payloads_ok sz acts \<longleftrightarrow> (\<forall>v. Store v \<in> set acts \<longrightarrow> length v = sz)"

lemma seq_run_inv: "seq_inv e sz s \<Longrightarrow> payloads_ok sz acts \<Longrightarrow> seq_inv e sz (seq_run e sz acts s)"
  unfolding seq_run_def payloads_ok_def by (induction acts arbitrary: s) (simp_all add: seq_step_inv)

text \<open>\<^verbatim>\<open>version\<close> counts the completed stores, modulo \<open>2\<^sup>3\<^sup>1\<close>, also while one is in progress.\<close>

lemma version_counts:
  assumes "seq_inv e sz s"
  shows "unat (sl_version (lk_lock s)) = length (lk_stored s) mod 2 ^ 31"
proof -
  define c where "c = length (lk_stored s)"
  obtain d where d: "sl_seq (lk_lock s) = of_nat (2 * c + d)" "d < 2"
  proof (cases "lk_writer s")
    case WIdle
    then show ?thesis using assms that [of 0] by (simp add: seq_inv_def writer_ok_def Let_def c_def)
  next
    case (WWords x1 x2 x3 x4)
    then show ?thesis using assms that [of 1] by (simp add: seq_inv_def writer_ok_def Let_def c_def add.commute)
  qed
  have "(2 * c + d) mod (2 * 2 ^ 31) div 2 = c mod 2 ^ 31"
    using d(2) by (simp only: mod_mult2_eq) simp
  then show ?thesis using d(1)
    by (simp add: sl_version_def unat_drop_bit_eq drop_bit_nat_def unat_of_nat c_def del: of_nat_add of_nat_mult)
qed

subsection \<open>A load always returns\<close>

text \<open>The steps a reader has still to take, at most.\<close>

fun load_budget :: "nat \<Rightarrow> reader_pc \<Rightarrow> nat" where
  "load_budget n RIdle = 0"
| "load_budget n (RAttempt m a) = (m - a) * (n + 2) + 1"
| "load_budget n (RWords m a before staging) = (m - Suc a) * (n + 2) + (n - length staging) + 2"
| "load_budget n (RReturned v) = 0"

abbreviation (input) budget :: "seq_sys \<Rightarrow> nat \<Rightarrow> nat" where
  "budget s r \<equiv> load_budget (length (sl_words (lk_lock s))) (lk_reader s r)"

lemma reader_step_budget: "budget (reader_step e sz r s) r \<le> budget s r - 1"
proof (cases "lk_reader s r")
  case (RAttempt m a)
  show ?thesis
  proof (cases "a < m")
    case True
    then obtain k where "m = Suc (a + k)" using less_imp_Suc_add by blast
    then show ?thesis using RAttempt by (simp add: reader_step_def Let_def)
  qed (simp add: RAttempt reader_step_def)
qed (auto simp: reader_step_def)

lemma words_length [simp]: "length (sl_words (lk_lock (seq_step e sz act s))) = length (sl_words (lk_lock s))"
  by (cases act) (auto simp: begin_store_def writer_step_def begin_load_def reader_step_def Let_def
      split: writer_pc.splits reader_pc.splits)

lemma other_steps_budget:
  "act \<noteq> ReaderStep r \<Longrightarrow> (\<And>m. act \<noteq> Load r m) \<Longrightarrow> lk_reader (seq_step e sz act s) r = lk_reader s r"
  by (cases act) (auto simp: begin_store_def writer_step_def begin_load_def reader_step_def Let_def
      split: writer_pc.splits reader_pc.splits)

lemma seq_run_budget:
  assumes "\<forall>m. Load r m \<notin> set acts"
  shows "budget (seq_run e sz acts s) r \<le> budget s r - count_list acts (ReaderStep r)"
  using assms
proof (induction acts arbitrary: s)
  case (Cons act acts)
  have "budget (seq_step e sz act s) r \<le> budget s r - (if act = ReaderStep r then 1 else 0)"
  proof (cases "act = ReaderStep r")
    case True
    then show ?thesis using reader_step_budget [of e sz r s] by simp
  next
    case False
    then have "lk_reader (seq_step e sz act s) r = lk_reader s r" using Cons.prems by (intro other_steps_budget) auto
    then show ?thesis using False by simp
  qed
  moreover have "budget (seq_run e sz acts (seq_step e sz act s)) r \<le> budget (seq_step e sz act s) r - count_list acts (ReaderStep r)"
    using Cons.prems by (intro Cons.IH) simp
  ultimately show ?case by (auto simp: seq_run_def)
qed (simp add: seq_run_def)

lemma budget_0: "budget s r = 0 \<Longrightarrow> lk_reader s r = RIdle \<or> (\<exists>v. lk_reader s r = RReturned v)"
  by (cases "lk_reader s r") auto

lemma run_not_idle: "lk_reader s r \<noteq> RIdle \<Longrightarrow> lk_reader (seq_run e sz acts s) r \<noteq> RIdle"
proof (induction acts arbitrary: s)
  case (Cons act acts)
  have "lk_reader (seq_step e sz act s) r \<noteq> RIdle" using Cons.prems
    by (cases act) (auto simp: begin_store_def writer_step_def begin_load_def reader_step_def Let_def
      split: writer_pc.splits reader_pc.splits)
  then show ?case using Cons.IH by (simp add: seq_run_def)
qed (simp add: seq_run_def)

subsection \<open>A quiet writer\<close>

definition writer_action :: "seq_action \<Rightarrow> bool" where
  "writer_action act = (case act of Store _ \<Rightarrow> True | WriterStep \<Rightarrow> True | _ \<Rightarrow> False)"

text \<open>With no write in progress the first attempt goes through.\<close>

definition first_attempt :: "seq_sys \<Rightarrow> nat \<Rightarrow> bool" where
  "first_attempt s r = (case lk_reader s r of
       RAttempt m a \<Rightarrow> a = 0 \<and> 0 < m
     | RWords m a before staging \<Rightarrow> before = sl_seq (lk_lock s) \<and> lk_seen s r = length (lk_stored s)
     | RReturned v \<Rightarrow> v \<noteq> None \<and> lk_seen s r = length (lk_stored s) \<and> lk_until s r = length (lk_stored s)
     | RIdle \<Rightarrow> False)"

lemma quiet_step:
  assumes "lk_writer s = WIdle" "sl_seq (lk_lock s) AND 1 = 0" "\<not> writer_action act" "\<And>m. act \<noteq> Load r m" "first_attempt s r"
  shows "lk_lock (seq_step e sz act s) = lk_lock s" "lk_writer (seq_step e sz act s) = WIdle"
    "lk_stored (seq_step e sz act s) = lk_stored s" "first_attempt (seq_step e sz act s) r"
  using assms by (cases act; auto simp: writer_action_def begin_load_def reader_step_def first_attempt_def Let_def
      split: reader_pc.splits)+

lemma quiet_run:
  assumes "lk_writer s = WIdle" "sl_seq (lk_lock s) AND 1 = 0" "first_attempt s r"
    "\<forall>act\<in>set acts. \<not> writer_action act \<and> (\<forall>m. act \<noteq> Load r m)"
  shows "first_attempt (seq_run e sz acts s) r \<and> lk_stored (seq_run e sz acts s) = lk_stored s"
  using assms
proof (induction acts arbitrary: s)
  case (Cons act acts)
  have act: "\<not> writer_action act" "act \<noteq> Load r m" for m using Cons.prems(4) by auto
  note q = quiet_step [OF Cons.prems(1,2) act Cons.prems(3), of e sz]
  show ?case using Cons.IH [OF q(2) _ q(4)] Cons.prems(2,4) q(1,3) by (simp add: seq_run_def)
qed (simp add: seq_run_def)

subsection \<open>Properties\<close>

text \<open>
  C6: A seqlock reader never sees a torn payload. Under every schedule of one writer storing
  payloads of the right size and any number of readers, a load that returned true has copied out exactly
  one of the stored payloads (or the initial zeros): the newest one complete when its last attempt loaded
  the sequence number, and so none older than the newest when it was called. The only proviso is that
  fewer than \<open>2\<^sup>3\<^sup>1\<close> stores completed during that attempt, the wrap-around of the sequence number.
\<close>

theorem seqlock_not_torn:
  assumes "payloads_ok sz acts" "s = seq_run e sz acts (seq_start sz)"
    "lk_reader s r = RReturned (Some v)" "lk_until s r - lk_seen s r < 2 ^ 31"
  shows "v = versions sz s ! lk_seen s r \<and> length v = sz \<and> lk_called s r \<le> lk_seen s r \<and> lk_seen s r \<le> length (lk_stored s)"
proof -
  have inv: "seq_inv e sz s" using seq_run_inv [OF seq_start_inv assms(1)] assms(2) by simp
  then have r: "v = versions sz s ! lk_seen s r" "lk_called s r \<le> lk_seen s r" "lk_seen s r \<le> length (lk_stored s)"
    using assms(3,4) by (auto simp: seq_inv_def reader_ok_def Let_def dest: spec [of _ r])
  then have "v \<in> set (versions sz s)" using nth_mem [of "lk_seen s r" "versions sz s"] by (simp add: versions_def)
  then have "length v = sz" using inv by (auto simp: versions_def seq_inv_def)
  then show ?thesis using r by simp
qed

definition torn_schedule :: "seq_action list" where
  "torn_schedule = [Store [7], Load 0 3, ReaderStep 0, WriterStep, WriterStep, ReaderStep 0, ReaderStep 0, ReaderStep 0]"

theorem seqlock_not_torn_witness:
  "let s = seq_run Little_Endian 1 torn_schedule (seq_start 1) in
     \<exists>v. lk_reader s 0 = RReturned (Some v) \<and> v = versions 1 s ! 1 \<and> length v = 1"
proof -
  define s where "s = seq_run Little_Endian 1 torn_schedule (seq_start 1)"
  have "lk_reader s 0 = RReturned (Some (from_staging Little_Endian 1 (to_staging Little_Endian 1 [7]))) \<and>
      lk_until s 0 = 1 \<and> lk_seen s 0 = 1"
    by (simp add: s_def torn_schedule_def seq_run_def seq_start_def Seqlock_new_def begin_store_def begin_load_def
        writer_step_def reader_step_def to_staging_def word_count_def Let_def)
  moreover have "payloads_ok 1 torn_schedule" by (auto simp: payloads_ok_def torn_schedule_def)
  ultimately show ?thesis using seqlock_not_torn [of 1 torn_schedule s Little_Endian 0] by (auto simp: s_def Let_def)
qed

text \<open>
  C33: A load always returns, and succeeds when the writer is quiet. From the call of
  \<^verbatim>\<open>load\<close> on, at most \<open>max_attempts \<times> (kWordCount + 2) + 1\<close> steps of the reader bring it to a
  return, whatever the writer and the other readers do in between. If no store is in progress at the call
  and none begins before the return, and at least one attempt is allowed, it returns true with the last
  stored payload.
\<close>

theorem seqlock_load_returns:
  assumes "payloads_ok sz before" "payloads_ok sz acts" "\<forall>m. Load r m \<notin> set acts"
    "max_attempts * (word_count sz + 2) + 1 \<le> count_list acts (ReaderStep r)"
    "s = seq_run e sz before (seq_start sz)" "s' = seq_run e sz acts (begin_load r max_attempts s)"
  shows "(\<exists>v. lk_reader s' r = RReturned v) \<and>
    (lk_writer s = WIdle \<and> 0 < max_attempts \<and> (\<forall>act\<in>set acts. \<not> writer_action act) \<longrightarrow>
      lk_reader s' r = RReturned (Some (last (versions sz s))))"
proof -
  let ?b = "begin_load r max_attempts s"
  have inv: "seq_inv e sz s" using seq_run_inv [OF seq_start_inv assms(1)] assms(5) by simp
  then have inv': "seq_inv e sz s'" using seq_run_inv [OF begin_load_inv [OF inv] assms(2)] assms(6) by simp
  have w: "writer_ok e sz s" using inv by (simp add: seq_inv_def)
  have "budget ?b r = max_attempts * (word_count sz + 2) + 1"
    using writer_idleD(1) [OF w] by (simp add: begin_load_def)
  then have "budget s' r = 0" using seq_run_budget [OF assms(3), of e sz ?b] assms(4,6) by simp
  moreover have "lk_reader s' r \<noteq> RIdle" unfolding assms(6) by (rule run_not_idle) (simp add: begin_load_def)
  ultimately obtain v where v: "lk_reader s' r = RReturned v" using budget_0 by blast
  moreover have "v = Some (last (versions sz s))"
    if q: "lk_writer s = WIdle" "0 < max_attempts" "\<forall>act\<in>set acts. \<not> writer_action act"
  proof -
    have "sl_seq (lk_lock s) AND 1 = 0" using writer_idleD(4) [OF w q(1)] even_seq by simp
    then have f: "first_attempt s' r" "lk_stored s' = lk_stored s"
      using quiet_run [of ?b r acts e sz] q assms(3,6) by (auto simp: begin_load_def first_attempt_def)
    then obtain x where x: "v = Some x" "lk_until s' r - lk_seen s' r < 2 ^ 31" "lk_seen s' r = length (lk_stored s)"
      using v by (auto simp: first_attempt_def)
    then have "x = versions sz s' ! lk_seen s' r"
      using inv' v by (auto simp: seq_inv_def reader_ok_def Let_def dest: spec [of _ r])
    then show ?thesis using x f(2) by (simp add: versions_def last_conv_nth)
  qed
  ultimately show ?thesis by simp
qed

theorem seqlock_load_returns_witness:
  "lk_reader (seq_run Little_Endian 1 (replicate 4 (ReaderStep 0)) (begin_load 0 1
     (seq_run Little_Endian 1 [Store [7], WriterStep, WriterStep] (seq_start 1)))) 0 = RReturned (Some [7])"
proof -
  let ?before = "[Store [7], WriterStep, WriterStep]"
  define s where "s = seq_run Little_Endian 1 ?before (seq_start 1)"
  have "lk_writer s = WIdle" "lk_stored s = [[7]]"
    by (simp_all add: s_def seq_run_def seq_start_def Seqlock_new_def begin_store_def writer_step_def word_count_def Let_def)
  moreover have "payloads_ok 1 ?before" "payloads_ok 1 (replicate 4 (ReaderStep 0))" by (auto simp: payloads_ok_def)
  ultimately show ?thesis
    using seqlock_load_returns [of 1 ?before "replicate 4 (ReaderStep 0)" 0 1 s Little_Endian]
    by (simp add: s_def word_count_def writer_action_def versions_def count_list_eq_length_filter)
qed

end
