(* ===== verification/Snapshot.thy ===== *)
theory Snapshot
  imports Prelude
begin

text \<open>
  The snapshot publisher of \<^verbatim>\<open>include/gtpm/snapshot.hpp\<close>: one writer rotating through \<open>N\<close> buffers, readers
  that pin the newest one with a reference count.

  \<open>begin_write\<close>, \<open>commit\<close>, \<open>read_snapshot\<close> and \<open>release\<close> are the operations run to their end without
  interference. The relation \<open>snap_step\<close> interleaves one writer with any number of readers, each operation
  cut at its accesses to the atomics; a weak compare-and-exchange may fail for no reason, and the writer
  fills a claimed buffer in as many steps as it likes. A handle is a reader in state \<open>ReadHold\<close>, so a
  thread with several handles is several readers.

  The lemmas show that a pinned buffer is never the one being written, that it holds one committed value
  in full for as long as it is pinned, that this value is no older than the newest one published when the
  read was called, and which pins make \<^verbatim>\<open>begin_write\<close> give up.
\<close>

subsection \<open>The publisher and its operations\<close>

abbreviation (input) kWriterOwned :: u32 where "kWriterOwned \<equiv> 0x80000000"

text \<open>\<^verbatim>\<open>std::array<Slot, N>\<close> is the list of its values and the list of its reference counts.\<close>

record 'a snapshot =
  sp_value :: "'a list"
  sp_refs :: "u32 list"
  sp_current :: int
  sp_version :: u64
  sp_write_hint :: nat
  sp_writing :: int

definition Snapshot_new :: "nat \<Rightarrow> 'a \<Rightarrow> 'a snapshot" where
  "Snapshot_new n d = \<lparr>sp_value = replicate n d, sp_refs = replicate n 0, sp_current = -1, sp_version = 0,
     sp_write_hint = 0, sp_writing = -1\<rparr>"

definition slot_count :: "'a snapshot \<Rightarrow> nat" where
  "slot_count p = length (sp_value p)"

definition claim_index :: "'a snapshot \<Rightarrow> nat \<Rightarrow> nat" where
  "claim_index p attempt = (sp_write_hint p + attempt) mod slot_count p"

definition claim :: "nat \<Rightarrow> 'a snapshot \<Rightarrow> 'a snapshot" where
  "claim idx p = p\<lparr>sp_refs := (sp_refs p)[idx := kWriterOwned], sp_writing := int idx,
     sp_write_hint := (idx + 1) mod slot_count p\<rparr>"

fun claim_loop :: "nat \<Rightarrow> nat \<Rightarrow> 'a snapshot \<Rightarrow> (nat option \<times> 'a snapshot) option" where
  "claim_loop 0 attempt p = Some (None, p)"
| "claim_loop (Suc k) attempt p = (
     let idx = claim_index p attempt in
     if int idx = sp_current p then claim_loop k (attempt + 1) p
     else do {
       refs \<leftarrow> at_index (sp_refs p) idx;
       if refs = 0 then Some (Some idx, claim idx p) else claim_loop k (attempt + 1) p })"

text \<open>The result is the index of the claimed buffer, or nothing for \<^verbatim>\<open>nullptr\<close>.\<close>

definition begin_write :: "'a snapshot \<Rightarrow> (nat option \<times> 'a snapshot) option" where
  "begin_write p = claim_loop (slot_count p) 0 p"

definition commit :: "'a snapshot \<Rightarrow> 'a snapshot option" where
  "commit p = (
     if sp_writing p < 0 then Some p
     else do {
       refs \<leftarrow> store_at (sp_refs p) (nat (sp_writing p)) 0;
       Some (p\<lparr>sp_refs := refs, sp_current := sp_writing p, sp_version := sp_version p + 1, sp_writing := -1\<rparr>) })"

text \<open>Without interference the first compare-and-exchange succeeds, or no attempt can.\<close>

definition read_snapshot :: "'a snapshot \<Rightarrow> (nat option \<times> 'a snapshot) option" where
  "read_snapshot p = (
     if sp_current p < 0 then Some (None, p)
     else do {
       let idx = nat (sp_current p);
       refs \<leftarrow> at_index (sp_refs p) idx;
       if refs < kWriterOwned
       then do { refs \<leftarrow> store_at (sp_refs p) idx (refs + 1); Some (Some idx, p\<lparr>sp_refs := refs\<rparr>) }
       else Some (None, p) })"

definition release_pin :: "nat \<Rightarrow> 'a snapshot \<Rightarrow> 'a snapshot option" where
  "release_pin idx p = do {
     refs \<leftarrow> at_index (sp_refs p) idx;
     refs \<leftarrow> store_at (sp_refs p) idx (refs - 1);
     Some (p\<lparr>sp_refs := refs\<rparr>) }"

definition has_data :: "'a snapshot \<Rightarrow> bool" where
  "has_data p \<longleftrightarrow> sp_current p \<ge> 0"

subsection \<open>The interleaving\<close>

text \<open>
  \<open>WScan current attempt\<close>: in the loop of \<^verbatim>\<open>begin_write\<close>. \<open>WFill i\<close>: between \<^verbatim>\<open>begin_write\<close> and the first
  store of \<^verbatim>\<open>commit\<close>. \<open>WPublish i\<close> and \<open>WBump\<close>: before the second and the third. \<open>ReadCurrent attempt\<close>:
  about to load \<^verbatim>\<open>current_\<close>. \<open>ReadRefs attempt i\<close>: about to load the count of buffer \<open>i\<close>. \<open>ReadPin attempt i
  refs\<close>: at the head of the inner loop.
\<close>

datatype pub_writer = WFree | WScan int nat | WFill nat | WPublish nat | WBump
datatype pub_reader = ReadIdle | ReadCurrent nat | ReadRefs nat nat | ReadPin nat nat u32 | ReadHold nat

text \<open>
  History: the committed values in order, for each buffer the number of the commit it holds, and for each
  reader the number of the newest published commit when it was called.
\<close>

record 'a snap_sys =
  sn_pub :: "'a snapshot"
  sn_writer :: pub_writer
  sn_reader :: "nat \<Rightarrow> pub_reader"
  sn_log :: "'a list"
  sn_stamp :: "nat \<Rightarrow> nat"
  sn_called :: "nat \<Rightarrow> nat"

definition snap_start :: "nat \<Rightarrow> 'a \<Rightarrow> 'a snap_sys" where
  "snap_start n d = \<lparr>sn_pub = Snapshot_new n d, sn_writer = WFree, sn_reader = (\<lambda>_. ReadIdle), sn_log = [],
     sn_stamp = (\<lambda>_. 0), sn_called = (\<lambda>_. 0)\<rparr>"

definition newest :: "'a snap_sys \<Rightarrow> nat" where
  "newest s = (if sp_current (sn_pub s) < 0 then 0 else sn_stamp s (nat (sp_current (sn_pub s))))"

inductive writer_moves :: "'a snap_sys \<Rightarrow> 'a snap_sys \<Rightarrow> bool" where
  begin_scan: "sn_writer s = WFree \<Longrightarrow> writer_moves s (s\<lparr>sn_writer := WScan (sp_current (sn_pub s)) 0\<rparr>)"
| scan_skip: "sn_writer s = WScan c a \<Longrightarrow> a < slot_count (sn_pub s) \<Longrightarrow>
    int (claim_index (sn_pub s) a) = c \<or> sp_refs (sn_pub s) ! claim_index (sn_pub s) a \<noteq> 0 \<Longrightarrow>
    writer_moves s (s\<lparr>sn_writer := WScan c (a + 1)\<rparr>)"
| scan_claim: "sn_writer s = WScan c a \<Longrightarrow> a < slot_count (sn_pub s) \<Longrightarrow> i = claim_index (sn_pub s) a \<Longrightarrow>
    int i \<noteq> c \<Longrightarrow> sp_refs (sn_pub s) ! i = 0 \<Longrightarrow>
    writer_moves s (s\<lparr>sn_pub := claim i (sn_pub s), sn_writer := WFill i\<rparr>)"
| scan_fail: "sn_writer s = WScan c a \<Longrightarrow> \<not> a < slot_count (sn_pub s) \<Longrightarrow> writer_moves s (s\<lparr>sn_writer := WFree\<rparr>)"
| fill: "sn_writer s = WFill i \<Longrightarrow>
    writer_moves s (s\<lparr>sn_pub := (sn_pub s)\<lparr>sp_value := (sp_value (sn_pub s))[i := v]\<rparr>\<rparr>)"
| commit_refs: "sn_writer s = WFill i \<Longrightarrow>
    writer_moves s (s\<lparr>sn_pub := (sn_pub s)\<lparr>sp_refs := (sp_refs (sn_pub s))[i := 0]\<rparr>, sn_writer := WPublish i,
      sn_log := sn_log s @ [sp_value (sn_pub s) ! i], sn_stamp := (sn_stamp s)(i := Suc (length (sn_log s)))\<rparr>)"
| commit_current: "sn_writer s = WPublish i \<Longrightarrow>
    writer_moves s (s\<lparr>sn_pub := (sn_pub s)\<lparr>sp_current := int i\<rparr>, sn_writer := WBump\<rparr>)"
| commit_version: "sn_writer s = WBump \<Longrightarrow>
    writer_moves s (s\<lparr>sn_pub := (sn_pub s)\<lparr>sp_version := sp_version (sn_pub s) + 1, sp_writing := -1\<rparr>, sn_writer := WFree\<rparr>)"

inductive reader_moves :: "nat \<Rightarrow> 'a snap_sys \<Rightarrow> 'a snap_sys \<Rightarrow> bool" where
  read_call: "sn_reader s r = ReadIdle \<Longrightarrow>
    reader_moves r s (s\<lparr>sn_reader := (sn_reader s)(r := ReadCurrent 0), sn_called := (sn_called s)(r := newest s)\<rparr>)"
| read_none: "sn_reader s r = ReadCurrent a \<Longrightarrow> \<not> a < 16 \<or> sp_current (sn_pub s) < 0 \<Longrightarrow>
    reader_moves r s (s\<lparr>sn_reader := (sn_reader s)(r := ReadIdle)\<rparr>)"
| read_current: "sn_reader s r = ReadCurrent a \<Longrightarrow> a < 16 \<Longrightarrow> \<not> sp_current (sn_pub s) < 0 \<Longrightarrow>
    reader_moves r s (s\<lparr>sn_reader := (sn_reader s)(r := ReadRefs a (nat (sp_current (sn_pub s))))\<rparr>)"
| read_refs: "sn_reader s r = ReadRefs a i \<Longrightarrow>
    reader_moves r s (s\<lparr>sn_reader := (sn_reader s)(r := ReadPin a i (sp_refs (sn_pub s) ! i))\<rparr>)"
| pin_ok: "sn_reader s r = ReadPin a i q \<Longrightarrow> q < kWriterOwned \<Longrightarrow> sp_refs (sn_pub s) ! i = q \<Longrightarrow>
    reader_moves r s (s\<lparr>sn_pub := (sn_pub s)\<lparr>sp_refs := (sp_refs (sn_pub s))[i := q + 1]\<rparr>,
      sn_reader := (sn_reader s)(r := ReadHold i)\<rparr>)"
| pin_retry: "sn_reader s r = ReadPin a i q \<Longrightarrow> q < kWriterOwned \<Longrightarrow>
    reader_moves r s (s\<lparr>sn_reader := (sn_reader s)(r := ReadPin a i (sp_refs (sn_pub s) ! i))\<rparr>)"
| pin_owned: "sn_reader s r = ReadPin a i q \<Longrightarrow> \<not> q < kWriterOwned \<Longrightarrow>
    reader_moves r s (s\<lparr>sn_reader := (sn_reader s)(r := ReadCurrent (a + 1))\<rparr>)"
| release: "sn_reader s r = ReadHold i \<Longrightarrow>
    reader_moves r s (s\<lparr>sn_pub := (sn_pub s)\<lparr>sp_refs := (sp_refs (sn_pub s))[i := sp_refs (sn_pub s) ! i - 1]\<rparr>,
      sn_reader := (sn_reader s)(r := ReadIdle)\<rparr>)"

text \<open>A step of the writer, or of one of the \<open>R\<close> readers.\<close>

definition snap_step :: "nat \<Rightarrow> 'a snap_sys \<Rightarrow> 'a snap_sys \<Rightarrow> bool" where
  "snap_step R s s' \<longleftrightarrow> writer_moves s s' \<or> (\<exists>r<R. reader_moves r s s')"

subsection \<open>The invariant\<close>

definition owner :: "'a snap_sys \<Rightarrow> nat option" where
  "owner s = (case sn_writer s of WFill i \<Rightarrow> Some i | _ \<Rightarrow> None)"

definition holders :: "nat \<Rightarrow> 'a snap_sys \<Rightarrow> nat \<Rightarrow> nat set" where
  "holders R s i = {r. r < R \<and> sn_reader s r = ReadHold i}"

text \<open>The counts are exact, and only the owner of a buffer can differ from what was committed to it.\<close>

definition refs_ok :: "nat \<Rightarrow> 'a snap_sys \<Rightarrow> bool" where
  "refs_ok R s \<longleftrightarrow> (\<forall>i < slot_count (sn_pub s). sp_refs (sn_pub s) ! i =
     (if owner s = Some i then kWriterOwned else of_nat (card (holders R s i)))) \<and>
     (\<forall>i. owner s = Some i \<longrightarrow> holders R s i = {})"

definition values_ok :: "'a snap_sys \<Rightarrow> bool" where
  "values_ok s \<longleftrightarrow> (\<forall>i < slot_count (sn_pub s). sn_stamp s i \<le> length (sn_log s) \<and>
     (owner s \<noteq> Some i \<and> 0 < sn_stamp s i \<longrightarrow> sp_value (sn_pub s) ! i = sn_log s ! (sn_stamp s i - 1)))"

definition pub_ok :: "'a snap_sys \<Rightarrow> bool" where
  "pub_ok s \<longleftrightarrow> (let p = sn_pub s in
     length (sp_refs p) = slot_count p \<and> 0 < slot_count p \<and> sp_current p < int (slot_count p) \<and>
     (0 \<le> sp_current p \<longrightarrow> 0 < sn_stamp s (nat (sp_current p))) \<and>
     (case sn_writer s of
        WScan c a \<Rightarrow> c = sp_current p
      | WFill i \<Rightarrow> i < slot_count p \<and> sp_current p \<noteq> int i
      | WPublish i \<Rightarrow> i < slot_count p \<and> sn_stamp s i = length (sn_log s) \<and> 0 < sn_stamp s i
      | _ \<Rightarrow> True))"

definition reader_sound :: "'a snap_sys \<Rightarrow> nat \<Rightarrow> bool" where
  "reader_sound s r = (let fresh = (\<lambda>i. i < slot_count (sn_pub s) \<and> 0 < sn_stamp s i \<and> sn_called s r \<le> sn_stamp s i \<and>
       sn_called s r \<le> newest s) in
     case sn_reader s r of
       ReadIdle \<Rightarrow> True
     | ReadCurrent a \<Rightarrow> sn_called s r \<le> newest s
     | ReadRefs a i \<Rightarrow> fresh i
     | ReadPin a i q \<Rightarrow> fresh i
     | ReadHold i \<Rightarrow> fresh i)"

definition snap_inv :: "nat \<Rightarrow> 'a snap_sys \<Rightarrow> bool" where
  "snap_inv R s \<longleftrightarrow> pub_ok s \<and> values_ok s \<and> refs_ok R s \<and> (\<forall>r. reader_sound s r)"

lemma snap_start_inv: "0 < n \<Longrightarrow> snap_inv R (snap_start n d)"
  by (simp add: snap_inv_def pub_ok_def values_ok_def refs_ok_def reader_sound_def snap_start_def Snapshot_new_def
      owner_def holders_def slot_count_def)

lemma finite_holders [simp]: "finite (holders R s i)"
  by (simp add: holders_def)

lemma card_holders: "card (holders R s i) \<le> R"
proof -
  have "holders R s i \<subseteq> {..<R}" by (auto simp: holders_def)
  then show ?thesis using card_mono [of "{..<R}"] by simp
qed

lemma holders_none: "R < 2 ^ 31 \<Longrightarrow> (of_nat (card (holders R s i)) :: u32) = 0 \<Longrightarrow> holders R s i = {}"
proof -
  assume a: "R < 2 ^ 31" "(of_nat (card (holders R s i)) :: u32) = 0"
  have "unat (of_nat (card (holders R s i)) :: u32) = card (holders R s i)"
    using card_holders [of R s i] a(1) by (intro unat_of_nat_less) simp
  then show ?thesis using a(2) by simp
qed

lemma claim_simps [simp]:
  "sp_value (claim i p) = sp_value p" "sp_current (claim i p) = sp_current p" "slot_count (claim i p) = slot_count p"
  "sp_refs (claim i p) = (sp_refs p)[i := kWriterOwned]"
  by (simp_all add: claim_def slot_count_def)

lemma slot_count_simps [simp]:
  "slot_count (p\<lparr>sp_refs := x\<rparr>) = slot_count p" "slot_count (p\<lparr>sp_current := c\<rparr>) = slot_count p"
  "slot_count (p\<lparr>sp_version := v, sp_writing := w\<rparr>) = slot_count p"
  "slot_count (p\<lparr>sp_value := (sp_value p)[i := y]\<rparr>) = slot_count p"
  by (simp_all add: slot_count_def)

lemma claim_index_less: "0 < slot_count p \<Longrightarrow> claim_index p a < slot_count p"
  by (simp add: claim_index_def)

lemma newest_le: "pub_ok s \<Longrightarrow> values_ok s \<Longrightarrow> newest s \<le> length (sn_log s)"
  by (auto simp: newest_def pub_ok_def values_ok_def Let_def nat_less_iff)

lemma reader_sound_mono:
  assumes "reader_sound s r" "slot_count (sn_pub s') = slot_count (sn_pub s)" "sn_reader s' r = sn_reader s r"
    "sn_called s' r = sn_called s r" "newest s \<le> newest s'" "\<And>k. k < slot_count (sn_pub s) \<Longrightarrow> sn_stamp s k \<le> sn_stamp s' k"
  shows "reader_sound s' r"
  using assms(1-5) assms(6) [of "case sn_reader s r of ReadRefs a k \<Rightarrow> k | ReadPin a k q \<Rightarrow> k | ReadHold k \<Rightarrow> k | _ \<Rightarrow> 0"]
  by (cases "sn_reader s r") (simp_all add: reader_sound_def Let_def)

lemma snap_inv_writer_pc:
  assumes "snap_inv R s" "owner s = None" "owner (s\<lparr>sn_writer := w\<rparr>) = None" "\<And>i. w \<noteq> WPublish i"
    "\<And>c a. w = WScan c a \<Longrightarrow> c = sp_current (sn_pub s)"
  shows "snap_inv R (s\<lparr>sn_writer := w\<rparr>)" (is "snap_inv R ?s'")
proof -
  have "reader_sound ?s' r" for r
    using assms(1) by (intro reader_sound_mono [of s r ?s']) (simp_all add: snap_inv_def newest_def)
  moreover have "holders R ?s' = holders R s" by (rule ext) (simp add: holders_def)
  then have "refs_ok R ?s'" "values_ok ?s'" using assms(1-3) by (simp_all add: snap_inv_def refs_ok_def values_ok_def)
  moreover have "pub_ok ?s'" using assms
    by (auto simp: snap_inv_def pub_ok_def owner_def Let_def split: pub_writer.splits)
  ultimately show ?thesis by (simp add: snap_inv_def)
qed

lemma claim_inv:
  assumes "snap_inv R s" "R < 2 ^ 31" "owner s = None" "i < slot_count (sn_pub s)" "int i \<noteq> sp_current (sn_pub s)"
    "sp_refs (sn_pub s) ! i = 0"
  shows "snap_inv R (s\<lparr>sn_pub := claim i (sn_pub s), sn_writer := WFill i\<rparr>)" (is "snap_inv R ?s'")
proof -
  have "holders R s i = {}" using assms by (intro holders_none) (auto simp: snap_inv_def refs_ok_def)
  then have "refs_ok R ?s'" using assms
    by (auto simp: snap_inv_def refs_ok_def pub_ok_def owner_def holders_def nth_list_update Let_def)
  moreover have "pub_ok ?s'" "values_ok ?s'" using assms
    by (auto simp: snap_inv_def pub_ok_def values_ok_def owner_def Let_def)
  moreover have "reader_sound ?s' r" for r
    using assms(1) by (intro reader_sound_mono [of s r ?s']) (simp_all add: snap_inv_def newest_def)
  ultimately show ?thesis by (simp add: snap_inv_def)
qed

lemma fill_inv:
  assumes "snap_inv R s" "sn_writer s = WFill i"
  shows "snap_inv R (s\<lparr>sn_pub := (sn_pub s)\<lparr>sp_value := (sp_value (sn_pub s))[i := v]\<rparr>\<rparr>)" (is "snap_inv R ?s'")
proof -
  have "refs_ok R ?s'" "pub_ok ?s'" "values_ok ?s'" using assms
    by (auto simp: snap_inv_def refs_ok_def pub_ok_def values_ok_def owner_def holders_def Let_def)
  moreover have "reader_sound ?s' r" for r
    using assms(1) by (intro reader_sound_mono [of s r ?s']) (simp_all add: snap_inv_def newest_def)
  ultimately show ?thesis by (simp add: snap_inv_def)
qed

lemma commit_refs_inv:
  assumes "snap_inv R s" "sn_writer s = WFill i"
  shows "snap_inv R (s\<lparr>sn_pub := (sn_pub s)\<lparr>sp_refs := (sp_refs (sn_pub s))[i := 0]\<rparr>, sn_writer := WPublish i,
      sn_log := sn_log s @ [sp_value (sn_pub s) ! i], sn_stamp := (sn_stamp s)(i := Suc (length (sn_log s)))\<rparr>)" (is "snap_inv R ?s'")
proof -
  have i: "i < slot_count (sn_pub s)" "int i \<noteq> sp_current (sn_pub s)" "holders R s i = {}"
    using assms by (auto simp: snap_inv_def pub_ok_def refs_ok_def owner_def Let_def)
  have le: "sn_stamp s k \<le> length (sn_log s)" if "k < slot_count (sn_pub s)" for k
    using assms(1) that by (simp add: snap_inv_def values_ok_def)
  have "holders R ?s' = holders R s" by (rule ext) (simp add: holders_def)
  then have "refs_ok R ?s'" using assms i
    by (auto simp: snap_inv_def refs_ok_def pub_ok_def owner_def nth_list_update Let_def)
  moreover have "pub_ok ?s'" using assms i by (auto simp: snap_inv_def pub_ok_def Let_def)
  moreover have "values_ok ?s'" using assms le
    by (fastforce simp: snap_inv_def values_ok_def owner_def nth_append)
  moreover have "newest ?s' = newest s" using i(2) by (auto simp: newest_def)
  then have "reader_sound ?s' r" for r
    using assms(1) le by (intro reader_sound_mono [of s r ?s']) (simp_all add: snap_inv_def le_SucI)
  ultimately show ?thesis by (simp add: snap_inv_def)
qed

lemma commit_current_inv:
  assumes "snap_inv R s" "sn_writer s = WPublish i"
  shows "snap_inv R (s\<lparr>sn_pub := (sn_pub s)\<lparr>sp_current := int i\<rparr>, sn_writer := WBump\<rparr>)" (is "snap_inv R ?s'")
proof -
  have "refs_ok R ?s'" "pub_ok ?s'" "values_ok ?s'" using assms
    by (auto simp: snap_inv_def refs_ok_def pub_ok_def values_ok_def owner_def holders_def Let_def)
  moreover have "newest s \<le> length (sn_log s)" using assms(1) by (intro newest_le) (simp_all add: snap_inv_def)
  then have "newest s \<le> newest ?s'" using assms by (simp add: snap_inv_def pub_ok_def newest_def [of ?s'] Let_def)
  then have "reader_sound ?s' r" for r
    using assms(1) by (intro reader_sound_mono [of s r ?s']) (simp_all add: snap_inv_def)
  ultimately show ?thesis by (simp add: snap_inv_def)
qed

lemma commit_version_inv:
  assumes "snap_inv R s" "sn_writer s = WBump"
  shows "snap_inv R (s\<lparr>sn_pub := (sn_pub s)\<lparr>sp_version := x, sp_writing := -1\<rparr>, sn_writer := WFree\<rparr>)" (is "snap_inv R ?s'")
proof -
  have "refs_ok R ?s'" "pub_ok ?s'" "values_ok ?s'" using assms
    by (auto simp: snap_inv_def refs_ok_def pub_ok_def values_ok_def owner_def holders_def Let_def)
  moreover have "reader_sound ?s' r" for r
    using assms(1) by (intro reader_sound_mono [of s r ?s']) (simp_all add: snap_inv_def newest_def)
  ultimately show ?thesis by (simp add: snap_inv_def)
qed

lemma writer_moves_inv:
  assumes "writer_moves s s'" "snap_inv R s" "R < 2 ^ 31"
  shows "snap_inv R s'"
  using assms(1)
proof cases
  case (scan_skip c a)
  then have "c = sp_current (sn_pub s)" using assms(2) by (simp add: snap_inv_def pub_ok_def Let_def)
  then show ?thesis using scan_skip assms(2) by (auto simp: owner_def intro!: snap_inv_writer_pc)
next
  case (scan_claim c a i)
  then have "c = sp_current (sn_pub s)" "0 < slot_count (sn_pub s)" using assms(2) by (auto simp: snap_inv_def pub_ok_def Let_def)
  then show ?thesis using scan_claim assms(2,3) claim_index_less [of "sn_pub s" a] by (auto simp: owner_def intro!: claim_inv)
qed (use assms(2) in \<open>auto simp: owner_def intro!: snap_inv_writer_pc fill_inv commit_refs_inv commit_current_inv commit_version_inv\<close>)

lemma newest_frame [simp]:
  "newest (s\<lparr>sn_reader := x\<rparr>) = newest s"
  "newest (s\<lparr>sn_pub := (sn_pub s)\<lparr>sp_refs := y\<rparr>\<rparr>) = newest s"
  by (simp_all add: newest_def)

lemma snap_inv_reader:
  assumes "snap_inv R s" "sn_pub s' = (sn_pub s)\<lparr>sp_refs := refs\<rparr>" "sn_writer s' = sn_writer s" "sn_log s' = sn_log s"
    "sn_stamp s' = sn_stamp s" "\<And>q. q \<noteq> r \<Longrightarrow> sn_reader s' q = sn_reader s q \<and> sn_called s' q = sn_called s q"
    "length refs = slot_count (sn_pub s)" "refs_ok R s'" "reader_sound s' r"
  shows "snap_inv R s'"
proof -
  have "reader_sound s' q" for q
  proof (cases "q = r")
    case False
    then show ?thesis using assms by (intro reader_sound_mono [of s q s']) (simp_all add: snap_inv_def newest_def)
  qed (use assms(9) in simp)
  moreover have "pub_ok s'" "values_ok s'" using assms(1-5,7)
    by (auto simp: snap_inv_def pub_ok_def values_ok_def owner_def Let_def split: pub_writer.splits)
  ultimately show ?thesis using assms(8) by (simp add: snap_inv_def)
qed

lemma reader_idle_inv:
  assumes "snap_inv R s" "\<And>i. sn_reader s r \<noteq> ReadHold i" "\<And>i. x \<noteq> ReadHold i"
    "reader_sound (s\<lparr>sn_reader := (sn_reader s)(r := x)\<rparr>) r"
  shows "snap_inv R (s\<lparr>sn_reader := (sn_reader s)(r := x)\<rparr>)" (is "snap_inv R ?s'")
proof (rule snap_inv_reader [OF assms(1), where r = r and refs = "sp_refs (sn_pub s)"])
  have "holders R ?s' = holders R s" using assms(2,3) by (rule_tac ext) (auto simp: holders_def)
  then show "refs_ok R ?s'" using assms(1) by (simp add: snap_inv_def refs_ok_def owner_def)
qed (use assms in \<open>simp_all add: snap_inv_def pub_ok_def Let_def\<close>)

lemma pin_inv:
  assumes "snap_inv R s" "R < 2 ^ 31" "r < R" "sn_reader s r = ReadPin a i q" "q < kWriterOwned" "sp_refs (sn_pub s) ! i = q"
  shows "snap_inv R (s\<lparr>sn_pub := (sn_pub s)\<lparr>sp_refs := (sp_refs (sn_pub s))[i := q + 1]\<rparr>,
      sn_reader := (sn_reader s)(r := ReadHold i)\<rparr>)" (is "snap_inv R ?s'")
proof (rule snap_inv_reader [OF assms(1), where r = r and refs = "(sp_refs (sn_pub s))[i := q + 1]"])
  have sound: "reader_sound s r" and refs: "refs_ok R s" and len: "length (sp_refs (sn_pub s)) = slot_count (sn_pub s)"
    using assms(1) by (simp_all add: snap_inv_def pub_ok_def Let_def)
  then show "reader_sound ?s' r" using assms(4) by (simp add: reader_sound_def)
  have i: "i < slot_count (sn_pub s)" using sound assms(4) by (simp add: reader_sound_def)
  then have own: "owner s \<noteq> Some i" using refs assms(5,6) by (auto simp: refs_ok_def)
  have "holders R ?s' k = (if k = i then insert r (holders R s i) else holders R s k)" for k
    using assms(3,4) by (auto simp: holders_def)
  moreover have "r \<notin> holders R s i" using assms(4) by (simp add: holders_def)
  then have "of_nat (card (insert r (holders R s i))) = q + 1"
    using refs own i assms(6) by (auto simp: refs_ok_def)
  ultimately show "refs_ok R ?s'" using refs own i len
    by (auto simp: refs_ok_def owner_def nth_list_update simp del: of_nat_Suc)
qed (use assms in \<open>auto simp: snap_inv_def pub_ok_def Let_def\<close>)

lemma unpin_inv:
  assumes "snap_inv R s" "r < R" "sn_reader s r = ReadHold i"
  shows "snap_inv R (s\<lparr>sn_pub := (sn_pub s)\<lparr>sp_refs := (sp_refs (sn_pub s))[i := sp_refs (sn_pub s) ! i - 1]\<rparr>,
      sn_reader := (sn_reader s)(r := ReadIdle)\<rparr>)" (is "snap_inv R ?s'")
proof (rule snap_inv_reader [OF assms(1), where r = r and refs = "(sp_refs (sn_pub s))[i := sp_refs (sn_pub s) ! i - 1]"])
  have refs: "refs_ok R s" and len: "length (sp_refs (sn_pub s)) = slot_count (sn_pub s)" and sound: "reader_sound s r"
    using assms(1) by (simp_all add: snap_inv_def pub_ok_def Let_def)
  have i: "i < slot_count (sn_pub s)" using sound assms(3) by (simp add: reader_sound_def)
  have r: "r \<in> holders R s i" using assms(2,3) by (simp add: holders_def)
  then have own: "owner s \<noteq> Some i" using refs by (auto simp: refs_ok_def)
  have "holders R ?s' k = (if k = i then holders R s i - {r} else holders R s k)" for k
    using assms(3) by (auto simp: holders_def)
  moreover have "card (holders R s i) = Suc (card (holders R s i - {r}))" using r by (intro card.remove) simp_all
  then have "of_nat (card (holders R s i - {r})) = sp_refs (sn_pub s) ! i - 1"
    using refs own i by (simp add: refs_ok_def)
  ultimately show "refs_ok R ?s'" using refs own i len
    by (auto simp: refs_ok_def owner_def nth_list_update)
qed (use assms in \<open>auto simp: snap_inv_def pub_ok_def Let_def reader_sound_def\<close>)

lemma reader_moves_inv:
  assumes "reader_moves r s s'" "r < R" "snap_inv R s" "R < 2 ^ 31"
  shows "snap_inv R s'"
proof -
  have sound: "reader_sound s r" and pub: "pub_ok s" using assms(3) by (simp_all add: snap_inv_def)
  from assms(1) show ?thesis
  proof cases
    case read_call
    then have "holders R s' = holders R s" by (rule_tac ext) (auto simp: holders_def)
    then have "refs_ok R s'" using assms(3) read_call(1) by (simp add: snap_inv_def refs_ok_def owner_def)
    then show ?thesis using assms(3) pub read_call(1)
      by (intro snap_inv_reader [OF assms(3), of s' "sp_refs (sn_pub s)" r])
         (auto simp: reader_sound_def newest_def pub_ok_def Let_def)
  next
    case (read_current a)
    have "nat (sp_current (sn_pub s)) < slot_count (sn_pub s)" using pub read_current(4) by (auto simp: pub_ok_def Let_def)
    then have "reader_sound s' r" using sound pub read_current
      by (simp add: reader_sound_def newest_def pub_ok_def Let_def)
    then show ?thesis using read_current assms(3) by (auto intro!: reader_idle_inv)
  qed (use assms sound in \<open>auto simp: reader_sound_def intro!: reader_idle_inv pin_inv unpin_inv\<close>)
qed

lemma snap_reachable:
  assumes "rtranclp (snap_step R) (snap_start n d) s" "0 < n" "R < 2 ^ 31"
  shows "snap_inv R s" "slot_count (sn_pub s) = n"
proof -
  have "snap_inv R s \<and> slot_count (sn_pub s) = n"
    using assms(1)
  proof (induction rule: rtranclp_induct)
    case base
    then show ?case using snap_start_inv [OF assms(2)] by (simp add: snap_start_def Snapshot_new_def slot_count_def)
  next
    case (step s s')
    have "slot_count (sn_pub s') = slot_count (sn_pub s)"
      using step(2) by (auto simp: snap_step_def elim!: writer_moves.cases reader_moves.cases)
    moreover have "snap_inv R s'"
      using step(2,3) assms(3) writer_moves_inv [of s s' R] reader_moves_inv [of _ s s' R] by (auto simp: snap_step_def)
    ultimately show ?case using step(3) by simp
  qed
  then show "snap_inv R s" "slot_count (sn_pub s) = n" by simp_all
qed

lemma held_not_owned: "refs_ok R s \<Longrightarrow> r < R \<Longrightarrow> sn_reader s r = ReadHold i \<Longrightarrow> owner s \<noteq> Some i"
  by (auto simp: refs_ok_def holders_def)

lemma unowned_stable: "snap_step R s s' \<Longrightarrow> owner s \<noteq> Some i \<Longrightarrow> sp_value (sn_pub s') ! i = sp_value (sn_pub s) ! i"
  by (auto simp: snap_step_def owner_def elim!: writer_moves.cases reader_moves.cases)

subsection \<open>Claiming a buffer\<close>

lemma claim_index_onto: "i < slot_count p \<Longrightarrow> \<exists>a < slot_count p. claim_index p a = i"
proof -
  assume i: "i < slot_count p"
  let ?n = "slot_count p" and ?h = "sp_write_hint p mod slot_count p"
  have "?h < ?n" using i by (intro mod_less_divisor) simp
  then have "(?h + (i + (?n - ?h)) mod ?n) mod ?n = (i + ?n) mod ?n" by (simp add: mod_add_right_eq)
  then have "claim_index p ((i + (?n - ?h)) mod ?n) = i" using i by (simp add: claim_index_def mod_add_left_eq)
  then show ?thesis using i by (intro exI [of _ "(i + (?n - ?h)) mod ?n"]) simp
qed

definition claimable :: "'a snapshot \<Rightarrow> nat \<Rightarrow> bool" where
  "claimable p i \<longleftrightarrow> int i \<noteq> sp_current p \<and> sp_refs p ! i = 0"

lemma claim_loop_result:
  assumes "length (sp_refs p) = slot_count p" "0 < slot_count p"
  shows "(\<exists>i. claim_loop k a p = Some (Some i, claim i p) \<and> claimable p i \<and> i < slot_count p) \<or>
    claim_loop k a p = Some (None, p) \<and> (\<forall>b. a \<le> b \<and> b < a + k \<longrightarrow> \<not> claimable p (claim_index p b))"
proof (induction k arbitrary: a)
  case (Suc k)
  have less: "claim_index p a < slot_count p" by (rule claim_index_less [OF assms(2)])
  show ?case
  proof (cases "claimable p (claim_index p a)")
    case True
    then show ?thesis using less assms(1) by (auto simp: claimable_def span_simps Let_def)
  next
    case False
    then have "claim_loop (Suc k) a p = claim_loop k (a + 1) p"
      using less assms(1) by (auto simp: claimable_def span_simps Let_def)
    moreover have "\<not> claimable p (claim_index p b)"
      if "\<forall>b. a + 1 \<le> b \<and> b < a + 1 + k \<longrightarrow> \<not> claimable p (claim_index p b)" "a \<le> b" "b < a + Suc k" for b
      using that False by (cases "b = a") auto
    ultimately show ?thesis using Suc.IH [of "a + 1"] by auto
  qed
qed auto

lemma begin_write_result:
  assumes "length (sp_refs p) = slot_count p" "0 < slot_count p"
  shows "(\<exists>i. begin_write p = Some (Some i, claim i p) \<and> claimable p i \<and> i < slot_count p) \<or>
    begin_write p = Some (None, p) \<and> (\<forall>i < slot_count p. \<not> claimable p i)"
  using claim_loop_result [OF assms, of "slot_count p" 0] claim_index_onto [of _ p]
  unfolding begin_write_def by (metis add_0 zero_le)

lemma pins_spread:
  assumes "\<forall>i < n. int i \<noteq> c \<longrightarrow> holders R s i \<noteq> {}"
  shows "n - 1 \<le> card {r. r < R \<and> (\<exists>i. sn_reader s r = ReadHold i)}"
proof -
  let ?I = "{i. i < n \<and> int i \<noteq> c}"
  define f where "f i = (SOME r. r \<in> holders R s i)" for i
  have f: "f i \<in> holders R s i" if "i \<in> ?I" for i using assms that by (simp add: f_def some_in_eq)
  have "inj_on f ?I"
  proof (rule inj_onI)
    fix x y assume "x \<in> ?I" "y \<in> ?I" "f x = f y"
    then show "x = y" using f [of x] f [of y] by (simp add: holders_def)
  qed
  moreover have "f ` ?I \<subseteq> {r. r < R \<and> (\<exists>i. sn_reader s r = ReadHold i)}" using f by (auto simp: holders_def)
  ultimately have "card ?I \<le> card {r. r < R \<and> (\<exists>i. sn_reader s r = ReadHold i)}" by (intro card_inj_on_le) auto
  moreover have "{..<n} - {nat c} \<subseteq> ?I" by auto
  then have "card ({..<n} - {nat c}) \<le> card ?I" by (intro card_mono) auto
  moreover have "n - 1 \<le> card ({..<n} - {nat c})" by (simp add: card_Diff_singleton_if)
  ultimately show ?thesis by linarith
qed

subsection \<open>Properties\<close>

text \<open>
  C7: A reader never reads a buffer that is being rewritten. In every state that one writer
  and up to \<open>2\<^sup>3\<^sup>1 - 1\<close> readers can reach, in any order of their steps, a buffer that a reader has pinned
  is not the writer's; it holds, in full, a value the writer committed; that value is at least as new as
  the newest one published when the read was called; and no next step of anyone changes it.
\<close>

theorem snapshot_pin_safe:
  assumes "0 < n" "R < 2 ^ 31" "rtranclp (snap_step R) (snap_start n d) s" "r < R" "sn_reader s r = ReadHold i"
  shows "sn_writer s \<noteq> WFill i \<and>
    (\<exists>k < length (sn_log s). sp_value (sn_pub s) ! i = sn_log s ! k \<and> sn_called s r \<le> Suc k) \<and>
    (\<forall>s'. snap_step R s s' \<longrightarrow> sp_value (sn_pub s') ! i = sp_value (sn_pub s) ! i)"
proof -
  have inv: "refs_ok R s" "values_ok s" "reader_sound s r"
    using snap_reachable(1) [OF assms(3,1,2)] by (simp_all add: snap_inv_def)
  have own: "owner s \<noteq> Some i" by (rule held_not_owned [OF inv(1) assms(4,5)])
  then have "sn_writer s \<noteq> WFill i" by (auto simp: owner_def)
  moreover have "i < slot_count (sn_pub s)" "0 < sn_stamp s i" "sn_called s r \<le> sn_stamp s i"
    using inv(3) assms(5) by (simp_all add: reader_sound_def)
  then have "sn_stamp s i - 1 < length (sn_log s)" "sp_value (sn_pub s) ! i = sn_log s ! (sn_stamp s i - 1)"
      "sn_called s r \<le> Suc (sn_stamp s i - 1)"
    using inv(2) own by (auto simp: values_ok_def)
  ultimately show ?thesis using unowned_stable [OF _ own] by blast
qed

lemma then_writer: "rtranclp (snap_step R) s0 s \<Longrightarrow> writer_moves s s' \<Longrightarrow> rtranclp (snap_step R) s0 s'"
  by (rule rtranclp.rtrancl_into_rtrancl) (auto simp: snap_step_def)

lemma then_reader: "rtranclp (snap_step R) s0 s \<Longrightarrow> reader_moves r s s' \<Longrightarrow> r < R \<Longrightarrow> rtranclp (snap_step R) s0 s'"
  by (rule rtranclp.rtrancl_into_rtrancl) (auto simp: snap_step_def)

text \<open>A first value written, published and pinned.\<close>

lemma first_pin: "\<exists>s. rtranclp (snap_step 1) (snap_start 3 (0::nat)) s \<and> sn_reader s 0 = ReadHold 0 \<and> sn_log s = [5]"
proof -
  let ?S = "\<lambda>v q c n h w wpc rd lg st cl. \<lparr>sn_pub = \<lparr>sp_value = v, sp_refs = q, sp_current = c, sp_version = n,
    sp_write_hint = h, sp_writing = w\<rparr>, sn_writer = wpc, sn_reader = rd, sn_log = lg, sn_stamp = st, sn_called = cl\<rparr>"
  let ?I = "\<lambda>_. ReadIdle" and ?Z = "\<lambda>_::nat. 0::nat"
  let ?reach = "rtranclp (snap_step 1) (snap_start 3 (0::nat))"
  have "?reach (?S [0,0,0] [0,0,0] (-1) 0 0 (-1) WFree ?I [] ?Z ?Z)" by (simp add: snap_start_def Snapshot_new_def numeral_3_eq_3)
  then have "?reach (?S [0,0,0] [0,0,0] (-1) 0 0 (-1) (WScan (-1) 0) ?I [] ?Z ?Z)"
    by (rule then_writer) (use writer_moves.begin_scan [where s = "(?S [0,0,0] [0,0,0] (-1) 0 0 (-1) WFree ?I [] ?Z ?Z)"] in \<open>simp add: claim_index_def claim_def slot_count_def newest_def\<close>)
  then have "?reach (?S [0,0,0] [0x80000000,0,0] (-1) 0 1 0 (WFill 0) ?I [] ?Z ?Z)"
    by (rule then_writer) (use writer_moves.scan_claim [where s = "(?S [0,0,0] [0,0,0] (-1) 0 0 (-1) (WScan (-1) 0) ?I [] ?Z ?Z)" and c = "-1" and a = 0 and i = 0] in \<open>simp add: claim_index_def claim_def slot_count_def newest_def\<close>)
  then have "?reach (?S [5,0,0] [0x80000000,0,0] (-1) 0 1 0 (WFill 0) ?I [] ?Z ?Z)"
    by (rule then_writer) (use writer_moves.fill [where s = "(?S [0,0,0] [0x80000000,0,0] (-1) 0 1 0 (WFill 0) ?I [] ?Z ?Z)" and i = 0 and v = 5] in \<open>simp add: claim_index_def claim_def slot_count_def newest_def\<close>)
  then have "?reach (?S [5,0,0] [0,0,0] (-1) 0 1 0 (WPublish 0) ?I [5] (?Z(0 := 1)) ?Z)"
    by (rule then_writer) (use writer_moves.commit_refs [where s = "(?S [5,0,0] [0x80000000,0,0] (-1) 0 1 0 (WFill 0) ?I [] ?Z ?Z)" and i = 0] in \<open>simp add: claim_index_def claim_def slot_count_def newest_def\<close>)
  then have "?reach (?S [5,0,0] [0,0,0] 0 0 1 0 WBump ?I [5] (?Z(0 := 1)) ?Z)"
    by (rule then_writer) (use writer_moves.commit_current [where s = "(?S [5,0,0] [0,0,0] (-1) 0 1 0 (WPublish 0) ?I [5] (?Z(0 := 1)) ?Z)" and i = 0] in \<open>simp add: claim_index_def claim_def slot_count_def newest_def\<close>)
  then have "?reach (?S [5,0,0] [0,0,0] 0 1 1 (-1) WFree ?I [5] (?Z(0 := 1)) ?Z)"
    by (rule then_writer) (use writer_moves.commit_version [where s = "(?S [5,0,0] [0,0,0] 0 0 1 0 WBump ?I [5] (?Z(0 := 1)) ?Z)"] in \<open>simp add: claim_index_def claim_def slot_count_def newest_def\<close>)
  then have "?reach (?S [5,0,0] [0,0,0] 0 1 1 (-1) WFree (?I(0 := ReadCurrent 0)) [5] (?Z(0 := 1)) (?Z(0 := 1)))"
    by (rule then_reader) (use reader_moves.read_call [where s = "(?S [5,0,0] [0,0,0] 0 1 1 (-1) WFree ?I [5] (?Z(0 := 1)) ?Z)" and r = 0] in \<open>simp_all add: claim_index_def claim_def slot_count_def newest_def\<close>)
  then have "?reach (?S [5,0,0] [0,0,0] 0 1 1 (-1) WFree (?I(0 := ReadRefs 0 0)) [5] (?Z(0 := 1)) (?Z(0 := 1)))"
    by (rule then_reader) (use reader_moves.read_current [where s = "(?S [5,0,0] [0,0,0] 0 1 1 (-1) WFree (?I(0 := ReadCurrent 0)) [5] (?Z(0 := 1)) (?Z(0 := 1)))" and r = 0] in \<open>simp_all add: claim_index_def claim_def slot_count_def newest_def\<close>)
  then have "?reach (?S [5,0,0] [0,0,0] 0 1 1 (-1) WFree (?I(0 := ReadPin 0 0 0)) [5] (?Z(0 := 1)) (?Z(0 := 1)))"
    by (rule then_reader) (use reader_moves.read_refs [where s = "(?S [5,0,0] [0,0,0] 0 1 1 (-1) WFree (?I(0 := ReadRefs 0 0)) [5] (?Z(0 := 1)) (?Z(0 := 1)))" and r = 0] in \<open>simp_all add: claim_index_def claim_def slot_count_def newest_def\<close>)
  then have "?reach (?S [5,0,0] [1,0,0] 0 1 1 (-1) WFree (?I(0 := ReadHold 0)) [5] (?Z(0 := 1)) (?Z(0 := 1)))"
    by (rule then_reader) (use reader_moves.pin_ok [where s = "(?S [5,0,0] [0,0,0] 0 1 1 (-1) WFree (?I(0 := ReadPin 0 0 0)) [5] (?Z(0 := 1)) (?Z(0 := 1)))" and r = 0] in \<open>simp_all add: claim_index_def claim_def slot_count_def newest_def\<close>)
  then have "?reach (?S [5,0,0] [1,0,0] 0 1 1 (-1) WFree (?I(0 := ReadHold 0)) [5] (?Z(0 := 1)) (?Z(0 := 1))) \<and> sn_reader (?S [5,0,0] [1,0,0] 0 1 1 (-1) WFree (?I(0 := ReadHold 0)) [5] (?Z(0 := 1)) (?Z(0 := 1))) 0 = ReadHold 0 \<and> sn_log (?S [5,0,0] [1,0,0] 0 1 1 (-1) WFree (?I(0 := ReadHold 0)) [5] (?Z(0 := 1)) (?Z(0 := 1))) = [5]" by simp
  then show ?thesis by (rule exI)
qed

theorem snapshot_pin_safe_witness:
  "\<exists>s. rtranclp (snap_step 1) (snap_start 3 (0::nat)) s \<and> sn_reader s 0 = ReadHold 0 \<and> sn_writer s \<noteq> WFill 0 \<and>
     sp_value (sn_pub s) ! 0 = 5"
proof -
  obtain s where s: "rtranclp (snap_step 1) (snap_start 3 (0::nat)) s" "sn_reader s 0 = ReadHold 0" "sn_log s = [5]"
    using first_pin by blast
  then show ?thesis using snapshot_pin_safe [OF _ _ s(1), of 0 0] by (intro exI [of _ s]) auto
qed

text \<open>
  C34: When a writer is refused. In every reachable state with no write in progress,
  \<^verbatim>\<open>begin_write\<close> returns a buffer that is neither the published one nor pinned, and marks it as the writer's,
  unless every buffer but the published one is pinned; then it returns null and changes nothing, and at
  least \<open>N - 1\<close> readers hold a pin.
\<close>

theorem snapshot_begin_write:
  assumes "0 < n" "R < 2 ^ 31" "rtranclp (snap_step R) (snap_start n d) s" "sn_writer s = WFree"
  shows "(\<exists>i < n. begin_write (sn_pub s) = Some (Some i, claim i (sn_pub s)) \<and> int i \<noteq> sp_current (sn_pub s) \<and> holders R s i = {}) \<or>
    begin_write (sn_pub s) = Some (None, sn_pub s) \<and>
      (\<forall>i < n. int i \<noteq> sp_current (sn_pub s) \<longrightarrow> holders R s i \<noteq> {}) \<and>
      n - 1 \<le> card {r. r < R \<and> (\<exists>i. sn_reader s r = ReadHold i)}"
proof -
  have inv: "pub_ok s" "refs_ok R s" and n: "slot_count (sn_pub s) = n"
    using snap_reachable [OF assms(3,1,2)] by (simp_all add: snap_inv_def)
  have c: "claimable (sn_pub s) i \<longleftrightarrow> int i \<noteq> sp_current (sn_pub s) \<and> holders R s i = {}" if "i < n" for i
    using inv(2) that n holders_none [OF assms(2), of s i] assms(4) by (auto simp: claimable_def refs_ok_def owner_def)
  have "length (sp_refs (sn_pub s)) = slot_count (sn_pub s)" "0 < slot_count (sn_pub s)"
    using inv(1) by (simp_all add: pub_ok_def Let_def)
  from begin_write_result [OF this, unfolded n] show ?thesis
  proof
    assume "begin_write (sn_pub s) = Some (None, sn_pub s) \<and> (\<forall>i<n. \<not> claimable (sn_pub s) i)"
    moreover from this have "\<forall>i < n. int i \<noteq> sp_current (sn_pub s) \<longrightarrow> holders R s i \<noteq> {}" using c by auto
    ultimately show ?thesis using pins_spread [of n "sp_current (sn_pub s)" R s] by blast
  qed (use c in blast)
qed

theorem snapshot_begin_write_witness:
  "\<exists>i < 3. begin_write (sn_pub (snap_start 3 (0::nat))) = Some (Some i, claim i (sn_pub (snap_start 3 0)))"
proof -
  have "sn_writer (snap_start 3 (0::nat)) = WFree" by (simp add: snap_start_def)
  then show ?thesis using snapshot_begin_write [of 3 0 "0::nat" "snap_start 3 0"] by auto
qed

text \<open>Two pins refuse the writer of three buffers, although there are more buffers than readers.\<close>

lemma begin_write_two_pins:
  "begin_write \<lparr>sp_value = [x, y, z], sp_refs = [1, 0, 1], sp_current = 1, sp_version = v, sp_write_hint = h, sp_writing = -1\<rparr> =
     Some (None, \<lparr>sp_value = [x, y, z], sp_refs = [1, 0, 1], sp_current = 1, sp_version = v, sp_write_hint = h, sp_writing = -1\<rparr>)"
  (is "begin_write ?p = _")
proof -
  have "\<not> claimable ?p i" if "i < 3" for i using that by (auto simp: claimable_def less_Suc_eq numeral_3_eq_3)
  then show ?thesis using begin_write_result [of ?p] by (auto simp: slot_count_def numeral_3_eq_3)
qed

subsection \<open>The operations without interference\<close>

lemma write_commit_read:
  assumes "begin_write p = Some (Some i, p1)" "length (sp_refs p) = slot_count p" "0 < slot_count p"
  shows "\<exists>p2 p3. commit (p1\<lparr>sp_value := (sp_value p1)[i := v]\<rparr>) = Some p2 \<and> has_data p2 \<and>
    sp_version p2 = sp_version p + 1 \<and> read_snapshot p2 = Some (Some i, p3) \<and> sp_value p3 ! i = v \<and> release_pin i p3 = Some p2"
proof -
  have p1: "p1 = claim i p" "i < slot_count p" using begin_write_result [OF assms(2,3)] assms(1) by auto
  let ?p2 = "p1\<lparr>sp_value := (sp_value p1)[i := v], sp_refs := (sp_refs p)[i := 0], sp_current := int i,
    sp_version := sp_version p + 1, sp_writing := -1\<rparr>"
  have "commit (p1\<lparr>sp_value := (sp_value p1)[i := v]\<rparr>) = Some ?p2"
    using p1 assms(2) by (simp add: commit_def claim_def span_simps)
  moreover have "read_snapshot ?p2 = Some (Some i, ?p2\<lparr>sp_refs := (sp_refs p)[i := 1]\<rparr>)"
    using p1 assms(2) by (simp add: read_snapshot_def span_simps)
  moreover have "release_pin i (?p2\<lparr>sp_refs := (sp_refs p)[i := 1]\<rparr>) = Some ?p2"
    using p1 assms(2) by (simp add: release_pin_def span_simps)
  ultimately show ?thesis using p1 by (auto simp: has_data_def slot_count_def)
qed

end
