(* ===== verification/Pcap.thy ===== *)
theory Pcap
  imports Byte_Order
begin

text \<open>
  Capture files, \<^verbatim>\<open>include/gtpm/pcap.hpp\<close>: the reader of classic libpcap files in both byte orders and both
  timestamp resolutions, the writer, and the link-layer stripping.

  A file that can be opened is the size \<^verbatim>\<open>ftell\<close> reports and the bytes \<^verbatim>\<open>fread\<close> delivers, so that a
  failing \<^verbatim>\<open>ftell\<close> and a short read are inputs. A file being written is what has reached it and
  how many bytes the device still takes: \<^verbatim>\<open>fwrite\<close> writes what fits and returns that count. The views
  of \<^verbatim>\<open>PcapPacket\<close> are the bytes they show.

  The lemmas show that loading never reads outside the file; that the packets are the records the file is
  made of, in order, up to a cut-off last one; and that what was written is read back.
\<close>

subsection \<open>Format\<close>

abbreviation (input) kPcapMagicMicro :: u32 where "kPcapMagicMicro \<equiv> 0xA1B2C3D4"
abbreviation (input) kPcapMagicMicroSwapped :: u32 where "kPcapMagicMicroSwapped \<equiv> 0xD4C3B2A1"
abbreviation (input) kPcapMagicNano :: u32 where "kPcapMagicNano \<equiv> 0xA1B23C4D"
abbreviation (input) kPcapMagicNanoSwapped :: u32 where "kPcapMagicNanoSwapped \<equiv> 0x4D3CB2A1"
abbreviation (input) kPcapFileHeaderLen :: nat where "kPcapFileHeaderLen \<equiv> 24"
abbreviation (input) kPcapRecordHeaderLen :: nat where "kPcapRecordHeaderLen \<equiv> 16"

datatype LinkType = kEthernet | kRawIp | kLinuxSll | kRawIpv4 | kRawIpv6

fun link_type_code :: "LinkType \<Rightarrow> u32" where
  "link_type_code kEthernet = 1"
| "link_type_code kRawIp = 101"
| "link_type_code kLinuxSll = 113"
| "link_type_code kRawIpv4 = 228"
| "link_type_code kRawIpv6 = 229"

record PcapPacket =
  pk_data :: bytes
  pk_ts_ns :: u64
  pk_orig_len :: u32

definition pk_truncated :: "PcapPacket \<Rightarrow> bool" where
  "pk_truncated p \<longleftrightarrow> length (pk_data p) < unat (pk_orig_len p)"

record PcapFile =
  pc_packets :: "PcapPacket list"
  pc_link_type :: u32
  pc_snaplen :: u32
  pc_version_major :: u16
  pc_version_minor :: u16
  pc_swapped :: bool
  pc_nanosecond :: bool

definition PcapFile_init :: PcapFile where
  "PcapFile_init = \<lparr>pc_packets = [], pc_link_type = link_type_code kEthernet, pc_snaplen = 0, pc_version_major = 2,
     pc_version_minor = 4, pc_swapped = False, pc_nanosecond = False\<rparr>"

record PcapResult =
  pr_error :: string
  pr_malformed_records :: nat

definition pcap_ok :: "PcapResult \<Rightarrow> bool" where
  "pcap_ok r \<longleftrightarrow> pr_error r = []"

subsection \<open>Reading\<close>

definition file_u32 :: "bool \<Rightarrow> bytes \<Rightarrow> nat \<Rightarrow> u32 option" where
  "file_u32 swapped p i = (if swapped then load_be32 p i else load_le32 p i)"

definition file_u16 :: "bool \<Rightarrow> bytes \<Rightarrow> nat \<Rightarrow> u16 option" where
  "file_u16 swapped p i = (if swapped then load_be16 p i else load_le16 p i)"

text \<open>Swapped and nanosecond resolution, from the magic number.\<close>

definition pcap_magic :: "u32 \<Rightarrow> (bool \<times> bool) option" where
  "pcap_magic magic_le = (
     if magic_le = kPcapMagicMicro then Some (False, False)
     else if magic_le = kPcapMagicMicroSwapped then Some (True, False)
     else if magic_le = kPcapMagicNano then Some (False, True)
     else if magic_le = kPcapMagicNanoSwapped then Some (True, True)
     else None)"

definition packet_time :: "bool \<Rightarrow> u32 \<Rightarrow> u32 \<Rightarrow> u64" where
  "packet_time nanos ts_sec ts_frac =
     ucast ts_sec * 1000000000 + (if nanos then ucast ts_frac else ucast ts_frac * 1000)"

function load_records :: "bool \<Rightarrow> bool \<Rightarrow> bytes \<Rightarrow> nat \<Rightarrow> (PcapPacket list \<times> nat) option" where
  "load_records swapped nanos p off = (
     if off + kPcapRecordHeaderLen \<le> length p then do {
       ts_sec \<leftarrow> file_u32 swapped p off;
       ts_frac \<leftarrow> file_u32 swapped p (off + 4);
       incl_len \<leftarrow> file_u32 swapped p (off + 8);
       orig_len \<leftarrow> file_u32 swapped p (off + 12);
       let off = off + kPcapRecordHeaderLen;
       if unat incl_len > length p - off then Some ([], 1)
       else do {
         data \<leftarrow> subspan p off (unat incl_len);
         let packet = \<lparr>pk_data = data, pk_ts_ns = packet_time nanos ts_sec ts_frac, pk_orig_len = orig_len\<rparr>;
         (packets, malformed) \<leftarrow> load_records swapped nanos p (off + unat incl_len);
         Some (packet # packets, malformed) } }
     else Some ([], 0))"
  by pat_completeness auto
termination
  by (relation "measure (\<lambda>(swapped, nanos, p, off). length p - off)") auto

declare load_records.simps [simp del]

text \<open>The file at \<open>path\<close>: nothing when it cannot be opened.\<close>

definition pcap_load :: "string \<Rightarrow> (int \<times> bytes) option \<Rightarrow> (PcapResult \<times> PcapFile) option" where
  "pcap_load path content = (case content of
       None \<Rightarrow> Some (\<lparr>pr_error = ''cannot open capture: '' @ path, pr_malformed_records = 0\<rparr>, PcapFile_init)
     | Some (len, p) \<Rightarrow>
         if len < int kPcapFileHeaderLen then
           Some (\<lparr>pr_error = ''capture is shorter than a pcap file header: '' @ path, pr_malformed_records = 0\<rparr>, PcapFile_init)
         else if length p \<noteq> nat len then
           Some (\<lparr>pr_error = ''short read on capture: '' @ path, pr_malformed_records = 0\<rparr>, PcapFile_init)
         else do {
           magic_le \<leftarrow> load_le32 p 0;
           case pcap_magic magic_le of
             None \<Rightarrow> Some (\<lparr>pr_error = ''not a pcap file (bad magic); pcapng is not supported: '' @ path,
                        pr_malformed_records = 0\<rparr>, PcapFile_init)
           | Some (swapped, nanos) \<Rightarrow> do {
               version_major \<leftarrow> file_u16 swapped p 4;
               version_minor \<leftarrow> file_u16 swapped p 6;
               snaplen \<leftarrow> file_u32 swapped p 16;
               link_type \<leftarrow> file_u32 swapped p 20;
               (packets, malformed) \<leftarrow> load_records swapped nanos p kPcapFileHeaderLen;
               Some (\<lparr>pr_error = [], pr_malformed_records = malformed\<rparr>,
                 \<lparr>pc_packets = packets, pc_link_type = link_type, pc_snaplen = snaplen, pc_version_major = version_major,
                  pc_version_minor = version_minor, pc_swapped = swapped, pc_nanosecond = nanos\<rparr>) } })"

definition total_bytes :: "PcapFile \<Rightarrow> nat" where
  "total_bytes f = sum_list (List.map (\<lambda>p. length (pk_data p)) (pc_packets f))"

subsection \<open>Writing\<close>

record out_file =
  of_bytes :: bytes
  of_room :: nat

definition fwrite :: "bytes \<Rightarrow> out_file \<Rightarrow> nat \<times> out_file" where
  "fwrite bs f = (let n = min (length bs) (of_room f) in
     (n, \<lparr>of_bytes = of_bytes f @ take n bs, of_room = of_room f - n\<rparr>))"

text \<open>\<^verbatim>\<open>PcapWriter\<close>: the open file, or none.\<close>

record PcapWriter =
  pw_file :: "out_file option"

definition PcapWriter_init :: PcapWriter where
  "PcapWriter_init = \<lparr>pw_file = None\<rparr>"

definition pw_close :: "PcapWriter \<Rightarrow> PcapWriter" where
  "pw_close w = w\<lparr>pw_file := None\<rparr>"

definition pw_is_open :: "PcapWriter \<Rightarrow> bool" where
  "pw_is_open w \<longleftrightarrow> pw_file w \<noteq> None"

text \<open>\<open>opened\<close> is what \<^verbatim>\<open>fopen\<close> for writing gives: an empty file, or nothing.\<close>

definition pw_open :: "out_file option \<Rightarrow> LinkType \<Rightarrow> u32 \<Rightarrow> PcapWriter \<Rightarrow> (bool \<times> PcapWriter) option" where
  "pw_open opened link snaplen w = (
     let w = pw_close w in
     case opened of
       None \<Rightarrow> Some (False, w)
     | Some f \<Rightarrow> do {
         let header = replicate kPcapFileHeaderLen 0;
         header \<leftarrow> store_le32 header 0 kPcapMagicMicro;
         header \<leftarrow> store_le16 header 4 2;
         header \<leftarrow> store_le16 header 6 4;
         header \<leftarrow> store_le32 header 8 0;
         header \<leftarrow> store_le32 header 12 0;
         header \<leftarrow> store_le32 header 16 snaplen;
         header \<leftarrow> store_le32 header 20 (link_type_code link);
         let (n, f) = fwrite header f;
         Some (n = length header, w\<lparr>pw_file := Some f\<rparr>) })"

text \<open>The record header is not initialised in the source; every byte of it is stored. \<open>rec0\<close> is what it held.\<close>

definition pw_write :: "bytes \<Rightarrow> u64 \<Rightarrow> bytes \<Rightarrow> u32 \<Rightarrow> PcapWriter \<Rightarrow> (bool \<times> PcapWriter) option" where
  "pw_write rec0 ts_ns data orig_len w = (case pw_file w of
       None \<Rightarrow> Some (False, w)
     | Some f \<Rightarrow> do {
         h \<leftarrow> store_le32 rec0 0 (ucast (ts_ns div 1000000000));
         h \<leftarrow> store_le32 h 4 (ucast ((ts_ns mod 1000000000) div 1000));
         h \<leftarrow> store_le32 h 8 (of_nat (length data));
         h \<leftarrow> store_le32 h 12 (if orig_len \<noteq> 0 then orig_len else of_nat (length data));
         let (n, f) = fwrite h f;
         if n \<noteq> length h then Some (False, w\<lparr>pw_file := Some f\<rparr>)
         else do {
           let (m, f) = fwrite data f;
           Some (m = length data, w\<lparr>pw_file := Some f\<rparr>) } })"

subsection \<open>Link layers\<close>

record LinkLayer =
  ll_payload :: bytes
  ll_is_ethernet :: bool
  ll_valid :: bool

definition LinkLayer_init :: LinkLayer where
  "LinkLayer_init = \<lparr>ll_payload = [], ll_is_ethernet = False, ll_valid = False\<rparr>"

definition strip_link_layer :: "u32 \<Rightarrow> bytes \<Rightarrow> LinkLayer option" where
  "strip_link_layer link_type frame = (
     let out = LinkLayer_init in
     if link_type = link_type_code kEthernet then
       Some (out\<lparr>ll_payload := frame, ll_is_ethernet := True, ll_valid := True\<rparr>)
     else if link_type = link_type_code kRawIp \<or> link_type = link_type_code kRawIpv4 \<or> link_type = link_type_code kRawIpv6 then
       Some (out\<lparr>ll_payload := frame, ll_valid := True\<rparr>)
     else if link_type = link_type_code kLinuxSll then
       if length frame > 16 then do {
         payload \<leftarrow> subspan_from frame 16;
         Some (out\<lparr>ll_payload := payload, ll_valid := True\<rparr>) }
       else Some out
     else Some out)"

lemma strip_link_layer_result: "\<exists>l. strip_link_layer link_type frame = Some l"
  by (simp add: strip_link_layer_def Let_def span_simps)

subsection \<open>The records of a file\<close>

text \<open>\<open>cuts p off ps rest\<close>: from \<open>off\<close> on, the file is the records of the packets \<open>ps\<close> and then \<open>rest\<close>.\<close>

fun cuts :: "bool \<Rightarrow> bool \<Rightarrow> bytes \<Rightarrow> PcapPacket list \<Rightarrow> bytes \<Rightarrow> bool" where
  "cuts swapped nanos p [] rest \<longleftrightarrow> p = rest"
| "cuts swapped nanos p (k # ks) rest \<longleftrightarrow> (\<exists>head q ts_sec ts_frac. p = head @ pk_data k @ q \<and> length head = 16 \<and>
     file_u32 swapped head 0 = Some ts_sec \<and> file_u32 swapped head 4 = Some ts_frac \<and>
     file_u32 swapped head 8 = Some (of_nat (length (pk_data k))) \<and> length (pk_data k) < 2 ^ 32 \<and>
     file_u32 swapped head 12 = Some (pk_orig_len k) \<and> pk_ts_ns k = packet_time nanos ts_sec ts_frac \<and>
     cuts swapped nanos q ks rest)"

text \<open>A rest that is no record: too short for a header, or a header that promises more than there is.\<close>

definition cut_off :: "bool \<Rightarrow> bytes \<Rightarrow> nat \<Rightarrow> bool" where
  "cut_off swapped rest malformed \<longleftrightarrow>
     (if length rest < 16 then malformed = 0
      else malformed = 1 \<and> (\<exists>incl. file_u32 swapped rest 8 = Some incl \<and> unat incl > length rest - 16))"

lemma file_u32_in: "i + 4 \<le> length p \<Longrightarrow> \<exists>v. file_u32 swapped p i = Some v"
  by (auto simp: file_u32_def span_simps)

lemma file_u16_in: "i + 2 \<le> length p \<Longrightarrow> \<exists>v. file_u16 swapped p i = Some v"
  by (auto simp: file_u16_def span_simps)

lemma file_u32_take:
  assumes "i + 4 \<le> n" "off + n \<le> length p"
  shows "file_u32 swapped (take n (drop off p)) i = file_u32 swapped p (off + i)"
proof -
  have "length (take n (drop off p)) = n" using assms(2) by simp
  then show ?thesis using assms by (simp add: file_u32_def span_simps take_drop_compose del: length_take)
qed

lemma file_u32_drop: "off + i + 4 \<le> length p \<Longrightarrow> file_u32 swapped (drop off p) i = file_u32 swapped p (off + i)"
  by (simp add: file_u32_def span_simps add.commute)

lemma cutsI:
  "p = head @ pk_data k @ q \<Longrightarrow> length head = 16 \<Longrightarrow> file_u32 swapped head 0 = Some ts_sec \<Longrightarrow>
   file_u32 swapped head 4 = Some ts_frac \<Longrightarrow> file_u32 swapped head 8 = Some (of_nat (length (pk_data k))) \<Longrightarrow>
   length (pk_data k) < 2 ^ 32 \<Longrightarrow> file_u32 swapped head 12 = Some (pk_orig_len k) \<Longrightarrow>
   pk_ts_ns k = packet_time nanos ts_sec ts_frac \<Longrightarrow> cuts swapped nanos q ks rest \<Longrightarrow> cuts swapped nanos p (k # ks) rest"
  by auto

lemma load_records_exact:
  "off \<le> length p \<Longrightarrow> \<exists>ps m rest. load_records swapped nanos p off = Some (ps, m) \<and>
     cuts swapped nanos (drop off p) ps rest \<and> cut_off swapped rest m"
proof (induction swapped nanos p off rule: load_records.induct)
  case (1 swapped nanos p off)
  show ?case
  proof (cases "off + 16 \<le> length p")
    case False
    then have "load_records swapped nanos p off = Some ([], 0)" by (subst load_records.simps) simp
    moreover have "cut_off swapped (drop off p) 0" using False by (simp add: cut_off_def)
    ultimately show ?thesis by (intro exI [of _ "[]"] exI [of _ 0] exI [of _ "drop off p"]) simp
  next
    case True
    obtain sec frac incl orig where f: "file_u32 swapped p off = Some sec" "file_u32 swapped p (off + 4) = Some frac"
        "file_u32 swapped p (off + 8) = Some incl" "file_u32 swapped p (off + 12) = Some orig"
    proof -
      have "off + 4 \<le> length p" "off + 4 + 4 \<le> length p" "off + 8 + 4 \<le> length p" "off + 12 + 4 \<le> length p"
        using True by simp_all
      from this [THEN file_u32_in, of swapped] show ?thesis using that by blast
    qed
    show ?thesis
    proof (cases "unat incl > length p - (off + 16)")
      case long: True
      have "cut_off swapped (drop off p) 1"
        using True long f(3) by (simp add: cut_off_def file_u32_drop)
      moreover have "load_records swapped nanos p off = Some ([], 1)"
        using True long f by (subst load_records.simps) (simp add: Let_def)
      ultimately show ?thesis by (intro exI [of _ "[]"] exI [of _ 1] exI [of _ "drop off p"]) simp
    next
      case False
      let ?d = "take (unat incl) (drop (off + 16) p)"
      let ?k = "\<lparr>pk_data = ?d, pk_ts_ns = packet_time nanos sec frac, pk_orig_len = orig\<rparr>"
      have d: "subspan p (off + 16) (unat incl) = Some ?d" and len: "length ?d = unat incl"
        using True False by (simp_all add: span_simps)
      have "off + 16 + unat incl \<le> length p" using True False by linarith
      then obtain ps m rest where ih: "load_records swapped nanos p (off + 16 + unat incl) = Some (ps, m)"
          "cuts swapped nanos (drop (off + 16 + unat incl) p) ps rest" "cut_off swapped rest m"
        using "1.IH" [OF True f refl False d refl] by blast
      have loaded: "load_records swapped nanos p off = Some (?k # ps, m)"
        using True False f d ih(1) by (subst load_records.simps) (simp add: Let_def)
      have "drop off p = take 16 (drop off p) @ ?d @ drop (off + 16 + unat incl) p"
        using append_take_drop_id [of 16 "drop off p"] append_take_drop_id [of "unat incl" "drop (off + 16) p"]
        by (simp add: add.commute add.left_commute)
      moreover have "length (take 16 (drop off p)) = 16" using True by simp
      ultimately have "cuts swapped nanos (drop off p) (?k # ps) rest"
        using True f len ih(2) unsigned_less [of incl, where 'a=nat]
        by (intro cutsI [where head = "take 16 (drop off p)" and ts_sec = sec and ts_frac = frac])
           (simp_all add: file_u32_take del: length_take)
      then show ?thesis using loaded ih(3) by blast
    qed
  qed
qed

lemma load_records_cuts:
  assumes "cuts swapped nanos (drop off p) ps rest" "cut_off swapped rest m"
  shows "load_records swapped nanos p off = Some (ps, m)"
  using assms(1)
proof (induction ps arbitrary: off)
  case Nil
  then have rest: "rest = drop off p" by simp
  show ?case
  proof (cases "length rest < 16")
    case True
    then have "\<not> off + 16 \<le> length p" "m = 0" using rest assms(2) by (auto simp: cut_off_def)
    then show ?thesis by (subst load_records.simps) simp
  next
    case False
    then have le: "off + 16 \<le> length p" using rest by simp
    obtain incl where incl: "m = 1" "file_u32 swapped p (off + 8) = Some incl" "unat incl > length p - (off + 16)"
      using assms(2) False le rest by (auto simp: cut_off_def file_u32_drop)
    have "off + 4 \<le> length p" "off + 4 + 4 \<le> length p" "off + 12 + 4 \<le> length p" using le by simp_all
    from this [THEN file_u32_in, of swapped] show ?thesis
      using incl le by (subst load_records.simps) (auto simp: Let_def)
  qed
next
  case (Cons k ps)
  then obtain head q sec frac where c: "drop off p = head @ pk_data k @ q" "length head = 16"
      "file_u32 swapped head 0 = Some sec" "file_u32 swapped head 4 = Some frac"
      "file_u32 swapped head 8 = Some (of_nat (length (pk_data k)))" "length (pk_data k) < 2 ^ 32"
      "file_u32 swapped head 12 = Some (pk_orig_len k)" "pk_ts_ns k = packet_time nanos sec frac"
      "cuts swapped nanos q ps rest"
    by auto
  let ?n = "length (pk_data k)"
  have "length p - off = 16 + ?n + length q" using arg_cong [OF c(1), of length] c(2) by simp
  then have le: "off + 16 + ?n \<le> length p" "off + 16 \<le> length p" by linarith+
  have head: "head = take 16 (drop off p)" using c(1,2) by simp
  have rd: "file_u32 swapped p (off + i) = file_u32 swapped head i" if "i + 4 \<le> 16" for i
    using file_u32_take [of i 16 off p swapped] that le(2) head by simp
  have n: "unat (of_nat ?n :: u32) = ?n" using c(6) by (intro unat_of_nat_less) simp
  have d: "drop (off + 16) p = pk_data k @ q" using c(1,2) by (metis add.commute append_eq_conv_conj drop_drop)
  then have "subspan p (off + 16) ?n = Some (pk_data k)" using le(1) by (simp add: span_simps)
  moreover have "drop (off + 16 + ?n) p = q" using d by (metis add.commute append_eq_conv_conj drop_drop)
  then have "load_records swapped nanos p (off + 16 + ?n) = Some (ps, m)" using Cons.IH c(9) by simp
  moreover have "\<not> length p - (off + 16) < ?n" using le by linarith
  ultimately show ?case using le(2) rd [of 0] rd [of 4] rd [of 8] rd [of 12] c(3-5,7,8) n
    by (subst load_records.simps) (simp add: Let_def)
qed

subsection \<open>What the writer writes\<close>

definition record_image :: "u64 \<Rightarrow> bytes \<Rightarrow> u32 \<Rightarrow> bytes" where
  "record_image ts data orig = word_bytes 4 (ucast (ts div 1000000000) :: u32) @
     word_bytes 4 (ucast (ts mod 1000000000 div 1000) :: u32) @ word_bytes 4 (of_nat (length data) :: u32) @
     word_bytes 4 (if orig \<noteq> 0 then orig else of_nat (length data))"

lemma four_stores:
  assumes "length h = 16"
  shows "(do { h \<leftarrow> store_le32 h 0 a; h \<leftarrow> store_le32 h 4 b; h \<leftarrow> store_le32 h 8 c; store_le32 h 12 d }) =
    Some (word_bytes 4 a @ word_bytes 4 b @ word_bytes 4 c @ word_bytes 4 d)"
proof -
  obtain x0 x1 x2 x3 x4 x5 x6 x7 x8 x9 x10 x11 x12 x13 x14 x15
    where "h = [x0, x1, x2, x3, x4, x5, x6, x7, x8, x9, x10, x11, x12, x13, x14, x15]"
    using assms by (auto simp: length_Suc_conv numeral_eq_Suc)
  then show ?thesis by (simp add: store_le32_def store_at_def word_bytes_small)
qed

lemma fwrite_room: "length bs \<le> of_room f \<Longrightarrow>
  fwrite bs f = (length bs, \<lparr>of_bytes = of_bytes f @ bs, of_room = of_room f - length bs\<rparr>)"
  by (simp add: fwrite_def min_def Let_def)

lemma pw_write_room:
  assumes "pw_file w = Some f" "length rec0 = 16" "16 + length data \<le> of_room f"
  shows "pw_write rec0 ts data orig w = Some (True, w\<lparr>pw_file := Some \<lparr>of_bytes = of_bytes f @ record_image ts data orig @ data,
    of_room = of_room f - (16 + length data)\<rparr>\<rparr>)"
proof -
  define h where "h = record_image ts data orig"
  have len: "length h = 16" by (simp add: h_def record_image_def)
  have "pw_write rec0 ts data orig w = do { h \<leftarrow> Some h; let (n, f) = fwrite h f;
      if n \<noteq> length h then Some (False, w\<lparr>pw_file := Some f\<rparr>)
      else do { let (m, f) = fwrite data f; Some (m = length data, w\<lparr>pw_file := Some f\<rparr>) } }"
    unfolding h_def record_image_def four_stores [OF assms(2), symmetric] pw_write_def assms(1) by simp
  then show ?thesis using assms(3) len by (simp add: fwrite_room Let_def h_def [symmetric])
qed

fun pw_write_all :: "bytes \<Rightarrow> (u64 \<times> bytes \<times> u32) list \<Rightarrow> PcapWriter \<Rightarrow> (bool \<times> PcapWriter) option" where
  "pw_write_all rec0 [] w = Some (True, w)"
| "pw_write_all rec0 ((ts, data, orig) # items) w = do {
     (ok, w) \<leftarrow> pw_write rec0 ts data orig w;
     if ok then pw_write_all rec0 items w else Some (False, w) }"

definition items_image :: "(u64 \<times> bytes \<times> u32) list \<Rightarrow> bytes" where
  "items_image items = concat (List.map (\<lambda>(ts, data, orig). record_image ts data orig @ data) items)"

lemma length_record_image [simp]: "length (record_image ts data orig) = 16"
  by (simp add: record_image_def)

lemma items_image_simps [simp]:
  "items_image [] = []" "items_image ((ts, data, orig) # items) = record_image ts data orig @ data @ items_image items"
  by (simp_all add: items_image_def)

lemma pw_write_all_room:
  assumes "pw_file w = Some f" "length rec0 = 16" "length (items_image items) \<le> of_room f"
  shows "\<exists>w' f'. pw_write_all rec0 items w = Some (True, w') \<and> pw_file w' = Some f' \<and> of_bytes f' = of_bytes f @ items_image items"
  using assms
proof (induction items arbitrary: w f)
  case (Cons item items)
  obtain ts data orig where item: "item = (ts, data, orig)" by (cases item)
  then have "16 + length data \<le> of_room f" using Cons.prems(3) by simp
  note w = pw_write_room [OF Cons.prems(1,2) this, of ts orig]
  show ?case using Cons.IH [OF _ Cons.prems(2), of "w\<lparr>pw_file := Some \<lparr>of_bytes = of_bytes f @ record_image ts data orig @ data,
      of_room = of_room f - (16 + length data)\<rparr>\<rparr>"] Cons.prems(3) item w by auto
qed simp

definition file_header :: "u32 \<Rightarrow> u32 \<Rightarrow> bytes" where
  "file_header snaplen link = word_bytes 4 kPcapMagicMicro @ word_bytes 2 (2 :: u16) @ word_bytes 2 (4 :: u16) @
     word_bytes 4 (0 :: u32) @ word_bytes 4 (0 :: u32) @ word_bytes 4 snaplen @ word_bytes 4 link"

lemma replicate_24: "replicate 24 (0::u8) = [0, 0, 0, 0, 0, 0, 0, 0, 0, 0, 0, 0, 0, 0, 0, 0, 0, 0, 0, 0, 0, 0, 0, 0]"
  by (simp add: numeral_eq_Suc)

lemma pw_open_room:
  assumes "24 \<le> of_room f"
  shows "pw_open (Some f) link snaplen w = Some (True, w\<lparr>pw_file := Some \<lparr>of_bytes = of_bytes f @ file_header snaplen (link_type_code link),
    of_room = of_room f - 24\<rparr>\<rparr>)"
proof -
  define h where "h = file_header snaplen (link_type_code link)"
  have len: "length h = 24" by (simp add: h_def file_header_def)
  have stores: "(do { let header = replicate 24 0; header \<leftarrow> store_le32 header 0 kPcapMagicMicro; header \<leftarrow> store_le16 header 4 2;
      header \<leftarrow> store_le16 header 6 4; header \<leftarrow> store_le32 header 8 0; header \<leftarrow> store_le32 header 12 0;
      header \<leftarrow> store_le32 header 16 snaplen; store_le32 header 20 (link_type_code link) }) = Some h"
    unfolding replicate_24 by (simp add: h_def file_header_def store_le32_def store_le16_def store_at_def word_bytes_small)
  have "pw_open (Some f) link snaplen w = do { h \<leftarrow> Some h; let (n, f) = fwrite h f;
      Some (n = length h, (pw_close w)\<lparr>pw_file := Some f\<rparr>) }"
    unfolding stores [symmetric] pw_open_def by (simp add: Let_def)
  then show ?thesis using assms len by (simp add: fwrite_room pw_close_def h_def [symmetric])
qed

subsection \<open>Reading back\<close>

definition item_ok :: "u64 \<times> bytes \<times> u32 \<Rightarrow> bool" where
  "item_ok item = (case item of (ts, data, orig) \<Rightarrow> unat ts div 1000000000 < 2 ^ 32 \<and> length data < 2 ^ 32)"

definition item_packet :: "u64 \<times> bytes \<times> u32 \<Rightarrow> PcapPacket" where
  "item_packet item = (case item of (ts, data, orig) \<Rightarrow>
     \<lparr>pk_data = data, pk_ts_ns = ts - ts mod 1000, pk_orig_len = (if orig \<noteq> 0 then orig else of_nat (length data))\<rparr>)"

lemma micro_split: "n div 1000000000 * 1000000000 + n mod 1000000000 div 1000 * 1000 = n - n mod (1000::nat)"
proof -
  define r where "r = n mod 1000000000"
  have "n div 1000000000 * 1000000000 + r = n" unfolding r_def by (rule div_mult_mod_eq)
  moreover have "r div 1000 * 1000 + r mod 1000 = r" by (rule div_mult_mod_eq)
  moreover have "r mod 1000 = n mod 1000" unfolding r_def by (rule mod_mod_cancel) simp
  ultimately show ?thesis by (simp add: r_def [symmetric])
qed

lemma unat_ucast_small: "unat (x::u64) < 2 ^ 32 \<Longrightarrow> unat (ucast (ucast x :: u32) :: u64) = unat x"
  by (simp add: unsigned_ucast_eq unsigned_take_bit_eq take_bit_nat_eq_self)

lemma written_time:
  assumes "unat ts div 1000000000 < 2 ^ 32"
  shows "packet_time False (ucast (ts div 1000000000)) (ucast (ts mod 1000000000 div 1000)) = ts - ts mod 1000"
proof -
  let ?s = "ucast (ucast (ts div 1000000000) :: u32) :: u64" and ?f = "ucast (ucast (ts mod 1000000000 div 1000) :: u32) :: u64"
  have u: "unat ?s = unat ts div 1000000000" "unat ?f = unat ts mod 1000000000 div 1000"
    using assms by (subst unat_ucast_small; simp add: unat_div unat_mod)+
  have "?s * 1000000000 + ?f * 1000 = of_nat (unat ?s * 1000000000 + unat ?f * 1000)" by simp
  also have "\<dots> = of_nat (unat ts - unat ts mod 1000)" unfolding u micro_split ..
  also have "\<dots> = ts - ts mod 1000" by (simp add: of_nat_diff flip: unat_mod_distrib) (simp add: word_arith_nat_mod)
  finally show ?thesis by (simp add: packet_time_def)
qed

lemma file_u32_word: "file_u32 False (xs @ word_bytes 4 (v :: u32) @ ys) (length xs) = Some v"
  using le_val_word_bytes [of 4 v] take_bit_length_eq [of v] by (simp add: file_u32_def span_simps)

lemma file_u16_word: "file_u16 False (xs @ word_bytes 2 (v :: u16) @ ys) (length xs) = Some v"
  using le_val_word_bytes [of 2 v] take_bit_length_eq [of v] by (simp add: file_u16_def span_simps)

lemma record_image_fields:
  "file_u32 False (record_image ts data orig) 0 = Some (ucast (ts div 1000000000))"
  "file_u32 False (record_image ts data orig) 4 = Some (ucast (ts mod 1000000000 div 1000))"
  "file_u32 False (record_image ts data orig) 8 = Some (of_nat (length data))"
  "file_u32 False (record_image ts data orig) 12 = Some (if orig \<noteq> 0 then orig else of_nat (length data))"
  using file_u32_word [of "[]"] file_u32_word [of "word_bytes 4 (ucast (ts div 1000000000) :: u32)"]
    file_u32_word [of "word_bytes 4 (ucast (ts div 1000000000) :: u32) @ word_bytes 4 (ucast (ts mod 1000000000 div 1000) :: u32)"]
    file_u32_word [of "word_bytes 4 (ucast (ts div 1000000000) :: u32) @ word_bytes 4 (ucast (ts mod 1000000000 div 1000) :: u32) @
      word_bytes 4 (of_nat (length data) :: u32)" _ "[]"]
  by (simp_all add: record_image_def)

lemma cuts_items: "list_all item_ok items \<Longrightarrow> cuts False False (items_image items) (List.map item_packet items) []"
proof (induction items)
  case (Cons item items)
  obtain ts data orig where item: "item = (ts, data, orig)" by (cases item)
  then show ?case using Cons
    by (auto simp: item_ok_def item_packet_def record_image_fields written_time simp del: cuts.simps
        intro!: cutsI [where head = "record_image ts data orig" and q = "items_image items"])
qed simp

lemma file_header_fields:
  "length (file_header snaplen link) = 24"
  "load_le32 (file_header snaplen link @ ys) 0 = Some kPcapMagicMicro"
  "file_u16 False (file_header snaplen link @ ys) 4 = Some 2" "file_u16 False (file_header snaplen link @ ys) 6 = Some 4"
  "file_u32 False (file_header snaplen link @ ys) 16 = Some snaplen" "file_u32 False (file_header snaplen link @ ys) 20 = Some link"
proof -
  let ?m = "word_bytes 4 kPcapMagicMicro" and ?v = "word_bytes 2 (2 :: u16)" and ?w = "word_bytes 2 (4 :: u16)" and ?z = "word_bytes 4 (0 :: u32)"
  let ?s = "word_bytes 4 snaplen" and ?l = "word_bytes 4 link"
  show "length (file_header snaplen link) = 24" by (simp add: file_header_def)
  show "load_le32 (file_header snaplen link @ ys) 0 = Some kPcapMagicMicro"
    using file_u32_word [of "[]" kPcapMagicMicro] by (simp add: file_header_def file_u32_def)
  show "file_u16 False (file_header snaplen link @ ys) 4 = Some 2"
    using file_u16_word [of ?m 2] by (simp add: file_header_def)
  show "file_u16 False (file_header snaplen link @ ys) 6 = Some 4"
    using file_u16_word [of "?m @ ?v" 4] by (simp add: file_header_def)
  show "file_u32 False (file_header snaplen link @ ys) 16 = Some snaplen"
    using file_u32_word [of "?m @ ?v @ ?w @ ?z @ ?z" snaplen] by (simp add: file_header_def)
  show "file_u32 False (file_header snaplen link @ ys) 20 = Some link"
    using file_u32_word [of "?m @ ?v @ ?w @ ?z @ ?z @ ?s" link] by (simp add: file_header_def)
qed

lemma pcap_load_written:
  assumes "list_all item_ok items" "p = file_header snaplen link @ items_image items"
  shows "pcap_load path (Some (int (length p), p)) = Some (\<lparr>pr_error = [], pr_malformed_records = 0\<rparr>,
    \<lparr>pc_packets = List.map item_packet items, pc_link_type = link, pc_snaplen = snaplen, pc_version_major = 2,
     pc_version_minor = 4, pc_swapped = False, pc_nanosecond = False\<rparr>)"
proof -
  have "cuts False False (drop 24 p) (List.map item_packet items) []"
    using cuts_items [OF assms(1)] assms(2) file_header_fields(1) by simp
  then have "load_records False False p 24 = Some (List.map item_packet items, 0)"
    by (rule load_records_cuts) (simp add: cut_off_def)
  moreover have "pcap_magic kPcapMagicMicro = Some (False, False)" by (simp add: pcap_magic_def)
  moreover have "24 \<le> length p" using assms(2) by (simp add: file_header_fields(1))
  ultimately show ?thesis unfolding pcap_load_def using file_header_fields(2-6) [of snaplen link "items_image items"]
    by (simp add: assms(2) [symmetric])
qed

subsection \<open>Properties\<close>

text \<open>The bytes and the format of a file that can be read at all.\<close>

definition readable :: "(int \<times> bytes) option \<Rightarrow> (bytes \<times> bool \<times> bool) option" where
  "readable content = (case content of
       None \<Rightarrow> None
     | Some (n, p) \<Rightarrow> if n < 24 \<or> length p \<noteq> nat n then None else map_option (\<lambda>m. (p, m)) (pcap_magic (le_val (take 4 p))))"

text \<open>
  C15: Loading a capture stays inside the file and cuts it exactly. For any file contents the
  loader returns. It reports an error, and an empty capture, exactly when the file cannot be opened, is
  shorter than its header, is read short or has an unknown magic number. Otherwise the bytes after the file
  header are, one after the other, the records of the packets returned, each with the time, the lengths and
  the data its header gives in the file's byte order and resolution; what is left is too short for a record
  header, or one record that promises more data than the file has, which is counted as malformed.
\<close>

theorem pcap_load_exact:
  "\<exists>r f. pcap_load path content = Some (r, f) \<and>
     (case readable content of
        None \<Rightarrow> \<not> pcap_ok r \<and> f = PcapFile_init
      | Some (p, swapped, nanos) \<Rightarrow> pcap_ok r \<and> pc_swapped f = swapped \<and> pc_nanosecond f = nanos \<and>
          (\<exists>rest. cuts swapped nanos (drop 24 p) (pc_packets f) rest \<and> cut_off swapped rest (pr_malformed_records r)))"
proof (cases content)
  case (Some np)
  obtain n p where np: "np = (n, p)" by (cases np)
  show ?thesis
  proof (cases "n < 24 \<or> length p \<noteq> nat n")
    case True
    then show ?thesis using Some np by (auto simp: pcap_load_def readable_def pcap_ok_def)
  next
    case False
    then have len: "24 \<le> length p" "\<not> n < 24" "length p = nat n" by auto
    then have magic: "load_le32 p 0 = Some (le_val (take 4 p))" by (simp add: span_simps)
    show ?thesis
    proof (cases "pcap_magic (le_val (take 4 p))")
      case None
      then show ?thesis using Some np len magic by (auto simp: pcap_load_def readable_def pcap_ok_def)
    next
      case (Some m)
      obtain swapped nanos where m: "m = (swapped, nanos)" by (cases m)
      obtain ps k rest where "load_records swapped nanos p 24 = Some (ps, k)" "cuts swapped nanos (drop 24 p) ps rest"
          "cut_off swapped rest k"
        using load_records_exact [of 24 p swapped nanos] len by blast
      moreover obtain a b c d where "file_u16 swapped p 4 = Some a" "file_u16 swapped p 6 = Some b"
          "file_u32 swapped p 16 = Some c" "file_u32 swapped p 20 = Some d"
      proof -
        have "4 + 2 \<le> length p" "6 + 2 \<le> length p" "16 + 4 \<le> length p" "20 + 4 \<le> length p" using len(1) by simp_all
        from this(1,2) [THEN file_u16_in, of swapped] this(3,4) [THEN file_u32_in, of swapped] show ?thesis using that by blast
      qed
      ultimately show ?thesis using \<open>content = Some np\<close> np len magic Some m
        by (auto simp: pcap_load_def readable_def pcap_ok_def)
    qed
  qed
qed (simp add: pcap_load_def readable_def pcap_ok_def)

text \<open>
  C26: What the writer writes, the reader reads back. Opening a writer and writing any packets
  to a device with room for them succeeds, and loading the resulting file gives the same packets in
  order, with the link type and the snap length, no error and no malformed record. Times are cut to
  microseconds, and an original length of zero stands for the length of the data. The seconds of the times
  and the lengths must fit their 32-bit fields.
\<close>

theorem pcap_roundtrip:
  assumes "list_all item_ok items" "length rec0 = 16" "24 + length (items_image items) \<le> room"
  shows "\<exists>w w' f. pw_open (Some \<lparr>of_bytes = [], of_room = room\<rparr>) link snaplen PcapWriter_init = Some (True, w) \<and>
    pw_write_all rec0 items w = Some (True, w') \<and> pw_file w' = Some f \<and>
    pcap_load path (Some (int (length (of_bytes f)), of_bytes f)) = Some (\<lparr>pr_error = [], pr_malformed_records = 0\<rparr>,
      \<lparr>pc_packets = List.map item_packet items, pc_link_type = link_type_code link, pc_snaplen = snaplen, pc_version_major = 2,
       pc_version_minor = 4, pc_swapped = False, pc_nanosecond = False\<rparr>)"
proof -
  let ?f = "\<lparr>of_bytes = [], of_room = room\<rparr>"
  define w where "w = PcapWriter_init\<lparr>pw_file := Some \<lparr>of_bytes = file_header snaplen (link_type_code link), of_room = room - 24\<rparr>\<rparr>"
  have o: "pw_open (Some ?f) link snaplen PcapWriter_init = Some (True, w)"
    using pw_open_room [of ?f link snaplen PcapWriter_init] assms(3) by (simp add: w_def)
  have "length (items_image items) \<le> room - 24" using assms(3) by linarith
  then obtain w' f where f: "pw_write_all rec0 items w = Some (True, w')" "pw_file w' = Some f"
      "of_bytes f = file_header snaplen (link_type_code link) @ items_image items"
    using pw_write_all_room [of w "\<lparr>of_bytes = file_header snaplen (link_type_code link), of_room = room - 24\<rparr>" rec0 items] assms(2)
    by (auto simp: w_def)
  show ?thesis using o f(1,2) pcap_load_written [OF assms(1) f(3)] by blast
qed

theorem pcap_roundtrip_witness:
  "\<exists>w w' f. pw_open (Some \<lparr>of_bytes = [], of_room = 99\<rparr>) kEthernet 262144 PcapWriter_init = Some (True, w) \<and>
    pw_write_all (replicate 16 0) [(1234567, [1, 2, 3], 0)] w = Some (True, w') \<and> pw_file w' = Some f \<and>
    pcap_load ''a.pcap'' (Some (int (length (of_bytes f)), of_bytes f)) = Some (\<lparr>pr_error = [], pr_malformed_records = 0\<rparr>,
      \<lparr>pc_packets = [\<lparr>pk_data = [1, 2, 3], pk_ts_ns = 1234000, pk_orig_len = 3\<rparr>], pc_link_type = 1, pc_snaplen = 262144,
       pc_version_major = 2, pc_version_minor = 4, pc_swapped = False, pc_nanosecond = False\<rparr>)"
  using pcap_roundtrip [of "[(1234567, [1, 2, 3], 0)]" "replicate 16 0" 99 kEthernet 262144 "''a.pcap''"]
  by (simp add: item_ok_def item_packet_def)

end
