(* ===== verification/Replay.thy ===== *)
theory Replay
  imports Pcap Pipeline
begin

text \<open>
  The replay source of \<^verbatim>\<open>src/ingest_pcap.cpp\<close> and \<^verbatim>\<open>include/gtpm/source.hpp\<close>, and the body of the ingest loop
  of \<^verbatim>\<open>src/main.cpp\<close> that hands its packets to the ingest path.

  A source holds the loaded capture and its position; \<open>next_batch\<close> returns the packets it writes to the
  front of the caller's array. The option \<^verbatim>\<open>rewrite_timestamps\<close> is read nowhere in the source and has no
  counterpart. The lemmas show that the batches, whatever their sizes, are the capture repeated the
  requested number of times, and that replaying a capture never breaks the ingest path.
\<close>

subsection \<open>The replay source\<close>

record ReplaySource =
  rp_file :: PcapFile
  rp_loops :: u32
  rp_cursor :: nat
  rp_loop :: u32
  rp_replayed :: u64
  rp_bytes :: u64
  rp_exhausted :: bool
  rp_stopped :: bool

definition ReplaySource_new :: "PcapFile \<Rightarrow> u32 \<Rightarrow> ReplaySource" where
  "ReplaySource_new file loops = \<lparr>rp_file = file, rp_loops = loops, rp_cursor = 0, rp_loop = 0, rp_replayed = 0,
     rp_bytes = 0, rp_exhausted = False, rp_stopped = False\<rparr>"

definition replay_open :: "string \<Rightarrow> (int \<times> bytes) option \<Rightarrow> u32 \<Rightarrow> (string + ReplaySource) option" where
  "replay_open path content loops = do {
     (r, file) \<leftarrow> pcap_load path content;
     Some (if \<not> pcap_ok r then Inl (pr_error r)
           else if pc_packets file = [] then Inl (''capture contains no packets: '' @ path)
           else Inr (ReplaySource_new file loops)) }"

definition replay_one :: "ReplaySource \<Rightarrow> (PcapPacket \<times> ReplaySource) option" where
  "replay_one src = do {
     p \<leftarrow> at_index (pc_packets (rp_file src)) (rp_cursor src);
     Some (p, src\<lparr>rp_cursor := rp_cursor src + 1, rp_bytes := rp_bytes src + of_nat (length (pk_data p)),
                  rp_replayed := rp_replayed src + 1\<rparr>) }"

text \<open>\<open>k\<close> more packets are wanted.\<close>

fun batch_loop :: "nat \<Rightarrow> ReplaySource \<Rightarrow> (PcapPacket list \<times> ReplaySource) option" where
  "batch_loop 0 src = Some ([], src)"
| "batch_loop (Suc k) src = (
     if rp_cursor src \<ge> length (pc_packets (rp_file src)) then
       let src = src\<lparr>rp_loop := rp_loop src + 1\<rparr> in
       if rp_loops src \<noteq> 0 \<and> rp_loop src \<ge> rp_loops src then Some ([], src\<lparr>rp_exhausted := True\<rparr>)
       else do {
         (p, src) \<leftarrow> replay_one (src\<lparr>rp_cursor := 0\<rparr>);
         (ps, src) \<leftarrow> batch_loop k src;
         Some (p # ps, src) }
     else do {
       (p, src) \<leftarrow> replay_one src;
       (ps, src) \<leftarrow> batch_loop k src;
       Some (p # ps, src) })"

definition next_batch :: "nat \<Rightarrow> ReplaySource \<Rightarrow> (PcapPacket list \<times> ReplaySource) option" where
  "next_batch maxn src = (if rp_exhausted src \<or> rp_stopped src then Some ([], src) else batch_loop maxn src)"

definition replay_stop :: "ReplaySource \<Rightarrow> ReplaySource" where
  "replay_stop src = src\<lparr>rp_stopped := True\<rparr>"

definition replay_link_type :: "ReplaySource \<Rightarrow> u32" where
  "replay_link_type src = pc_link_type (rp_file src)"

fun next_batches :: "nat list \<Rightarrow> ReplaySource \<Rightarrow> (PcapPacket list list \<times> ReplaySource) option" where
  "next_batches [] src = Some ([], src)"
| "next_batches (m # ms) src = do {
     (b, src) \<leftarrow> next_batch m src;
     (bs, src) \<leftarrow> next_batches ms src;
     Some (b # bs, src) }"

subsection \<open>What a source has still to deliver\<close>

definition still :: "ReplaySource \<Rightarrow> PcapPacket list" where
  "still src = drop (rp_cursor src) (pc_packets (rp_file src)) @
     concat (replicate (unat (rp_loops src) - Suc (unat (rp_loop src))) (pc_packets (rp_file src)))"

definition replay_ok :: "ReplaySource \<Rightarrow> bool" where
  "replay_ok src \<longleftrightarrow> pc_packets (rp_file src) \<noteq> [] \<and> rp_loop src < rp_loops src \<and>
     rp_cursor src \<le> length (pc_packets (rp_file src))"

text \<open>\<open>src'\<close> is \<open>src\<close> after delivering \<open>ps\<close>.\<close>

definition handed_out :: "ReplaySource \<Rightarrow> PcapPacket list \<Rightarrow> ReplaySource \<Rightarrow> bool" where
  "handed_out src ps src' \<longleftrightarrow> rp_file src' = rp_file src \<and> rp_loops src' = rp_loops src \<and> rp_stopped src' = rp_stopped src \<and>
     rp_replayed src' = rp_replayed src + of_nat (length ps) \<and>
     rp_bytes src' = rp_bytes src + of_nat (sum_list (List.map (\<lambda>p. length (pk_data p)) ps))"

lemma handed_out_refl: "handed_out src [] src"
  by (simp add: handed_out_def)

lemma handed_out_trans: "handed_out src ps src' \<Longrightarrow> handed_out src' qs src'' \<Longrightarrow> handed_out src (ps @ qs) src''"
  by (simp add: handed_out_def)

lemma replay_one_step:
  assumes "replay_ok src" "rp_cursor src < length (pc_packets (rp_file src))"
  shows "\<exists>p src'. replay_one src = Some (p, src') \<and> still src = p # still src' \<and> replay_ok src' \<and> handed_out src [p] src' \<and>
    rp_exhausted src' = rp_exhausted src"
proof -
  let ?ps = "pc_packets (rp_file src)" and ?c = "rp_cursor src"
  have "drop ?c ?ps = ?ps ! ?c # drop (Suc ?c) ?ps" using assms(2) by (rule Cons_nth_drop_Suc [symmetric])
  then show ?thesis using assms by (simp add: replay_one_def span_simps still_def replay_ok_def handed_out_def)
qed

lemma still_wrap:
  assumes "replay_ok src" "rp_cursor src = length (pc_packets (rp_file src))" "rp_loop src + 1 < rp_loops src"
  shows "still (src\<lparr>rp_loop := rp_loop src + 1, rp_cursor := 0\<rparr>) = still src"
    and "replay_ok (src\<lparr>rp_loop := rp_loop src + 1, rp_cursor := 0\<rparr>)"
proof -
  have less: "unat (rp_loop src) < unat (rp_loops src)" using assms(1) by (simp add: replay_ok_def word_less_nat_alt)
  then have u: "unat (rp_loop src + 1) = Suc (unat (rp_loop src))"
    using unsigned_less [of "rp_loops src", where 'a=nat] by (intro unat_add_one) simp
  then have "unat (rp_loops src) - Suc (unat (rp_loop src)) = Suc (unat (rp_loops src) - Suc (unat (rp_loop src + 1)))"
    using assms(3) by (simp add: word_less_nat_alt)
  then show "still (src\<lparr>rp_loop := rp_loop src + 1, rp_cursor := 0\<rparr>) = still src"
    using assms(2) by (simp add: still_def)
  show "replay_ok (src\<lparr>rp_loop := rp_loop src + 1, rp_cursor := 0\<rparr>)" using assms by (simp add: replay_ok_def)
qed

lemma still_end:
  assumes "replay_ok src" "rp_cursor src = length (pc_packets (rp_file src))" "\<not> rp_loop src + 1 < rp_loops src"
  shows "still src = []"
proof -
  have less: "unat (rp_loop src) < unat (rp_loops src)" using assms(1) by (simp add: replay_ok_def word_less_nat_alt)
  then have "unat (rp_loop src + 1) = Suc (unat (rp_loop src))"
    using unsigned_less [of "rp_loops src", where 'a=nat] by (intro unat_add_one) simp
  then show ?thesis using assms(2,3) by (simp add: still_def word_less_nat_alt)
qed

text \<open>A source that has not ended may deliver; one that has has nothing left.\<close>

definition replay_inv :: "ReplaySource \<Rightarrow> PcapPacket list \<Rightarrow> bool" where
  "replay_inv src left \<longleftrightarrow> \<not> rp_stopped src \<and> (if rp_exhausted src then left = [] else replay_ok src \<and> left = still src)"

lemma batch_loop_spec:
  assumes "replay_ok src" "\<not> rp_exhausted src" "\<not> rp_stopped src"
  shows "\<exists>src'. batch_loop k src = Some (take k (still src), src') \<and> replay_inv src' (drop k (still src)) \<and>
    handed_out src (take k (still src)) src'"
  using assms
proof (induction k arbitrary: src)
  case 0
  then show ?case by (simp add: replay_inv_def handed_out_refl)
next
  case (Suc k)
  let ?n = "length (pc_packets (rp_file src))"
  have one: "\<exists>src'. (do { (p, src) \<leftarrow> replay_one s; (ps, src) \<leftarrow> batch_loop k src; Some (p # ps, src) }) = Some (take (Suc k) (still s), src') \<and>
      replay_inv src' (drop (Suc k) (still s)) \<and> handed_out s (take (Suc k) (still s)) src'"
    if s: "replay_ok s" "rp_cursor s < length (pc_packets (rp_file s))" "\<not> rp_exhausted s" "\<not> rp_stopped s" for s
  proof -
    obtain p s1 where p: "replay_one s = Some (p, s1)" "still s = p # still s1" "replay_ok s1" "handed_out s [p] s1" "\<not> rp_exhausted s1"
      using replay_one_step [OF s(1,2)] s(3) by auto
    moreover have "\<not> rp_stopped s1" using p(4) s(4) by (simp add: handed_out_def)
    ultimately obtain s2 where "batch_loop k s1 = Some (take k (still s1), s2)" "replay_inv s2 (drop k (still s1))"
        "handed_out s1 (take k (still s1)) s2" using Suc.IH by blast
    then show ?thesis using p handed_out_trans [OF p(4)] by auto
  qed
  show ?case
  proof (cases "rp_cursor src < ?n")
    case True
    then show ?thesis using one [OF Suc.prems(1) True Suc.prems(2,3)] by simp
  next
    case False
    then have c: "rp_cursor src = ?n" using Suc.prems(1) by (simp add: replay_ok_def)
    have nz: "rp_loops src \<noteq> 0" using Suc.prems(1) by (auto simp: replay_ok_def)
    show ?thesis
    proof (cases "rp_loop src + 1 < rp_loops src")
      case True
      let ?s = "src\<lparr>rp_loop := rp_loop src + 1, rp_cursor := 0\<rparr>"
      note w = still_wrap [OF Suc.prems(1) c True]
      have "0 < ?n" using Suc.prems(1) by (simp add: replay_ok_def)
      then obtain s2 where s2: "(do { (p, src) \<leftarrow> replay_one ?s; (ps, src) \<leftarrow> batch_loop k src; Some (p # ps, src) }) =
          Some (take (Suc k) (still src), s2)" "replay_inv s2 (drop (Suc k) (still src))" "handed_out ?s (take (Suc k) (still src)) s2"
        using one [of ?s] w Suc.prems(2,3) by auto
      have "batch_loop (Suc k) src = Some (take (Suc k) (still src), s2)"
        using s2(1) c linorder_not_le [THEN iffD2, OF True] by (simp add: Let_def)
      moreover have "handed_out src (take (Suc k) (still src)) s2" using s2(3) by (simp add: handed_out_def)
      ultimately show ?thesis using s2(2) by blast
    next
      case fin: False
      then show ?thesis using still_end [OF Suc.prems(1) c fin] Suc.prems(3) c nz
        by (simp add: replay_inv_def handed_out_def not_less Let_def)
    qed
  qed
qed

lemma next_batch_spec:
  assumes "replay_inv src left"
  shows "\<exists>src'. next_batch m src = Some (take m left, src') \<and> replay_inv src' (drop m left) \<and>
    handed_out src (take m left) src'"
proof (cases "rp_exhausted src")
  case True
  then show ?thesis using assms by (simp add: next_batch_def replay_inv_def handed_out_refl)
next
  case False
  then show ?thesis using assms batch_loop_spec [of src m] by (simp add: next_batch_def replay_inv_def)
qed

lemma next_batches_spec:
  assumes "replay_inv src left"
  shows "\<exists>bs src'. next_batches ms src = Some (bs, src') \<and> concat bs = take (sum_list ms) left \<and>
    replay_inv src' (drop (sum_list ms) left) \<and> handed_out src (concat bs) src'"
  using assms
proof (induction ms arbitrary: src left)
  case Nil
  then show ?case by (simp add: handed_out_refl)
next
  case (Cons m ms)
  obtain s1 where s1: "next_batch m src = Some (take m left, s1)" "replay_inv s1 (drop m left)" "handed_out src (take m left) s1"
    using next_batch_spec [OF Cons.prems] by blast
  obtain bs s2 where s2: "next_batches ms s1 = Some (bs, s2)" "concat bs = take (sum_list ms) (drop m left)"
      "replay_inv s2 (drop (sum_list ms) (drop m left))" "handed_out s1 (concat bs) s2"
    using Cons.IH [OF s1(2)] by blast
  have "concat (take m left # bs) = take (sum_list (m # ms)) left" using s2(2) by (simp add: take_add)
  moreover have "handed_out src (concat (take m left # bs)) s2" using handed_out_trans [OF s1(3) s2(4)] by simp
  ultimately show ?case using s1(1) s2(1,3) by (simp add: add.commute del: concat.simps)
qed

lemma replay_inv_new:
  assumes "pc_packets file \<noteq> []" "loops \<noteq> 0"
  shows "replay_inv (ReplaySource_new file loops) (concat (replicate (unat loops) (pc_packets file)))"
proof -
  have "unat loops \<noteq> 0" using assms(2) by (simp add: unat_eq_0)
  then obtain n where "unat loops = Suc n" using not0_implies_Suc by blast
  then show ?thesis using assms
    by (simp add: replay_inv_def replay_ok_def ReplaySource_new_def still_def word_neq_0_conv)
qed

text \<open>
  C27: Replaying a capture delivers it the requested number of times, packet for packet. Whatever sizes
  the batches are asked in, they concatenate to a prefix of the capture repeated \<open>loops\<close> times, as long
  as the sizes ask for; nothing is skipped at a batch or loop boundary and nothing is read beyond the
  capture. The counters are the number of packets delivered and their bytes, and the source reports
  its end only when every packet has been delivered.
\<close>

theorem replay_exact:
  assumes "pc_packets file \<noteq> []" "loops \<noteq> 0"
  shows "\<exists>bs src. next_batches ms (ReplaySource_new file loops) = Some (bs, src) \<and>
    concat bs = take (sum_list ms) (concat (replicate (unat loops) (pc_packets file))) \<and>
    rp_replayed src = of_nat (length (concat bs)) \<and>
    rp_bytes src = of_nat (sum_list (List.map (\<lambda>p. length (pk_data p)) (concat bs))) \<and>
    (rp_exhausted src \<longrightarrow> concat bs = concat (replicate (unat loops) (pc_packets file)))"
proof -
  let ?all = "concat (replicate (unat loops) (pc_packets file))"
  obtain bs src where b: "next_batches ms (ReplaySource_new file loops) = Some (bs, src)" "concat bs = take (sum_list ms) ?all"
      "replay_inv src (drop (sum_list ms) ?all)" "handed_out (ReplaySource_new file loops) (concat bs) src"
    using next_batches_spec [OF replay_inv_new [OF assms], of ms] by blast
  have "concat bs = ?all" if "rp_exhausted src"
    using b(2,3) that append_take_drop_id [of "sum_list ms" ?all] by (simp add: replay_inv_def)
  then show ?thesis using b(1,2,4) by (simp add: handed_out_def ReplaySource_new_def)
qed

theorem replay_exact_witness:
  "\<exists>p q captured bs src. p \<noteq> q \<and> pc_packets captured = [p, q] \<and> next_batches [3, 2] (ReplaySource_new captured 2) = Some (bs, src) \<and>
     concat bs = [p, q, p, q] \<and> rp_replayed src = 4"
proof -
  define p q where "p = \<lparr>pk_data = [1], pk_ts_ns = 5, pk_orig_len = 1\<rparr>" and "q = \<lparr>pk_data = [2, 3], pk_ts_ns = 6, pk_orig_len = 2\<rparr>"
  define captured where "captured = PcapFile_init\<lparr>pc_packets := [p, q]\<rparr>"
  have unat_two: "unat (2 :: u32) = Suc (Suc 0)" by simp
  have r: "replicate (unat (2 :: u32)) [p, q] = [[p, q], [p, q]]" unfolding unat_two by simp
  have "pc_packets captured = [p, q]" by (simp add: captured_def)
  moreover have "p \<noteq> q" by (simp add: p_def q_def)
  moreover obtain bs src where b: "next_batches [3, 2] (ReplaySource_new captured 2) = Some (bs, src)"
      "concat bs = take (sum_list [3, 2]) (concat (replicate (unat (2 :: u32)) [p, q]))" "rp_replayed src = of_nat (length (concat bs))"
    using replay_exact [of captured 2 "[3, 2]"] \<open>pc_packets captured = [p, q]\<close> by (auto simp del: next_batches.simps)
  moreover have c: "concat bs = [p, q, p, q]" using b(2) unfolding r by simp
  moreover have "rp_replayed src = 4" using b(3) unfolding c by simp
  ultimately show ?thesis by blast
qed

subsection \<open>The ingest loop\<close>

text \<open>
  The body of the loop over a batch; \<open>ts\<close> is the time the packet is stamped with. Captures of
  raw IP packets and of the Linux cooked link type go to \<^verbatim>\<open>process_ip\<close> directly.
\<close>

definition feed_packet :: "u32 \<Rightarrow> u64 \<Rightarrow> bytes \<Rightarrow> Ingest \<Rightarrow> Ingest option" where
  "feed_packet link_type ts data g = do {
     link \<leftarrow> strip_link_layer link_type data;
     if \<not> ll_valid link then Some g
     else if ll_is_ethernet link then do { (_, g) \<leftarrow> process_frame (ll_payload link) ts g; Some g }
     else do { (_, g) \<leftarrow> process_ip (ll_payload link) ts (of_nat (length (ll_payload link))) g; Some g } }"

lemma feed_packet_spec:
  assumes "ingest_ok g"
  shows "\<exists>g' n evs lost gys gylost. feed_packet link_type ts data g = Some g' \<and> n \<le> 1 \<and> ingest_delta n evs lost gys gylost g g'"
proof -
  obtain l where l: "strip_link_layer link_type data = Some l" using strip_link_layer_result by blast
  consider "\<not> ll_valid l" | "ll_valid l" "ll_is_ethernet l" | "ll_valid l" "\<not> ll_is_ethernet l" by blast
  then show ?thesis
  proof cases
    case 1
    then show ?thesis using l delta_refl [OF assms] by (force simp: feed_packet_def)
  next
    case 2
    then show ?thesis using l process_frame_spec [OF assms, of "ll_payload l" ts] by (force simp: feed_packet_def)
  next
    case 3
    then show ?thesis using l process_ip_spec [OF assms, of "ll_payload l" ts "of_nat (length (ll_payload l))"]
      by (force simp: feed_packet_def)
  qed
qed

end
