(* ===== verification/Stats.thy ===== *)
theory Stats
  imports Latency_Histogram Meter Pipeline
begin

text \<open>
  The published view of \<^verbatim>\<open>include/gtpm/stats.hpp\<close> and the configuration of \<^verbatim>\<open>include/gtpm/runtime.hpp\<close>.

  A floating-point member is the pair of integers whose quotient the source stores in it; the rounding
  of the division is not modelled. The ranks of the quantiles, which the source computes in floating
  point too, are the argument \<open>rank_of\<close>: the quantile in parts of 10000 and the number of samples.
\<close>

type_synonym ratio = "u64 \<times> u64"

record LatencySummary =
  ls_count :: u64
  ls_min_ns :: u64
  ls_p50_ns :: u64
  ls_p90_ns :: u64
  ls_p99_ns :: u64
  ls_p999_ns :: u64
  ls_p9999_ns :: u64
  ls_max_ns :: u64
  ls_mean_ns :: ratio

definition LatencySummary_init :: LatencySummary where
  "LatencySummary_init = \<lparr>ls_count = 0, ls_min_ns = 0, ls_p50_ns = 0, ls_p90_ns = 0, ls_p99_ns = 0, ls_p999_ns = 0,
     ls_p9999_ns = 0, ls_max_ns = 0, ls_mean_ns = (0, 1)\<rparr>"

definition hist_mean :: "Histogram \<Rightarrow> ratio" where
  "hist_mean h = (if hg_total h \<noteq> 0 then (hg_sum h, hg_total h) else (0, 1))"

definition summarize :: "(nat \<Rightarrow> u64 \<Rightarrow> u64) \<Rightarrow> Histogram \<Rightarrow> LatencySummary" where
  "summarize rank_of h = \<lparr>ls_count = hist_count h, ls_min_ns = hist_min h, ls_p50_ns = quantile (rank_of 5000) h,
     ls_p90_ns = quantile (rank_of 9000) h, ls_p99_ns = quantile (rank_of 9900) h,
     ls_p999_ns = quantile (rank_of 9990) h, ls_p9999_ns = quantile (rank_of 9999) h,
     ls_max_ns = hist_max h, ls_mean_ns = hist_mean h\<rparr>"

record SubscriberSnapshot =
  sr_imsi :: u64
  sr_ul_bytes :: u64
  sr_dl_bytes :: u64
  sr_ul_packets :: u64
  sr_dl_packets :: u64
  sr_last_seen_ns :: u64
  sr_bucket_bytes :: "u64 list"
  sr_gy_reported_octets :: u64
  sr_bucket_ids :: "u32 list"
  sr_sub_idx :: u32
  sr_ul_teid :: u32
  sr_dl_teid :: u32
  sr_gy_reports :: u32
  sr_bucket_aggregated :: bool

text \<open>A row has its three buckets.\<close>

definition row_fits :: "SubscriberSnapshot \<Rightarrow> bool" where
  "row_fits r \<longleftrightarrow> length (sr_bucket_bytes r) = kBucketSlots \<and> length (sr_bucket_ids r) = kBucketSlots"

record PipelineSnapshot =
  ps_meter :: PipelineStats
  ps_ingest :: IngestStats
  ps_latency :: LatencySummary
  ps_publish_wall_ns :: u64
  ps_publish_mono_ns :: u64
  ps_uptime_ns :: u64
  ps_meter_ring_depth :: u64
  ps_meter_ring_capacity :: u64
  ps_gy_ring_depth :: u64
  ps_record_ring_depth :: u64
  ps_records_written :: u64
  ps_record_write_errors :: u64
  ps_teid_table_size :: u64
  ps_teid_table_capacity :: u64
  ps_meter_batches :: u64
  ps_meter_idle_polls :: u64
  ps_teid_probes_per_lookup :: ratio
  ps_teid_load_factor :: ratio

definition PipelineSnapshot_init :: PipelineSnapshot where
  "PipelineSnapshot_init = \<lparr>ps_meter = PipelineStats_init, ps_ingest = IngestStats_init, ps_latency = LatencySummary_init,
     ps_publish_wall_ns = 0, ps_publish_mono_ns = 0, ps_uptime_ns = 0, ps_meter_ring_depth = 0, ps_meter_ring_capacity = 0,
     ps_gy_ring_depth = 0, ps_record_ring_depth = 0, ps_records_written = 0, ps_record_write_errors = 0,
     ps_teid_table_size = 0, ps_teid_table_capacity = 0, ps_meter_batches = 0, ps_meter_idle_polls = 0,
     ps_teid_probes_per_lookup = (0, 1), ps_teid_load_factor = (0, 1)\<rparr>"

record DetailSnapshot =
  dt_subscribers :: "SubscriberSnapshot list"
  dt_top_flows :: "FlowEntry list"
  dt_publish_wall_ns :: u64
  dt_total_subscribers :: u64

definition DetailSnapshot_init :: DetailSnapshot where
  "DetailSnapshot_init = \<lparr>dt_subscribers = [], dt_top_flows = [], dt_publish_wall_ns = 0, dt_total_subscribers = 0\<rparr>"

record RuntimeConfig =
  rc_meter :: MeterConfig
  rc_ingest :: IngestConfig
  rc_meter_ring_size :: nat
  rc_gy_ring_size :: nat
  rc_record_ring_size :: nat
  rc_meter_batch :: nat
  rc_ingest_cpu :: int
  rc_meter_cpu :: int
  rc_reporter_cpu :: int
  rc_publish_interval_ns :: u64
  rc_latency_sample_every :: u32
  rc_measure_latency :: bool
  rc_busy_poll :: bool
  rc_snapshot_subscriber_limit :: nat
  rc_snapshot_flow_limit :: nat
  rc_snapshot_scan_budget :: nat
  rc_detail_demand_ttl_ns :: u64
  rc_records_path :: string

definition RuntimeConfig_init :: RuntimeConfig where
  "RuntimeConfig_init = \<lparr>rc_meter = MeterConfig_init, rc_ingest = IngestConfig_init, rc_meter_ring_size = 65536,
     rc_gy_ring_size = 4096, rc_record_ring_size = 16384, rc_meter_batch = 256, rc_ingest_cpu = -1, rc_meter_cpu = -1,
     rc_reporter_cpu = -1, rc_publish_interval_ns = 100000000, rc_latency_sample_every = 8, rc_measure_latency = True,
     rc_busy_poll = False, rc_snapshot_subscriber_limit = 4096, rc_snapshot_flow_limit = 64,
     rc_snapshot_scan_budget = 4096, rc_detail_demand_ttl_ns = 30000000000, rc_records_path = []\<rparr>"


end
