(* ===== verification/Detail_Scan.thy ===== *)
theory Detail_Scan
  imports Stats Snapshot Meter_Report Meter_Service
begin

text \<open>
  The rolling build of the per-subscriber and per-flow tables, \<^verbatim>\<open>Runtime::advance_detail_scan\<close> of
  \<^verbatim>\<open>src/meter_thread.cpp\<close>: at every publication tick it examines a bounded number of table entries,
  and commits the tables when a pass is complete.

  \<^verbatim>\<open>std::push_heap\<close>, \<^verbatim>\<open>std::pop_heap\<close>, \<^verbatim>\<open>std::sort\<close> and \<^verbatim>\<open>std::partial_sort\<close>, whose results the standard leaves
  open where elements compare equal, are the argument \<open>al\<close>, with the standard's contract \<open>algos_ok\<close>.

  The lemmas show how many ticks a pass takes, and what it publishes: a row for every active subscriber
  with traffic, or the busiest of them, and the busiest flows in descending order.
\<close>

subsection \<open>The scan\<close>

record scan_algos =
  al_push_heap :: "FlowEntry list \<Rightarrow> FlowEntry list"
  al_pop_heap :: "FlowEntry list \<Rightarrow> FlowEntry list"
  al_sort :: "FlowEntry list \<Rightarrow> FlowEntry list"
  al_partial_sort :: "nat \<Rightarrow> SubscriberSnapshot list \<Rightarrow> SubscriberSnapshot list"

text \<open>The members of \<^verbatim>\<open>Runtime\<close> that the scan works on; the buffer being built is its index.\<close>

record DetailScan =
  dc_detail :: "DetailSnapshot snapshot"
  dc_building :: "nat option"
  dc_sub_cursor :: nat
  dc_flow_cursor :: nat

definition DetailScan_init :: DetailScan where
  "DetailScan_init = \<lparr>dc_detail = Snapshot_new 4 DetailSnapshot_init, dc_building = None, dc_sub_cursor = 0, dc_flow_cursor = 0\<rparr>"

definition subscriber_row :: "nat \<Rightarrow> SubscriberInfo \<Rightarrow> SubscriberCounters \<Rightarrow> SubscriberSnapshot option" where
  "subscriber_row idx info c = do {
     b0 \<leftarrow> at_index (sc_bucket_bytes c) 0;
     b1 \<leftarrow> at_index (sc_bucket_bytes c) 1;
     b2 \<leftarrow> at_index (sc_bucket_bytes c) 2;
     i0 \<leftarrow> at_index (si_bucket_ids info) 0;
     i1 \<leftarrow> at_index (si_bucket_ids info) 1;
     i2 \<leftarrow> at_index (si_bucket_ids info) 2;
     Some \<lparr>sr_imsi = si_imsi info, sr_ul_bytes = sc_ul_bytes c, sr_dl_bytes = sc_dl_bytes c,
       sr_ul_packets = sc_ul_packets c, sr_dl_packets = sc_dl_packets c, sr_last_seen_ns = sc_last_seen_ns c,
       sr_bucket_bytes = [b0, b1, b2], sr_gy_reported_octets = si_gy_reported_octets info,
       sr_bucket_ids = [i0, i1, i2], sr_sub_idx = of_nat idx, sr_ul_teid = si_ul_teid info,
       sr_dl_teid = si_dl_teid info, sr_gy_reports = si_gy_reports info,
       sr_bucket_aggregated = si_bucket_aggregated info\<rparr> }"

definition scan_subscriber :: "MeterEngine \<Rightarrow> nat \<Rightarrow> SubscriberSnapshot list \<Rightarrow> SubscriberSnapshot list option" where
  "scan_subscriber e idx rows = do {
     info \<leftarrow> at_index (me_info e) idx;
     if \<not> si_active info then Some rows
     else do {
       c \<leftarrow> at_index (me_counters e) idx;
       if sc_total_packets c = 0 then Some rows
       else do { row \<leftarrow> subscriber_row idx info c; Some (rows @ [row]) } } }"

text \<open>The two loops, on the budget left, the cursor and the table built so far.\<close>

fun scan_subscribers :: "MeterEngine \<Rightarrow> nat \<Rightarrow> nat \<Rightarrow> SubscriberSnapshot list \<Rightarrow> (nat \<times> nat \<times> SubscriberSnapshot list) option" where
  "scan_subscribers e 0 cursor rows = Some (0, cursor, rows)"
| "scan_subscribers e (Suc budget) cursor rows = (
     if cursor < me_next_sub e then do {
       rows \<leftarrow> scan_subscriber e cursor rows;
       scan_subscribers e budget (cursor + 1) rows }
     else Some (Suc budget, cursor, rows))"

definition scan_flow :: "scan_algos \<Rightarrow> nat \<Rightarrow> FlowEntry \<Rightarrow> FlowEntry list \<Rightarrow> FlowEntry list option" where
  "scan_flow al flow_limit f flows = (
     if fl_key f = 0 then Some flows
     else if length flows < flow_limit then Some (al_push_heap al (flows @ [f]))
     else do {
       front \<leftarrow> at_index flows 0;
       if fl_bytes f > fl_bytes front then do {
         flows \<leftarrow> store_at (al_pop_heap al flows) (length flows - 1) f;
         Some (al_push_heap al flows) }
       else Some flows })"

fun scan_flows :: "scan_algos \<Rightarrow> nat \<Rightarrow> MeterEngine \<Rightarrow> nat \<Rightarrow> nat \<Rightarrow> FlowEntry list \<Rightarrow> (nat \<times> FlowEntry list) option" where
  "scan_flows al flow_limit e 0 cursor flows = Some (cursor, flows)"
| "scan_flows al flow_limit e (Suc budget) cursor flows = (
     if cursor < length (me_flows e) then do {
       f \<leftarrow> at_index (me_flows e) cursor;
       flows \<leftarrow> scan_flow al flow_limit f flows;
       scan_flows al flow_limit e budget (cursor + 1) flows }
     else Some (cursor, flows))"

text \<open>The start of a pass: nothing when every buffer is pinned.\<close>

definition scan_begin :: "u64 \<Rightarrow> DetailScan \<Rightarrow> DetailScan option" where
  "scan_begin publish_wall_ns s = (
     if dc_building s \<noteq> None then Some s
     else do {
       (idx, p) \<leftarrow> begin_write (dc_detail s);
       case idx of None \<Rightarrow> Some (s\<lparr>dc_detail := p\<rparr>)
       | Some i \<Rightarrow> do {
           d \<leftarrow> at_index (sp_value p) i;
           vs \<leftarrow> store_at (sp_value p) i (d\<lparr>dt_subscribers := [], dt_top_flows := [], dt_publish_wall_ns := publish_wall_ns\<rparr>);
           Some (s\<lparr>dc_detail := p\<lparr>sp_value := vs\<rparr>, dc_building := Some i, dc_sub_cursor := 0, dc_flow_cursor := 0\<rparr>) } })"

text \<open>The end of a pass: both tables are cut and sorted, and the buffer is committed.\<close>

definition scan_finish :: "scan_algos \<Rightarrow> RuntimeConfig \<Rightarrow> nat \<Rightarrow> DetailSnapshot \<Rightarrow> DetailSnapshot" where
  "scan_finish al cfg sub_count d = (
     let limit = rc_snapshot_subscriber_limit cfg;
         subs = (if length (dt_subscribers d) > limit then take limit (al_partial_sort al limit (dt_subscribers d))
                 else dt_subscribers d)
     in d\<lparr>dt_subscribers := subs, dt_top_flows := al_sort al (dt_top_flows d), dt_total_subscribers := of_nat sub_count\<rparr>)"

definition scan_slice :: "scan_algos \<Rightarrow> RuntimeConfig \<Rightarrow> MeterEngine \<Rightarrow> nat \<Rightarrow> DetailScan \<Rightarrow> DetailScan option" where
  "scan_slice al cfg e i s = do {
     d \<leftarrow> at_index (sp_value (dc_detail s)) i;
     (budget, sub_cursor, rows) \<leftarrow> scan_subscribers e (rc_snapshot_scan_budget cfg) (dc_sub_cursor s) (dt_subscribers d);
     (flow_cursor, flows) \<leftarrow> scan_flows al (rc_snapshot_flow_limit cfg) e budget (dc_flow_cursor s) (dt_top_flows d);
     let d = d\<lparr>dt_subscribers := rows, dt_top_flows := flows\<rparr>;
     let s = s\<lparr>dc_sub_cursor := sub_cursor, dc_flow_cursor := flow_cursor\<rparr>;
     if sub_cursor < me_next_sub e \<or> flow_cursor < length (me_flows e) then do {
       vs \<leftarrow> store_at (sp_value (dc_detail s)) i d;
       Some (s\<lparr>dc_detail := (dc_detail s)\<lparr>sp_value := vs\<rparr>\<rparr>) }
     else do {
       vs \<leftarrow> store_at (sp_value (dc_detail s)) i (scan_finish al cfg (me_next_sub e) d);
       p \<leftarrow> commit ((dc_detail s)\<lparr>sp_value := vs\<rparr>);
       Some (s\<lparr>dc_detail := p, dc_building := None\<rparr>) } }"

definition advance_detail_scan :: "scan_algos \<Rightarrow> RuntimeConfig \<Rightarrow> MeterEngine \<Rightarrow> u64 \<Rightarrow> DetailScan \<Rightarrow> DetailScan option" where
  "advance_detail_scan al cfg e publish_wall_ns s = do {
     s \<leftarrow> scan_begin publish_wall_ns s;
     case dc_building s of None \<Rightarrow> Some s | Some i \<Rightarrow> scan_slice al cfg e i s }"

subsection \<open>The standard's algorithms\<close>

definition is_heap :: "FlowEntry list \<Rightarrow> bool" where
  "is_heap xs \<longleftrightarrow> (\<forall>i < length xs. 0 < i \<longrightarrow> fl_bytes (xs ! ((i - 1) div 2)) \<le> fl_bytes (xs ! i))"

definition row_total :: "SubscriberSnapshot \<Rightarrow> u64" where
  "row_total r = sr_ul_bytes r + sr_dl_bytes r"

definition algos_ok :: "scan_algos \<Rightarrow> bool" where
  "algos_ok al \<longleftrightarrow>
     (\<forall>xs x. is_heap xs \<longrightarrow> is_heap (al_push_heap al (xs @ [x])) \<and> mset (al_push_heap al (xs @ [x])) = mset (xs @ [x])) \<and>
     (\<forall>xs. is_heap xs \<and> xs \<noteq> [] \<longrightarrow> is_heap (butlast (al_pop_heap al xs)) \<and> last (al_pop_heap al xs) = hd xs \<and>
        mset (al_pop_heap al xs) = mset xs) \<and>
     sorts_flows (al_sort al) \<and>
     (\<forall>n xs. n \<le> length xs \<longrightarrow> mset (al_partial_sort al n xs) = mset xs \<and>
        sorted_wrt (\<lambda>a b. row_total b \<le> row_total a) (take n (al_partial_sort al n xs)) \<and>
        (\<forall>a \<in> set (take n (al_partial_sort al n xs)). \<forall>b \<in> set (drop n (al_partial_sort al n xs)). row_total b \<le> row_total a))"

lemma algos_okD:
  assumes "algos_ok al"
  shows "is_heap xs \<Longrightarrow> is_heap (al_push_heap al (xs @ [x]))" "is_heap xs \<Longrightarrow> mset (al_push_heap al (xs @ [x])) = mset (xs @ [x])"
    and "is_heap xs \<Longrightarrow> xs \<noteq> [] \<Longrightarrow> is_heap (butlast (al_pop_heap al xs))"
    and "is_heap xs \<Longrightarrow> xs \<noteq> [] \<Longrightarrow> last (al_pop_heap al xs) = hd xs" "is_heap xs \<Longrightarrow> xs \<noteq> [] \<Longrightarrow> mset (al_pop_heap al xs) = mset xs"
    and "sorts_flows (al_sort al)"
  using assms by (simp_all add: algos_ok_def)

lemma heap_least:
  assumes "is_heap xs" "x \<in> set xs"
  shows "fl_bytes (hd xs) \<le> fl_bytes x"
proof -
  have "i < length xs \<Longrightarrow> fl_bytes (xs ! 0) \<le> fl_bytes (xs ! i)" for i
  proof (induction i rule: less_induct)
    case (less i)
    show ?case
    proof (cases "i = 0")
      case False
      then have p: "(i - 1) div 2 < i" by simp
      then have "fl_bytes (xs ! 0) \<le> fl_bytes (xs ! ((i - 1) div 2))" using less by simp
      also have "\<dots> \<le> fl_bytes (xs ! i)" using assms(1) False less.prems by (simp add: is_heap_def)
      finally show ?thesis .
    qed simp
  qed
  moreover have "hd xs = xs ! 0" using assms(2) by (intro hd_conv_nth) auto
  ultimately show ?thesis using assms(2) by (auto simp: in_set_conv_nth)
qed

text \<open>The table of flows during a pass: a heap of the busiest flows of those examined.\<close>

definition heap_ok :: "nat \<Rightarrow> FlowEntry list \<Rightarrow> FlowEntry list \<Rightarrow> bool" where
  "heap_ok n fs flows \<longleftrightarrow> busiest n fs flows \<and> is_heap flows"

lemma busiest_cong: "mset out = mset out' \<Longrightarrow> busiest n fs out \<longleftrightarrow> busiest n fs out'"
  unfolding busiest_def by (metis mset_eq_length mset_eq_setD)

lemma busiest_replace:
  assumes b: "busiest n fs (x # out)" and x: "\<forall>y \<in> set out. busier y x" and f: "fl_bytes x < fl_bytes f"
    and len: "length (x # out) = n"
  shows "busiest n (fs @ [f]) (f # out)"
proof -
  obtain rest where r: "mset fs = mset (x # out) + mset rest" "\<forall>r\<in>set rest. \<forall>g\<in>set (x # out). busier g r"
    using b by (auto simp: busiest_def)
  have "mset (fs @ [f]) = mset (f # out) + mset (x # rest)" using r(1) by simp
  moreover have "\<forall>r\<in>set (x # rest). \<forall>g\<in>set (f # out). busier g r"
    using r(2) x f by (auto simp: busier_def dest: order_le_less_trans [THEN less_imp_le])
  moreover have "length (f # out) = min n (length (fs @ [f]))" using b len by (auto simp: busiest_def)
  ultimately show ?thesis unfolding busiest_def by blast
qed

lemma busiest_skip:
  assumes "busiest n fs out" "\<forall>y \<in> set out. busier y f" "length out = n"
  shows "busiest n (fs @ [f]) out"
proof -
  obtain rest where r: "mset fs = mset out + mset rest" "\<forall>r\<in>set rest. \<forall>g\<in>set out. busier g r" and l: "length out = min n (length fs)"
    using assms(1) by (auto simp: busiest_def)
  have "mset (fs @ [f]) = mset out + mset (rest @ [f])" using r(1) by simp
  moreover have "\<forall>x\<in>set (rest @ [f]). \<forall>g\<in>set out. busier g x" using r(2) assms(2) by auto
  moreover have "length out = min n (length (fs @ [f]))" using l assms(3) by simp
  ultimately show ?thesis unfolding busiest_def by blast
qed

lemma busiest_grow:
  assumes "busiest n fs out" "length out < n"
  shows "busiest n (fs @ [f]) (out @ [f])"
proof -
  obtain rest where r: "mset fs = mset out + mset rest" "length out = min n (length fs)" using assms(1) by (auto simp: busiest_def)
  have "length fs = length out + length rest" using arg_cong [OF r(1), of size] by simp
  then have "rest = []" using assms(2) r(2) by simp
  then show ?thesis using r assms(2) by (intro busiest_all) simp_all
qed

lemma scan_flow_ok:
  assumes al: "algos_ok al" and n: "0 < n" and ok: "heap_ok n fs flows"
  shows "\<exists>flows'. scan_flow al n f flows = Some flows' \<and> heap_ok n (fs @ live_flows [f]) flows'"
proof (cases "fl_key f = 0")
  case True
  then show ?thesis using ok by (simp add: scan_flow_def live_flows_def)
next
  case key: False
  have h: "is_heap flows" and b: "busiest n fs flows" using ok by (simp_all add: heap_ok_def)
  show ?thesis
  proof (cases "length flows < n")
    case True
    have "busiest n (fs @ [f]) (al_push_heap al (flows @ [f]))"
      using busiest_grow [OF b True] busiest_cong [OF algos_okD(2) [OF al h]] by blast
    then show ?thesis using key True algos_okD(1) [OF al h] by (simp add: scan_flow_def live_flows_def heap_ok_def)
  next
    case False
    then have len: "length flows = n" using b by (auto simp: busiest_def)
    then have ne: "flows \<noteq> []" using n by auto
    have front: "at_index flows 0 = Some (hd flows)" using ne by (simp add: at_index_def hd_conv_nth)
    show ?thesis
    proof (cases "fl_bytes (hd flows) < fl_bytes f")
      case True
      define qs where "qs = al_pop_heap al flows"
      note pop = algos_okD(3-5) [OF al h ne, folded qs_def]
      have lq: "length qs = n" using mset_eq_length [OF pop(3)] len by simp
      then have qne: "qs \<noteq> []" using n by auto
      have st: "store_at qs (length flows - 1) f = Some (butlast qs @ [f])"
        using lq len qne n by (simp add: store_at_def list_update_append1 butlast_conv_take upd_conv_take_nth_drop)
      have "mset qs = mset (butlast qs @ [last qs])" unfolding append_butlast_last_id [OF qne] ..
      then have ms: "mset flows = mset (hd flows # butlast qs)" using pop(2,3) by simp
      then have "busiest n fs (hd flows # butlast qs)" using b busiest_cong by blast
      moreover have "\<forall>y \<in> set (butlast qs). busier y (hd flows)"
        using heap_least [OF h] mset_eq_setD [OF ms] by (auto simp: busier_def)
      moreover have "length (hd flows # butlast qs) = n" using lq n by simp
      ultimately have "busiest n (fs @ [f]) (f # butlast qs)" using busiest_replace True by blast
      then have "busiest n (fs @ [f]) (al_push_heap al (butlast qs @ [f]))"
        using busiest_cong [of "al_push_heap al (butlast qs @ [f])" "f # butlast qs"] algos_okD(2) [OF al pop(1)] by simp
      then show ?thesis using key False True front st algos_okD(1) [OF al pop(1)]
        by (simp add: scan_flow_def live_flows_def heap_ok_def qs_def)
    next
      case small: False
      have "\<forall>y \<in> set flows. busier y f" using heap_least [OF h] small by (auto simp: busier_def not_less intro: order_trans)
      then have "busiest n (fs @ [f]) flows" using busiest_skip [OF b _ len] by blast
      then show ?thesis using key False small front h by (simp add: scan_flow_def live_flows_def heap_ok_def)
    qed
  qed
qed

subsection \<open>A slice of a pass\<close>

text \<open>What a pass must collect of subscriber \<open>idx\<close>.\<close>

definition rows_of :: "MeterEngine \<Rightarrow> nat \<Rightarrow> SubscriberSnapshot list" where
  "rows_of e idx = (
     if si_active (me_info e ! idx) \<and> sc_total_packets (me_counters e ! idx) \<noteq> 0
     then [the (subscriber_row idx (me_info e ! idx) (me_counters e ! idx))] else [])"

lemma scan_subscriber_rows:
  assumes "me_wf e" "idx < me_next_sub e"
  shows "scan_subscriber e idx rows = Some (rows @ rows_of e idx)"
proof -
  have sz: "wf_sizes e" using assms(1) by (simp add: me_wf_def)
  have l: "idx < length (me_counters e)" "idx < length (me_info e)" using assms(2) wf_sizesD(1,3) [OF sz] by simp_all
  have w: "wf_counters (me_counters e ! idx)" "wf_info (me_info e ! idx)" using wf_sizesD(5,6) [OF sz l(1)] by simp_all
  have "\<exists>row. subscriber_row idx (me_info e ! idx) (me_counters e ! idx) = Some row"
    using w by (simp add: subscriber_row_def span_simps wf_counters_def wf_info_def)
  then show ?thesis using l by (auto simp: scan_subscriber_def rows_of_def span_simps)
qed

lemma scan_subscribers_rows:
  assumes "me_wf e"
  shows "scan_subscribers e b cur rows = (let n = min b (me_next_sub e - cur) in
    Some (b - n, cur + n, rows @ concat (List.map (rows_of e) [cur..<cur + n])))"
proof (induction b arbitrary: cur rows)
  case (Suc b)
  show ?case
  proof (cases "cur < me_next_sub e")
    case True
    define n where "n = min b (me_next_sub e - Suc cur)"
    have n: "min (Suc b) (me_next_sub e - cur) = Suc n" using True by (simp add: n_def)
    have "[cur..<cur + Suc n] = cur # [cur + 1..<cur + 1 + n]" by (simp add: upt_conv_Cons del: upt_Suc)
    then show ?thesis
      using True Suc.IH [of "cur + 1" "rows @ rows_of e cur"] scan_subscriber_rows [OF assms True, of rows]
      unfolding n by (simp add: n_def [symmetric] Let_def del: upt_Suc)
  qed simp
qed simp

lemma scan_flows_ok:
  assumes al: "algos_ok al" and n: "0 < limit" and ok: "heap_ok limit (live_flows (take cur (me_flows e))) flows"
  shows "\<exists>flows'. scan_flows al limit e b cur flows = Some (cur + min b (length (me_flows e) - cur), flows') \<and>
    heap_ok limit (live_flows (take (cur + min b (length (me_flows e) - cur)) (me_flows e))) flows'"
  using ok
proof (induction b arbitrary: cur flows)
  case (Suc b)
  show ?case
  proof (cases "cur < length (me_flows e)")
    case True
    have "live_flows (take (cur + 1) (me_flows e)) = live_flows (take cur (me_flows e)) @ live_flows [me_flows e ! cur]"
      using True by (simp add: take_Suc_conv_app_nth live_flows_def)
    then obtain fl where fl: "scan_flow al limit (me_flows e ! cur) flows = Some fl" "heap_ok limit (live_flows (take (cur + 1) (me_flows e))) fl"
      using scan_flow_ok [OF al n Suc.prems] by metis
    define m where "m = min b (length (me_flows e) - Suc cur)"
    have m: "cur + min (Suc b) (length (me_flows e) - cur) = cur + 1 + m" using True by (simp add: m_def)
    show ?thesis unfolding m using Suc.IH [OF fl(2)] fl(1) True by (simp add: span_simps m_def)
  next
    case False
    then show ?thesis using Suc.prems by simp
  qed
qed simp

text \<open>
  The number of entries a pass examines, and its state after \<open>pos\<close> of them: the subscribers come first.
\<close>

definition pass_size :: "MeterEngine \<Rightarrow> nat" where
  "pass_size e = me_next_sub e + length (me_flows e)"

definition collected :: "RuntimeConfig \<Rightarrow> MeterEngine \<Rightarrow> nat \<Rightarrow> DetailSnapshot \<Rightarrow> bool" where
  "collected cfg e pos d \<longleftrightarrow>
     dt_subscribers d = concat (List.map (rows_of e) [0..<min pos (me_next_sub e)]) \<and>
     heap_ok (rc_snapshot_flow_limit cfg) (live_flows (take (pos - me_next_sub e) (me_flows e))) (dt_top_flows d)"

definition publisher_ok :: "'a snapshot \<Rightarrow> bool" where
  "publisher_ok p \<longleftrightarrow> length (sp_refs p) = slot_count p \<and> 0 < slot_count p"

definition in_pass :: "RuntimeConfig \<Rightarrow> MeterEngine \<Rightarrow> nat \<Rightarrow> nat \<Rightarrow> u64 \<Rightarrow> DetailScan \<Rightarrow> bool" where
  "in_pass cfg e i pos wall s \<longleftrightarrow> dc_building s = Some i \<and> publisher_ok (dc_detail s) \<and> i < slot_count (dc_detail s) \<and>
     sp_writing (dc_detail s) = int i \<and> pos \<le> pass_size e \<and>
     dc_sub_cursor s = min pos (me_next_sub e) \<and> dc_flow_cursor s = pos - me_next_sub e \<and>
     collected cfg e pos (sp_value (dc_detail s) ! i) \<and> dt_publish_wall_ns (sp_value (dc_detail s) ! i) = wall"

definition pass_done :: "scan_algos \<Rightarrow> RuntimeConfig \<Rightarrow> MeterEngine \<Rightarrow> nat \<Rightarrow> u64 \<Rightarrow> u64 \<Rightarrow> DetailScan \<Rightarrow> bool" where
  "pass_done al cfg e i version wall s \<longleftrightarrow> dc_building s = None \<and> sp_current (dc_detail s) = int i \<and>
     sp_version (dc_detail s) = version + 1 \<and>
     (\<exists>d. collected cfg e (pass_size e) d \<and> dt_publish_wall_ns d = wall \<and>
       sp_value (dc_detail s) ! i = scan_finish al cfg (me_next_sub e) d)"

lemma scan_slice_step:
  assumes al: "algos_ok al" and n: "0 < rc_snapshot_flow_limit cfg" and wf: "me_wf e" and s: "in_pass cfg e i pos wall s"
  shows "\<exists>s'. scan_slice al cfg e i s = Some s' \<and>
    (if pos + rc_snapshot_scan_budget cfg < pass_size e
     then in_pass cfg e i (pos + rc_snapshot_scan_budget cfg) wall s' \<and> sp_current (dc_detail s') = sp_current (dc_detail s) \<and>
       sp_version (dc_detail s') = sp_version (dc_detail s)
     else pass_done al cfg e i (sp_version (dc_detail s)) wall s')"
proof -
  define b subs flows where "b = rc_snapshot_scan_budget cfg" and "subs = me_next_sub e" and "flows = length (me_flows e)"
  define sc fc m where "sc = dc_sub_cursor s" and "fc = dc_flow_cursor s" and "m = min b (subs - sc)"
  define d pos' where "d = sp_value (dc_detail s) ! i" and "pos' = min (pos + b) (pass_size e)"
  have S: "dc_building s = Some i" "publisher_ok (dc_detail s)" "i < slot_count (dc_detail s)" "sp_writing (dc_detail s) = int i"
      "pos \<le> pass_size e" "sc = min pos subs" "fc = pos - subs" "collected cfg e pos d" "dt_publish_wall_ns d = wall"
    using s by (simp_all add: in_pass_def sc_def fc_def d_def subs_def)
  have size: "pass_size e = subs + flows" by (simp add: pass_size_def subs_def flows_def)
  have cur: "sc + m = min pos' subs" "fc + min (b - m) (flows - fc) = pos' - subs"
    using S(5-7) unfolding m_def pos'_def size by linarith+
  have rows: "scan_subscribers e b sc (dt_subscribers d) = Some (b - m, min pos' subs, concat (List.map (rows_of e) [0..<min pos' subs]))"
  proof -
    have "[0..<sc + m] = [0..<sc] @ [sc..<sc + m]" by (simp add: upt_add_eq_append [of 0 sc])
    moreover have "dt_subscribers d = concat (List.map (rows_of e) [0..<sc])" using S(6,8) by (simp add: collected_def subs_def)
    ultimately show ?thesis
      using scan_subscribers_rows [OF wf, of b sc "dt_subscribers d"] by (simp add: m_def [symmetric] subs_def [symmetric] Let_def flip: cur(1))
  qed
  have "heap_ok (rc_snapshot_flow_limit cfg) (live_flows (take fc (me_flows e))) (dt_top_flows d)"
    using S(7,8) by (simp add: collected_def subs_def)
  from scan_flows_ok [OF al n this, of "b - m"] obtain top' where
    top: "scan_flows al (rc_snapshot_flow_limit cfg) e (b - m) fc (dt_top_flows d) = Some (pos' - subs, top')"
      "heap_ok (rc_snapshot_flow_limit cfg) (live_flows (take (pos' - subs) (me_flows e))) top'"
    unfolding flows_def [symmetric] cur(2) by blast
  define d' where "d' = d\<lparr>dt_subscribers := concat (List.map (rows_of e) [0..<min pos' subs]), dt_top_flows := top'\<rparr>"
  have col: "collected cfg e pos' d'" "dt_publish_wall_ns d' = wall"
    using top(2) S(9) by (simp_all add: collected_def d'_def subs_def)
  have more: "min pos' subs < subs \<or> pos' - subs < flows \<longleftrightarrow> pos + b < pass_size e"
    using S(5) unfolding pos'_def size by linarith
  have len: "i < length (sp_value (dc_detail s))" "i < length (sp_refs (dc_detail s))"
    using S(2,3) by (simp_all add: publisher_ok_def slot_count_def)
  show ?thesis
  proof (cases "pos + b < pass_size e")
    case True
    then have p: "pos' = pos + b" by (simp add: pos'_def)
    let ?s = "s\<lparr>dc_sub_cursor := min pos' subs, dc_flow_cursor := pos' - subs,
        dc_detail := (dc_detail s)\<lparr>sp_value := (sp_value (dc_detail s))[i := d']\<rparr>\<rparr>"
    have "scan_slice al cfg e i s = Some ?s"
      using rows top(1) more True len unfolding scan_slice_def
      by (simp add: span_simps d_def [symmetric] b_def [symmetric] sc_def [symmetric] fc_def [symmetric] subs_def [symmetric] flows_def [symmetric] d'_def)
    moreover have "in_pass cfg e i pos' wall ?s"
      using S(1-4) col len True by (simp add: in_pass_def publisher_ok_def slot_count_def p [symmetric] subs_def)
    ultimately show ?thesis using True p by (simp add: b_def)
  next
    case False
    then have p: "pos' = pass_size e" by (simp add: pos'_def)
    let ?p = "(dc_detail s)\<lparr>sp_value := (sp_value (dc_detail s))[i := scan_finish al cfg subs d'], sp_refs := (sp_refs (dc_detail s))[i := 0],
        sp_current := int i, sp_version := sp_version (dc_detail s) + 1, sp_writing := -1\<rparr>"
    have "commit ((dc_detail s)\<lparr>sp_value := (sp_value (dc_detail s))[i := scan_finish al cfg subs d']\<rparr>) = Some ?p"
      using S(4) len by (simp add: commit_def span_simps)
    then have "scan_slice al cfg e i s = Some (s\<lparr>dc_sub_cursor := min pos' subs, dc_flow_cursor := pos' - subs, dc_detail := ?p, dc_building := None\<rparr>)"
      using rows top(1) more False len unfolding scan_slice_def
      by (simp add: span_simps d_def [symmetric] b_def [symmetric] sc_def [symmetric] fc_def [symmetric] subs_def [symmetric] flows_def [symmetric] d'_def)
    moreover have "pass_done al cfg e i (sp_version (dc_detail s)) wall (s\<lparr>dc_sub_cursor := min pos' subs, dc_flow_cursor := pos' - subs, dc_detail := ?p, dc_building := None\<rparr>)"
      using col len by (auto simp: pass_done_def p subs_def)
    ultimately show ?thesis using False by (simp add: b_def)
  qed
qed

subsection \<open>Passes\<close>

fun scan_ticks :: "scan_algos \<Rightarrow> RuntimeConfig \<Rightarrow> MeterEngine \<Rightarrow> u64 list \<Rightarrow> DetailScan \<Rightarrow> DetailScan option" where
  "scan_ticks al cfg e [] s = Some s"
| "scan_ticks al cfg e (w # ws) s = do { s \<leftarrow> advance_detail_scan al cfg e w s; scan_ticks al cfg e ws s }"

lemma advance_in_pass: "in_pass cfg e i pos wall s \<Longrightarrow> advance_detail_scan al cfg e w s = scan_slice al cfg e i s"
  by (simp add: advance_detail_scan_def scan_begin_def in_pass_def)

lemma in_pass_ticks:
  assumes al: "algos_ok al" "0 < rc_snapshot_flow_limit cfg" "me_wf e" and s: "in_pass cfg e i pos wall s"
    and less: "pos + length ws * rc_snapshot_scan_budget cfg < pass_size e"
  shows "\<exists>s'. scan_ticks al cfg e ws s = Some s' \<and> in_pass cfg e i (pos + length ws * rc_snapshot_scan_budget cfg) wall s' \<and>
    sp_current (dc_detail s') = sp_current (dc_detail s) \<and> sp_version (dc_detail s') = sp_version (dc_detail s)"
  using s less
proof (induction ws arbitrary: pos s)
  case (Cons w ws)
  let ?b = "rc_snapshot_scan_budget cfg"
  have "pos + ?b < pass_size e" using Cons.prems(2) by simp
  then obtain s1 where s1: "scan_slice al cfg e i s = Some s1" "in_pass cfg e i (pos + ?b) wall s1"
      "sp_current (dc_detail s1) = sp_current (dc_detail s)" "sp_version (dc_detail s1) = sp_version (dc_detail s)"
    using scan_slice_step [OF al Cons.prems(1)] by auto
  have "pos + ?b + length ws * ?b < pass_size e" using Cons.prems(2) by simp
  from Cons.IH [OF s1(2) this] show ?case using s1 advance_in_pass [OF Cons.prems(1)] by (auto simp: add.assoc)
qed simp

lemma scan_ticks_append: "scan_ticks al cfg e (xs @ ys) s = do { s \<leftarrow> scan_ticks al cfg e xs s; scan_ticks al cfg e ys s }"
  by (induction xs arbitrary: s) (auto split: bind_splits)

definition pass_ticks :: "RuntimeConfig \<Rightarrow> MeterEngine \<Rightarrow> nat" where
  "pass_ticks cfg e = max 1 ((pass_size e + rc_snapshot_scan_budget cfg - 1) div rc_snapshot_scan_budget cfg)"

lemma pass_ticks_bounds:
  assumes "0 < rc_snapshot_scan_budget cfg"
  shows "0 < pass_ticks cfg e" "k < pass_ticks cfg e \<Longrightarrow> 0 < k \<Longrightarrow> k * rc_snapshot_scan_budget cfg < pass_size e"
    "pass_size e \<le> pass_ticks cfg e * rc_snapshot_scan_budget cfg"
proof -
  let ?b = "rc_snapshot_scan_budget cfg"
  let ?q = "(pass_size e + ?b - 1) div ?b"
  show "0 < pass_ticks cfg e" by (simp add: pass_ticks_def)
  show "k * ?b < pass_size e" if "k < pass_ticks cfg e" "0 < k"
  proof -
    have "Suc k \<le> ?q" using that by (auto simp: pass_ticks_def)
    then have "Suc k * ?b \<le> pass_size e + ?b - 1" using assms by (simp add: less_eq_div_iff_mult_less_eq)
    then show ?thesis using assms by simp
  qed
  have "pass_size e + ?b - 1 < Suc ?q * ?b" using dividend_less_div_times [OF assms, of "pass_size e + ?b - 1"] by simp
  then have "pass_size e \<le> ?q * ?b" by simp
  also have "\<dots> \<le> pass_ticks cfg e * ?b" by (simp add: pass_ticks_def)
  finally show "pass_size e \<le> pass_ticks cfg e * ?b" .
qed

text \<open>The first tick claims a buffer and works off a slice at once.\<close>

lemma scan_begin_pass:
  assumes "dc_building s = None" "publisher_ok (dc_detail s)" "begin_write (dc_detail s) = Some (Some i, p)"
  shows "\<exists>s1. scan_begin wall s = Some s1 \<and> in_pass cfg e i 0 wall s1 \<and>
    sp_current (dc_detail s1) = sp_current (dc_detail s) \<and> sp_version (dc_detail s1) = sp_version (dc_detail s)"
proof -
  have p: "p = claim i (dc_detail s)" "i < slot_count (dc_detail s)"
    using begin_write_result [of "dc_detail s"] assms(2,3) by (auto simp: publisher_ok_def)
  have "heap_ok n (live_flows []) []" for n by (simp add: heap_ok_def busiest_def live_flows_def is_heap_def)
  then show ?thesis using assms p
    by (simp add: scan_begin_def span_simps in_pass_def collected_def publisher_ok_def slot_count_def claim_def)
qed

lemma pass_from_start:
  assumes al: "algos_ok al" "0 < rc_snapshot_flow_limit cfg" "me_wf e" and b: "0 < rc_snapshot_scan_budget cfg"
    and s: "dc_building s = None" "publisher_ok (dc_detail s)" "begin_write (dc_detail s) = Some (Some i, p)"
    and ws: "length ws < pass_ticks cfg e" "ws \<noteq> []"
  shows "\<exists>s'. scan_ticks al cfg e ws s = Some s' \<and> in_pass cfg e i (length ws * rc_snapshot_scan_budget cfg) (hd ws) s' \<and>
    sp_current (dc_detail s') = sp_current (dc_detail s) \<and> sp_version (dc_detail s') = sp_version (dc_detail s)"
proof -
  let ?b = "rc_snapshot_scan_budget cfg"
  obtain w us where w: "ws = w # us" using ws(2) by (cases ws) auto
  obtain s1 where s1: "scan_begin w s = Some s1" "in_pass cfg e i 0 w s1"
      "sp_current (dc_detail s1) = sp_current (dc_detail s)" "sp_version (dc_detail s1) = sp_version (dc_detail s)"
    using scan_begin_pass [OF s] by blast
  have "length ws * ?b < pass_size e" using pass_ticks_bounds(2) [OF b ws(1)] w by simp
  then have "0 + length ws * ?b < pass_size e" by simp
  from in_pass_ticks [OF al s1(2) this] obtain s' where
    s': "scan_ticks al cfg e ws s1 = Some s'" "in_pass cfg e i (length ws * ?b) w s'"
      "sp_current (dc_detail s') = sp_current (dc_detail s1)" "sp_version (dc_detail s') = sp_version (dc_detail s1)" by auto
  have "scan_ticks al cfg e ws s = scan_ticks al cfg e ws s1"
    using s1(1,2) by (simp add: w advance_detail_scan_def) (simp add: in_pass_def scan_begin_def)
  then show ?thesis using s' s1(3,4) w by simp
qed

lemma pass_complete:
  assumes al: "algos_ok al" "0 < rc_snapshot_flow_limit cfg" "me_wf e" and b: "0 < rc_snapshot_scan_budget cfg"
    and s: "dc_building s = None" "publisher_ok (dc_detail s)" "begin_write (dc_detail s) = Some (Some i, p)"
    and ws: "length ws = pass_ticks cfg e"
  shows "\<exists>s'. scan_ticks al cfg e ws s = Some s' \<and> pass_done al cfg e i (sp_version (dc_detail s)) (hd ws) s'"
proof -
  let ?b = "rc_snapshot_scan_budget cfg"
  obtain us w where w: "ws = us @ [w]" using ws pass_ticks_bounds(1) [OF b, of e] by (cases ws rule: rev_cases) auto
  have ge: "pass_size e \<le> length us * ?b + ?b" using pass_ticks_bounds(3) [OF b, of e] by (simp add: ws [symmetric] w)
  have "\<exists>s1 s2. scan_ticks al cfg e us s = Some s1 \<and> scan_begin w s1 = Some s2 \<and> in_pass cfg e i (length us * ?b) (hd ws) s2 \<and>
      sp_version (dc_detail s2) = sp_version (dc_detail s)"
  proof (cases "us = []")
    case True
    then show ?thesis using scan_begin_pass [OF s, of w cfg e] w by auto
  next
    case False
    have "length us < pass_ticks cfg e" using ws w by simp
    from pass_from_start [OF al b s this False] obtain s1 where
      s1: "scan_ticks al cfg e us s = Some s1" "in_pass cfg e i (length us * ?b) (hd us) s1" "sp_version (dc_detail s1) = sp_version (dc_detail s)"
      by blast
    then show ?thesis using w False by (auto simp: scan_begin_def in_pass_def)
  qed
  then obtain s1 s2 where s2: "scan_ticks al cfg e us s = Some s1" "scan_begin w s1 = Some s2"
      "in_pass cfg e i (length us * ?b) (hd ws) s2" "sp_version (dc_detail s2) = sp_version (dc_detail s)" by blast
  have "dc_building s2 = Some i" using s2(3) by (simp add: in_pass_def)
  moreover obtain s3 where "scan_slice al cfg e i s2 = Some s3" "pass_done al cfg e i (sp_version (dc_detail s2)) (hd ws) s3"
    using scan_slice_step [OF al s2(3)] ge by (auto simp: not_less)
  ultimately show ?thesis using s2 by (simp add: w scan_ticks_append advance_detail_scan_def)
qed

subsection \<open>What a pass publishes\<close>

definition all_rows :: "MeterEngine \<Rightarrow> SubscriberSnapshot list" where
  "all_rows e = concat (List.map (rows_of e) [0..<me_next_sub e])"

text \<open>\<open>out\<close> holds all of \<open>rows\<close> in their order, or \<open>n\<close> that none of the rest beats.\<close>

definition published_rows :: "nat \<Rightarrow> SubscriberSnapshot list \<Rightarrow> SubscriberSnapshot list \<Rightarrow> bool" where
  "published_rows n rows out \<longleftrightarrow> (
     if length rows \<le> n then out = rows
     else length out = n \<and> sorted_wrt (\<lambda>a b. row_total b \<le> row_total a) out \<and>
       (\<exists>rest. mset rows = mset out + mset rest \<and> (\<forall>a \<in> set out. \<forall>b \<in> set rest. row_total b \<le> row_total a)))"

lemma partial_sort_rows:
  assumes "algos_ok al" "n < length rows"
  shows "published_rows n rows (take n (al_partial_sort al n rows))"
proof -
  let ?ys = "al_partial_sort al n rows"
  have p: "mset ?ys = mset rows" "sorted_wrt (\<lambda>a b. row_total b \<le> row_total a) (take n ?ys)"
      "\<forall>a \<in> set (take n ?ys). \<forall>b \<in> set (drop n ?ys). row_total b \<le> row_total a"
    using assms(1) less_imp_le [OF assms(2)] unfolding algos_ok_def by blast+
  have "mset rows = mset (take n ?ys) + mset (drop n ?ys)" using p(1) by (metis append_take_drop_id mset_append)
  then show ?thesis using p(2,3) assms(2) mset_eq_length [OF p(1)] by (auto simp: published_rows_def)
qed

lemma scan_finish_tables:
  assumes "algos_ok al" "collected cfg e (pass_size e) d"
  shows "published_rows (rc_snapshot_subscriber_limit cfg) (all_rows e) (dt_subscribers (scan_finish al cfg n d))"
    and "busiest (rc_snapshot_flow_limit cfg) (live_flows (me_flows e)) (dt_top_flows (scan_finish al cfg n d))"
    and "sorted_wrt busier (dt_top_flows (scan_finish al cfg n d))"
proof -
  have c: "dt_subscribers d = all_rows e" "busiest (rc_snapshot_flow_limit cfg) (live_flows (me_flows e)) (dt_top_flows d)"
    using assms(2) by (simp_all add: collected_def all_rows_def pass_size_def min_def heap_ok_def)
  show "published_rows (rc_snapshot_subscriber_limit cfg) (all_rows e) (dt_subscribers (scan_finish al cfg n d))"
    using partial_sort_rows [OF assms(1), of "rc_snapshot_subscriber_limit cfg" "all_rows e"] c(1)
    by (auto simp: scan_finish_def Let_def) (auto simp: published_rows_def)
  show "busiest (rc_snapshot_flow_limit cfg) (live_flows (me_flows e)) (dt_top_flows (scan_finish al cfg n d))"
    using c(2) busiest_cong [OF sorts_flowsD(1) [OF algos_okD(6) [OF assms(1)]]] by (simp add: scan_finish_def Let_def)
  show "sorted_wrt busier (dt_top_flows (scan_finish al cfg n d))"
    using sorts_flowsD(2) [OF algos_okD(6) [OF assms(1)]] by (simp add: scan_finish_def Let_def)
qed

text \<open>
  C14: The detail tables are complete and built in bounded slices. While the engine does not change, a pass
  that can claim a buffer takes exactly as many ticks as the scan budget needs for all subscribers and
  flow slots, at least one. Before the last tick the table published is still the old one. After it the
  claimed buffer is published, with the time of the first tick: a row for every active subscriber
  with traffic, in index order, or the busiest of them in descending order when there are more
  than the limit; and the busiest live flows, as many as the limit, in descending order of bytes.
\<close>

theorem detail_pass:
  assumes al: "algos_ok al" and cfg: "0 < rc_snapshot_flow_limit cfg" "0 < rc_snapshot_scan_budget cfg" and wf: "me_wf e"
    and s: "dc_building s = None" "publisher_ok (dc_detail s)" "begin_write (dc_detail s) = Some (Some i, p)"
    and ws: "length ws = pass_ticks cfg e"
  shows "\<exists>s'. scan_ticks al cfg e ws s = Some s' \<and> dc_building s' = None \<and> sp_current (dc_detail s') = int i \<and>
      sp_version (dc_detail s') = sp_version (dc_detail s) + 1 \<and>
      (let d = sp_value (dc_detail s') ! i in
         dt_publish_wall_ns d = hd ws \<and> dt_total_subscribers d = of_nat (me_next_sub e) \<and>
         published_rows (rc_snapshot_subscriber_limit cfg) (all_rows e) (dt_subscribers d) \<and>
         busiest (rc_snapshot_flow_limit cfg) (live_flows (me_flows e)) (dt_top_flows d) \<and> sorted_wrt busier (dt_top_flows d)) \<and>
      (\<forall>k < length ws. \<exists>s''. scan_ticks al cfg e (take k ws) s = Some s'' \<and> sp_current (dc_detail s'') = sp_current (dc_detail s))"
proof -
  obtain s' where s': "scan_ticks al cfg e ws s = Some s'" "pass_done al cfg e i (sp_version (dc_detail s)) (hd ws) s'"
    using pass_complete [OF al cfg(1) wf cfg(2) s ws] by blast
  obtain d where d: "collected cfg e (pass_size e) d" "dt_publish_wall_ns d = hd ws"
      "sp_value (dc_detail s') ! i = scan_finish al cfg (me_next_sub e) d" using s'(2) by (auto simp: pass_done_def)
  have "\<exists>s''. scan_ticks al cfg e (take k ws) s = Some s'' \<and> sp_current (dc_detail s'') = sp_current (dc_detail s)"
    if "k < length ws" for k
  proof (cases "k = 0")
    case False
    then have "length (take k ws) < pass_ticks cfg e" "take k ws \<noteq> []" using that ws by auto
    from pass_from_start [OF al cfg(1) wf cfg(2) s this] show ?thesis by blast
  qed simp
  moreover have "dt_publish_wall_ns (scan_finish al cfg (me_next_sub e) d) = hd ws"
      "dt_total_subscribers (scan_finish al cfg (me_next_sub e) d) = of_nat (me_next_sub e)"
    using d(2) by (simp_all add: scan_finish_def Let_def)
  ultimately show ?thesis using s' scan_finish_tables [OF al d(1)] unfolding d(3) Let_def by (simp add: pass_done_def d(3))
qed

definition algos_sample :: scan_algos where
  "algos_sample = \<lparr>al_push_heap = sort_key fl_bytes, al_pop_heap = (\<lambda>xs. sort_key fl_bytes (tl xs) @ [hd xs]),
     al_sort = (\<lambda>xs. rev (sort_key fl_bytes xs)), al_partial_sort = (\<lambda>_ xs. rev (sort_key row_total xs))\<rparr>"

lemma is_heap_sort: "is_heap (sort_key fl_bytes xs)"
proof -
  have "sorted (List.map fl_bytes (sort_key fl_bytes xs))" by simp
  then show ?thesis by (auto simp: is_heap_def sorted_iff_nth_mono)
qed

lemma sorted_rev_key: "sorted_wrt (\<lambda>a b. f b \<le> f a) (rev (sort_key f xs))" for f :: "'a \<Rightarrow> u64"
proof -
  have "sorted (List.map f (sort_key f xs))" by simp
  then show ?thesis by (simp add: sorted_wrt_rev sorted_map)
qed

lemma algos_sample_ok: "algos_ok algos_sample"
proof -
  have "row_total b \<le> row_total a"
    if "a \<in> set (take n (rev (sort_key row_total xs)))" "b \<in> set (drop n (rev (sort_key row_total xs)))" for a b n xs
    using that sorted_rev_key [of row_total xs] sorted_wrt_append [of "\<lambda>a b. row_total b \<le> row_total a" "take n (rev (sort_key row_total xs))" "drop n (rev (sort_key row_total xs))"]
    by simp
  moreover have "mset (sort_key fl_bytes (tl xs) @ [hd xs]) = mset xs" if "xs \<noteq> []" for xs using that by (cases xs) simp_all
  moreover have "sorts_flows (\<lambda>xs. rev (sort_key fl_bytes xs))"
    by (simp add: sorts_flows_def busier_def [abs_def] sorted_rev_key)
  ultimately show ?thesis by (simp add: algos_ok_def algos_sample_def is_heap_sort sorted_wrt_take [OF sorted_rev_key]) blast
qed

definition busy_engine :: MeterEngine where
  "busy_engine = small_engine\<lparr>me_flows := [FlowEntry_init\<lparr>fl_key := 5, fl_bytes := 10\<rparr>, FlowEntry_init\<lparr>fl_key := 6, fl_bytes := 20\<rparr>]\<rparr>"

lemma busy_engine_wf: "me_wf busy_engine"
proof -
  have "wf_flows busy_engine"
    by (auto simp: busy_engine_def small_engine_def wf_flows_def flow_shape_def FlowEntry_init_def intro!: exI [of _ 1])
  then show ?thesis using small_engine_wf by (simp add: me_wf_def busy_engine_def wf_sizes_def)
qed

lemma begin_write_init: "\<exists>i p. begin_write (dc_detail DetailScan_init) = Some (Some i, p)"
proof -
  have "claimable (dc_detail DetailScan_init) 0" by (simp add: claimable_def DetailScan_init_def Snapshot_new_def)
  moreover have "length (sp_refs (dc_detail DetailScan_init)) = slot_count (dc_detail DetailScan_init)"
      "0 < slot_count (dc_detail DetailScan_init)"
    by (simp_all add: DetailScan_init_def Snapshot_new_def slot_count_def)
  ultimately show ?thesis using begin_write_result by blast
qed

theorem detail_pass_witness:
  "\<exists>s d f. scan_ticks algos_sample (RuntimeConfig_init\<lparr>rc_snapshot_scan_budget := 1, rc_snapshot_flow_limit := 1\<rparr>) busy_engine [7, 8] DetailScan_init = Some s \<and>
     sp_value (dc_detail s) ! nat (sp_current (dc_detail s)) = d \<and> dt_publish_wall_ns d = 7 \<and> dt_top_flows d = [f] \<and> fl_bytes f = 20"
proof -
  let ?cfg = "RuntimeConfig_init\<lparr>rc_snapshot_scan_budget := 1, rc_snapshot_flow_limit := 1\<rparr>"
  obtain i p where p: "begin_write (dc_detail DetailScan_init) = Some (Some i, p)" using begin_write_init by blast
  have t: "length [7, 8 :: u64] = pass_ticks ?cfg busy_engine"
    by (simp add: pass_ticks_def pass_size_def busy_engine_def small_engine_def)
  have init: "dc_building DetailScan_init = None" "publisher_ok (dc_detail DetailScan_init)"
    by (simp_all add: DetailScan_init_def publisher_ok_def Snapshot_new_def slot_count_def)
  from detail_pass [OF algos_sample_ok _ _ busy_engine_wf init p t] obtain s where
    s: "scan_ticks algos_sample ?cfg busy_engine [7, 8] DetailScan_init = Some s" "sp_current (dc_detail s) = int i"
      "dt_publish_wall_ns (sp_value (dc_detail s) ! i) = 7" "busiest 1 (live_flows (me_flows busy_engine)) (dt_top_flows (sp_value (dc_detail s) ! i))"
    by (auto simp: Let_def)
  have lf: "live_flows (me_flows busy_engine) = [FlowEntry_init\<lparr>fl_key := 5, fl_bytes := 10\<rparr>, FlowEntry_init\<lparr>fl_key := 6, fl_bytes := 20\<rparr>]"
    by (simp add: live_flows_def busy_engine_def)
  have "\<exists>f. out = [f] \<and> fl_bytes f = 20" if b: "busiest 1 (live_flows (me_flows busy_engine)) out" for out
  proof -
    obtain f where f: "out = [f]" using b unfolding busiest_def lf by (auto simp: length_Suc_conv)
    obtain rest where r: "{#FlowEntry_init\<lparr>fl_key := 5, fl_bytes := 10\<rparr>, FlowEntry_init\<lparr>fl_key := 6, fl_bytes := 20\<rparr>#} = add_mset f (mset rest)"
        "\<forall>r\<in>set rest. busier f r" using b unfolding busiest_def lf f by auto
    have "fl_bytes f = 20 \<or> f = FlowEntry_init\<lparr>fl_key := 5, fl_bytes := 10\<rparr> \<and> mset rest = {#FlowEntry_init\<lparr>fl_key := 6, fl_bytes := 20\<rparr>#}"
      using r(1) by (auto simp: add_eq_conv_ex)
    then show ?thesis using r(2) f by (auto simp: busier_def)
  qed
  from this [OF s(4)] show ?thesis using s(1-3) by auto
qed

end
