(* ===== verification/Runtime.thy ===== *)
theory Runtime
  imports Replay Detail_Scan Meter_Records
begin

text \<open>
  The runtime of \<^verbatim>\<open>include/gtpm/runtime.hpp\<close> and \<^verbatim>\<open>src/meter_thread.cpp\<close>: the rings between the threads, the
  metering loop, the publication of the counters, the reporter that writes the records, start and stop.

  The metering ring and the charging ring are those of the \<^verbatim>\<open>Ingest\<close> object, the record ring is the
  sink of the engine; the source passes pointers to them. The threads meet only at these rings, at the
  published counters and at the detail tables, whose own protocols are the subject of \<open>Spsc_Interleaving\<close>,
  \<open>Seqlock\<close> and \<open>Snapshot\<close>; here a thread's access to one of them is a step. The published counters are
  the value last stored in the seqlock. Clock readings are streams, indexed by the number of readings
  taken. Pinning a thread, sleeping and flushing change nothing in the model.
\<close>

subsection \<open>State\<close>

record environment =
  en_mono :: "nat \<Rightarrow> u64"
  en_wall :: "nat \<Rightarrow> u64"
  en_publish_wall :: "nat \<Rightarrow> u64"
  en_rank_of :: "nat \<Rightarrow> u64 \<Rightarrow> u64"
  en_algos :: scan_algos

text \<open>
  \<open>rt_pins\<close> are the buffers of the handles the readers hold; \<open>rt_taken\<close> is history, the records the reporter
  has taken off the ring.
\<close>

record Runtime =
  rt_cfg :: RuntimeConfig
  rt_engine :: MeterEngine
  rt_ingest :: Ingest
  rt_latency :: Histogram
  rt_stats :: PipelineSnapshot
  rt_scan :: DetailScan
  rt_running :: bool
  rt_meter_stop :: bool
  rt_reporter_stop :: bool
  rt_records_written :: u64
  rt_record_write_errors :: u64
  rt_start_ns :: u64
  rt_last_publish_ns :: u64
  rt_meter_batches :: u64
  rt_meter_idle_polls :: u64
  rt_latency_counter :: u32
  rt_records_file :: "out_file option"
  rt_detail_request_ns :: u64
  rt_clock_reads :: nat
  rt_pins :: "nat list"
  rt_taken :: "UsageRecord list"

definition Runtime_new :: "RuntimeConfig \<Rightarrow> Runtime option" where
  "Runtime_new cfg = do {
     meter_ring \<leftarrow> SpscRing_new (rc_meter_ring_size cfg) MeterEvent_init;
     gy_ring \<leftarrow> SpscRing_new (rc_gy_ring_size cfg) GyEvent_init;
     record_ring \<leftarrow> SpscRing_new (rc_record_ring_size cfg) UsageRecord_init;
     engine \<leftarrow> MeterEngine_new (rc_meter cfg);
     Some \<lparr>rt_cfg = cfg, rt_engine = set_record_sink engine (Some record_ring),
       rt_ingest = Ingest_new (Some meter_ring) (Some gy_ring) (rc_ingest cfg), rt_latency = Histogram_new,
       rt_stats = PipelineSnapshot_init, rt_scan = DetailScan_init, rt_running = False, rt_meter_stop = False,
       rt_reporter_stop = False, rt_records_written = 0, rt_record_write_errors = 0, rt_start_ns = 0,
       rt_last_publish_ns = 0, rt_meter_batches = 0, rt_meter_idle_polls = 0, rt_latency_counter = 0,
       rt_records_file = None, rt_detail_request_ns = 0, rt_clock_reads = 0, rt_pins = [], rt_taken = []\<rparr> }"

definition now_ns :: "environment \<Rightarrow> Runtime \<Rightarrow> u64 \<times> Runtime" where
  "now_ns en rt = (en_mono en (rt_clock_reads rt), rt\<lparr>rt_clock_reads := rt_clock_reads rt + 1\<rparr>)"

definition rt_install_sessions :: "environment \<Rightarrow> SessionSpec list \<Rightarrow> Runtime \<Rightarrow> (nat \<times> Runtime) option" where
  "rt_install_sessions en sessions rt = do {
     let (now, rt) = now_ns en rt;
     (n, e) \<leftarrow> install_sessions sessions now (rt_engine rt);
     Some (n, rt\<lparr>rt_engine := e\<rparr>) }"

text \<open>\<open>opened\<close> is the result of \<^verbatim>\<open>fopen\<close> on the records path.\<close>

definition rt_start :: "environment \<Rightarrow> out_file option \<Rightarrow> Runtime \<Rightarrow> Runtime" where
  "rt_start en opened rt = (
     if rt_running rt then rt
     else let (now, rt) = now_ns en (rt\<lparr>rt_running := True\<rparr>);
              rt = rt\<lparr>rt_start_ns := now, rt_last_publish_ns := now, rt_meter_stop := False, rt_reporter_stop := False\<rparr>
          in if rc_records_path (rt_cfg rt) \<noteq> [] \<and> rt_records_file rt = None then rt\<lparr>rt_records_file := opened\<rparr> else rt)"

subsection \<open>Publication\<close>

definition take_snapshot :: "environment \<Rightarrow> u64 \<Rightarrow> Runtime \<Rightarrow> PipelineSnapshot option" where
  "take_snapshot en now rt = do {
     meter_ring \<leftarrow> in_meter_ring (rt_ingest rt);
     gy_ring \<leftarrow> in_gy_ring (rt_ingest rt);
     record_ring \<leftarrow> me_record_sink (rt_engine rt);
     let teids = me_teid_map (rt_engine rt);
     Some \<lparr>ps_meter = me_stats (rt_engine rt), ps_ingest = in_stats (rt_ingest rt),
       ps_latency = summarize (en_rank_of en) (rt_latency rt), ps_publish_wall_ns = en_publish_wall en (rt_clock_reads rt),
       ps_publish_mono_ns = now, ps_uptime_ns = now - rt_start_ns rt, ps_meter_ring_depth = size_approx meter_ring,
       ps_meter_ring_capacity = rg_capacity meter_ring, ps_gy_ring_depth = size_approx gy_ring,
       ps_record_ring_depth = size_approx record_ring, ps_records_written = rt_records_written rt,
       ps_record_write_errors = rt_record_write_errors rt, ps_teid_table_size = fh_count teids,
       ps_teid_table_capacity = fh_capacity teids, ps_meter_batches = rt_meter_batches rt,
       ps_meter_idle_polls = rt_meter_idle_polls rt,
       ps_teid_probes_per_lookup = (if fh_lookups teids = 0 then (0, 1) else (fh_probes teids, fh_lookups teids)),
       ps_teid_load_factor = (fh_size teids, fh_capacity teids)\<rparr> }"

definition publish_locked :: "environment \<Rightarrow> u64 \<Rightarrow> Runtime \<Rightarrow> Runtime option" where
  "publish_locked en now rt = do {
     let rt = rt\<lparr>rt_last_publish_ns := now\<rparr>;
     snap \<leftarrow> take_snapshot en now rt;
     let rt = rt\<lparr>rt_stats := snap\<rparr>;
     let requested = rt_detail_request_ns rt;
     if requested \<noteq> 0 \<and> now - requested \<le> rc_detail_demand_ttl_ns (rt_cfg rt) then do {
       scan \<leftarrow> advance_detail_scan (en_algos en) (rt_cfg rt) (rt_engine rt) (ps_publish_wall_ns snap) (rt_scan rt);
       Some (rt\<lparr>rt_scan := scan\<rparr>) }
     else Some rt }"

definition publish_now :: "environment \<Rightarrow> Runtime \<Rightarrow> Runtime option" where
  "publish_now en rt = (let (now, rt) = now_ns en rt in publish_locked en now rt)"

definition rt_snapshot :: "Runtime \<Rightarrow> PipelineSnapshot" where
  "rt_snapshot rt = rt_stats rt"

definition request_detail :: "environment \<Rightarrow> Runtime \<Rightarrow> Runtime" where
  "request_detail en rt = (let (now, rt) = now_ns en rt in rt\<lparr>rt_detail_request_ns := now\<rparr>)"

definition rt_detail :: "environment \<Rightarrow> Runtime \<Rightarrow> Runtime option" where
  "rt_detail en rt = do {
     let rt = request_detail en rt;
     (idx, p) \<leftarrow> read_snapshot (dc_detail (rt_scan rt));
     Some (rt\<lparr>rt_scan := (rt_scan rt)\<lparr>dc_detail := p\<rparr>, rt_pins := rt_pins rt @ (case idx of None \<Rightarrow> [] | Some i \<Rightarrow> [i])\<rparr>) }"

text \<open>A reader lets go of the oldest handle.\<close>

definition drop_handle :: "Runtime \<Rightarrow> Runtime option" where
  "drop_handle rt = (case rt_pins rt of [] \<Rightarrow> Some rt
   | i # is \<Rightarrow> do {
       p \<leftarrow> release_pin i (dc_detail (rt_scan rt));
       Some (rt\<lparr>rt_scan := (rt_scan rt)\<lparr>dc_detail := p\<rparr>, rt_pins := is\<rparr>) })"

subsection \<open>The metering thread\<close>

definition sample_latency :: "environment \<Rightarrow> MeterEvent \<Rightarrow> Runtime \<Rightarrow> Runtime option" where
  "sample_latency en ev rt = (
     if \<not> rc_measure_latency (rt_cfg rt) then Some rt
     else let rt = rt\<lparr>rt_latency_counter := rt_latency_counter rt + 1\<rparr> in
       if rt_latency_counter rt \<ge> rc_latency_sample_every (rt_cfg rt) then
         let (now, rt) = now_ns en (rt\<lparr>rt_latency_counter := 0\<rparr>) in
         if now > ev_ts_ns ev then do {
           h \<leftarrow> record_value (now - ev_ts_ns ev) (rt_latency rt);
           Some (rt\<lparr>rt_latency := h\<rparr>) }
         else Some rt
       else Some rt)"

fun meter_events :: "environment \<Rightarrow> MeterEvent list \<Rightarrow> Runtime \<Rightarrow> Runtime option" where
  "meter_events en [] rt = Some rt"
| "meter_events en (ev # evs) rt = do {
     e \<leftarrow> apply_event ev (rt_engine rt);
     rt \<leftarrow> sample_latency en ev (rt\<lparr>rt_engine := e\<rparr>);
     meter_events en evs rt }"

partial_function (option) drain_gy :: "Runtime \<Rightarrow> Runtime option" where
  "drain_gy rt = do {
     ring \<leftarrow> in_gy_ring (rt_ingest rt);
     (v, ring) \<leftarrow> try_pop ring;
     let rt = rt\<lparr>rt_ingest := (rt_ingest rt)\<lparr>in_gy_ring := Some ring\<rparr>\<rparr>;
     case v of None \<Rightarrow> Some rt
     | Some gy \<Rightarrow> do { e \<leftarrow> apply_gy gy (rt_engine rt); drain_gy (rt\<lparr>rt_engine := e\<rparr>) } }"

text \<open>One round of \<^verbatim>\<open>meter_loop\<close> up to the test for its end, with the number of events popped.\<close>

definition meter_round :: "environment \<Rightarrow> Runtime \<Rightarrow> (nat \<times> Runtime) option" where
  "meter_round en rt = do {
     ring \<leftarrow> in_meter_ring (rt_ingest rt);
     (batch, ring) \<leftarrow> try_pop_bulk ring (of_nat (rc_meter_batch (rt_cfg rt)));
     let rt = rt\<lparr>rt_ingest := (rt_ingest rt)\<lparr>in_meter_ring := Some ring\<rparr>\<rparr>;
     rt \<leftarrow> (if batch \<noteq> [] then meter_events en batch (rt\<lparr>rt_meter_batches := rt_meter_batches rt + 1\<rparr>)
            else Some (rt\<lparr>rt_meter_idle_polls := rt_meter_idle_polls rt + 1\<rparr>));
     rt \<leftarrow> drain_gy rt;
     let (now, rt) = now_ns en rt;
     e \<leftarrow> poll (en_wall en) now (rt_engine rt);
     let rt = rt\<lparr>rt_engine := e\<rparr>;
     rt \<leftarrow> (if now - rt_last_publish_ns rt \<ge> rc_publish_interval_ns (rt_cfg rt) then publish_locked en now rt else Some rt);
     Some (length batch, rt) }"

definition meter_finished :: "nat \<Rightarrow> Runtime \<Rightarrow> bool option" where
  "meter_finished n rt = (
     if n \<noteq> 0 \<or> \<not> rt_meter_stop rt then Some False
     else do {
       meter_ring \<leftarrow> in_meter_ring (rt_ingest rt);
       if \<not> empty_approx meter_ring then Some False
       else do { gy_ring \<leftarrow> in_gy_ring (rt_ingest rt); Some (empty_approx gy_ring) } })"

definition meter_flush :: "environment \<Rightarrow> Runtime \<Rightarrow> Runtime option" where
  "meter_flush en rt = do {
     let (now, rt) = now_ns en rt;
     (_, e) \<leftarrow> drain (en_wall en) now (rt_engine rt);
     publish_locked en now (rt\<lparr>rt_engine := e\<rparr>) }"

subsection \<open>The reporter\<close>

abbreviation (input) bytes_of :: "string \<Rightarrow> bytes" where "bytes_of s \<equiv> List.map of_char s"

definition write_record :: "UsageRecord \<Rightarrow> Runtime \<Rightarrow> Runtime option" where
  "write_record rec rt = (case rt_records_file rt of
     None \<Rightarrow> Some (rt\<lparr>rt_records_written := rt_records_written rt + 1\<rparr>)
   | Some file \<Rightarrow> do {
       line \<leftarrow> to_ndjson rec;
       let (n, file) = fwrite (bytes_of line) file;
       if n \<noteq> length line then Some (rt\<lparr>rt_records_file := Some file, rt_record_write_errors := rt_record_write_errors rt + 1\<rparr>)
       else let (n, file) = fwrite [10] file in
         if n \<noteq> 1 then Some (rt\<lparr>rt_records_file := Some file, rt_record_write_errors := rt_record_write_errors rt + 1\<rparr>)
         else Some (rt\<lparr>rt_records_file := Some file, rt_records_written := rt_records_written rt + 1\<rparr>) })"

partial_function (option) drain_records :: "Runtime \<Rightarrow> Runtime option" where
  "drain_records rt = do {
     ring \<leftarrow> me_record_sink (rt_engine rt);
     (v, ring) \<leftarrow> try_pop ring;
     let rt = rt\<lparr>rt_engine := (rt_engine rt)\<lparr>me_record_sink := Some ring\<rparr>\<rparr>;
     case v of None \<Rightarrow> Some rt
     | Some rec \<Rightarrow> do {
         rt \<leftarrow> write_record rec (rt\<lparr>rt_taken := rt_taken rt @ [rec]\<rparr>);
         drain_records rt } }"

subsection \<open>Running and stopping\<close>

text \<open>
  \<^verbatim>\<open>meter_loop\<close> after the ingest thread has stopped: \<open>reports k\<close> says whether the reporter gets its turn before
  round \<open>k\<close>.
\<close>

partial_function (option) meter_loop :: "environment \<Rightarrow> (nat \<Rightarrow> bool) \<Rightarrow> nat \<Rightarrow> Runtime \<Rightarrow> Runtime option" where
  "meter_loop en reports k rt = do {
     rt \<leftarrow> (if reports k then drain_records rt else Some rt);
     (n, rt) \<leftarrow> meter_round en rt;
     fin \<leftarrow> meter_finished n rt;
     if fin then meter_flush en rt else meter_loop en reports (k + 1) rt }"

definition rt_stop :: "environment \<Rightarrow> (nat \<Rightarrow> bool) \<Rightarrow> Runtime \<Rightarrow> Runtime option" where
  "rt_stop en reports rt = (
     if \<not> rt_running rt then Some rt
     else do {
       rt \<leftarrow> meter_loop en reports 0 (rt\<lparr>rt_running := False, rt_meter_stop := True\<rparr>);
       rt \<leftarrow> drain_records (rt\<lparr>rt_reporter_stop := True\<rparr>);
       drain_records rt })"

text \<open>
  What happens while the runtime runs, in any order: the ingest thread feeds a packet, the metering thread
  does a round, the reporter takes its turn, readers ask for the detail tables and let go of them.
\<close>

datatype rt_action = Act_Packet u32 u64 bytes | Act_Round | Act_Report | Act_Detail | Act_Drop

fun rt_act :: "environment \<Rightarrow> rt_action \<Rightarrow> Runtime \<Rightarrow> Runtime option" where
  "rt_act en (Act_Packet link_type ts data) rt = do { g \<leftarrow> feed_packet link_type ts data (rt_ingest rt); Some (rt\<lparr>rt_ingest := g\<rparr>) }"
| "rt_act en Act_Round rt = map_option snd (meter_round en rt)"
| "rt_act en Act_Report rt = drain_records rt"
| "rt_act en Act_Detail rt = rt_detail en rt"
| "rt_act en Act_Drop rt = drop_handle rt"

fun rt_run :: "environment \<Rightarrow> rt_action list \<Rightarrow> Runtime \<Rightarrow> Runtime option" where
  "rt_run en [] rt = Some rt"
| "rt_run en (a # as) rt = do { rt \<leftarrow> rt_act en a rt; rt_run en as rt }"

text \<open>The life of a runtime, as the main program goes through it.\<close>

definition runtime_session ::
  "environment \<Rightarrow> RuntimeConfig \<Rightarrow> SessionSpec list \<Rightarrow> out_file option \<Rightarrow> rt_action list \<Rightarrow> (nat \<Rightarrow> bool) \<Rightarrow> Runtime option" where
  "runtime_session en cfg sessions opened acts reports = do {
     rt \<leftarrow> Runtime_new cfg;
     (_, rt) \<leftarrow> rt_install_sessions en sessions rt;
     rt \<leftarrow> rt_run en acts (rt_start en opened rt);
     rt_stop en reports rt }"

end
