(* ===== verification/Runtime_Invariant.thy ===== *)
theory Runtime_Invariant
  imports Runtime
begin

text \<open>
  An invariant of the whole runtime, kept by every step of the metering thread and of the reporter: the
  engine is well formed and its books balance, it has seen exactly the events popped off the rings, the
  records its sink accepted are those the reporter took and those still queued, the detail tables can
  always go on, and the records file holds what was written.
\<close>

subsection \<open>The engine and its record ring\<close>

definition record_ok :: "UsageRecord \<Rightarrow> bool" where
  "record_ok r \<longleftrightarrow> length (ur_bucket_ids r) = kBucketSlots \<and> length (ur_bucket_bytes r) = kBucketSlots"

definition accepted_records :: "MeterEngine \<Rightarrow> UsageRecord list" where
  "accepted_records e = List.map fst (filter snd (me_log e))"

text \<open>The records the sink accepted are those taken off the ring so far and those still in it.\<close>

definition sunk :: "UsageRecord list \<Rightarrow> MeterEngine \<Rightarrow> bool" where
  "sunk taken e \<longleftrightarrow> (\<exists>q. me_record_sink e = Some q \<and> accepted_records e = taken @ ring_contents q) \<and>
     list_all record_ok (accepted_records e)"

definition engine_ok :: "nat \<Rightarrow> nat \<Rightarrow> UsageRecord list \<Rightarrow> MeterEngine \<Rightarrow> bool" where
  "engine_ok n m taken e \<longleftrightarrow> me_wf e \<and> ul_bytes.balanced e \<and> dl_bytes.balanced e \<and> counts_ok e \<and>
     st_events (me_stats e) = of_nat n \<and> st_gy_events (me_stats e) = of_nat m \<and> sunk taken e"

lemma engine_step:
  assumes "engine_ok n m taken e" "op_time_ok op" "meter_step wall op e = Some e'"
  shows "me_wf e'" "ul_bytes.balanced e'" "dl_bytes.balanced e'" "counts_ok e'"
proof -
  have e: "me_wf e" "ul_bytes.balanced e" "dl_bytes.balanced e" "counts_ok e" using assms(1) by (simp_all add: engine_ok_def)
  show "me_wf e'" using meter_step_wf [OF e(1) assms(2), of wall] assms(3) by auto
  show "ul_bytes.balanced e'" by (rule ul_bytes.books.step_inv [OF e(1) assms(2) e(2) assms(3)])
  show "dl_bytes.balanced e'" by (rule dl_bytes.books.step_inv [OF e(1) assms(2) e(3) assms(3)])
  show "counts_ok e'" by (rule counts_step [OF e(1) assms(2) e(4) assms(3)])
qed

lemma engine_frame:
  assumes "engine_ok n m taken e" "op_time_ok op" "meter_step wall op e = Some e'"
    "st_events (me_stats e') = of_nat n'" "st_gy_events (me_stats e') = of_nat m'"
    "me_record_sink e' = me_record_sink e" "me_log e' = me_log e"
  shows "engine_ok n' m' taken e'"
  using assms engine_step [OF assms(1-3)] by (simp add: engine_ok_def sunk_def accepted_records_def)

lemma event_effect_frame:
  "event_effect ev e e' \<Longrightarrow> st_events (me_stats e') = st_events (me_stats e) + 1 \<and> st_gy_events (me_stats e') = st_gy_events (me_stats e) \<and>
     me_record_sink e' = me_record_sink e \<and> me_log e' = me_log e"
proof (induction rule: event_effect.induct)
  case (event_bound ev e b t slot info oc fs)
  show ?case by (cases oc) (simp_all add: charged_def count_flow_def count_direction_def looked_up_def count_event_def)
next
  case (event_learned ev e slot info oc fs t u)
  show ?case by (cases oc) (simp_all add: charged_def count_flow_def count_direction_def looked_up_def count_event_def learned_def)
qed (simp_all add: count_event_def count_unknown_def looked_up_def)

lemma engine_event:
  assumes "engine_ok n m taken e" "ev_ts_ns ev \<noteq> 0xFFFFFFFFFFFFFFFF"
  shows "\<exists>e'. apply_event ev e = Some e' \<and> engine_ok (Suc n) m taken e'"
proof -
  obtain e' where e': "apply_event ev e = Some e'" "event_effect ev e e'"
    using apply_event_effect [of e ev] assms by (auto simp: engine_ok_def)
  have "engine_ok (Suc n) m taken e'"
    using event_effect_frame [OF e'(2)] assms(1) by (intro engine_frame [OF assms(1), where op = "Op_Event ev"])
      (use e'(1) assms(2) in \<open>simp_all add: engine_ok_def\<close>)
  then show ?thesis using e'(1) by blast
qed

lemma engine_gy:
  assumes "engine_ok n m taken e"
  shows "\<exists>e'. apply_gy gy e = Some e' \<and> engine_ok n (Suc m) taken e'"
proof -
  have "me_wf e" using assms by (simp add: engine_ok_def)
  then obtain e' where e': "apply_gy gy e = Some e'" "st_events (me_stats e') = st_events (me_stats e)"
      "st_gy_events (me_stats e') = st_gy_events (me_stats e) + 1" "me_record_sink e' = me_record_sink e" "me_log e' = me_log e"
    by (cases rule: apply_gy_cases [of e gy]) auto
  have "engine_ok n (Suc m) taken e'"
    by (rule engine_frame [OF assms, where op = "Op_Gy gy"]) (use e' assms in \<open>simp_all add: engine_ok_def\<close>)
  then show ?thesis using e'(1) by blast
qed

lemma emissions_frame:
  "emissions wall e e' \<Longrightarrow> st_events (me_stats e') = st_events (me_stats e) \<and> st_gy_events (me_stats e') = st_gy_events (me_stats e)"
  by (induction rule: emissions.induct) (simp_all add: count_record_def)

lemma emissions_sunk: "emissions wall e e' \<Longrightarrow> sunk taken e \<Longrightarrow> sunk taken e'"
proof (induction rule: emissions.induct)
  case (emissions_cursor n w e e')
  then show ?case by (simp add: sunk_def accepted_records_def)
next
  case (emissions_emit idx e reason now_ns ok sink e')
  have "record_ok (next_record wall idx reason now_ns e)" by (simp add: record_ok_def next_record_def make_record_def)
  then have "sunk taken (emit_result wall idx reason now_ns ok sink e)"
    using emissions_emit.prems emissions_emit.hyps(3)
    by (auto simp: sunk_def accepted_records_def sink_step_def)
  then show ?case by (rule emissions_emit.IH)
qed simp

lemma engine_emissions:
  assumes "engine_ok n m taken e" "op_time_ok op" "meter_step wall op e = Some e'" "emissions wall e e'"
  shows "engine_ok n m taken e'"
  using assms(1) engine_step [OF assms(1-3)] emissions_frame [OF assms(4)] emissions_sunk [OF assms(4)]
  by (simp add: engine_ok_def)

lemma engine_poll:
  assumes "engine_ok n m taken e"
  shows "\<exists>e'. poll wall now e = Some e' \<and> engine_ok n m taken e'"
proof -
  obtain e' where e': "poll wall now e = Some e'" "emissions wall e e'"
    using poll_emissions [of e wall now] assms by (auto simp: engine_ok_def)
  then show ?thesis using engine_emissions [OF assms, of "Op_Poll now" wall e'] by simp
qed

text \<open>A drained engine has put all it metered into records.\<close>

definition all_reported :: "MeterEngine \<Rightarrow> bool" where
  "all_reported e \<longleftrightarrow> st_ul_bytes (me_stats e) = reported ur_ul_bytes e \<and> st_dl_bytes (me_stats e) = reported ur_dl_bytes e"

lemma engine_drain:
  assumes "engine_ok n m taken e"
  shows "\<exists>k e'. drain wall now e = Some (k, e') \<and> engine_ok n m taken e' \<and> all_reported e'"
proof -
  obtain k e' where e': "drain wall now e = Some (k, e')" "emissions wall e e'" "all_reported e'"
    using drain_settles [of e wall now] assms by (auto simp: engine_ok_def all_reported_def)
  then show ?thesis using engine_emissions [OF assms, of "Op_Drain now" wall e'] by auto
qed

lemma engine_install:
  assumes "engine_ok n m taken e"
  shows "\<exists>r e'. install_session spec now e = Some (r, e') \<and> engine_ok n m taken e'"
proof -
  have wf: "me_wf e" using assms by (simp add: engine_ok_def)
  obtain r e' where r: "install_session spec now e = Some (r, e')" using install_session_wf [OF wf] by blast
  have "st_events (me_stats e') = st_events (me_stats e) \<and> st_gy_events (me_stats e') = st_gy_events (me_stats e) \<and>
      me_record_sink e' = me_record_sink e \<and> me_log e' = me_log e"
  proof (cases "session_valid spec \<and> install_index spec e \<noteq> None")
    case True
    then obtain idx e1 where v: "session_valid spec" "install_index spec e = Some (idx, e1)" by auto
    from install_session_spec [OF wf this, of now] obtain t where "e' = installed spec now idx t e1" using r by auto
    then show ?thesis using v(2) by (auto elim!: install_index_cases simp: installed_def)
  next
    case False
    then have "install_session spec now e = Some (None, e)"
      by (cases "session_valid spec") (simp_all add: install_session_def del: not_None_eq)
    then show ?thesis using r by simp
  qed
  then have "engine_ok n m taken e'"
    by (intro engine_frame [OF assms, where op = "Op_Install spec now"]) (use r assms in \<open>simp_all add: engine_ok_def\<close>)
  then show ?thesis using r by blast
qed

lemma engine_installs:
  assumes "engine_ok n m taken e"
  shows "\<exists>k e'. install_sessions specs now e = Some (k, e') \<and> engine_ok n m taken e'"
  using assms
proof (induction specs arbitrary: e)
  case (Cons spec specs)
  obtain r e1 where "install_session spec now e = Some (r, e1)" "engine_ok n m taken e1" using engine_install [OF Cons.prems] by blast
  moreover from this Cons.IH obtain k e2 where "install_sessions specs now e1 = Some (k, e2)" "engine_ok n m taken e2" by blast
  ultimately show ?case by auto
qed simp

lemma engine_take:
  assumes "engine_ok n m taken e" "me_record_sink e = Some q"
  shows "\<exists>q'. try_pop q = Some (if ring_contents q = [] then None else Some (hd (ring_contents q)), q') \<and>
    (if ring_contents q = [] then engine_ok n m taken (e\<lparr>me_record_sink := Some q'\<rparr>)
     else engine_ok n m (taken @ [hd (ring_contents q)]) (e\<lparr>me_record_sink := Some q'\<rparr>) \<and> record_ok (hd (ring_contents q))) \<and>
    ring_contents q' = tl (ring_contents q)"
proof -
  have "ring_inv q" using assms by (simp add: engine_ok_def me_wf_def wf_sink_def)
  from try_pop_spec [OF this] obtain q' where q': "try_pop q = Some (if ring_contents q = [] then None else Some (hd (ring_contents q)), q')"
      "ring_contents q' = tl (ring_contents q)" by blast
  have "meter_step wall Op_Take e = Some (e\<lparr>me_record_sink := Some q'\<rparr>)" for wall
    using q'(1) assms(2) by (simp add: take_record_def)
  note st = engine_step [OF assms(1) _ this, simplified]
  have s: "accepted_records e = taken @ ring_contents q" "list_all record_ok (accepted_records e)"
    using assms by (auto simp: engine_ok_def sunk_def)
  show ?thesis
  proof (cases "ring_contents q")
    case Nil
    then show ?thesis using q' st assms(1) s by (simp add: engine_ok_def sunk_def accepted_records_def)
  next
    case (Cons r rs)
    then show ?thesis using q' st assms(1) s by (simp add: engine_ok_def sunk_def accepted_records_def)
  qed
qed

lemma engine_new:
  assumes "cfg_ok cfg" "ring_inv q" "ring_contents q = []"
  shows "\<exists>e. MeterEngine_new cfg = Some e \<and> engine_ok 0 0 [] (set_record_sink e (Some q))"
proof -
  have sink: "wf_sink (Some q)" using assms(2) by (simp add: wf_sink_def)
  obtain e0 where e0: "MeterEngine_new cfg = Some e0" "me_wf e0" "me_log e0 = []" "me_stats e0 = PipelineStats_init"
    using MeterEngine_new_wf [OF assms(1)] by blast
  have "ul_bytes.balanced (set_record_sink e0 (Some q))" "dl_bytes.balanced (set_record_sink e0 (Some q))"
    using ul_bytes.books.run_inv [OF assms(1) sink, of "[]"] dl_bytes.books.run_inv [OF assms(1) sink, of "[]"] e0(1) by auto
  moreover have "me_wf (set_record_sink e0 (Some q))" using me_wf_set_sink [OF e0(2) sink] by (simp add: set_record_sink_def)
  ultimately show ?thesis using e0 assms(3)
    by (auto simp: engine_ok_def counts_ok_def sunk_def accepted_records_def set_record_sink_def PipelineStats_init_def)
qed

subsection \<open>The stamps of queued events\<close>

abbreviation (input) forever :: u64 where "forever \<equiv> 0xFFFFFFFFFFFFFFFF"

definition stamped :: "Ingest \<Rightarrow> bool" where
  "stamped g \<longleftrightarrow> (\<forall>ev \<in> set (queued (in_meter_ring g)). ev_ts_ns ev \<noteq> forever)"

lemma stamped_count [simp]: "stamped (count_ig f g) = stamped g" "in_meter_ring (count_ig f g) = in_meter_ring g"
  by (simp_all add: stamped_def count_ig_def)

lemma stamped_push:
  assumes "ring_ok (in_meter_ring g)" "stamped g" "ev_ts_ns ev \<noteq> forever" "push_event ev g = Some (ok, g')"
  shows "stamped g'"
proof -
  obtain r' where r': "push_event ev g = Some (room (in_meter_ring g), count_ig
      (if room (in_meter_ring g) then count_pushed else (\<lambda>s. s\<lparr>ig_events_dropped := ig_events_dropped s + 1\<rparr>)) (g\<lparr>in_meter_ring := r'\<rparr>))"
      "ring_grows (in_meter_ring g) (if room (in_meter_ring g) then [ev] else []) r'"
    using push_event_spec [OF assms(1), of ev] by blast
  have "set (queued r') \<subseteq> insert ev (set (queued (in_meter_ring g)))"
    using r'(2) by (cases "in_meter_ring g") (auto simp: ring_grows_def queued_def split: if_splits)
  then show ?thesis using r'(1) assms(2-4) by (auto simp: stamped_def count_ig_def)
qed

lemma stamped_gtpu:
  assumes ok: "ring_ok (in_meter_ring g)" and st: "stamped g" and ts: "ts \<noteq> forever"
    and p: "process_gtpu pdu ts w g = Some (res, g')"
  shows "stamped g'"
proof -
  have ev: "ev_ts_ns (gtpu_event cfg h ts w) = ts" for cfg h by (simp add: gtpu_event_def Let_def)
  have inner: "ev_ts_ns ev' = ev_ts_ns ev" if "inner_event cfg h ip ev = Some ev'" for cfg h ip ev ev'
    using that by (auto simp: inner_event_def Let_def split: if_splits bind_splits)
  have gpdu: "ev_ts_ns ev' = ev_ts_ns ev \<and> in_meter_ring g2 = in_meter_ring g1"
    if "gpdu_event h ev g1 = Some (ev', g2)" for h ev g1 ev' g2
    using that by (auto simp: gpdu_event_def count_ig_def dest!: inner split: if_splits bind_splits)
  obtain s h where h: "parse_gtpu pdu = Some (s, h)" using parse_gtpu_returns by blast
  consider "s \<noteq> GtpuStatus_kOk" | "s = GtpuStatus_kOk" "\<not> is_gpdu h" | "s = GtpuStatus_kOk" "is_gpdu h" by blast
  then show ?thesis
  proof cases
    case 1
    then show ?thesis using p h st by (auto simp: process_gtpu_def Let_def split: if_splits)
  next
    case 2
    let ?g = "count_ig (\<lambda>s. s\<lparr>ig_gtpu_control := ig_gtpu_control s + 1\<rparr>) g"
    let ?ev = "gtpu_event (in_cfg g) h ts w"
    obtain ok' where "push_event (?ev\<lparr>ev_flags := ev_flags ?ev OR kFlagControlPdu, ev_bytes := 0\<rparr>) ?g = Some (ok', g')"
      using 2 p h by (auto simp: process_gtpu_def Let_def split: bind_splits)
    then show ?thesis by (rule stamped_push [rotated 3]) (use ok st ts ev in simp_all)
  next
    case 3
    let ?g = "count_ig (\<lambda>s. s\<lparr>ig_gtpu_gpdus := ig_gtpu_gpdus s + 1\<rparr>) g"
    obtain ev' g1 ok' where e: "gpdu_event h (gtpu_event (in_cfg g) h ts w) ?g = Some (ev', g1)" "push_event ev' g1 = Some (ok', g')"
      using 3 p h by (auto simp: process_gtpu_def Let_def split: bind_splits)
    have r: "in_meter_ring g1 = in_meter_ring g" using gpdu [OF e(1)] by (simp add: count_ig_def)
    show ?thesis by (rule stamped_push [OF _ _ _ e(2)]) (use ok st ts ev gpdu [OF e(1)] r in \<open>simp_all add: stamped_def\<close>)
  qed
qed

lemma stamped_same: "ring_grows (in_meter_ring g) [] (in_meter_ring g') \<Longrightarrow> stamped g \<Longrightarrow> stamped g'"
  by (auto simp: stamped_def ring_grows_def queued_def split: option.splits)

lemma stamped_ip:
  assumes ok: "ingest_ok g" and st: "stamped g" and ts: "ts \<noteq> forever" and p: "process_ip pkt ts w g = Some (res, g')"
  shows "stamped g'"
proof -
  obtain ip where ip: "parse_ip pkt = Some ip" using parse_ip_result by blast
  have ring: "ring_ok (in_meter_ring g)" using ok by (simp add: ingest_ok_def)
  have dia: "stamped g2" if "process_diameter (ip_l4_payload ip) ts g = Some (r, g2)" for r g2
  proof (cases "ip_l4_payload ip = []")
    case True
    then show ?thesis using that st by (simp add: process_diameter_def)
  next
    case False
    obtain res2 g3 gys gylost where "diameter_loop (ip_l4_payload ip) ts 0 False g = Some (res2, g3)" "ingest_delta 0 [] 0 gys gylost g g3"
      using diameter_loop_spec [OF ok] by blast
    then have "ring_grows (in_meter_ring g) [] (in_meter_ring g2)" using that False by (simp add: process_diameter_def ingest_delta_def Let_def)
    then show ?thesis using st by (rule stamped_same)
  qed
  show ?thesis using p stamped_gtpu [OF ring st ts] dia st
    by (auto simp: process_ip_def ip Let_def split: if_splits)
qed

lemma stamped_feed:
  assumes "ingest_ok g" "stamped g" "ts \<noteq> forever" "feed_packet link_type ts data g = Some g'"
  shows "stamped g'"
proof -
  obtain l where l: "strip_link_layer link_type data = Some l" using strip_link_layer_result by blast
  have frame: "stamped g2" if "process_frame frame ts g = Some (r, g2)" for frame r g2
  proof -
    let ?g = "count_ig (\<lambda>s. s\<lparr>ig_frames := ig_frames s + 1, ig_frames_bytes := ig_frames_bytes s + of_nat (length frame)\<rparr>) g"
    have "ingest_ok ?g" using assms(1) by (simp add: ingest_ok_def count_ig_def)
    note ip = stamped_ip [OF this _ assms(3)]
    obtain eth where "parse_ethernet frame = Some eth" using parse_ethernet_result by blast
    then show ?thesis using that assms(2) ip by (auto simp: process_frame_def Let_def split: if_splits)
  qed
  show ?thesis using assms l frame stamped_ip [OF assms(1-3)]
    by (auto simp: feed_packet_def split: if_splits bind_splits)
qed

subsection \<open>The detail tables while the engine works\<close>

definition tables_fit :: "DetailSnapshot list \<Rightarrow> bool" where
  "tables_fit ds \<longleftrightarrow> (\<forall>d \<in> set ds. \<forall>r \<in> set (dt_subscribers d). row_fits r)"

definition scan_live :: "DetailScan \<Rightarrow> bool" where
  "scan_live s \<longleftrightarrow> publisher_ok (dc_detail s) \<and> tables_fit (sp_value (dc_detail s)) \<and> sp_current (dc_detail s) < int (slot_count (dc_detail s)) \<and> (\<forall>i. dc_building s = Some i \<longrightarrow>
     i < slot_count (dc_detail s) \<and> sp_writing (dc_detail s) = int i \<and> is_heap (dt_top_flows (sp_value (dc_detail s) ! i)))"

lemma tables_fit_update: "tables_fit ds \<Longrightarrow> \<forall>r \<in> set (dt_subscribers d). row_fits r \<Longrightarrow> tables_fit (ds[i := d])"
  by (auto simp: tables_fit_def dest!: set_update_subset_insert [THEN subsetD])

lemma rows_of_fit: "me_wf e \<Longrightarrow> idx < me_next_sub e \<Longrightarrow> r \<in> set (rows_of e idx) \<Longrightarrow> row_fits r"
proof -
  assume a: "me_wf e" "idx < me_next_sub e" "r \<in> set (rows_of e idx)"
  have sz: "wf_sizes e" using a(1) by (simp add: me_wf_def)
  then have l: "idx < length (me_counters e)" using a(2) wf_sizesD(3) [OF sz] by simp
  have "wf_counters (me_counters e ! idx)" "wf_info (me_info e ! idx)" using wf_sizesD(5,6) [OF sz l] by simp_all
  then show ?thesis using a(3)
    by (auto simp: rows_of_def subscriber_row_def span_simps wf_counters_def wf_info_def row_fits_def split: if_splits)
qed

lemma scan_subscribers_fit:
  assumes "me_wf e" "\<forall>r \<in> set rows. row_fits r" "scan_subscribers e b cur rows = Some (b', cur', rows')"
  shows "\<forall>r \<in> set rows'. row_fits r"
proof
  fix r assume r: "r \<in> set rows'"
  define n where "n = min b (me_next_sub e - cur)"
  have "rows' = rows @ concat (List.map (rows_of e) [cur..<cur + n])"
    using assms(3) unfolding scan_subscribers_rows [OF assms(1)] n_def [symmetric] Let_def by (blast dest: sym)
  then consider "r \<in> set rows" | idx where "idx < cur + n" "cur \<le> idx" "r \<in> set (rows_of e idx)" using r by auto
  then show "row_fits r"
  proof cases
    case 2
    then have "idx < me_next_sub e" by (simp add: n_def)
    then show ?thesis using rows_of_fit [OF assms(1)] 2(3) by blast
  qed (use assms(2) in blast)
qed

lemma scan_finish_fit:
  assumes "algos_ok al" "\<forall>r \<in> set (dt_subscribers d). row_fits r"
  shows "\<forall>r \<in> set (dt_subscribers (scan_finish al cfg n d)). row_fits r"
proof (cases "length (dt_subscribers d) > rc_snapshot_subscriber_limit cfg")
  case True
  then have "mset (al_partial_sort al (rc_snapshot_subscriber_limit cfg) (dt_subscribers d)) = mset (dt_subscribers d)"
    using assms(1) less_imp_le [OF True] unfolding algos_ok_def by blast
  from mset_eq_setD [OF this] show ?thesis using assms(2) True by (auto simp: scan_finish_def Let_def dest: in_set_takeD)
qed (use assms(2) in \<open>simp add: scan_finish_def Let_def\<close>)

lemma scan_flow_live:
  assumes al: "algos_ok al" and n: "0 < limit" and h: "is_heap flows"
  shows "\<exists>flows'. scan_flow al limit f flows = Some flows' \<and> is_heap flows'"
proof (cases "fl_key f = 0 \<or> length flows < limit")
  case True
  then show ?thesis using h algos_okD(1) [OF al h] by (auto simp: scan_flow_def)
next
  case False
  then have ne: "flows \<noteq> []" using n by auto
  note pop = algos_okD(3-5) [OF al h ne]
  have len: "length (al_pop_heap al flows) = length flows" using mset_eq_length [OF pop(3)] by simp
  then have "al_pop_heap al flows \<noteq> []" using ne by auto
  then have "store_at (al_pop_heap al flows) (length flows - 1) f = Some (butlast (al_pop_heap al flows) @ [f])"
    using len ne by (simp add: store_at_def list_update_append1 butlast_conv_take upd_conv_take_nth_drop)
  then show ?thesis using False ne h algos_okD(1) [OF al pop(1)] by (auto simp: scan_flow_def at_index_def)
qed

lemma scan_flows_live:
  assumes al: "algos_ok al" and n: "0 < limit" and h: "is_heap flows"
  shows "\<exists>c flows'. scan_flows al limit e b cur flows = Some (c, flows') \<and> is_heap flows'"
  using h
proof (induction b arbitrary: cur flows)
  case (Suc b)
  show ?case
  proof (cases "cur < length (me_flows e)")
    case True
    obtain fl where "scan_flow al limit (me_flows e ! cur) flows = Some fl" "is_heap fl" using scan_flow_live [OF al n Suc.prems] by blast
    then show ?thesis using Suc.IH [of fl "cur + 1"] True by (auto simp: span_simps)
  qed (use Suc.prems in simp)
qed simp

lemma scan_begin_live:
  assumes "scan_live s"
  shows "\<exists>s'. scan_begin wall s = Some s' \<and> scan_live s' \<and> slot_count (dc_detail s') = slot_count (dc_detail s)"
proof (cases "dc_building s")
  case None
  have p: "length (sp_refs (dc_detail s)) = slot_count (dc_detail s)" "0 < slot_count (dc_detail s)"
    using assms by (simp_all add: scan_live_def publisher_ok_def)
  from begin_write_result [OF this] show ?thesis
  proof
    assume "\<exists>i. begin_write (dc_detail s) = Some (Some i, claim i (dc_detail s)) \<and> claimable (dc_detail s) i \<and> i < slot_count (dc_detail s)"
    then obtain i where i: "begin_write (dc_detail s) = Some (Some i, claim i (dc_detail s))" "i < slot_count (dc_detail s)" by blast
    then show ?thesis using None p assms
      by (simp add: scan_begin_def span_simps scan_live_def publisher_ok_def slot_count_def claim_def is_heap_def tables_fit_update)
  next
    assume "begin_write (dc_detail s) = Some (None, dc_detail s) \<and> (\<forall>i < slot_count (dc_detail s). \<not> claimable (dc_detail s) i)"
    then show ?thesis using None assms by (simp add: scan_begin_def)
  qed
next
  case (Some i)
  then show ?thesis using assms by (simp add: scan_begin_def)
qed

lemma scan_slice_live:
  assumes al: "algos_ok al" and n: "0 < rc_snapshot_flow_limit cfg" and wf: "me_wf e" and s: "scan_live s" "dc_building s = Some i"
  shows "\<exists>s'. scan_slice al cfg e i s = Some s' \<and> scan_live s' \<and> slot_count (dc_detail s') = slot_count (dc_detail s)"
proof -
  let ?d = "sp_value (dc_detail s) ! i"
  have S: "length (sp_refs (dc_detail s)) = slot_count (dc_detail s)" "i < slot_count (dc_detail s)" "sp_writing (dc_detail s) = int i" "is_heap (dt_top_flows ?d)"
    using s by (simp_all add: scan_live_def publisher_ok_def)
  obtain b sc rows where rows: "scan_subscribers e (rc_snapshot_scan_budget cfg) (dc_sub_cursor s) (dt_subscribers ?d) = Some (b, sc, rows)"
    using scan_subscribers_rows [OF wf] by (metis (mono_tags))
  obtain fc flows where fl: "scan_flows al (rc_snapshot_flow_limit cfg) e b (dc_flow_cursor s) (dt_top_flows ?d) = Some (fc, flows)" "is_heap flows"
    using scan_flows_live [OF al n S(4)] by blast
  have "\<forall>r \<in> set (dt_subscribers ?d). row_fits r" using s(1) S(2) nth_mem unfolding scan_live_def tables_fit_def slot_count_def by blast
  from scan_subscribers_fit [OF wf this rows] have fit: "\<forall>r \<in> set rows. row_fits r" .
  then have fin: "\<forall>r \<in> set (dt_subscribers (scan_finish al cfg n (?d\<lparr>dt_subscribers := rows, dt_top_flows := flows\<rparr>))). row_fits r" for n
    by (intro scan_finish_fit [OF al]) simp
  have len: "i < length (sp_value (dc_detail s))" "i < length (sp_refs (dc_detail s))" using S(1,2) by (simp_all add: slot_count_def)
  show ?thesis
  proof (cases "sc < me_next_sub e \<or> fc < length (me_flows e)")
    case True
    then show ?thesis using rows fl len S s
      by (simp add: scan_slice_def span_simps scan_live_def publisher_ok_def slot_count_def tables_fit_update fit)
  next
    case False
    then show ?thesis using rows fl len S s
      by (simp add: scan_slice_def span_simps scan_live_def publisher_ok_def slot_count_def commit_def tables_fit_update fin)
  qed
qed

lemma advance_live:
  assumes "algos_ok al" "0 < rc_snapshot_flow_limit cfg" "me_wf e" "scan_live s"
  shows "\<exists>s'. advance_detail_scan al cfg e wall s = Some s' \<and> scan_live s' \<and> slot_count (dc_detail s') = slot_count (dc_detail s)"
proof -
  obtain s1 where s1: "scan_begin wall s = Some s1" "scan_live s1" "slot_count (dc_detail s1) = slot_count (dc_detail s)"
    using scan_begin_live [OF assms(4)] by blast
  show ?thesis
  proof (cases "dc_building s1")
    case (Some i)
    then show ?thesis using scan_slice_live [OF assms(1-3) s1(2) Some] s1 by (simp add: advance_detail_scan_def)
  qed (use s1 in \<open>simp add: advance_detail_scan_def\<close>)
qed

subsection \<open>The invariant of the runtime\<close>

definition record_line :: "UsageRecord \<Rightarrow> bytes" where
  "record_line r = bytes_of (the (to_ndjson r)) @ [10]"

definition record_lines :: "UsageRecord list \<Rightarrow> bytes" where
  "record_lines rs = concat (List.map record_line rs)"

text \<open>
  The records file, opened as \<open>opened\<close>, after the records \<open>taken\<close>: as long as there was room for all of them, it
  holds their lines and nothing failed.
\<close>

definition file_ok :: "out_file option \<Rightarrow> UsageRecord list \<Rightarrow> Runtime \<Rightarrow> bool" where
  "file_ok opened taken rt \<longleftrightarrow>
     rt_records_written rt + rt_record_write_errors rt = of_nat (length taken) \<and>
     (rt_records_file rt = None \<longleftrightarrow> opened = None) \<and>
     (\<forall>f f0. rt_records_file rt = Some f \<and> opened = Some f0 \<and> length (record_lines taken) \<le> of_room f0 \<longrightarrow>
        rt_record_write_errors rt = 0 \<and> of_bytes f = of_bytes f0 @ record_lines taken \<and>
        of_room f + length (record_lines taken) = of_room f0)"

definition runtime_ok :: "RuntimeConfig \<Rightarrow> bool" where
  "runtime_ok cfg \<longleftrightarrow> cfg_ok (rc_meter cfg) \<and> rc_meter_ring_size cfg \<le> 2 ^ 63 \<and> rc_gy_ring_size cfg \<le> 2 ^ 63 \<and>
     rc_record_ring_size cfg \<le> 2 ^ 63 \<and> 0 < rc_meter_batch cfg \<and> rc_meter_batch cfg < 2 ^ 64 \<and> 0 < rc_snapshot_flow_limit cfg"

text \<open>
  \<open>evs\<close> and \<open>gys\<close> have been popped off the two rings, and the engine has seen \<open>n\<close> and \<open>m\<close> of them.
\<close>

definition rt_state :: "out_file option \<Rightarrow> nat \<Rightarrow> nat \<Rightarrow> MeterEvent list \<Rightarrow> GyEvent list \<Rightarrow> Runtime \<Rightarrow> bool" where
  "rt_state opened n m evs gys rt \<longleftrightarrow> runtime_ok (rt_cfg rt) \<and> engine_ok n m (rt_taken rt) (rt_engine rt) \<and>
     ingest_wired (rt_ingest rt) \<and> (\<exists>k. ingest_balance k evs gys (rt_ingest rt)) \<and> stamped (rt_ingest rt) \<and>
     (\<exists>vs. rt_latency rt = hist_of vs) \<and> scan_live (rt_scan rt) \<and>
     (\<forall>i\<in>set (rt_pins rt). i < slot_count (dc_detail (rt_scan rt))) \<and> file_ok opened (rt_taken rt) rt"

abbreviation rt_ok :: "out_file option \<Rightarrow> MeterEvent list \<Rightarrow> GyEvent list \<Rightarrow> Runtime \<Rightarrow> bool" where
  "rt_ok opened evs gys rt \<equiv> rt_state opened (length evs) (length gys) evs gys rt"

abbreviation waiting :: "Runtime \<Rightarrow> MeterEvent list" where "waiting rt \<equiv> queued (in_meter_ring (rt_ingest rt))"
abbreviation waiting_gy :: "Runtime \<Rightarrow> GyEvent list" where "waiting_gy rt \<equiv> queued (in_gy_ring (rt_ingest rt))"

definition same_mode :: "Runtime \<Rightarrow> Runtime \<Rightarrow> bool" where
  "same_mode rt rt' \<longleftrightarrow> rt_running rt' = rt_running rt \<and> rt_meter_stop rt' = rt_meter_stop rt"

lemma same_mode_trans: "same_mode a b \<Longrightarrow> same_mode b c \<Longrightarrow> same_mode a c"
  by (simp add: same_mode_def)

definition published :: "Runtime \<Rightarrow> bool" where
  "published rt \<longleftrightarrow> ps_meter (rt_stats rt) = me_stats (rt_engine rt) \<and> ps_ingest (rt_stats rt) = in_stats (rt_ingest rt)"

lemma file_ok_frame [simp]:
  "file_ok opened taken (rt\<lparr>rt_engine := e\<rparr>) = file_ok opened taken rt"
  "file_ok opened taken (rt\<lparr>rt_ingest := g\<rparr>) = file_ok opened taken rt"
  "file_ok opened taken (rt\<lparr>rt_clock_reads := k\<rparr>) = file_ok opened taken rt"
  "file_ok opened taken (rt\<lparr>rt_meter_batches := w\<rparr>) = file_ok opened taken rt"
  "file_ok opened taken (rt\<lparr>rt_meter_idle_polls := w\<rparr>) = file_ok opened taken rt"
  "file_ok opened taken (rt\<lparr>rt_latency_counter := c\<rparr>) = file_ok opened taken rt"
  "file_ok opened taken (rt\<lparr>rt_latency := h\<rparr>) = file_ok opened taken rt"
  "file_ok opened taken (rt\<lparr>rt_last_publish_ns := w\<rparr>) = file_ok opened taken rt"
  "file_ok opened taken (rt\<lparr>rt_stats := sn\<rparr>) = file_ok opened taken rt"
  "file_ok opened taken (rt\<lparr>rt_running := b\<rparr>) = file_ok opened taken rt"
  "file_ok opened taken (rt\<lparr>rt_meter_stop := b\<rparr>) = file_ok opened taken rt"
  "file_ok opened taken (rt\<lparr>rt_reporter_stop := b\<rparr>) = file_ok opened taken rt"
  "file_ok opened taken (rt\<lparr>rt_detail_request_ns := w\<rparr>) = file_ok opened taken rt"
  "file_ok opened taken (rt\<lparr>rt_scan := sc\<rparr>) = file_ok opened taken rt"
  "file_ok opened taken (rt\<lparr>rt_pins := ps\<rparr>) = file_ok opened taken rt"
  "file_ok opened taken (rt\<lparr>rt_taken := tk\<rparr>) = file_ok opened taken rt"
  "file_ok opened taken (rt\<lparr>rt_start_ns := w\<rparr>) = file_ok opened taken rt"
  unfolding file_ok_def by simp_all

lemma state_wf: "rt_state opened n m evs gys rt \<Longrightarrow> me_wf (rt_engine rt)"
  by (simp add: rt_state_def engine_ok_def)

lemma state_engine:
  "rt_state opened n m evs gys rt \<Longrightarrow> engine_ok n' m' (rt_taken rt) e \<Longrightarrow> rt_state opened n' m' evs gys (rt\<lparr>rt_engine := e\<rparr>)"
  by (simp add: rt_state_def)

lemma state_clock [simp]:
  "rt_state opened n m evs gys (rt\<lparr>rt_clock_reads := k\<rparr>) = rt_state opened n m evs gys rt"
  "rt_state opened n m evs gys (rt\<lparr>rt_meter_batches := w\<rparr>) = rt_state opened n m evs gys rt"
  "rt_state opened n m evs gys (rt\<lparr>rt_meter_idle_polls := w\<rparr>) = rt_state opened n m evs gys rt"
  "rt_state opened n m evs gys (rt\<lparr>rt_latency_counter := c\<rparr>) = rt_state opened n m evs gys rt"
  "rt_state opened n m evs gys (rt\<lparr>rt_last_publish_ns := w\<rparr>) = rt_state opened n m evs gys rt"
  "rt_state opened n m evs gys (rt\<lparr>rt_stats := sn\<rparr>) = rt_state opened n m evs gys rt"
  "rt_state opened n m evs gys (rt\<lparr>rt_running := b\<rparr>) = rt_state opened n m evs gys rt"
  "rt_state opened n m evs gys (rt\<lparr>rt_meter_stop := b\<rparr>) = rt_state opened n m evs gys rt"
  "rt_state opened n m evs gys (rt\<lparr>rt_reporter_stop := b\<rparr>) = rt_state opened n m evs gys rt"
  "rt_state opened n m evs gys (rt\<lparr>rt_detail_request_ns := w\<rparr>) = rt_state opened n m evs gys rt"
  by (simp_all add: rt_state_def)

lemma state_rings:
  assumes "rt_state opened n m evs gys rt"
  obtains mr gr rr where "in_meter_ring (rt_ingest rt) = Some mr" "ring_inv mr" "in_gy_ring (rt_ingest rt) = Some gr" "ring_inv gr"
    "me_record_sink (rt_engine rt) = Some rr"
  using assms that by (auto simp: rt_state_def ingest_wired_def ingest_ok_def ring_ok_def engine_ok_def sunk_def)

subsection \<open>The steps of the metering thread\<close>

lemma publish_ok:
  assumes al: "algos_ok (en_algos en)" and st: "rt_state opened n m evs gys rt"
  shows "\<exists>rt'. publish_locked en now rt = Some rt' \<and> rt_state opened n m evs gys rt' \<and> same_mode rt rt' \<and> published rt' \<and>
    rt_engine rt' = rt_engine rt \<and> rt_ingest rt' = rt_ingest rt"
proof -
  let ?rt = "rt\<lparr>rt_last_publish_ns := now\<rparr>"
  obtain mr gr rr where "in_meter_ring (rt_ingest rt) = Some mr" "in_gy_ring (rt_ingest rt) = Some gr" "me_record_sink (rt_engine rt) = Some rr"
    using state_rings [OF st] by metis
  then have "\<exists>snap. take_snapshot en now ?rt = Some snap \<and> ps_meter snap = me_stats (rt_engine rt) \<and> ps_ingest snap = in_stats (rt_ingest rt)"
    by (simp add: take_snapshot_def Let_def)
  then obtain snap where snap: "take_snapshot en now ?rt = Some snap" "ps_meter snap = me_stats (rt_engine rt)" "ps_ingest snap = in_stats (rt_ingest rt)"
    by blast
  have cfg: "0 < rc_snapshot_flow_limit (rt_cfg rt)" "scan_live (rt_scan rt)" using st by (simp_all add: rt_state_def runtime_ok_def)
  from advance_live [OF al cfg(1) state_wf [OF st] cfg(2), of "ps_publish_wall_ns snap"] obtain scan where
    scan: "advance_detail_scan (en_algos en) (rt_cfg rt) (rt_engine rt) (ps_publish_wall_ns snap) (rt_scan rt) = Some scan"
      "scan_live scan" "slot_count (dc_detail scan) = slot_count (dc_detail (rt_scan rt))" by blast
  have st1: "rt_state opened n m evs gys (?rt\<lparr>rt_stats := snap\<rparr>)" using st by simp
  then have "rt_state opened n m evs gys (?rt\<lparr>rt_stats := snap, rt_scan := scan\<rparr>)"
    using scan(2,3) by (simp add: rt_state_def)
  then show ?thesis using snap scan(1) st1 by (simp add: publish_locked_def same_mode_def published_def Let_def)
qed

lemma sample_ok:
  assumes "rt_state opened n m evs gys rt"
  shows "\<exists>rt'. sample_latency en ev rt = Some rt' \<and> rt_state opened n m evs gys rt' \<and> same_mode rt rt' \<and> rt_ingest rt' = rt_ingest rt"
proof -
  obtain vs where vs: "rt_latency rt = hist_of vs" using assms by (auto simp: rt_state_def)
  have "\<exists>vs'. hist_of (vs @ [x]) = hist_of vs'" for x by blast
  then show ?thesis using assms vs
    by (auto simp: sample_latency_def now_ns_def record_hist_of Let_def same_mode_def)
      (simp add: rt_state_def)
qed

lemma events_ok:
  assumes "rt_state opened n m evs gys rt" "\<forall>ev\<in>set batch. ev_ts_ns ev \<noteq> forever"
  shows "\<exists>rt'. meter_events en batch rt = Some rt' \<and> rt_state opened (n + length batch) m evs gys rt' \<and> same_mode rt rt' \<and> rt_ingest rt' = rt_ingest rt"
  using assms
proof (induction batch arbitrary: n rt)
  case Nil
  then show ?case by (simp add: same_mode_def)
next
  case (Cons ev batch)
  have "engine_ok n m (rt_taken rt) (rt_engine rt)" using Cons.prems(1) by (simp add: rt_state_def)
  then obtain e where e: "apply_event ev (rt_engine rt) = Some e" "engine_ok (Suc n) m (rt_taken rt) e"
    using engine_event Cons.prems(2) by fastforce
  obtain rt1 where r1: "sample_latency en ev (rt\<lparr>rt_engine := e\<rparr>) = Some rt1" "rt_state opened (Suc n) m evs gys rt1"
      "same_mode (rt\<lparr>rt_engine := e\<rparr>) rt1" "rt_ingest rt1 = rt_ingest rt"
    using sample_ok [OF state_engine [OF Cons.prems(1) e(2)]] by fastforce
  then show ?case using Cons.IH [OF r1(2)] Cons.prems(2) e(1) by (auto simp: same_mode_def)
qed

lemma drain_gy_ok:
  assumes "rt_state opened n (length gys) evs gys rt"
  shows "\<exists>gys' rt'. drain_gy rt = Some rt' \<and> rt_state opened n (length (gys @ gys')) evs (gys @ gys') rt' \<and> same_mode rt rt' \<and>
    waiting_gy rt' = [] \<and> waiting rt' = waiting rt"
  using assms
proof (induction "length (waiting_gy rt)" arbitrary: gys rt rule: less_induct)
  case less
  obtain gr where gr: "in_gy_ring (rt_ingest rt) = Some gr" "ring_inv gr" using state_rings [OF less.prems] by metis
  from try_pop_spec [OF gr(2)] obtain gr' where
    g: "try_pop gr = Some (if ring_contents gr = [] then None else Some (hd (ring_contents gr)), gr')" "ring_inv gr'"
      "ring_contents gr' = tl (ring_contents gr)" by blast
  let ?rt = "rt\<lparr>rt_ingest := (rt_ingest rt)\<lparr>in_gy_ring := Some gr'\<rparr>\<rparr>"
  have st: "rt_state opened n (length gys) evs (if ring_contents gr = [] then gys else gys @ [hd (ring_contents gr)]) ?rt"
    using less.prems gr(1) g(2,3)
    by (cases "ring_contents gr") (auto simp: rt_state_def ingest_wired_def ingest_ok_def ring_ok_def ingest_balance_def queued_def
        stamped_def Let_def)
  show ?case
  proof (cases "ring_contents gr = []")
    case True
    then have "drain_gy rt = Some ?rt" using gr(1) g(1) by (subst drain_gy.simps) simp
    then show ?thesis using st True g(3) by (intro exI [of _ "[]"]) (simp add: same_mode_def queued_def)
  next
    case False
    define gy where "gy = hd (ring_contents gr)"
    have "engine_ok n (length gys) (rt_taken rt) (rt_engine rt)" using less.prems by (simp add: rt_state_def)
    then obtain e where e: "apply_gy gy (rt_engine rt) = Some e" "engine_ok n (Suc (length gys)) (rt_taken rt) e" using engine_gy by blast
    let ?rt1 = "?rt\<lparr>rt_engine := e\<rparr>"
    have s1: "rt_state opened n (length (gys @ [gy])) evs (gys @ [gy]) ?rt1"
      using state_engine [OF st, of n "Suc (length gys)" e] e(2) False by (simp add: gy_def)
    have "length (waiting_gy ?rt1) < length (waiting_gy rt)" using gr(1) g(3) False by (simp add: queued_def)
    from less.hyps [OF this s1] obtain gys' rt' where
      r: "drain_gy ?rt1 = Some rt'" "rt_state opened n (length ((gys @ [gy]) @ gys')) evs ((gys @ [gy]) @ gys') rt'" "same_mode ?rt1 rt'"
        "waiting_gy rt' = []" "waiting rt' = waiting ?rt1" by blast
    have "drain_gy rt = drain_gy ?rt1" using gr(1) g(1) False e(1) by (subst drain_gy.simps) (simp add: gy_def)
    then show ?thesis using r by (intro exI [of _ "gy # gys'"]) (simp add: same_mode_def)
  qed
qed

lemma pop_batch_ok:
  assumes st: "rt_ok opened evs gys rt"
  shows "\<exists>ring batch ring'. in_meter_ring (rt_ingest rt) = Some ring \<and>
    try_pop_bulk ring (of_nat (rc_meter_batch (rt_cfg rt))) = Some (batch, ring') \<and>
    (let rt' = rt\<lparr>rt_ingest := (rt_ingest rt)\<lparr>in_meter_ring := Some ring'\<rparr>\<rparr> in
       rt_state opened (length evs) (length gys) (evs @ batch) gys rt' \<and> waiting rt = batch @ waiting rt' \<and>
       waiting_gy rt' = waiting_gy rt) \<and>
    (waiting rt \<noteq> [] \<longrightarrow> batch \<noteq> []) \<and> (\<forall>ev\<in>set batch. ev_ts_ns ev \<noteq> forever)"
proof -
  obtain mr where mr: "in_meter_ring (rt_ingest rt) = Some mr" "ring_inv mr" using state_rings [OF st] by metis
  let ?n = "of_nat (rc_meter_batch (rt_cfg rt)) :: u64"
  have "runtime_ok (rt_cfg rt)" using st by (simp add: rt_state_def)
  then have "unat ?n \<noteq> 0" by (simp add: runtime_ok_def unat_of_nat_less)
  then have n: "?n \<noteq> 0" by (metis unat_0)
  from try_pop_bulk_spec [OF mr(2), of ?n] obtain batch mr' where
    p: "try_pop_bulk mr ?n = Some (batch, mr')" "ring_inv mr'" "ring_contents mr = batch @ ring_contents mr'"
      "ring_contents mr \<noteq> [] \<and> ?n \<noteq> 0 \<longrightarrow> batch \<noteq> []" by blast
  have "rt_state opened (length evs) (length gys) (evs @ batch) gys (rt\<lparr>rt_ingest := (rt_ingest rt)\<lparr>in_meter_ring := Some mr'\<rparr>\<rparr>)"
    using st mr(1) p(2,3)
    by (auto simp: rt_state_def ingest_wired_def ingest_ok_def ring_ok_def ingest_balance_def queued_def stamped_def Let_def)
  moreover have "\<forall>ev\<in>set batch. ev_ts_ns ev \<noteq> forever"
    using st mr(1) p(3) by (auto simp: rt_state_def stamped_def queued_def)
  ultimately show ?thesis using mr(1) p n by (simp add: queued_def Let_def)
qed

lemma meter_round_ok:
  assumes al: "algos_ok (en_algos en)" and st: "rt_ok opened evs gys rt"
  shows "\<exists>evs' gys' rt'. meter_round en rt = Some (length evs', rt') \<and> rt_ok opened (evs @ evs') (gys @ gys') rt' \<and> same_mode rt rt' \<and>
    waiting rt = evs' @ waiting rt' \<and> (waiting rt \<noteq> [] \<longrightarrow> evs' \<noteq> []) \<and> waiting_gy rt' = []"
proof -
  obtain ring batch ring' where p: "in_meter_ring (rt_ingest rt) = Some ring"
      "try_pop_bulk ring (of_nat (rc_meter_batch (rt_cfg rt))) = Some (batch, ring')"
      "waiting rt \<noteq> [] \<longrightarrow> batch \<noteq> []" "\<forall>ev\<in>set batch. ev_ts_ns ev \<noteq> forever"
    and q: "let rt' = rt\<lparr>rt_ingest := (rt_ingest rt)\<lparr>in_meter_ring := Some ring'\<rparr>\<rparr> in
       rt_state opened (length evs) (length gys) (evs @ batch) gys rt' \<and> waiting rt = batch @ waiting rt' \<and> waiting_gy rt' = waiting_gy rt"
    using pop_batch_ok [OF st] by blast
  define r1 where "r1 = rt\<lparr>rt_ingest := (rt_ingest rt)\<lparr>in_meter_ring := Some ring'\<rparr>\<rparr>"
  have s1: "rt_state opened (length evs) (length gys) (evs @ batch) gys r1" "waiting rt = batch @ waiting r1" "same_mode rt r1"
    using q by (simp_all add: r1_def Let_def same_mode_def)
  define r1' where "r1' = (if batch \<noteq> [] then meter_events en batch (r1\<lparr>rt_meter_batches := rt_meter_batches r1 + 1\<rparr>)
      else Some (r1\<lparr>rt_meter_idle_polls := rt_meter_idle_polls r1 + 1\<rparr>))"
  have "\<exists>r2. r1' = Some r2 \<and> rt_state opened (length (evs @ batch)) (length gys) (evs @ batch) gys r2 \<and> same_mode r1 r2 \<and> rt_ingest r2 = rt_ingest r1"
  proof (cases "batch = []")
    case True
    then show ?thesis using s1(1) by (simp add: r1'_def same_mode_def)
  next
    case False
    have "rt_state opened (length evs) (length gys) (evs @ batch) gys (r1\<lparr>rt_meter_batches := rt_meter_batches r1 + 1\<rparr>)" using s1(1) by simp
    from events_ok [OF this p(4), of en] show ?thesis using False by (auto simp: r1'_def same_mode_def)
  qed
  then obtain r2 where r2: "r1' = Some r2" "rt_state opened (length (evs @ batch)) (length gys) (evs @ batch) gys r2" "same_mode r1 r2" "rt_ingest r2 = rt_ingest r1"
    by blast
  obtain gys' r3 where r3: "drain_gy r2 = Some r3" "rt_ok opened (evs @ batch) (gys @ gys') r3" "same_mode r2 r3" "waiting_gy r3 = []" "waiting r3 = waiting r2"
    using drain_gy_ok [OF r2(2)] by blast
  define now r4 where "now = en_mono en (rt_clock_reads r3)" and "r4 = r3\<lparr>rt_clock_reads := rt_clock_reads r3 + 1\<rparr>"
  have s4: "rt_ok opened (evs @ batch) (gys @ gys') r4" using r3(2) by (simp add: r4_def)
  then obtain e where e: "poll (en_wall en) now (rt_engine r4) = Some e" "engine_ok (length (evs @ batch)) (length (gys @ gys')) (rt_taken r4) e"
    using engine_poll by (fastforce simp: rt_state_def)
  define r5 where "r5 = r4\<lparr>rt_engine := e\<rparr>"
  have s5: "rt_ok opened (evs @ batch) (gys @ gys') r5" using state_engine [OF s4 e(2)] by (simp add: r5_def)
  have "\<exists>r6. (if now - rt_last_publish_ns r5 \<ge> rc_publish_interval_ns (rt_cfg r5) then publish_locked en now r5 else Some r5) = Some r6 \<and>
      rt_ok opened (evs @ batch) (gys @ gys') r6 \<and> same_mode r5 r6 \<and> rt_ingest r6 = rt_ingest r5"
  proof (cases "now - rt_last_publish_ns r5 \<ge> rc_publish_interval_ns (rt_cfg r5)")
    case True
    then show ?thesis using publish_ok [OF al s5, of now] by auto
  qed (use s5 in \<open>simp add: same_mode_def\<close>)
  then obtain r6 where r6: "(if now - rt_last_publish_ns r5 \<ge> rc_publish_interval_ns (rt_cfg r5) then publish_locked en now r5 else Some r5) = Some r6"
      "rt_ok opened (evs @ batch) (gys @ gys') r6" "same_mode r5 r6" "rt_ingest r6 = rt_ingest r5" by blast
  have "meter_round en rt = Some (length batch, r6)"
    unfolding meter_round_def p(1) bind.bind_lunit p(2) prod.case Let_def r1_def [symmetric] r1'_def [symmetric] r2(1) r3(1) now_ns_def
      now_def [symmetric] r4_def [symmetric] e(1) r5_def [symmetric] r6(1) ..
  moreover have "same_mode rt r6" using s1(3) r2(3) r3(3) r6(3) by (simp add: same_mode_def r4_def r5_def)
  moreover have "waiting r6 = waiting r1" "waiting_gy r6 = []" using r2(4) r3(4,5) r6(4) by (simp_all add: r4_def r5_def)
  ultimately show ?thesis using r6(2) s1(2) p(3) by auto
qed

subsection \<open>The reporter's turn\<close>

lemma fwrite_all: "length bs \<le> of_room f \<Longrightarrow> fwrite bs f = (length bs, \<lparr>of_bytes = of_bytes f @ bs, of_room = of_room f - length bs\<rparr>)"
  by (simp add: fwrite_def Let_def)

lemma write_record_ok:
  assumes f: "file_ok opened taken rt" and r: "record_ok rec"
  shows "\<exists>fl w er. write_record rec rt = Some (rt\<lparr>rt_records_file := fl, rt_records_written := w, rt_record_write_errors := er\<rparr>) \<and>
    file_ok opened (taken @ [rec]) (rt\<lparr>rt_records_file := fl, rt_records_written := w, rt_record_write_errors := er\<rparr>)"
proof (cases "rt_records_file rt")
  case None
  have "write_record rec rt = Some (rt\<lparr>rt_records_file := None, rt_records_written := rt_records_written rt + 1,
      rt_record_write_errors := rt_record_write_errors rt\<rparr>)"
    using None by (cases rt) (simp add: write_record_def)
  moreover have "file_ok opened (taken @ [rec]) (rt\<lparr>rt_records_file := None, rt_records_written := rt_records_written rt + 1,
      rt_record_write_errors := rt_record_write_errors rt\<rparr>)"
    using f None unfolding file_ok_def by (simp add: algebra_simps)
  ultimately show ?thesis by blast
next
  case (Some fl)
  obtain line where line: "to_ndjson rec = Some line" using to_ndjson_printed [of rec] r by (auto simp: record_ok_def)
  have rl: "record_line rec = bytes_of line @ [10]" "record_lines (taken @ [rec]) = record_lines taken @ bytes_of line @ [10]"
    by (simp_all add: record_line_def record_lines_def line)
  obtain f0 where f0: "opened = Some f0" using f Some by (auto simp: file_ok_def)
  have F: "rt_records_written rt + rt_record_write_errors rt = of_nat (length taken)"
    and G: "length (record_lines taken) \<le> of_room f0 \<Longrightarrow> rt_record_write_errors rt = 0 \<and> of_bytes fl = of_bytes f0 @ record_lines taken \<and>
        of_room fl + length (record_lines taken) = of_room f0"
    using f Some f0 unfolding file_ok_def by auto
  show ?thesis
  proof (cases "length line + 1 \<le> of_room fl")
    case True
    let ?fl = "\<lparr>of_bytes = of_bytes fl @ bytes_of line @ [10], of_room = of_room fl - (length line + 1)\<rparr>"
    let ?rt = "rt\<lparr>rt_records_file := Some ?fl, rt_records_written := rt_records_written rt + 1, rt_record_write_errors := rt_record_write_errors rt\<rparr>"
    have "fwrite (bytes_of line) fl = (length line, \<lparr>of_bytes = of_bytes fl @ bytes_of line, of_room = of_room fl - length line\<rparr>)"
      using fwrite_all [of "bytes_of line" fl] True by simp
    moreover have "fwrite [10] \<lparr>of_bytes = of_bytes fl @ bytes_of line, of_room = of_room fl - length line\<rparr> = (1, ?fl)"
      using fwrite_all [of "[10]" "\<lparr>of_bytes = of_bytes fl @ bytes_of line, of_room = of_room fl - length line\<rparr>"] True by simp
    ultimately have "write_record rec rt = Some ?rt" using Some line by (cases rt) (simp add: write_record_def)
    moreover have "length (record_lines taken) \<le> of_room f0" if "length (record_lines (taken @ [rec])) \<le> of_room f0" using that rl(2) by simp
    then have "file_ok opened (taken @ [rec]) ?rt"
      using F G f0 True unfolding file_ok_def rl(2) by (auto simp: algebra_simps)
    ultimately show ?thesis by blast
  next
    case False
    have no: "\<not> length (record_lines (taken @ [rec])) \<le> of_room f0"
    proof
      assume a: "length (record_lines (taken @ [rec])) \<le> of_room f0"
      then have "length (record_lines taken) \<le> of_room f0" unfolding rl(2) by simp
      then show False using G a False unfolding rl(2) by simp
    qed
    have "\<exists>fl'. write_record rec rt = Some (rt\<lparr>rt_records_file := Some fl', rt_records_written := rt_records_written rt,
        rt_record_write_errors := rt_record_write_errors rt + 1\<rparr>)"
    proof (cases "length line \<le> of_room fl")
      case True
      then have "of_room fl = length line" using False by simp
      then show ?thesis using Some line fwrite_all [of "bytes_of line" fl]
        by (cases rt) (simp add: write_record_def fwrite_def [of "[10]"] Let_def)
    next
      case False
      then show ?thesis using Some line by (cases rt) (simp add: write_record_def fwrite_def Let_def min_def)
    qed
    moreover have "file_ok opened (taken @ [rec]) (rt\<lparr>rt_records_file := Some fl', rt_records_written := rt_records_written rt,
        rt_record_write_errors := rt_record_write_errors rt + 1\<rparr>)" for fl'
      using F f0 no unfolding file_ok_def by (simp add: algebra_simps)
    ultimately show ?thesis by blast
  qed
qed

definition same_books_engine :: "Runtime \<Rightarrow> Runtime \<Rightarrow> bool" where
  "same_books_engine rt rt' \<longleftrightarrow> rt_ingest rt' = rt_ingest rt \<and> rt_stats rt' = rt_stats rt \<and>
     me_stats (rt_engine rt') = me_stats (rt_engine rt) \<and> me_log (rt_engine rt') = me_log (rt_engine rt)"

lemma drain_records_ok:
  assumes "rt_state opened n m evs gys rt"
  shows "\<exists>rt'. drain_records rt = Some rt' \<and> rt_state opened n m evs gys rt' \<and> same_mode rt rt' \<and> same_books_engine rt rt' \<and>
    rt_taken rt' = accepted_records (rt_engine rt')"
  using assms
proof (induction "length (queued (me_record_sink (rt_engine rt)))" arbitrary: rt rule: less_induct)
  case less
  obtain q where q: "me_record_sink (rt_engine rt) = Some q" using state_rings [OF less.prems] by metis
  have en: "engine_ok n m (rt_taken rt) (rt_engine rt)" using less.prems by (simp add: rt_state_def)
  obtain q' where q': "try_pop q = Some (if ring_contents q = [] then None else Some (hd (ring_contents q)), q')"
      "ring_contents q' = tl (ring_contents q)"
      "if ring_contents q = [] then engine_ok n m (rt_taken rt) ((rt_engine rt)\<lparr>me_record_sink := Some q'\<rparr>)
       else engine_ok n m (rt_taken rt @ [hd (ring_contents q)]) ((rt_engine rt)\<lparr>me_record_sink := Some q'\<rparr>) \<and> record_ok (hd (ring_contents q))"
    using engine_take [OF en q] by blast
  let ?e = "(rt_engine rt)\<lparr>me_record_sink := Some q'\<rparr>"
  show ?case
  proof (cases "ring_contents q = []")
    case True
    have "drain_records rt = Some (rt\<lparr>rt_engine := ?e\<rparr>)" using q q'(1) True by (subst drain_records.simps) simp
    moreover have "accepted_records ?e = rt_taken rt" using en q True by (simp add: engine_ok_def sunk_def accepted_records_def)
    ultimately show ?thesis using state_engine [OF less.prems, of n m ?e] q'(3) True by (simp add: same_mode_def same_books_engine_def)
  next
    case False
    define rec where "rec = hd (ring_contents q)"
    have eng: "engine_ok n m (rt_taken rt @ [rec]) ?e" "record_ok rec" using q'(3) False by (simp_all add: rec_def)
    let ?rt = "rt\<lparr>rt_engine := ?e, rt_taken := rt_taken rt @ [rec]\<rparr>"
    have "file_ok opened (rt_taken rt) ?rt" using less.prems by (simp add: rt_state_def)
    from write_record_ok [OF this eng(2)] obtain fl w er where
      w: "write_record rec ?rt = Some (?rt\<lparr>rt_records_file := fl, rt_records_written := w, rt_record_write_errors := er\<rparr>)"
        "file_ok opened (rt_taken rt @ [rec]) (?rt\<lparr>rt_records_file := fl, rt_records_written := w, rt_record_write_errors := er\<rparr>)" by blast
    define rt1 where "rt1 = ?rt\<lparr>rt_records_file := fl, rt_records_written := w, rt_record_write_errors := er\<rparr>"
    have s1: "rt_state opened n m evs gys rt1" using less.prems eng(1) w(2) by (simp add: rt_state_def rt1_def)
    have "length (queued (me_record_sink (rt_engine rt1))) < length (queued (me_record_sink (rt_engine rt)))"
      using q q'(2) False by (simp add: rt1_def queued_def)
    from less.hyps [OF this s1] obtain rt' where
      r: "drain_records rt1 = Some rt'" "rt_state opened n m evs gys rt'" "same_mode rt1 rt'" "same_books_engine rt1 rt'"
        "rt_taken rt' = accepted_records (rt_engine rt')" by blast
    have "drain_records rt = drain_records rt1"
      using q q'(1) False w(1) by (subst drain_records.simps) (simp add: rec_def rt1_def)
    then show ?thesis using r by (simp add: rt1_def same_mode_def same_books_engine_def)
  qed
qed

end
