(* ===== verification/Runtime_Shutdown.thy ===== *)
theory Runtime_Shutdown
  imports Runtime_Invariant
begin

text \<open>
  The life of a runtime. Every step of every thread keeps the invariant, so a run never fails; stopping
  ends; and then everything the ingest path accepted has been metered, reported and written.
\<close>

subsection \<open>Stopping\<close>

lemma empty_approx_contents: "ring_inv r \<Longrightarrow> empty_approx r \<longleftrightarrow> ring_contents r = []"
  by (simp add: empty_approx_def size_approx_def ring_contents_def unat_eq_0)

lemma meter_finished_ok:
  assumes "rt_state opened n m evs gys rt" "rt_meter_stop rt" "waiting_gy rt = []"
  shows "meter_finished k rt = Some (k = 0 \<and> waiting rt = [])"
proof -
  obtain mr gr where r: "in_meter_ring (rt_ingest rt) = Some mr" "ring_inv mr" "in_gy_ring (rt_ingest rt) = Some gr" "ring_inv gr"
    using state_rings [OF assms(1)] by metis
  then show ?thesis using assms(2,3) by (auto simp: meter_finished_def queued_def empty_approx_contents)
qed

definition flushed :: "Runtime \<Rightarrow> bool" where
  "flushed rt \<longleftrightarrow> waiting rt = [] \<and> waiting_gy rt = [] \<and> all_reported (rt_engine rt) \<and> published rt"

lemma meter_flush_ok:
  assumes al: "algos_ok (en_algos en)" and st: "rt_state opened n m evs gys rt" and w: "waiting rt = []" "waiting_gy rt = []"
  shows "\<exists>rt'. meter_flush en rt = Some rt' \<and> rt_state opened n m evs gys rt' \<and> flushed rt'"
proof -
  define now rt1 where "now = en_mono en (rt_clock_reads rt)" and "rt1 = rt\<lparr>rt_clock_reads := rt_clock_reads rt + 1\<rparr>"
  have s1: "rt_state opened n m evs gys rt1" using st by (simp add: rt1_def)
  then obtain k e where e: "drain (en_wall en) now (rt_engine rt1) = Some (k, e)" "engine_ok n m (rt_taken rt1) e" "all_reported e"
    using engine_drain by (fastforce simp: rt_state_def)
  from publish_ok [OF al state_engine [OF s1 e(2)], of now] obtain rt' where
    "publish_locked en now (rt1\<lparr>rt_engine := e\<rparr>) = Some rt'" "rt_state opened n m evs gys rt'" "published rt'" "rt_engine rt' = e" "rt_ingest rt' = rt_ingest rt1"
    by auto
  then show ?thesis using e(1,3) w
    by (simp add: meter_flush_def now_ns_def now_def [symmetric] rt1_def [symmetric] flushed_def) (simp add: rt1_def)
qed

lemma meter_loop_ok:
  assumes al: "algos_ok (en_algos en)" and st: "rt_ok opened evs gys rt" "rt_meter_stop rt"
  shows "\<exists>evs' gys' rt'. meter_loop en reports k rt = Some rt' \<and> rt_ok opened (evs @ evs') (gys @ gys') rt' \<and> flushed rt'"
  using st
proof (induction "length (waiting rt)" arbitrary: k evs gys rt rule: less_induct)
  case less
  have "\<exists>rt1. (if reports k then drain_records rt else Some rt) = Some rt1 \<and> rt_ok opened evs gys rt1 \<and> same_mode rt rt1 \<and> rt_ingest rt1 = rt_ingest rt"
    using drain_records_ok [OF less.prems(1)] less.prems(1) by (cases "reports k") (auto simp: same_mode_def same_books_engine_def)
  then obtain rt1 where r1: "(if reports k then drain_records rt else Some rt) = Some rt1" "rt_ok opened evs gys rt1" "same_mode rt rt1" "rt_ingest rt1 = rt_ingest rt"
    by blast
  obtain evs' gys' rt2 where r2: "meter_round en rt1 = Some (length evs', rt2)" "rt_ok opened (evs @ evs') (gys @ gys') rt2" "same_mode rt1 rt2"
      "waiting rt1 = evs' @ waiting rt2" "waiting rt1 \<noteq> [] \<longrightarrow> evs' \<noteq> []" "waiting_gy rt2 = []"
    using meter_round_ok [OF al r1(2)] by blast
  have stop: "rt_meter_stop rt2" using less.prems(2) r1(3) r2(3) by (simp add: same_mode_def)
  note fin = meter_finished_ok [OF r2(2) stop r2(6), of "length evs'"]
  have loop: "meter_loop en reports k rt = (if evs' = [] \<and> waiting rt2 = [] then meter_flush en rt2 else meter_loop en reports (k + 1) rt2)"
    unfolding meter_loop.simps [of en reports k rt] r1(1) bind.bind_lunit r2(1) prod.case fin length_0_conv ..
  show ?case
  proof (cases "evs' = []")
    case True
    then have "waiting rt1 = []" using r2(5) by blast
    then have w: "waiting rt2 = []" unfolding r2(4) append_is_Nil_conv by (rule conjunct2)
    have "meter_loop en reports k rt = meter_flush en rt2" unfolding loop using True w by simp
    moreover obtain rt' where "meter_flush en rt2 = Some rt'" "rt_ok opened (evs @ evs') (gys @ gys') rt'" "flushed rt'"
      using meter_flush_ok [OF al r2(2) w r2(6)] by blast
    ultimately show ?thesis by metis
  next
    case False
    then have less: "length (waiting rt2) < length (waiting rt)" using arg_cong [OF r2(4), of length] r1(4) by (cases evs') simp_all
    have "meter_loop en reports k rt = meter_loop en reports (k + 1) rt2" unfolding loop using False by simp
    moreover obtain evs2 gys2 rt' where "meter_loop en reports (k + 1) rt2 = Some rt'"
        "rt_ok opened ((evs @ evs') @ evs2) ((gys @ gys') @ gys2) rt'" "flushed rt'"
      using less.hyps [OF less r2(2) stop, of "k + 1"] by blast
    ultimately show ?thesis unfolding append_assoc by metis
  qed
qed

lemma rt_stop_ok:
  assumes al: "algos_ok (en_algos en)" and st: "rt_ok opened evs gys rt" "rt_running rt"
  shows "\<exists>evs' gys' rt'. rt_stop en reports rt = Some rt' \<and> rt_ok opened (evs @ evs') (gys @ gys') rt' \<and> flushed rt' \<and>
    rt_taken rt' = accepted_records (rt_engine rt')"
proof -
  let ?rt = "rt\<lparr>rt_running := False, rt_meter_stop := True\<rparr>"
  have "rt_ok opened evs gys ?rt" using st(1) by simp
  from meter_loop_ok [OF al this, of reports 0] obtain evs' gys' rt1 where
    r1: "meter_loop en reports 0 ?rt = Some rt1" "rt_ok opened (evs @ evs') (gys @ gys') rt1" "flushed rt1" by auto
  have "rt_ok opened (evs @ evs') (gys @ gys') (rt1\<lparr>rt_reporter_stop := True\<rparr>)" using r1(2) by simp
  from drain_records_ok [OF this] obtain rt2 where
    r2: "drain_records (rt1\<lparr>rt_reporter_stop := True\<rparr>) = Some rt2" "rt_ok opened (evs @ evs') (gys @ gys') rt2"
      "same_books_engine (rt1\<lparr>rt_reporter_stop := True\<rparr>) rt2" by blast
  from drain_records_ok [OF r2(2)] obtain rt3 where
    r3: "drain_records rt2 = Some rt3" "rt_ok opened (evs @ evs') (gys @ gys') rt3" "same_books_engine rt2 rt3" "rt_taken rt3 = accepted_records (rt_engine rt3)"
    by blast
  have "flushed rt3" using r1(3) r2(3) r3(3) by (simp add: flushed_def same_books_engine_def all_reported_def published_def reported_def)
  then show ?thesis using st(2) r1(1) r2(1) r3 by (auto simp: rt_stop_def)
qed

subsection \<open>Running\<close>

fun action_ok :: "rt_action \<Rightarrow> bool" where
  "action_ok (Act_Packet link_type ts data) \<longleftrightarrow> ts \<noteq> 0xFFFFFFFFFFFFFFFF"
| "action_ok _ \<longleftrightarrow> True"

lemma feed_ok:
  assumes "rt_ok opened evs gys rt" "ts \<noteq> forever"
  shows "\<exists>g. feed_packet link_type ts data (rt_ingest rt) = Some g \<and> rt_ok opened evs gys (rt\<lparr>rt_ingest := g\<rparr>)"
proof -
  have I: "ingest_wired (rt_ingest rt)" "stamped (rt_ingest rt)" "ingest_ok (rt_ingest rt)"
    using assms(1) by (auto simp: rt_state_def ingest_wired_def)
  obtain k where k: "ingest_balance k evs gys (rt_ingest rt)" using assms(1) by (auto simp: rt_state_def)
  obtain g j new lost gy gylost where g: "feed_packet link_type ts data (rt_ingest rt) = Some g" "ingest_delta j new lost gy gylost (rt_ingest rt) g"
    using feed_packet_spec [OF I(3)] by blast
  have "ingest_balance (k + j) evs gys g \<and> ingest_wired g" by (rule balance_delta [OF k I(1) g(2)])
  then show ?thesis using assms(1) g(1) stamped_feed [OF I(3,2) assms(2) g(1)] by (auto simp: rt_state_def)
qed

text \<open>Readers change reference counts only.\<close>

lemma pins_ok:
  assumes "rt_ok opened evs gys rt" "length refs = slot_count (dc_detail (rt_scan rt))"
    "\<forall>i\<in>set pins. i < slot_count (dc_detail (rt_scan rt))"
  shows "rt_ok opened evs gys (rt\<lparr>rt_scan := (rt_scan rt)\<lparr>dc_detail := (dc_detail (rt_scan rt))\<lparr>sp_refs := refs\<rparr>\<rparr>, rt_pins := pins\<rparr>)"
  using assms by (simp add: rt_state_def scan_live_def publisher_ok_def slot_count_def)

lemma read_snapshot_ok:
  assumes "publisher_ok p" "sp_current p < int (slot_count p)"
  shows "\<exists>idx refs. read_snapshot p = Some (idx, p\<lparr>sp_refs := refs\<rparr>) \<and> length refs = slot_count p \<and> (\<forall>i. idx = Some i \<longrightarrow> i < slot_count p)"
proof -
  have same: "p = p\<lparr>sp_refs := sp_refs p\<rparr>" by simp
  have len: "length (sp_refs p) = slot_count p" using assms(1) by (simp add: publisher_ok_def)
  show ?thesis
  proof (cases "sp_current p < 0")
    case True
    then have "read_snapshot p = Some (None, p\<lparr>sp_refs := sp_refs p\<rparr>)" by (simp add: read_snapshot_def)
    then show ?thesis using len by blast
  next
    case False
    then have i: "nat (sp_current p) < slot_count p" using assms(2) by simp
    show ?thesis
    proof (cases "sp_refs p ! nat (sp_current p) < kWriterOwned")
      case True
      then have "read_snapshot p = Some (Some (nat (sp_current p)), p\<lparr>sp_refs := (sp_refs p)[nat (sp_current p) := sp_refs p ! nat (sp_current p) + 1]\<rparr>)"
        using False i len by (simp add: read_snapshot_def span_simps Let_def)
      moreover have "length ((sp_refs p)[nat (sp_current p) := sp_refs p ! nat (sp_current p) + 1]) = slot_count p" using len by simp
      ultimately show ?thesis using i by blast
    next
      case owned: False
      then have "read_snapshot p = Some (None, p\<lparr>sp_refs := sp_refs p\<rparr>)" using False i len by (simp add: read_snapshot_def span_simps Let_def)
      then show ?thesis using len by blast
    qed
  qed
qed

lemma detail_ok:
  assumes "rt_ok opened evs gys rt"
  shows "\<exists>rt'. rt_detail en rt = Some rt' \<and> rt_ok opened evs gys rt' \<and> same_mode rt rt'"
proof -
  let ?rt = "request_detail en rt"
  have s: "rt_ok opened evs gys ?rt" "same_mode rt ?rt"
    using assms by (simp_all add: request_detail_def now_ns_def same_mode_def)
  then have live: "scan_live (rt_scan ?rt)" and pins: "\<forall>i\<in>set (rt_pins ?rt). i < slot_count (dc_detail (rt_scan ?rt))"
    by (simp_all add: rt_state_def)
  obtain idx refs where r: "read_snapshot (dc_detail (rt_scan ?rt)) = Some (idx, (dc_detail (rt_scan ?rt))\<lparr>sp_refs := refs\<rparr>)"
      "length refs = slot_count (dc_detail (rt_scan ?rt))" "\<forall>i. idx = Some i \<longrightarrow> i < slot_count (dc_detail (rt_scan ?rt))"
    using read_snapshot_ok live unfolding scan_live_def by blast
  have "\<forall>i\<in>set (rt_pins ?rt @ (case idx of None \<Rightarrow> [] | Some i \<Rightarrow> [i])). i < slot_count (dc_detail (rt_scan ?rt))"
    using pins r(3) by (auto split: option.splits)
  from pins_ok [OF s(1) r(2) this] show ?thesis using r(1) s(2) by (simp add: rt_detail_def same_mode_def Let_def)
qed

lemma drop_ok:
  assumes "rt_ok opened evs gys rt"
  shows "\<exists>rt'. drop_handle rt = Some rt' \<and> rt_ok opened evs gys rt' \<and> same_mode rt rt'"
proof (cases "rt_pins rt")
  case Nil
  then show ?thesis using assms by (simp add: drop_handle_def same_mode_def)
next
  case (Cons i "is")
  have p: "i < slot_count (dc_detail (rt_scan rt))" "\<forall>j\<in>set is. j < slot_count (dc_detail (rt_scan rt))"
      "length (sp_refs (dc_detail (rt_scan rt))) = slot_count (dc_detail (rt_scan rt))"
    using assms Cons by (auto simp: rt_state_def scan_live_def publisher_ok_def)
  have "length ((sp_refs (dc_detail (rt_scan rt)))[i := sp_refs (dc_detail (rt_scan rt)) ! i - 1]) = slot_count (dc_detail (rt_scan rt))"
    using p(3) by simp
  from pins_ok [OF assms this p(2)] show ?thesis using Cons p(1,3)
    by (simp add: drop_handle_def release_pin_def span_simps same_mode_def)
qed

lemma act_ok:
  assumes al: "algos_ok (en_algos en)" and st: "rt_ok opened evs gys rt" and a: "action_ok a"
  shows "\<exists>evs' gys' rt'. rt_act en a rt = Some rt' \<and> rt_ok opened (evs @ evs') (gys @ gys') rt' \<and> same_mode rt rt'"
proof -
  have still: "\<exists>evs' gys' rt''. Some rt' = Some rt'' \<and> rt_ok opened (evs @ evs') (gys @ gys') rt'' \<and> same_mode rt rt''"
    if "rt_ok opened evs gys rt'" "same_mode rt rt'" for rt'
    using that by (intro exI [of _ "[]"]) simp
  show ?thesis
  proof (cases a)
    case (Act_Packet link_type ts data)
    then obtain g where "feed_packet link_type ts data (rt_ingest rt) = Some g" "rt_ok opened evs gys (rt\<lparr>rt_ingest := g\<rparr>)"
      using feed_ok [OF st] a by fastforce
    then show ?thesis using Act_Packet still [of "rt\<lparr>rt_ingest := g\<rparr>"] by (simp add: same_mode_def)
  next
    case Act_Round
    then show ?thesis using meter_round_ok [OF al st] by fastforce
  next
    case Act_Report
    obtain rt' where "drain_records rt = Some rt'" "rt_ok opened evs gys rt'" "same_mode rt rt'" using drain_records_ok [OF st] by blast
    then show ?thesis using Act_Report still by simp
  next
    case Act_Detail
    obtain rt' where "rt_detail en rt = Some rt'" "rt_ok opened evs gys rt'" "same_mode rt rt'" using detail_ok [OF st] by blast
    then show ?thesis using Act_Detail still by simp
  next
    case Act_Drop
    obtain rt' where "drop_handle rt = Some rt'" "rt_ok opened evs gys rt'" "same_mode rt rt'" using drop_ok [OF st] by blast
    then show ?thesis using Act_Drop still by simp
  qed
qed

lemma run_ok:
  assumes al: "algos_ok (en_algos en)" and st: "rt_ok opened evs gys rt" and a: "list_all action_ok acts"
  shows "\<exists>evs' gys' rt'. rt_run en acts rt = Some rt' \<and> rt_ok opened (evs @ evs') (gys @ gys') rt' \<and> same_mode rt rt'"
  using st a
proof (induction acts arbitrary: evs gys rt)
  case Nil
  then show ?case by (intro exI [of _ "[]"]) (simp add: same_mode_def)
next
  case (Cons a acts)
  have ok: "action_ok a" "list_all action_ok acts" using Cons.prems(2) by simp_all
  obtain evs1 gys1 rt1 where r1: "rt_act en a rt = Some rt1" "rt_ok opened (evs @ evs1) (gys @ gys1) rt1" "same_mode rt rt1"
    using act_ok [OF al Cons.prems(1) ok(1)] by blast
  obtain evs2 gys2 rt2 where r2: "rt_run en acts rt1 = Some rt2" "rt_ok opened ((evs @ evs1) @ evs2) ((gys @ gys1) @ gys2) rt2" "same_mode rt1 rt2"
    using Cons.IH [OF r1(2) ok(2)] by blast
  have "rt_ok opened (evs @ (evs1 @ evs2)) (gys @ (gys1 @ gys2)) rt2" using r2(2) by simp
  moreover have "rt_run en (a # acts) rt = Some rt2" using r1(1) r2(1) by simp
  ultimately show ?case using same_mode_trans [OF r1(3) r2(3)] by blast
qed

subsection \<open>From the constructor to the last record\<close>

text \<open>The file the runtime writes to: none without a path.\<close>

definition records_file :: "RuntimeConfig \<Rightarrow> out_file option \<Rightarrow> out_file option" where
  "records_file cfg opened = (if rc_records_path cfg \<noteq> [] then opened else None)"

lemma start_ok:
  assumes "runtime_ok cfg"
  shows "\<exists>rt0 k rt1. Runtime_new cfg = Some rt0 \<and> rt_install_sessions en sessions rt0 = Some (k, rt1) \<and>
    rt_ok (records_file cfg opened) [] [] (rt_start en opened rt1) \<and> rt_running (rt_start en opened rt1)"
proof -
  have c: "rc_meter_ring_size cfg \<le> 2 ^ 63" "rc_gy_ring_size cfg \<le> 2 ^ 63" "rc_record_ring_size cfg \<le> 2 ^ 63" "cfg_ok (rc_meter cfg)"
    using assms by (simp_all add: runtime_ok_def)
  obtain mr where mr: "SpscRing_new (rc_meter_ring_size cfg) MeterEvent_init = Some mr" "ring_inv mr" "ring_contents mr = []"
    using SpscRing_new_spec [OF c(1), of MeterEvent_init] by blast
  obtain gr where gr: "SpscRing_new (rc_gy_ring_size cfg) GyEvent_init = Some gr" "ring_inv gr" "ring_contents gr = []"
    using SpscRing_new_spec [OF c(2), of GyEvent_init] by blast
  obtain rr where rr: "SpscRing_new (rc_record_ring_size cfg) UsageRecord_init = Some rr" "ring_inv rr" "ring_contents rr = []"
    using SpscRing_new_spec [OF c(3), of UsageRecord_init] by blast
  obtain e where e: "MeterEngine_new (rc_meter cfg) = Some e" "engine_ok 0 0 [] (set_record_sink e (Some rr))"
    using engine_new [OF c(4) rr(2,3)] by blast
  obtain k e1 where e1: "install_sessions sessions (en_mono en 0) (set_record_sink e (Some rr)) = Some (k, e1)" "engine_ok 0 0 [] e1"
    using engine_installs [OF e(2)] by blast
  define rt0 where "rt0 = the (Runtime_new cfg)"
  have rt0: "Runtime_new cfg = Some rt0" by (simp add: rt0_def Runtime_new_def mr(1) gr(1) rr(1) e(1))
  define rt1 where "rt1 = rt0\<lparr>rt_clock_reads := 1, rt_engine := e1\<rparr>"
  have inst: "rt_install_sessions en sessions rt0 = Some (k, rt1)"
    using e1(1) by (simp add: rt_install_sessions_def now_ns_def rt1_def rt0_def Runtime_new_def mr(1) gr(1) rr(1) e(1))
  have "scan_live DetailScan_init"
    by (simp add: scan_live_def DetailScan_init_def publisher_ok_def Snapshot_new_def slot_count_def tables_fit_def DetailSnapshot_init_def)
  moreover have "\<exists>vs. Histogram_new = hist_of vs" using hist_of_new by metis
  moreover have "ingest_wired (Ingest_new (Some mr) (Some gr) (rc_ingest cfg))" "ingest_balance 0 [] [] (Ingest_new (Some mr) (Some gr) (rc_ingest cfg))"
      "stamped (Ingest_new (Some mr) (Some gr) (rc_ingest cfg))"
    using mr gr by (simp_all add: ingest_wired_def ingest_ok_def ring_ok_def Ingest_new_def ingest_balance_def queued_def IngestStats_init_def stamped_def)
  moreover define rt2 where "rt2 = rt_start en opened rt1"
  have F: "rt_cfg rt2 = cfg" "rt_engine rt2 = e1" "rt_ingest rt2 = Ingest_new (Some mr) (Some gr) (rc_ingest cfg)"
      "rt_latency rt2 = Histogram_new" "rt_scan rt2 = DetailScan_init" "rt_running rt2" "rt_records_written rt2 = 0"
      "rt_record_write_errors rt2 = 0" "rt_records_file rt2 = records_file cfg opened" "rt_pins rt2 = []" "rt_taken rt2 = []"
    by (simp_all add: records_file_def rt2_def rt_start_def now_ns_def rt1_def rt0_def Runtime_new_def mr(1) gr(1) rr(1) e(1) Let_def)
  have "file_ok (records_file cfg opened) [] rt2" unfolding file_ok_def F by (auto simp: record_lines_def)
  ultimately have "rt_ok (records_file cfg opened) [] [] rt2" using e1(2) assms unfolding rt_state_def F by auto
  then show ?thesis using rt0 inst F(6) unfolding rt2_def by blast
qed

lemma session_ok:
  assumes "runtime_ok cfg" "algos_ok (en_algos en)" "list_all action_ok acts"
  shows "\<exists>rt evs gys. runtime_session en cfg sessions opened acts reports = Some rt \<and> rt_ok (records_file cfg opened) evs gys rt \<and> flushed rt \<and>
    rt_taken rt = accepted_records (rt_engine rt)"
proof -
  obtain rt0 k rt1 where r1: "Runtime_new cfg = Some rt0" "rt_install_sessions en sessions rt0 = Some (k, rt1)"
      "rt_ok (records_file cfg opened) [] [] (rt_start en opened rt1)" "rt_running (rt_start en opened rt1)"
    using start_ok [OF assms(1)] by blast
  obtain evs gys rt2 where r2: "rt_run en acts (rt_start en opened rt1) = Some rt2" "rt_ok (records_file cfg opened) ([] @ evs) ([] @ gys) rt2"
      "same_mode (rt_start en opened rt1) rt2"
    using run_ok [OF assms(2) r1(3) assms(3)] by blast
  have run: "rt_running rt2" using r1(4) r2(3) by (simp add: same_mode_def)
  from rt_stop_ok [OF assms(2) r2(2) this, of reports] obtain evs' gys' rt3 where
    r3: "rt_stop en reports rt2 = Some rt3" "rt_ok (records_file cfg opened) (([] @ evs) @ evs') (([] @ gys) @ gys') rt3" "flushed rt3"
    "rt_taken rt3 = accepted_records (rt_engine rt3)" by blast
  have "runtime_session en cfg sessions opened acts reports = Some rt3"
    using r1(1,2) r2(1) r3(1) by (simp add: runtime_session_def)
  then show ?thesis using r3(2-4) by blast
qed

text \<open>
  C4: A runtime loses nothing on its way down. Take any configuration with room in its tables, any
  sessions, and any interleaving of packets, rounds of the metering thread, turns of the reporter and
  readers of the detail tables, then stop it, with the reporter getting its turns at any points. The run never
  fails and stopping ends. Then both event rings are empty; the engine has seen every event and every
  charging report the ingest path pushed; the records made, those a full sink refused
  included, add up to all bytes metered; the reporter has
  taken exactly the records the sink accepted, in order, and has counted each as written or failed; and
  the published counters are the final ones. If the records file was open and had room, it holds
  one line for each of these records, in order, after what it held before.
\<close>

theorem runtime_shutdown:
  assumes "runtime_ok cfg" "algos_ok (en_algos en)" "list_all action_ok acts"
  shows "\<exists>rt. runtime_session en cfg sessions opened acts reports = Some rt \<and>
    queued (in_meter_ring (rt_ingest rt)) = [] \<and> queued (in_gy_ring (rt_ingest rt)) = [] \<and>
    st_events (me_stats (rt_engine rt)) = ig_events_pushed (in_stats (rt_ingest rt)) \<and>
    st_gy_events (me_stats (rt_engine rt)) + ig_gy_events_dropped (in_stats (rt_ingest rt)) = ig_gy_events (in_stats (rt_ingest rt)) \<and>
    st_ul_bytes (me_stats (rt_engine rt)) = reported ur_ul_bytes (rt_engine rt) \<and>
    st_dl_bytes (me_stats (rt_engine rt)) = reported ur_dl_bytes (rt_engine rt) \<and>
    rt_taken rt = accepted_records (rt_engine rt) \<and>
    rt_records_written rt + rt_record_write_errors rt = st_records_emitted (me_stats (rt_engine rt)) \<and>
    ps_meter (rt_snapshot rt) = me_stats (rt_engine rt) \<and> ps_ingest (rt_snapshot rt) = in_stats (rt_ingest rt) \<and>
    (\<forall>f0. rc_records_path cfg \<noteq> [] \<and> opened = Some f0 \<and> length (record_lines (rt_taken rt)) \<le> of_room f0 \<longrightarrow>
       rt_record_write_errors rt = 0 \<and>
       (\<exists>f. rt_records_file rt = Some f \<and> of_bytes f = of_bytes f0 @ record_lines (rt_taken rt)))"
proof -
  obtain rt evs gys where rt: "runtime_session en cfg sessions opened acts reports = Some rt" "rt_ok (records_file cfg opened) evs gys rt" "flushed rt"
      "rt_taken rt = accepted_records (rt_engine rt)"
    using session_ok [OF assms] by blast
  have w: "queued (in_meter_ring (rt_ingest rt)) = []" "queued (in_gy_ring (rt_ingest rt)) = []"
    and rep: "all_reported (rt_engine rt)" and pub: "published rt" using rt(3) by (simp_all add: flushed_def)
  obtain k where k: "ingest_balance k evs gys (rt_ingest rt)" using rt(2) by (auto simp: rt_state_def)
  have en: "engine_ok (length evs) (length gys) (rt_taken rt) (rt_engine rt)" and fl: "file_ok (records_file cfg opened) (rt_taken rt) rt"
    using rt(2) by (simp_all add: rt_state_def)
  have "st_records_emitted (me_stats (rt_engine rt)) = of_nat (length (rt_taken rt))"
    using en unfolding rt(4) by (simp add: engine_ok_def counts_ok_def accepted_records_def Let_def)
  moreover have "st_events (me_stats (rt_engine rt)) = ig_events_pushed (in_stats (rt_ingest rt))"
      "st_gy_events (me_stats (rt_engine rt)) + ig_gy_events_dropped (in_stats (rt_ingest rt)) = ig_gy_events (in_stats (rt_ingest rt))"
    using k en w by (simp_all add: ingest_balance_def engine_ok_def Let_def)
  moreover have "rt_record_write_errors rt = 0 \<and> (\<exists>f. rt_records_file rt = Some f \<and> of_bytes f = of_bytes f0 @ record_lines (rt_taken rt))"
    if "rc_records_path cfg \<noteq> []" "opened = Some f0" "length (record_lines (rt_taken rt)) \<le> of_room f0" for f0
    using fl that unfolding file_ok_def records_file_def by auto
  moreover have "rt_records_written rt + rt_record_write_errors rt = of_nat (length (rt_taken rt))" using fl by (simp add: file_ok_def)
  ultimately show ?thesis using rt(1,4) w rep pub unfolding all_reported_def published_def rt_snapshot_def by auto
qed

definition environment_sample :: environment where
  "environment_sample = \<lparr>en_mono = (\<lambda>k. of_nat k * 1000), en_wall = (\<lambda>_. 0), en_publish_wall = (\<lambda>_. 0),
     en_rank_of = (\<lambda>q n. n), en_algos = algos_sample\<rparr>"

theorem runtime_shutdown_witness:
  "\<exists>rt. runtime_session environment_sample RuntimeConfig_init [session_sample] None
       [Act_Packet 1 5 [1, 2, 3], Act_Round, Act_Detail, Act_Report, Act_Packet 101 9 [], Act_Drop] (\<lambda>k. k = 1) = Some rt \<and>
     queued (in_meter_ring (rt_ingest rt)) = [] \<and> rt_taken rt = accepted_records (rt_engine rt)"
proof -
  have "runtime_ok RuntimeConfig_init" by (simp add: runtime_ok_def RuntimeConfig_init_def cfg_ok_def MeterConfig_init_def)
  moreover have "algos_ok (en_algos environment_sample)" using algos_sample_ok by (simp add: environment_sample_def)
  moreover have "list_all action_ok [Act_Packet 1 5 [1, 2, 3], Act_Round, Act_Detail, Act_Report, Act_Packet 101 9 [], Act_Drop]" by simp
  ultimately show ?thesis
    using runtime_shutdown [of RuntimeConfig_init environment_sample _ "[session_sample]" None "\<lambda>k. k = 1"] by blast
qed

end
