(* ===== verification/Spec2Isabelle.thy ===== *)
theory Spec2Isabelle
  imports Gtpu Net Spsc_Interleaving Flat_Hash Pipeline Meter_Service Meter_Report End_To_End
    Latency_Histogram Seqlock Snapshot Pcap Replay Detail_Scan Runtime_Shutdown
begin

text \<open>
  A verification development for the GTP-U and Diameter metering pipeline.

  \<^bold>\<open>The program.\<close> It taps mobile user-plane traffic. An ingest thread takes captured frames, live or from a
  file, decodes them (Ethernet, IP, UDP, GTP-U, and Diameter charging messages) into metering events and
  charging events, and pushes these into two bounded single-producer single-consumer rings. A metering
  thread pops them, binds tunnel endpoint identifiers (TEIDs) to subscribers, counts bytes per subscriber,
  rating bucket and flow, and cuts usage records when a subscriber reaches a threshold, an interval
  passes or a session ends. The records go through a third ring to a reporter thread that writes them to a
  file. The metering thread also publishes its counters behind a seqlock, and tables of the busiest
  subscribers and flows through a multi-buffer publisher.

  \<^bold>\<open>Conventions.\<close> Every theory models the source file named in its opening text, and definitions keep the
  names of the source. Structs are records, enumerations datatypes, machine integers words of their
  width. A function that reads memory returns an option: \<^const>\<open>None\<close> is an access outside a buffer, a null
  pointer or another undefined behaviour, so a theorem that an operation returns \<^const>\<open>Some\<close> says that it
  is memory safe. Errors the code reports are values of the result. Loops without a structural
  measure are partial functions into option, where not returning is also \<^const>\<open>None\<close>; the
  theorems show that they return, and no definition takes fuel.

  \<^bold>\<open>The theories.\<close>

  \<^item> \<^verbatim>\<open>Prelude\<close>: integer types, checked access to spans, generic list, option and word lemmas.
  \<^item> \<^verbatim>\<open>Byte_Order\<close> (\<^verbatim>\<open>include/gtpm/byte_order.hpp\<close>): the scalar loads and stores, for either host byte order.
  \<^item> \<^verbatim>\<open>Gtpu\<close> (\<^verbatim>\<open>gtpu.hpp\<close>): the GTP-U header and its extension-header chain. The parser is memory safe, its
    payload is exactly what the length field delimits, and every rejection has its stated cause.
  \<^item> \<^verbatim>\<open>Net\<close> (\<^verbatim>\<open>net.hpp\<close>): Ethernet, IP, transport headers and the flow key. What
    a packet shows, extension headers and fragments included, is specified apart and decoding is exact for it.
  \<^item> \<^verbatim>\<open>Diameter\<close> (\<^verbatim>\<open>diameter.hpp\<close>): messages, the walk over attribute-value pairs and the Gy fields; the walk
    visits exactly the pairs present and stays inside the message.
  \<^item> \<^verbatim>\<open>Synth\<close>, \<^verbatim>\<open>Synth_Gy\<close>, \<^verbatim>\<open>Synth_Frames\<close> (\<^verbatim>\<open>synth.hpp\<close>): the builders of test traffic, and that the parsers
    read back what they build.
  \<^item> \<^verbatim>\<open>Spsc_Ring\<close>, \<^verbatim>\<open>Spsc_Interleaving\<close> (\<^verbatim>\<open>spsc_ring.hpp\<close>): the ring as one caller sees it, with the locale \<open>fifo\<close> for
    what its users rely on, and both threads interleaved at their shared accesses, over wrapping indices.
  \<^item> \<^verbatim>\<open>Flat_Hash\<close> (\<^verbatim>\<open>flat_hash.hpp\<close>): the TEID table with backward-shift deletion refines a finite map, the contract
    of the locale \<open>bounded_map\<close>.
  \<^item> \<^verbatim>\<open>Text\<close>, \<^verbatim>\<open>Session\<close>, \<^verbatim>\<open>Usage_Record\<close>, \<^verbatim>\<open>Meter_Event\<close>: printed numbers, the session file (\<^verbatim>\<open>session.hpp\<close>), usage
    records and their lines (\<^verbatim>\<open>usage_record.hpp\<close>), events (\<^verbatim>\<open>meter_event.hpp\<close>).
  \<^item> \<^verbatim>\<open>Meter\<close> (\<^verbatim>\<open>meter.hpp\<close>): the engine. \<^verbatim>\<open>Meter_Invariant\<close>, \<^verbatim>\<open>Meter_Flow\<close> and \<^verbatim>\<open>Meter_Run\<close> show that every operation
    returns and keeps its tables well formed. \<^verbatim>\<open>Meter_Accounting\<close>, over the locales \<open>session_invariant\<close>,
    \<open>engine_invariant\<close> and \<open>ledger\<close>, shows that what is metered is what is reported plus what is still open. \<^verbatim>\<open>Meter_Records\<close> treats
    the chain of records, \<^verbatim>\<open>Meter_Service\<close> the binding of sessions, \<^verbatim>\<open>Meter_Report\<close> the queries.
  \<^item> \<^verbatim>\<open>Pipeline\<close> (\<^verbatim>\<open>pipeline.hpp\<close>): the ingest path and its counters. \<^verbatim>\<open>End_To_End\<close>: a frame built for an installed
    session is charged to that session.
  \<^item> \<^verbatim>\<open>Latency_Histogram\<close> (\<^verbatim>\<open>histogram.hpp\<close>): how far quantiles are from the exact order statistics.
  \<^item> \<^verbatim>\<open>Seqlock\<close> (\<^verbatim>\<open>seqlock.hpp\<close>) and \<^verbatim>\<open>Snapshot\<close> (\<^verbatim>\<open>snapshot.hpp\<close>): the two publication protocols under every schedule;
    no torn reads, no write to a pinned buffer.
  \<^item> \<^verbatim>\<open>Pcap\<close> (\<^verbatim>\<open>pcap.hpp\<close>) and \<^verbatim>\<open>Replay\<close> (\<^verbatim>\<open>source.hpp\<close>, \<^verbatim>\<open>src/ingest_pcap.cpp\<close>): capture files, their reader and writer,
    and their replay. \<open>feed_packet\<close> is the hand-over of a packet in \<^verbatim>\<open>src/main.cpp\<close>.
  \<^item> \<^verbatim>\<open>Stats\<close> (\<^verbatim>\<open>stats.hpp\<close>): the published records. \<^verbatim>\<open>Detail_Scan\<close> (\<^verbatim>\<open>src/meter_thread.cpp\<close>): the tables built in
    bounded slices.
  \<^item> \<^verbatim>\<open>Runtime\<close> (\<^verbatim>\<open>runtime.hpp\<close>, \<^verbatim>\<open>src/meter_thread.cpp\<close>): the threads and their start and stop. \<^verbatim>\<open>Runtime_Invariant\<close>
    is what every step keeps, and \<^verbatim>\<open>Runtime_Shutdown\<close> shows that stopping ends and loses nothing.

  \<^bold>\<open>Arguments.\<close> What the program takes from outside is an argument of the definitions: the host byte order,
  clock readings as streams, the contents of files and the room of the device written to, the rank a
  quantile computes in floating point, and the heap and sorting algorithms of the C++ library, with the
  contract the standard gives them. Floating-point ratios that are only displayed are pairs of numerator
  and denominator.

  \<^bold>\<open>Concurrency.\<close> In \<open>Spsc_Interleaving\<close>, \<open>Seqlock\<close> and \<open>Snapshot\<close> a step is one shared access, and steps are
  sequentially consistent; the memory orders of the source are not modelled. In \<open>Runtime\<close> a step is a
  packet, a round of the metering thread, a turn of the reporter or a reader's access.

  \<^bold>\<open>Not modelled.\<close> Live capture (\<^verbatim>\<open>src/ingest_rawsock.cpp\<close>) is system calls on sockets. The HTTP reporter
  (\<^verbatim>\<open>src/reporter.cpp\<close>) formats published values, partly in floating point, and serves them on a socket. Of
  \<^verbatim>\<open>src/main.cpp\<close> the command line, signals, pacing and printed report are left out; of \<^verbatim>\<open>clock.hpp\<close> the system
  calls and thread pinning. Benchmarks and tests use the code modelled here and add none.
\<close>

end
